(* ===== verification/Prelude.thy ===== *)
theory Prelude
  imports Main "HOL-Library.Word" "HOL-Library.Monad_Syntax" "HOL-Library.Code_Target_Nat"
begin

text \<open>
  What every component of the kernel model shares: the outcome of kernel code that can stop
  the machine, the C integer conversions, and the two fact collections the component proofs
  are driven by.

  Kernel code is modelled in the option monad. \<open>Some r\<close> is a normal return;
  \<open>None\<close> is "does not return": a failed \<open>assert\<close>, a \<open>panic\<close> or a loop that never ends
  (loops are \<^theory_text>\<open>partial_function (option)\<close>). Error codes such as \<open>-E_NO_MEM\<close> are ordinary
  return values, as in the code.
\<close>

named_theorems kernel_defs \<open>definitions of kernel operations, unfolded by the proofs\<close>
named_theorems frame_simps \<open>fields an operation leaves alone\<close>

text \<open>\<open>assert(c)\<close> of kern/debug/assert.h: continue when the condition holds, panic otherwise.\<close>

definition kassert :: "bool \<Rightarrow> unit option" where
  "kassert c = (if c then Some () else None)"

lemma kassert_bind [simp]: "Option.bind (kassert c) f = (if c then f () else None)"
  by (simp add: kassert_def)

lemma kassert_bind_Some [simp]: "(kassert c \<bind> f = Some r) \<longleftrightarrow> c \<and> f () = Some r"
  by simp

text \<open>
  \<open>unsigned int\<close> arithmetic on natural numbers, with the wrap-around of 32 bits written out.
  Conversions of a wider unsigned value to \<open>unsigned int\<close> keep the low 32 bits.
\<close>

definition to_u32 :: "nat \<Rightarrow> nat" where
  "to_u32 n = n mod 2 ^ 32"

definition add_u32 :: "nat \<Rightarrow> nat \<Rightarrow> nat" where
  "add_u32 a b = (a + b) mod 2 ^ 32"

definition sub_u32 :: "nat \<Rightarrow> nat \<Rightarrow> nat" where
  "sub_u32 a b = nat ((int a - int b) mod 2 ^ 32)"

lemma to_u32_id [simp]: "n < 4294967296 \<Longrightarrow> to_u32 n = n"
  by (simp add: to_u32_def)

lemma add_u32_id [simp]: "a + b < 4294967296 \<Longrightarrow> add_u32 a b = a + b"
  by (simp add: add_u32_def)

lemma sub_u32_id [simp]: "b \<le> a \<Longrightarrow> a < 4294967296 \<Longrightarrow> sub_u32 a b = a - b"
  by (simp add: sub_u32_def nat_diff_distrib)

lemma to_u32_less: "to_u32 n < 2 ^ 32"
  by (simp add: to_u32_def)

text \<open>\<open>int\<close> and \<open>long\<close>: two's complement of 32 and 64 bits, on integers.\<close>

definition to_i32 :: "int \<Rightarrow> int" where
  "to_i32 x = signed_take_bit 31 x"

definition to_i64 :: "int \<Rightarrow> int" where
  "to_i64 x = signed_take_bit 63 x"

lemma to_i32_id [simp]: "- (2 ^ 31) \<le> x \<Longrightarrow> x < 2 ^ 31 \<Longrightarrow> to_i32 x = x"
  unfolding to_i32_def by (subst signed_take_bit_int_eq_self_iff) simp

lemma to_i64_id [simp]: "- (2 ^ 63) \<le> x \<Longrightarrow> x < 2 ^ 63 \<Longrightarrow> to_i64 x = x"
  unfolding to_i64_def by (subst signed_take_bit_int_eq_self_iff) simp

text \<open>Lists: the element before and after a split point, and sums over a split list.\<close>

lemma last_snoc_Cons [simp]: "last (x # xs @ [y]) = y"
  by simp

lemma distinct_append_Cons:
  "distinct (xs @ e # ys) \<longleftrightarrow> distinct (xs @ ys) \<and> e \<notin> set xs \<and> e \<notin> set ys"
  by auto

end
