(* ===== verification/DList.thy ===== *)
theory DList
  imports Prelude
begin

text \<open>
  The intrusive circular doubly linked list of libs/list.h. A node is any value of a type
  \<open>'n\<close> (the address of a \<open>list_entry_t\<close>); the heap of nodes is the pair of its two pointer
  fields. Every operation performs the writes of the C code, in its order, so the model says
  what happens when the arguments alias, too.

  The abstraction \<open>dlist h lh xs\<close> reads a heap as a list: starting at the head node \<open>lh\<close> the
  \<open>next\<close> pointers visit \<open>xs\<close> and return to \<open>lh\<close>, the \<open>prev\<close> pointers run the same ring
  backwards, and no node occurs twice. The operations refine insertion and deletion on that
  list; the locale \<open>ring\<close> states this as the contract the clients of list.h rely on.
\<close>

record 'n links =
  prv :: "'n \<Rightarrow> 'n"
  nxt :: "'n \<Rightarrow> 'n"

definition set_prv :: "'n \<Rightarrow> 'n \<Rightarrow> 'n links \<Rightarrow> 'n links" where
  "set_prv p v h = h\<lparr>prv := (prv h)(p := v)\<rparr>"

definition set_nxt :: "'n \<Rightarrow> 'n \<Rightarrow> 'n links \<Rightarrow> 'n links" where
  "set_nxt p v h = h\<lparr>nxt := (nxt h)(p := v)\<rparr>"

lemma set_links_simps [simp]:
  "prv (set_prv p v h) = (prv h)(p := v)" "nxt (set_prv p v h) = nxt h"
  "nxt (set_nxt p v h) = (nxt h)(p := v)" "prv (set_nxt p v h) = prv h"
  by (simp_all add: set_prv_def set_nxt_def)

subsection \<open>The operations\<close>

definition list_init :: "'n \<Rightarrow> 'n links \<Rightarrow> 'n links" where
  "list_init elm h = set_prv elm elm (set_nxt elm elm h)"

text \<open>\<open>__list_add\<close>: \<open>prev->next = next->prev = elm; elm->next = next; elm->prev = prev\<close>.\<close>

definition list_add_between :: "'n \<Rightarrow> 'n \<Rightarrow> 'n \<Rightarrow> 'n links \<Rightarrow> 'n links" where
  "list_add_between elm prev next h =
     set_prv elm prev (set_nxt elm next (set_nxt prev elm (set_prv next elm h)))"

text \<open>\<open>__list_del\<close>: \<open>prev->next = next; next->prev = prev\<close>.\<close>

definition list_del_between :: "'n \<Rightarrow> 'n \<Rightarrow> 'n links \<Rightarrow> 'n links" where
  "list_del_between prev next h = set_prv next prev (set_nxt prev next h)"

definition list_add_after :: "'n \<Rightarrow> 'n \<Rightarrow> 'n links \<Rightarrow> 'n links" where
  "list_add_after listelm elm h = list_add_between elm listelm (nxt h listelm) h"

definition list_add :: "'n \<Rightarrow> 'n \<Rightarrow> 'n links \<Rightarrow> 'n links" where
  "list_add listelm elm h = list_add_after listelm elm h"

definition list_add_before :: "'n \<Rightarrow> 'n \<Rightarrow> 'n links \<Rightarrow> 'n links" where
  "list_add_before listelm elm h = list_add_between elm (prv h listelm) listelm h"

definition list_del :: "'n \<Rightarrow> 'n links \<Rightarrow> 'n links" where
  "list_del listelm h = list_del_between (prv h listelm) (nxt h listelm) h"

definition list_del_init :: "'n \<Rightarrow> 'n links \<Rightarrow> 'n links" where
  "list_del_init listelm h = list_init listelm (list_del listelm h)"

definition list_empty :: "'n \<Rightarrow> 'n links \<Rightarrow> bool" where
  "list_empty list h \<longleftrightarrow> nxt h list = list"

definition list_next :: "'n \<Rightarrow> 'n links \<Rightarrow> 'n" where
  "list_next listelm h = nxt h listelm"

definition list_prev :: "'n \<Rightarrow> 'n links \<Rightarrow> 'n" where
  "list_prev listelm h = prv h listelm"

lemmas list_op_defs = list_init_def list_add_def list_add_after_def list_add_before_def
  list_add_between_def list_del_def list_del_between_def list_del_init_def
  list_empty_def list_next_def list_prev_def

subsection \<open>The abstraction\<close>

text \<open>\<open>dseg h a xs b\<close>: from \<open>a\<close> (exclusive) through \<open>xs\<close> to \<open>b\<close> (exclusive), both ways.\<close>

primrec dseg :: "'n links \<Rightarrow> 'n \<Rightarrow> 'n list \<Rightarrow> 'n \<Rightarrow> bool" where
  "dseg h a [] b \<longleftrightarrow> nxt h a = b \<and> prv h b = a"
| "dseg h a (x # xs) b \<longleftrightarrow> nxt h a = x \<and> prv h x = a \<and> dseg h x xs b"

definition dlist :: "'n links \<Rightarrow> 'n \<Rightarrow> 'n list \<Rightarrow> bool" where
  "dlist h lh xs \<longleftrightarrow> dseg h lh xs lh \<and> distinct (lh # xs)"

lemma dseg_append [simp]:
  "dseg h a (xs @ y # ys) b \<longleftrightarrow> dseg h a xs y \<and> dseg h y ys b"
  by (induction xs arbitrary: a) auto

lemma dseg_frame:
  assumes "\<And>p. p \<in> set (a # xs) \<Longrightarrow> nxt h' p = nxt h p"
    and "\<And>p. p \<in> set (xs @ [b]) \<Longrightarrow> prv h' p = prv h p"
  shows "dseg h' a xs b \<longleftrightarrow> dseg h a xs b"
  using assms by (induction xs arbitrary: a) auto

lemma dseg_last: "dseg h a xs b \<Longrightarrow> prv h b = last (a # xs)"
  by (induction xs arbitrary: a) auto

lemma dseg_first: "dseg h a xs b \<Longrightarrow> nxt h a = hd (xs @ [b])"
  by (cases xs) auto

lemma dlist_distinct: "dlist h lh xs \<Longrightarrow> distinct (lh # xs)"
  by (simp add: dlist_def)

lemma dlist_first: "dlist h lh xs \<Longrightarrow> nxt h lh = hd (xs @ [lh])"
  unfolding dlist_def using dseg_first by fastforce

lemma dlist_last: "dlist h lh xs \<Longrightarrow> prv h lh = last (lh # xs)"
  unfolding dlist_def by (blast dest: dseg_last)

lemma dlist_split_links:
  assumes "dlist h lh (xs @ e # ys)"
  shows "prv h e = last (lh # xs)" and "nxt h e = hd (ys @ [lh])"
  using assms unfolding dlist_def dseg_append by (auto dest: dseg_last dseg_first)

lemma dlist_frame:
  assumes "\<And>p. p \<in> set (lh # xs) \<Longrightarrow> nxt h' p = nxt h p \<and> prv h' p = prv h p"
  shows "dlist h' lh xs \<longleftrightarrow> dlist h lh xs"
proof -
  have "dseg h' lh xs lh \<longleftrightarrow> dseg h lh xs lh"
    by (rule dseg_frame) (use assms in auto)
  then show ?thesis by (simp add: dlist_def)
qed

text \<open>A ring determines the list it holds.\<close>

lemma dseg_unique:
  assumes "dseg h a xs b" and "dseg h a ys b" and "b \<notin> set xs" and "b \<notin> set ys"
  shows "xs = ys"
  using assms
proof (induction xs arbitrary: a ys)
  case Nil
  then show ?case by (cases ys) auto
next
  case (Cons x xs)
  from Cons.prems obtain zs where "ys = x # zs"
    by (cases ys) auto
  with Cons show ?case by auto
qed

lemma dlist_unique: "dlist h lh xs \<Longrightarrow> dlist h lh ys \<Longrightarrow> xs = ys"
  unfolding dlist_def by (auto intro: dseg_unique)

subsection \<open>The operations refine list insertion and deletion\<close>

lemma dlist_init: "dlist (list_init lh h) lh []"
  by (simp add: dlist_def list_init_def)

lemma dseg_add_between:
  assumes "dseg h a (xs @ ys) b" and "distinct (a # xs @ ys)" and "b \<notin> set (xs @ ys)"
    and "e \<notin> set (a # b # xs @ ys)"
  shows "dseg (list_add_between e (last (a # xs)) (hd (ys @ [b])) h) a (xs @ e # ys) b"
  using assms
proof (induction xs arbitrary: a)
  case Nil
  show ?case
  proof (cases ys)
    case Nil
    with \<open>dseg h a ([] @ ys) b\<close> Nil.prems show ?thesis
      by (auto simp: list_add_between_def)
  next
    case (Cons y zs)
    let ?h = "list_add_between e a y h"
    have "dseg ?h y zs b \<longleftrightarrow> dseg h y zs b"
      by (rule dseg_frame) (use Nil.prems Cons in \<open>auto simp: list_add_between_def\<close>)
    with Nil.prems Cons show ?thesis
      by (auto simp: list_add_between_def)
  qed
next
  case (Cons x xs)
  let ?h = "list_add_between e (last (x # xs)) (hd (ys @ [b])) h"
  have IH: "dseg ?h x (xs @ e # ys) b"
    using Cons by auto
  have "last (x # xs) \<in> set (x # xs)" and "hd (ys @ [b]) \<in> set (ys @ [b])"
    by (simp, cases ys) auto
  then have "nxt ?h a = nxt h a" and "prv ?h x = prv h x"
    using Cons.prems by (auto simp: list_add_between_def)
  with IH Cons.prems show ?case by simp
qed

lemma dlist_add_between:
  assumes "dlist h lh (xs @ ys)" and "e \<notin> set (lh # xs @ ys)"
  shows "dlist (list_add_between e (last (lh # xs)) (hd (ys @ [lh])) h) lh (xs @ e # ys)"
  using assms dseg_add_between [of h lh xs ys lh e] by (auto simp: dlist_def)

lemma dlist_add_after:
  assumes "dlist h lh (xs @ ys)" and "e \<notin> set (lh # xs @ ys)" and "p = last (lh # xs)"
  shows "dlist (list_add_after p e h) lh (xs @ e # ys)"
proof -
  have "nxt h p = hd (ys @ [lh])"
  proof (cases xs rule: rev_cases)
    case Nil
    with assms show ?thesis by (auto simp: dlist_first)
  next
    case (snoc zs z)
    with assms dlist_split_links [of h lh zs z ys] show ?thesis by simp
  qed
  with dlist_add_between [OF assms(1,2)] assms(3) show ?thesis
    by (simp add: list_add_after_def)
qed

lemma dlist_add_before:
  assumes "dlist h lh (xs @ ys)" and "e \<notin> set (lh # xs @ ys)" and "q = hd (ys @ [lh])"
  shows "dlist (list_add_before q e h) lh (xs @ e # ys)"
proof -
  have "prv h q = last (lh # xs)"
  proof (cases ys)
    case Nil
    with assms show ?thesis by (auto simp: dlist_last)
  next
    case (Cons y zs)
    with assms dlist_split_links [of h lh xs y zs] show ?thesis by simp
  qed
  with dlist_add_between [OF assms(1,2)] assms(3) show ?thesis
    by (simp add: list_add_before_def)
qed

lemma dseg_del_between:
  assumes "dseg h a (xs @ e # ys) b" and "distinct (a # xs @ e # ys)" and "b \<notin> set (xs @ e # ys)"
  shows "dseg (list_del_between (last (a # xs)) (hd (ys @ [b])) h) a (xs @ ys) b"
  using assms
proof (induction xs arbitrary: a)
  case Nil
  show ?case
  proof (cases ys)
    case Nil
    with \<open>dseg h a ([] @ e # ys) b\<close> show ?thesis
      by (auto simp: list_del_between_def)
  next
    case (Cons y zs)
    let ?h = "list_del_between a y h"
    have "dseg ?h y zs b \<longleftrightarrow> dseg h y zs b"
      by (rule dseg_frame) (use Nil.prems Cons in \<open>auto simp: list_del_between_def\<close>)
    with Nil.prems Cons show ?thesis
      by (auto simp: list_del_between_def)
  qed
next
  case (Cons x xs)
  let ?h = "list_del_between (last (x # xs)) (hd (ys @ [b])) h"
  have IH: "dseg ?h x (xs @ ys) b"
    using Cons by auto
  have "last (x # xs) \<in> set (x # xs)" and "hd (ys @ [b]) \<in> set (ys @ [b])"
    by (simp, cases ys) auto
  then have "nxt ?h a = nxt h a" and "prv ?h x = prv h x"
    using Cons.prems by (auto simp: list_del_between_def)
  with IH Cons.prems show ?case by simp
qed

lemma dlist_del:
  assumes "dlist h lh (xs @ e # ys)"
  shows "dlist (list_del e h) lh (xs @ ys)"
proof -
  have "dseg (list_del_between (last (lh # xs)) (hd (ys @ [lh])) h) lh (xs @ ys) lh"
    by (rule dseg_del_between) (use assms in \<open>auto simp: dlist_def\<close>)
  with dlist_split_links [OF assms] assms show ?thesis
    by (auto simp: list_del_def dlist_def)
qed

lemma dlist_del_init:
  assumes "dlist h lh (xs @ e # ys)"
  shows "dlist (list_del_init e h) lh (xs @ ys)" and "dlist (list_del_init e h) e []"
proof -
  have "e \<notin> set (lh # xs @ ys)"
    using assms by (auto simp: dlist_def)
  with dlist_del [OF assms] show "dlist (list_del_init e h) lh (xs @ ys)"
    by (subst dlist_frame [where h = "list_del e h"]) (auto simp: list_del_init_def list_init_def)
  show "dlist (list_del_init e h) e []"
    by (simp add: list_del_init_def dlist_init)
qed

lemma dlist_empty: "dlist h lh xs \<Longrightarrow> list_empty lh h \<longleftrightarrow> xs = []"
  by (cases xs) (auto simp: dlist_def list_empty_def)

lemma dlist_next_node:
  "dlist h lh (xs @ e # ys) \<Longrightarrow> list_next e h = hd (ys @ [lh])"
  by (simp add: dlist_split_links list_next_def)

lemma dlist_prev_node:
  "dlist h lh (xs @ e # ys) \<Longrightarrow> list_prev e h = last (lh # xs)"
  by (simp add: dlist_split_links list_prev_def)

lemma dlist_next_head: "dlist h lh xs \<Longrightarrow> list_next lh h = hd (xs @ [lh])"
  by (simp add: dlist_first list_next_def)

lemma dlist_prev_head: "dlist h lh xs \<Longrightarrow> list_prev lh h = last (lh # xs)"
  by (simp add: dlist_last list_prev_def)

text \<open>A deleted node that is not re-initialised keeps its stale pointers.\<close>

lemma list_del_stale:
  "e \<noteq> nxt h e \<Longrightarrow> e \<noteq> prv h e \<Longrightarrow>
   nxt (list_del e h) e = nxt h e \<and> prv (list_del e h) e = prv h e"
  by (auto simp: list_del_def list_del_between_def)

text \<open>Rings that share no node do not disturb each other.\<close>

lemma dlist_add_between_other:
  assumes "dlist h lh' zs" and "{e, p, q} \<inter> set (lh' # zs) = {}"
  shows "dlist (list_add_between e p q h) lh' zs"
  using assms by (subst dlist_frame [where h = h]) (auto simp: list_add_between_def)

lemma dlist_del_between_other:
  assumes "dlist h lh' zs" and "{p, q} \<inter> set (lh' # zs) = {}"
  shows "dlist (list_del_between p q h) lh' zs"
  using assms by (subst dlist_frame [where h = h]) (auto simp: list_del_between_def)

lemma list_init_other:
  assumes "dlist h lh' zs" and "e \<notin> set (lh' # zs)"
  shows "dlist (list_init e h) lh' zs"
  using assms by (subst dlist_frame [where h = h]) (auto simp: list_init_def)

text \<open>
  The one way a client breaks a ring by an insertion: inserting the tail node behind itself.
  The node's \<open>prev\<close> then points to the node itself, and deleting it unlinks nothing.
\<close>

lemma list_add_self:
  "prv (list_add e e h) e = e" "nxt h e \<noteq> e \<Longrightarrow> nxt (list_add e e h) e = nxt h e"
  "p \<noteq> e \<Longrightarrow> nxt (list_add e e h) p = nxt h p"
  by (auto simp: list_op_defs)

lemma list_del_self_prev:
  assumes "prv h e = e" and "p \<noteq> e"
  shows "nxt (list_del e h) p = nxt h p"
  using assms by (simp add: list_del_def list_del_between_def)

subsection \<open>The contract of list.h\<close>

locale ring =
  fixes holds :: "'h \<Rightarrow> 'n \<Rightarrow> 'n list \<Rightarrow> bool"
    and init :: "'n \<Rightarrow> 'h \<Rightarrow> 'h"
    and add_after :: "'n \<Rightarrow> 'n \<Rightarrow> 'h \<Rightarrow> 'h"
    and add_before :: "'n \<Rightarrow> 'n \<Rightarrow> 'h \<Rightarrow> 'h"
    and del :: "'n \<Rightarrow> 'h \<Rightarrow> 'h"
    and is_empty :: "'n \<Rightarrow> 'h \<Rightarrow> bool"
    and next_of :: "'n \<Rightarrow> 'h \<Rightarrow> 'n"
    and prev_of :: "'n \<Rightarrow> 'h \<Rightarrow> 'n"
  assumes holds_init: "holds (init lh h) lh []"
    and holds_distinct: "holds h lh xs \<Longrightarrow> distinct (lh # xs)"
    and holds_add_after:
      "holds h lh (xs @ ys) \<Longrightarrow> e \<notin> set (lh # xs @ ys) \<Longrightarrow> p = last (lh # xs) \<Longrightarrow>
       holds (add_after p e h) lh (xs @ e # ys)"
    and holds_add_before:
      "holds h lh (xs @ ys) \<Longrightarrow> e \<notin> set (lh # xs @ ys) \<Longrightarrow> q = hd (ys @ [lh]) \<Longrightarrow>
       holds (add_before q e h) lh (xs @ e # ys)"
    and holds_del: "holds h lh (xs @ e # ys) \<Longrightarrow> holds (del e h) lh (xs @ ys)"
    and empty_iff: "holds h lh xs \<Longrightarrow> is_empty lh h \<longleftrightarrow> xs = []"
    and next_head: "holds h lh xs \<Longrightarrow> next_of lh h = hd (xs @ [lh])"
    and prev_head: "holds h lh xs \<Longrightarrow> prev_of lh h = last (lh # xs)"
begin

text \<open>
  The two queue disciplines the kernel runs on a ring. Insertion behind the head with removal
  before it (page replacement), and insertion before the head with removal behind it (run
  queues, wait queues, console input): either way the oldest node is removed first.
\<close>

lemma push_front: "holds h lh xs \<Longrightarrow> e \<notin> set (lh # xs) \<Longrightarrow> holds (add_after lh e h) lh (e # xs)"
  using holds_add_after [of h lh "[]" xs e lh] by simp

lemma push_back: "holds h lh xs \<Longrightarrow> e \<notin> set (lh # xs) \<Longrightarrow> holds (add_before lh e h) lh (xs @ [e])"
  using holds_add_before [of h lh xs "[]" e lh] by simp

lemma pop_front:
  "holds h lh (x # xs) \<Longrightarrow> next_of lh h = x \<and> x \<noteq> lh \<and> holds (del x h) lh xs"
  using holds_del [of h lh "[]" x xs] holds_distinct [of h lh "x # xs"] by (auto simp: next_head)

lemma pop_back:
  "holds h lh (xs @ [x]) \<Longrightarrow> prev_of lh h = x \<and> x \<noteq> lh \<and> holds (del x h) lh xs"
  using holds_del [of h lh xs x "[]"] holds_distinct [of h lh "xs @ [x]"] by (auto simp: prev_head)

lemma next_head_empty: "holds h lh xs \<Longrightarrow> next_of lh h = lh \<longleftrightarrow> xs = []"
  using holds_distinct [of h lh xs] by (cases xs) (auto simp: next_head)

lemma prev_head_empty: "holds h lh xs \<Longrightarrow> prev_of lh h = lh \<longleftrightarrow> xs = []"
  using holds_distinct [of h lh xs] by (cases xs rule: rev_cases) (auto simp: prev_head)

lemma del_member:
  assumes "holds h lh xs" and "e \<in> set xs"
  shows "holds (del e h) lh (remove1 e xs)"
proof -
  obtain us vs where xs: "xs = us @ e # vs" and "e \<notin> set us"
    using assms(2) by (meson split_list_first)
  then show ?thesis
    using holds_del assms(1) by (simp add: remove1_append)
qed

end

interpretation dl: ring dlist list_init list_add_after list_add_before list_del list_empty
  list_next list_prev
  by unfold_locales
    (rule dlist_init dlist_distinct dlist_add_after dlist_add_before dlist_del dlist_empty
      dlist_next_head dlist_prev_head; assumption)+

end
