(* ===== verification/Pages.thy ===== *)
theory Pages
  imports DList
begin

text \<open>
  The page descriptors of kern/mm/memlayout.h and the free area they are linked into.
  A \<open>struct Page *\<close> is the index of the descriptor in the array \<open>pages\<close>, so pointer comparison
  and pointer arithmetic are those of the indices. The \<open>page_link\<close> nodes and the head of the
  free list form one heap of list nodes; \<open>le2page\<close> of the head is no descriptor of the array.
  The flag bits are changed by the atomic bit operations of libs/atomic.h.
\<close>

subsection \<open>libs/atomic.h on one 64-bit word\<close>

definition BIT_MASK :: "nat \<Rightarrow> 64 word" where
  "BIT_MASK nr = push_bit (nr mod 64) 1"

definition atomic_set_bit :: "nat \<Rightarrow> 64 word \<Rightarrow> 64 word" where
  "atomic_set_bit nr w = or w (BIT_MASK nr)"

definition atomic_clear_bit :: "nat \<Rightarrow> 64 word \<Rightarrow> 64 word" where
  "atomic_clear_bit nr w = and w (not (BIT_MASK nr))"

definition atomic_change_bit :: "nat \<Rightarrow> 64 word \<Rightarrow> 64 word" where
  "atomic_change_bit nr w = xor w (BIT_MASK nr)"

definition atomic_test_bit :: "nat \<Rightarrow> 64 word \<Rightarrow> bool" where
  "atomic_test_bit nr w \<longleftrightarrow> and (drop_bit nr w) 1 \<noteq> 0"

definition atomic_test_and_set_bit :: "nat \<Rightarrow> 64 word \<Rightarrow> bool \<times> 64 word" where
  "atomic_test_and_set_bit nr w =
     (and w (BIT_MASK nr) \<noteq> 0, or w (BIT_MASK nr))"

definition atomic_test_and_clear_bit :: "nat \<Rightarrow> 64 word \<Rightarrow> bool \<times> 64 word" where
  "atomic_test_and_clear_bit nr w =
     (and w (BIT_MASK nr) \<noteq> 0, and w (not (BIT_MASK nr)))"

lemma atomic_test_bit_iff [simp]: "atomic_test_bit nr w \<longleftrightarrow> bit w nr"
  by (auto simp: atomic_test_bit_def bit_iff_odd_drop_bit and_one_eq odd_iff_mod_2_eq_one)

lemma bit_BIT_MASK: "n < 64 \<Longrightarrow> bit (BIT_MASK n) m \<longleftrightarrow> m = n"
  by (auto simp: BIT_MASK_def bit_push_bit_iff bit_1_iff simp del: push_bit_of_1)

lemma bit_atomic_set: "n < 64 \<Longrightarrow> bit (atomic_set_bit n w) m \<longleftrightarrow> m = n \<or> bit w m"
  by (auto simp: atomic_set_bit_def bit_BIT_MASK bit_or_iff)

lemma bit_atomic_clear: "n < 64 \<Longrightarrow> bit (atomic_clear_bit n w) m \<longleftrightarrow> m \<noteq> n \<and> bit w m"
  by (auto simp: atomic_clear_bit_def bit_BIT_MASK bit_and_iff bit_not_iff dest: bit_imp_le_length)

lemma bit_atomic_change: "n < 64 \<Longrightarrow> bit (atomic_change_bit n w) m \<longleftrightarrow> (m = n) \<noteq> bit w m"
  by (auto simp: atomic_change_bit_def bit_BIT_MASK bit_xor_iff)

lemma and_mask_iff: "n < 64 \<Longrightarrow> and w (BIT_MASK n) \<noteq> 0 \<longleftrightarrow> bit w n"
proof -
  assume n: "n < 64"
  have "bit w n \<Longrightarrow> bit (and w (BIT_MASK n)) n"
    using n by (simp add: bit_and_iff bit_BIT_MASK)
  moreover have "\<not> bit w n \<Longrightarrow> and w (BIT_MASK n) = 0"
    using n by (intro bit_eqI) (auto simp: bit_and_iff bit_BIT_MASK)
  ultimately show ?thesis by auto
qed

lemma test_and_set_ok:
  "n < 64 \<Longrightarrow> atomic_test_and_set_bit n w = (atomic_test_bit n w, atomic_set_bit n w)"
  by (simp add: atomic_test_and_set_bit_def atomic_set_bit_def and_mask_iff)

lemma test_and_clear_ok:
  "n < 64 \<Longrightarrow> atomic_test_and_clear_bit n w = (atomic_test_bit n w, atomic_clear_bit n w)"
  by (simp add: atomic_test_and_clear_bit_def atomic_clear_bit_def and_mask_iff)

subsection \<open>struct Page and free_area_t\<close>

record page =
  ref :: int
  flags :: "64 word"
  property :: nat
  pra_vaddr :: nat

datatype pnode = FreeHead | PageLink nat

record mem =
  pages :: "nat \<Rightarrow> page"
  free_links :: "pnode links"
  nr_free :: nat

definition PG_reserved :: nat where "PG_reserved = 0"
definition PG_property :: nat where "PG_property = 1"

definition upd_page :: "nat \<Rightarrow> (page \<Rightarrow> page) \<Rightarrow> mem \<Rightarrow> mem" where
  "upd_page p f s = s\<lparr>pages := (pages s)(p := f (pages s p))\<rparr>"

definition SetPageReserved :: "nat \<Rightarrow> mem \<Rightarrow> mem" where
  "SetPageReserved p = upd_page p (\<lambda>d. d\<lparr>flags := atomic_set_bit PG_reserved (flags d)\<rparr>)"

definition ClearPageReserved :: "nat \<Rightarrow> mem \<Rightarrow> mem" where
  "ClearPageReserved p = upd_page p (\<lambda>d. d\<lparr>flags := atomic_clear_bit PG_reserved (flags d)\<rparr>)"

definition PageReserved :: "nat \<Rightarrow> mem \<Rightarrow> bool" where
  "PageReserved p s = atomic_test_bit PG_reserved (flags (pages s p))"

definition SetPageProperty :: "nat \<Rightarrow> mem \<Rightarrow> mem" where
  "SetPageProperty p = upd_page p (\<lambda>d. d\<lparr>flags := atomic_set_bit PG_property (flags d)\<rparr>)"

definition ClearPageProperty :: "nat \<Rightarrow> mem \<Rightarrow> mem" where
  "ClearPageProperty p = upd_page p (\<lambda>d. d\<lparr>flags := atomic_clear_bit PG_property (flags d)\<rparr>)"

definition PageProperty :: "nat \<Rightarrow> mem \<Rightarrow> bool" where
  "PageProperty p s = atomic_test_bit PG_property (flags (pages s p))"

definition set_property :: "nat \<Rightarrow> nat \<Rightarrow> mem \<Rightarrow> mem" where
  "set_property p n = upd_page p (\<lambda>d. d\<lparr>property := to_u32 n\<rparr>)"

definition page_ref :: "nat \<Rightarrow> mem \<Rightarrow> int" where
  "page_ref p s = ref (pages s p)"

definition set_page_ref :: "nat \<Rightarrow> int \<Rightarrow> mem \<Rightarrow> mem" where
  "set_page_ref p v = upd_page p (\<lambda>d. d\<lparr>ref := v\<rparr>)"

definition page_ref_inc :: "nat \<Rightarrow> mem \<Rightarrow> int \<times> mem" where
  "page_ref_inc p s = (let s = set_page_ref p (page_ref p s + 1) s in (page_ref p s, s))"

definition page_ref_dec :: "nat \<Rightarrow> mem \<Rightarrow> int \<times> mem" where
  "page_ref_dec p s = (let s = set_page_ref p (page_ref p s - 1) s in (page_ref p s, s))"

definition upd_links :: "(pnode links \<Rightarrow> pnode links) \<Rightarrow> mem \<Rightarrow> mem" where
  "upd_links f s = s\<lparr>free_links := f (free_links s)\<rparr>"

fun le2page :: "pnode \<Rightarrow> nat option" where
  "le2page (PageLink p) = Some p"
| "le2page FreeHead = None"

lemma le2page_bind [simp]: "Option.bind (le2page (PageLink p)) f = f p"
  by simp

subsection \<open>Reading a descriptor after an update\<close>

lemma upd_page_simps [simp]:
  "pages (upd_page p f s) = (pages s)(p := f (pages s p))"
  "free_links (upd_page p f s) = free_links s" "nr_free (upd_page p f s) = nr_free s"
  by (simp_all add: upd_page_def)

lemma upd_links_simps [simp]:
  "pages (upd_links f s) = pages s" "free_links (upd_links f s) = f (free_links s)"
  "nr_free (upd_links f s) = nr_free s"
  by (simp_all add: upd_links_def)

lemmas page_flag_defs = SetPageReserved_def ClearPageReserved_def PageReserved_def
  SetPageProperty_def ClearPageProperty_def PageProperty_def PG_reserved_def PG_property_def
  bit_atomic_set bit_atomic_clear

lemma page_flag_frame [simp]:
  "free_links (SetPageProperty p s) = free_links s" "nr_free (SetPageProperty p s) = nr_free s"
  "free_links (ClearPageProperty p s) = free_links s" "nr_free (ClearPageProperty p s) = nr_free s"
  "free_links (SetPageReserved p s) = free_links s" "nr_free (SetPageReserved p s) = nr_free s"
  "free_links (ClearPageReserved p s) = free_links s" "nr_free (ClearPageReserved p s) = nr_free s"
  "free_links (set_property p n s) = free_links s" "nr_free (set_property p n s) = nr_free s"
  "free_links (set_page_ref p v s) = free_links s" "nr_free (set_page_ref p v s) = nr_free s"
  by (simp_all add: page_flag_defs set_property_def set_page_ref_def)

lemma property_simps [simp]:
  "property (pages (set_property p n s) q) = (if q = p then to_u32 n else property (pages s q))"
  "property (pages (SetPageProperty p s) q) = property (pages s q)"
  "property (pages (ClearPageProperty p s) q) = property (pages s q)"
  "property (pages (set_page_ref p v s) q) = property (pages s q)"
  by (auto simp: page_flag_defs set_property_def set_page_ref_def)

lemma PageProperty_simps [simp]:
  "PageProperty q (set_property p n s) = PageProperty q s"
  "PageProperty q (set_page_ref p v s) = PageProperty q s"
  "PageProperty q (SetPageProperty p s) \<longleftrightarrow> q = p \<or> PageProperty q s"
  "PageProperty q (ClearPageProperty p s) \<longleftrightarrow> q \<noteq> p \<and> PageProperty q s"
  "PageProperty q (upd_links f s) = PageProperty q s"
  "PageProperty q (s\<lparr>nr_free := k\<rparr>) = PageProperty q s"
  by (auto simp: page_flag_defs set_property_def set_page_ref_def)

lemma PageReserved_simps [simp]:
  "PageReserved q (set_property p n s) = PageReserved q s"
  "PageReserved q (set_page_ref p v s) = PageReserved q s"
  "PageReserved q (SetPageProperty p s) = PageReserved q s"
  "PageReserved q (ClearPageProperty p s) = PageReserved q s"
  "PageReserved q (upd_links f s) = PageReserved q s"
  "PageReserved q (s\<lparr>nr_free := k\<rparr>) = PageReserved q s"
  by (auto simp: page_flag_defs set_property_def set_page_ref_def)

lemma page_ref_simps [simp]:
  "page_ref q (set_page_ref p v s) = (if q = p then v else page_ref q s)"
  "page_ref q (set_property p n s) = page_ref q s"
  "page_ref q (SetPageProperty p s) = page_ref q s"
  "page_ref q (ClearPageProperty p s) = page_ref q s"
  "page_ref q (upd_links f s) = page_ref q s"
  "page_ref q (s\<lparr>nr_free := k\<rparr>) = page_ref q s"
  by (auto simp: page_ref_def page_flag_defs set_property_def set_page_ref_def)

end
