(* ===== verification/FreeBlocks.thy ===== *)
theory FreeBlocks
  imports Pages
begin

text \<open>
  The abstract view of a page allocator's free list: a list of blocks, each the index of its
  first page and its number of pages, in address order and without overlap. \<open>free_inv\<close> relates
  a memory state to it: the free list ring visits the first pages of the blocks, each of them
  carries its block's size in \<open>property\<close> and has the flag \<open>PG_property\<close>, and \<open>nr_free\<close> is the
  number of pages in all blocks. The locale \<open>page_allocator\<close> is the contract of
  \<open>struct pmm_manager\<close> (kern/mm/pmm.h) over this view.
\<close>

type_synonym blocks = "(nat \<times> nat) list"

definition nodes :: "blocks \<Rightarrow> pnode list" where
  "nodes bs = map (\<lambda>(b, k). PageLink b) bs"

definition blocks_ok :: "blocks \<Rightarrow> bool" where
  "blocks_ok bs \<longleftrightarrow>
     sorted_wrt (\<lambda>x y. fst x + snd x \<le> fst y) bs \<and> (\<forall>x \<in> set bs. 0 < snd x)"

definition block_pages :: "blocks \<Rightarrow> nat set" where
  "block_pages bs = (\<Union>(b, k) \<in> set bs. {b ..< b + k})"

definition block_total :: "blocks \<Rightarrow> nat" where
  "block_total bs = sum_list (map snd bs)"

definition free_inv :: "mem \<Rightarrow> blocks \<Rightarrow> bool" where
  "free_inv s bs \<longleftrightarrow>
     dlist (free_links s) FreeHead (nodes bs) \<and> blocks_ok bs \<and>
     (\<forall>x \<in> set bs. property (pages s (fst x)) = snd x \<and> PageProperty (fst x) s) \<and>
     nr_free s = block_total bs \<and> block_total bs < 2 ^ 32"

subsection \<open>Blocks in address order\<close>

lemma nodes_simps [simp]:
  "nodes [] = []" "nodes ((b, k) # bs) = PageLink b # nodes bs" "nodes (as @ bs) = nodes as @ nodes bs"
  "nodes bs = [] \<longleftrightarrow> bs = []"
  by (simp_all add: nodes_def)

lemma nodes_no_head [simp]: "FreeHead \<notin> set (nodes bs)"
  by (auto simp: nodes_def)

lemma PageLink_nodes [simp]: "PageLink b \<in> set (nodes bs) \<longleftrightarrow> b \<in> fst ` set bs"
  by (force simp: nodes_def)

lemma last_nodes: "as \<noteq> [] \<Longrightarrow> last (nodes as) = PageLink (fst (last as))"
  by (simp add: nodes_def last_map split_beta)

lemma block_pages_simps [simp]:
  "block_pages [] = {}" "block_pages ((b, k) # bs) = {b ..< b + k} \<union> block_pages bs"
  "block_pages (as @ bs) = block_pages as \<union> block_pages bs"
  by (auto simp: block_pages_def)

lemma block_total_simps [simp]:
  "block_total [] = 0" "block_total ((b, k) # bs) = k + block_total bs"
  "block_total (as @ bs) = block_total as + block_total bs"
  by (simp_all add: block_total_def)

lemma blocks_ok_simps [simp]:
  "blocks_ok []"
  "blocks_ok ((b, k) # bs) \<longleftrightarrow> 0 < k \<and> (\<forall>x \<in> set bs. b + k \<le> fst x) \<and> blocks_ok bs"
  by (auto simp: blocks_ok_def)

lemma blocks_ok_append [simp]:
  "blocks_ok (as @ bs) \<longleftrightarrow>
     blocks_ok as \<and> blocks_ok bs \<and> (\<forall>x \<in> set as. \<forall>y \<in> set bs. fst x + snd x \<le> fst y)"
  by (auto simp: blocks_ok_def sorted_wrt_append)

lemma blocks_ok_pos: "blocks_ok bs \<Longrightarrow> (b, k) \<in> set bs \<Longrightarrow> 0 < k"
  by (auto simp: blocks_ok_def)

lemma blocks_ok_first:
  assumes "blocks_ok (as @ (b, k) # cs)"
  shows "b \<notin> fst ` set as" and "b \<notin> fst ` set cs"
  using assms by (fastforce dest: blocks_ok_pos)+

lemma blocks_ok_distinct: "blocks_ok bs \<Longrightarrow> distinct (map fst bs)"
proof (induction bs)
  case (Cons x bs)
  then show ?case using blocks_ok_first(2) [of "[]" "fst x" "snd x" bs]
    by (cases x) auto
qed simp

lemma block_total_mem: "(b, k) \<in> set bs \<Longrightarrow> k \<le> block_total bs"
  by (force simp: block_total_def intro: member_le_sum_list)

lemma finite_block_pages [simp]: "finite (block_pages bs)"
  by (auto simp: block_pages_def)

lemma block_pages_lower:
  "\<forall>x \<in> set bs. m \<le> fst x \<Longrightarrow> i \<in> block_pages bs \<Longrightarrow> m \<le> i"
  by (auto simp: block_pages_def dest!: bspec)

lemma block_pages_upper:
  "\<forall>x \<in> set bs. fst x + snd x \<le> m \<Longrightarrow> i \<in> block_pages bs \<Longrightarrow> i < m"
  by (auto simp: block_pages_def dest!: bspec)

lemma block_pages_disjoint_upper:
  "\<forall>x \<in> set bs. m \<le> fst x \<Longrightarrow> {a ..< m} \<inter> block_pages bs = {}"
  using block_pages_lower by fastforce

lemma card_block_pages: "blocks_ok bs \<Longrightarrow> card (block_pages bs) = block_total bs"
proof (induction bs)
  case (Cons x bs)
  obtain b k where x: "x = (b, k)" by (cases x)
  have "{b ..< b + k} \<inter> block_pages bs = {}"
    using Cons.prems by (intro block_pages_disjoint_upper) (simp add: x)
  then have "card ({b ..< b + k} \<union> block_pages bs) = k + card (block_pages bs)"
    by (subst card_Un_disjoint) auto
  with Cons x show ?case by simp
qed simp

lemma block_first_in: "blocks_ok bs \<Longrightarrow> (b, k) \<in> set bs \<Longrightarrow> b \<in> block_pages bs"
  unfolding block_pages_def by (rule UN_I) (auto dest: blocks_ok_pos)

subsection \<open>Taking pages from a block\<close>

text \<open>The rest of a block of \<open>k\<close> pages at \<open>b\<close> after its first \<open>n\<close> pages are taken.\<close>

definition rest_block :: "nat \<Rightarrow> nat \<Rightarrow> nat \<Rightarrow> blocks" where
  "rest_block b k n = (if n < k then [(b + n, k - n)] else [])"

fun carve :: "nat \<Rightarrow> nat \<Rightarrow> blocks \<Rightarrow> blocks" where
  "carve p n [] = []"
| "carve p n ((b, k) # bs) = (if b = p then rest_block b k n @ bs else (b, k) # carve p n bs)"

lemma carve_split:
  "p \<notin> fst ` set as \<Longrightarrow> carve p n (as @ (p, k) # cs) = as @ rest_block p k n @ cs"
  by (induction as) auto

lemma rest_block_simps:
  "0 < n \<Longrightarrow> n \<le> k \<Longrightarrow> block_total (rest_block b k n) = k - n"
  "0 < n \<Longrightarrow> n \<le> k \<Longrightarrow> block_pages (rest_block b k n) = {b + n ..< b + k}"
  by (auto simp: rest_block_def)

lemma blocks_ok_rest:
  "blocks_ok (as @ (b, k) # cs) \<Longrightarrow> blocks_ok (as @ rest_block b k n @ cs)"
  by (fastforce simp: rest_block_def)

lemma carve_pages:
  assumes ok: "blocks_ok bs" and mem: "(b, k) \<in> set bs" and n: "0 < n" "n \<le> k"
  shows "blocks_ok (carve b n bs)"
    and "block_pages bs = {b ..< b + n} \<union> block_pages (carve b n bs)"
    and "{b ..< b + n} \<inter> block_pages (carve b n bs) = {}"
    and "block_total bs = n + block_total (carve b n bs)"
proof -
  obtain as cs where bs: "bs = as @ (b, k) # cs"
    using mem by (meson split_list)
  have "b \<notin> fst ` set as"
    using ok unfolding bs by (rule blocks_ok_first)
  then have carve: "carve b n bs = as @ rest_block b k n @ cs"
    by (simp add: bs carve_split)
  show "blocks_ok (carve b n bs)"
    using ok bs carve blocks_ok_rest by metis
  have split: "{b ..< b + k} = {b ..< b + n} \<union> {b + n ..< b + k}"
    using n by auto
  then show "block_pages bs = {b ..< b + n} \<union> block_pages (carve b n bs)"
    using n unfolding carve by (auto simp: bs rest_block_simps)
  have "{b ..< b + n} \<inter> block_pages (as @ cs) = {}"
    using ok n block_pages_upper [of as b] block_pages_lower [of cs "b + k"] by (fastforce simp: bs)
  then show "{b ..< b + n} \<inter> block_pages (carve b n bs) = {}"
    using n unfolding carve by (auto simp: rest_block_simps)
  show "block_total bs = n + block_total (carve b n bs)"
    using n unfolding carve by (simp add: bs rest_block_simps)
qed

subsection \<open>Giving a block back\<close>

text \<open>Joining a block with its successor when they touch.\<close>

fun join :: "nat \<times> nat \<Rightarrow> blocks \<Rightarrow> blocks" where
  "join (b, k) ((c, l) # cs) = (if b + k = c then (b, k + l) # cs else (b, k) # (c, l) # cs)"
| "join x [] = [x]"

definition give_back :: "nat \<Rightarrow> nat \<Rightarrow> blocks \<Rightarrow> blocks" where
  "give_back base n bs =
     (let as = takeWhile (\<lambda>x. \<not> base < fst x) bs; cs = dropWhile (\<lambda>x. \<not> base < fst x) bs in
      if as \<noteq> [] \<and> fst (last as) + snd (last as) = base
      then butlast as @ join (fst (last as), snd (last as) + n) cs
      else as @ join (base, n) cs)"

lemma join_simps:
  "block_pages (join (b, k) cs) = {b ..< b + k} \<union> block_pages cs"
  "block_total (join (b, k) cs) = k + block_total cs"
  by (induction "(b, k)" cs rule: join.induct) auto

lemma join_first: "(a, j) \<in> set (join (b, k) cs) \<Longrightarrow> a = b \<or> (a, j) \<in> set cs"
  by (induction "(b, k)" cs rule: join.induct) (auto split: if_splits)

lemma blocks_ok_join:
  "blocks_ok (as @ (b, k) # cs) \<Longrightarrow> blocks_ok (as @ join (b, k) cs)"
  by (cases cs) (fastforce split: prod.splits if_splits)+

text \<open>Inserting a block that overlaps no other keeps the address order.\<close>

lemma insert_sorted:
  assumes ok: "blocks_ok bs" and n: "0 < n" and disj: "{base ..< base + n} \<inter> block_pages bs = {}"
  shows "blocks_ok (takeWhile (\<lambda>x. \<not> base < fst x) bs @ (base, n) #
    dropWhile (\<lambda>x. \<not> base < fst x) bs)"
  using ok disj
proof (induction bs)
  case Nil
  then show ?case using n by simp
next
  case (Cons x bs)
  obtain b k where x: "x = (b, k)" by (cases x)
  show ?case
  proof (cases "base < b")
    case True
    moreover have "base + n \<le> b"
    proof (rule ccontr)
      assume "\<not> base + n \<le> b"
      moreover have "b \<in> block_pages (x # bs)"
        using Cons.prems x by simp
      moreover have "b \<in> {base ..< base + n}"
        using True \<open>\<not> base + n \<le> b\<close> by simp
      ultimately show False using Cons.prems(2) by blast
    qed
    ultimately show ?thesis
      using Cons.prems x n by fastforce
  next
    case False
    have IH: "blocks_ok (takeWhile (\<lambda>x. \<not> base < fst x) bs @ (base, n) #
        dropWhile (\<lambda>x. \<not> base < fst x) bs)" (is "blocks_ok (?as @ _ # ?cs)")
      using Cons x by auto
    have "b + k \<le> base"
    proof (rule ccontr)
      assume "\<not> b + k \<le> base"
      then have "base \<in> block_pages (x # bs)"
        using False x by simp
      moreover have "base \<in> {base ..< base + n}" using n by simp
      ultimately show False using Cons.prems(2) by blast
    qed
    moreover have "set ?as \<union> set ?cs = set bs"
      by (metis set_append takeWhile_dropWhile_id)
    ultimately show ?thesis
      using IH Cons.prems x False by (auto; blast)
  qed
qed

lemma give_back_cases:
  assumes ok: "blocks_ok bs" and n: "0 < n" and disj: "{base ..< base + n} \<inter> block_pages bs = {}"
  shows "blocks_ok (give_back base n bs)"
    and "block_pages (give_back base n bs) = block_pages bs \<union> {base ..< base + n}"
    and "block_total (give_back base n bs) = block_total bs + n"
proof -
  define as where "as = takeWhile (\<lambda>x. \<not> base < fst x) bs"
  define cs where "cs = dropWhile (\<lambda>x. \<not> base < fst x) bs"
  have bs: "bs = as @ cs" by (simp add: as_def cs_def)
  have ok': "blocks_ok (as @ (base, n) # cs)"
    unfolding as_def cs_def by (rule insert_sorted [OF ok n disj])
  have "blocks_ok (give_back base n bs) \<and>
    block_pages (give_back base n bs) = block_pages bs \<union> {base ..< base + n} \<and>
    block_total (give_back base n bs) = block_total bs + n"
  proof (cases "as \<noteq> [] \<and> fst (last as) + snd (last as) = base")
    case True
    then obtain us a j where as: "as = us @ [(a, j)]" and base: "a + j = base"
      by (metis prod.collapse snoc_eq_iff_butlast)
    have gb: "give_back base n bs = us @ join (a, j + n) cs"
      using True as by (simp add: give_back_def as_def [symmetric] cs_def [symmetric])
    have "blocks_ok (us @ (a, j + n) # cs)"
      using ok' base by (fastforce simp: as)
    then have "blocks_ok (give_back base n bs)"
      unfolding gb by (rule blocks_ok_join)
    with base show ?thesis
      unfolding gb by (auto simp: bs as join_simps)
  next
    case False
    then have gb: "give_back base n bs = as @ join (base, n) cs"
      by (auto simp: give_back_def as_def [symmetric] cs_def [symmetric])
    have "blocks_ok (give_back base n bs)"
      unfolding gb by (rule blocks_ok_join [OF ok'])
    then show ?thesis
      unfolding gb by (auto simp: bs join_simps)
  qed
  then show "blocks_ok (give_back base n bs)"
    and "block_pages (give_back base n bs) = block_pages bs \<union> {base ..< base + n}"
    and "block_total (give_back base n bs) = block_total bs + n"
    by blast+
qed

subsection \<open>The contract of a physical memory manager\<close>

locale page_allocator =
  fixes inv :: "'s \<Rightarrow> blocks \<Rightarrow> bool"
    and alloc :: "nat \<Rightarrow> 's \<Rightarrow> (nat option \<times> 's) option"
    and free :: "nat \<Rightarrow> nat \<Rightarrow> 's \<Rightarrow> 's option"
    and freeable :: "nat \<Rightarrow> nat \<Rightarrow> 's \<Rightarrow> bool"
  assumes inv_ok: "inv s bs \<Longrightarrow> blocks_ok bs"
    and alloc_law: "inv s bs \<Longrightarrow> 0 < n \<Longrightarrow> alloc n s = Some (None, s) \<or>
      (\<exists>p k s'. alloc n s = Some (Some p, s') \<and> (p, k) \<in> set bs \<and> n \<le> k \<and> inv s' (carve p n bs))"
    and free_law: "inv s bs \<Longrightarrow> 0 < n \<Longrightarrow> freeable base n s \<Longrightarrow>
      {base ..< base + n} \<inter> block_pages bs = {} \<Longrightarrow>
      \<exists>s'. free base n s = Some s' \<and> inv s' (give_back base n bs)"
begin

lemma alloc_pages_were_free:
  assumes "inv s bs" and "0 < n" and "alloc n s = Some (Some p, s')"
  shows "\<exists>bs'. inv s' bs' \<and> block_pages bs = {p ..< p + n} \<union> block_pages bs' \<and>
    {p ..< p + n} \<inter> block_pages bs' = {}"
  using alloc_law [OF assms(1,2)] assms(3) inv_ok [OF assms(1)] carve_pages [of bs p _ n] assms(2)
  by fastforce

lemma alloc_total:
  assumes "inv s bs" and "0 < n"
  shows "\<exists>r s'. alloc n s = Some (r, s')"
  using alloc_law [OF assms] by blast

text \<open>Two allocations with no call in between never share a page.\<close>

lemma alloc_twice_disjoint:
  assumes "inv s bs" and "0 < n" and "alloc n s = Some (Some p, s1)"
    and "0 < m" and "alloc m s1 = Some (Some q, s2)"
  shows "{p ..< p + n} \<inter> {q ..< q + m} = {}"
proof -
  obtain bs1 where bs1: "inv s1 bs1" "{p ..< p + n} \<inter> block_pages bs1 = {}"
    using alloc_pages_were_free [OF assms(1-3)] by blast
  then have "{q ..< q + m} \<subseteq> block_pages bs1"
    using alloc_pages_were_free [OF bs1(1) assms(4,5)] by blast
  with bs1(2) show ?thesis by blast
qed

lemma alloc_free_pages:
  assumes "inv s bs" and "0 < n" and "alloc n s = Some (Some p, s1)" and "freeable p n s1"
  shows "\<exists>s2 bs2. free p n s1 = Some s2 \<and> inv s2 bs2 \<and> block_pages bs2 = block_pages bs \<and>
    block_total bs2 = block_total bs"
proof -
  obtain k where k: "(p, k) \<in> set bs" "n \<le> k" and inv1: "inv s1 (carve p n bs)"
    using alloc_law [OF assms(1,2)] assms(3) by auto
  note c = carve_pages [OF inv_ok [OF assms(1)] k(1) assms(2) k(2)]
  obtain s2 where s2: "free p n s1 = Some s2" "inv s2 (give_back p n (carve p n bs))"
    using free_law [OF inv1 assms(2,4) c(3)] by blast
  note g = give_back_cases [OF c(1) assms(2) c(3)]
  show ?thesis
    using s2 c g by (intro exI [of _ s2] exI [of _ "give_back p n (carve p n bs)"]) auto
qed

end

end
