(* ===== verification/Pmm_Default.thy ===== *)
theory Pmm_Default
  imports FreeBlocks
begin

text \<open>
  The first-fit physical memory manager of lab8/kern/mm/default_pmm.c, on the pointer-level
  free list. The operations are first translated statement by statement; then the free list is
  read as a list of blocks \<open>(first page, number of pages)\<close> and each operation is shown to refine
  an operation on that list.

  The insertion loop that \<open>default_init_memmap\<close> and \<open>default_free_pages\<close> share is modelled
  as written: when a block goes behind the last one, the loop does not stop after \<open>list_add\<close>
  but visits the block just inserted and inserts it behind itself. The model shows what this does
  to the ring, and theorem \<open>default_double_allocation\<close> shows the consequence.
\<close>

subsection \<open>The operations\<close>

definition default_init :: "mem \<Rightarrow> mem" where
  "default_init s = upd_links (list_init FreeHead) (s\<lparr>nr_free := 0\<rparr>)"

text \<open>\<open>for (; p != base + n; p ++)\<close> of \<open>default_init_memmap\<close>, \<open>k\<close> descriptors to go.\<close>

fun init_page_loop :: "nat \<Rightarrow> nat \<Rightarrow> mem \<Rightarrow> mem option" where
  "init_page_loop p 0 s = Some s"
| "init_page_loop p (Suc k) s = do {
     kassert (PageReserved p s);
     init_page_loop (p + 1) k
       (set_page_ref p 0 (upd_page p (\<lambda>d. d\<lparr>property := 0, flags := 0\<rparr>) s))
   }"

text \<open>The search for the insertion point, with the pointer \<open>le\<close> the loop has reached.\<close>

partial_function (option) insert_loop :: "nat \<Rightarrow> pnode \<Rightarrow> pnode links \<Rightarrow> pnode links option" where
  "insert_loop base le h =
     (let le = list_next le h in
      if le = FreeHead then Some h
      else do {
        page \<leftarrow> le2page le;
        if base < page then Some (list_add_before le (PageLink base) h)
        else if list_next le h = FreeHead
        then insert_loop base le (list_add le (PageLink base) h)
        else insert_loop base le h
      })"

declare insert_loop.simps [code]

definition insert_block :: "nat \<Rightarrow> mem \<Rightarrow> mem option" where
  "insert_block base s =
     (if list_empty FreeHead (free_links s)
      then Some (upd_links (list_add FreeHead (PageLink base)) s)
      else do {
        h \<leftarrow> insert_loop base FreeHead (free_links s);
        Some (s\<lparr>free_links := h\<rparr>)
      })"

definition default_init_memmap :: "nat \<Rightarrow> nat \<Rightarrow> mem \<Rightarrow> mem option" where
  "default_init_memmap base n s = do {
     kassert (n > 0);
     s \<leftarrow> init_page_loop base n s;
     let s = SetPageProperty base (set_property base n s);
     let s = s\<lparr>nr_free := add_u32 (nr_free s) n\<rparr>;
     insert_block base s
   }"

text \<open>The first-fit scan; the result is the page of the first block that is large enough.\<close>

partial_function (option) alloc_scan :: "nat \<Rightarrow> pnode \<Rightarrow> mem \<Rightarrow> nat option option" where
  "alloc_scan n le s =
     (let le = list_next le (free_links s) in
      if le = FreeHead then Some None
      else do {
        p \<leftarrow> le2page le;
        if property (pages s p) \<ge> n then Some (Some p) else alloc_scan n le s
      })"

declare alloc_scan.simps [code]

text \<open>Unlinking the chosen block and giving back its tail (the branch \<open>page != NULL\<close>).\<close>

definition take_block :: "nat \<Rightarrow> nat \<Rightarrow> mem \<Rightarrow> mem" where
  "take_block page n s =
     (let prev = list_prev (PageLink page) (free_links s);
          s = upd_links (list_del (PageLink page)) s;
          s = (if property (pages s page) > n
               then let p = page + n;
                        s = set_property p (property (pages s page) - n) s;
                        s = SetPageProperty p s
                    in upd_links (list_add prev (PageLink p)) s
               else s);
          s = s\<lparr>nr_free := sub_u32 (nr_free s) n\<rparr>
      in ClearPageProperty page s)"

definition default_alloc_pages :: "nat \<Rightarrow> mem \<Rightarrow> (nat option \<times> mem) option" where
  "default_alloc_pages n s = do {
     kassert (n > 0);
     if n > nr_free s then Some (None, s)
     else do {
       page \<leftarrow> alloc_scan n FreeHead s;
       (case page of
          None \<Rightarrow> Some (None, s)
        | Some page \<Rightarrow> Some (Some page, take_block page n s))
     }
   }"

fun free_page_loop :: "nat \<Rightarrow> nat \<Rightarrow> mem \<Rightarrow> mem option" where
  "free_page_loop p 0 s = Some s"
| "free_page_loop p (Suc k) s = do {
     kassert (\<not> PageReserved p s \<and> \<not> PageProperty p s);
     free_page_loop (p + 1) k (set_page_ref p 0 (upd_page p (\<lambda>d. d\<lparr>flags := 0\<rparr>) s))
   }"

text \<open>Merging with the block before; the result names the block \<open>base\<close> now points to.\<close>

definition merge_prev :: "nat \<Rightarrow> mem \<Rightarrow> (nat \<times> mem) option" where
  "merge_prev base s =
     (let le = list_prev (PageLink base) (free_links s) in
      if le \<noteq> FreeHead then do {
        p \<leftarrow> le2page le;
        if p + property (pages s p) = base then
          let s = set_property p (property (pages s p) + property (pages s base)) s;
              s = ClearPageProperty base s
          in Some (p, upd_links (list_del (PageLink base)) s)
        else Some (base, s)
      }
      else Some (base, s))"

definition merge_next :: "nat \<Rightarrow> mem \<Rightarrow> mem option" where
  "merge_next base s =
     (let le = list_next (PageLink base) (free_links s) in
      if le \<noteq> FreeHead then do {
        p \<leftarrow> le2page le;
        if base + property (pages s base) = p then
          let s = set_property base (property (pages s base) + property (pages s p)) s;
              s = ClearPageProperty p s
          in Some (upd_links (list_del (PageLink p)) s)
        else Some s
      }
      else Some s)"

definition default_free_pages :: "nat \<Rightarrow> nat \<Rightarrow> mem \<Rightarrow> mem option" where
  "default_free_pages base n s = do {
     kassert (n > 0);
     s \<leftarrow> free_page_loop base n s;
     let s = SetPageProperty base (set_property base n s);
     let s = s\<lparr>nr_free := add_u32 (nr_free s) n\<rparr>;
     s \<leftarrow> insert_block base s;
     (base, s) \<leftarrow> merge_prev base s;
     merge_next base s
   }"

definition default_nr_free_pages :: "mem \<Rightarrow> nat" where
  "default_nr_free_pages s = nr_free s"

subsection \<open>The boot-time self test\<close>

text \<open>
  \<open>basic_check\<close> and \<open>default_check\<close>; during the test no swap manager is active, so \<open>alloc_pages\<close>
  and \<open>free_pages\<close> of pmm.c are the manager's. \<open>nbase\<close> and \<open>npage\<close> are the globals of pmm.c.
  Saving and restoring \<open>free_list\<close> copies the two pointers of the list head.
\<close>

definition alloc_some :: "nat \<Rightarrow> mem \<Rightarrow> (nat \<times> mem) option" where
  "alloc_some n s = do {
     (p, s) \<leftarrow> default_alloc_pages n s;
     (case p of None \<Rightarrow> None | Some p \<Rightarrow> Some (p, s))
   }"

definition alloc_none :: "nat \<Rightarrow> mem \<Rightarrow> mem option" where
  "alloc_none n s = do {
     (p, s) \<leftarrow> default_alloc_pages n s;
     kassert (p = None);
     Some s
   }"

definition save_list :: "mem \<Rightarrow> (pnode \<times> pnode) \<times> nat" where
  "save_list s = ((prv (free_links s) FreeHead, nxt (free_links s) FreeHead), nr_free s)"

definition restore_list :: "(pnode \<times> pnode) \<times> nat \<Rightarrow> mem \<Rightarrow> mem" where
  "restore_list st s =
     upd_links (\<lambda>h. set_prv FreeHead (fst (fst st)) (set_nxt FreeHead (snd (fst st)) h))
       (s\<lparr>nr_free := snd st\<rparr>)"

definition basic_check :: "nat \<Rightarrow> nat \<Rightarrow> mem \<Rightarrow> mem option" where
  "basic_check nbase npage s = do {
     (p0, s) \<leftarrow> alloc_some 1 s;
     (p1, s) \<leftarrow> alloc_some 1 s;
     (p2, s) \<leftarrow> alloc_some 1 s;
     kassert (p0 \<noteq> p1 \<and> p0 \<noteq> p2 \<and> p1 \<noteq> p2);
     kassert (page_ref p0 s = 0 \<and> page_ref p1 s = 0 \<and> page_ref p2 s = 0);
     kassert ((p0 + nbase) * 4096 < npage * 4096);
     kassert ((p1 + nbase) * 4096 < npage * 4096);
     kassert ((p2 + nbase) * 4096 < npage * 4096);
     let store = save_list s;
     let s = upd_links (list_init FreeHead) s;
     kassert (list_empty FreeHead (free_links s));
     let s = s\<lparr>nr_free := 0\<rparr>;
     s \<leftarrow> alloc_none 1 s;
     s \<leftarrow> default_free_pages p0 1 s;
     s \<leftarrow> default_free_pages p1 1 s;
     s \<leftarrow> default_free_pages p2 1 s;
     kassert (nr_free s = 3);
     (p0, s) \<leftarrow> alloc_some 1 s;
     (p1, s) \<leftarrow> alloc_some 1 s;
     (p2, s) \<leftarrow> alloc_some 1 s;
     s \<leftarrow> alloc_none 1 s;
     s \<leftarrow> default_free_pages p0 1 s;
     kassert (\<not> list_empty FreeHead (free_links s));
     (p, s) \<leftarrow> alloc_some 1 s;
     kassert (p = p0);
     s \<leftarrow> alloc_none 1 s;
     kassert (nr_free s = 0);
     let s = restore_list store s;
     s \<leftarrow> default_free_pages p 1 s;
     s \<leftarrow> default_free_pages p1 1 s;
     default_free_pages p2 1 s
   }"

text \<open>The walk over the free list that counts blocks and pages, checking each block's flag.\<close>

partial_function (option) count_walk :: "bool \<Rightarrow> pnode \<Rightarrow> mem \<Rightarrow> (nat \<times> nat) option" where
  "count_walk check le s =
     (let le = list_next le (free_links s) in
      if le = FreeHead then Some (0, 0)
      else do {
        p \<leftarrow> le2page le;
        kassert (check \<longrightarrow> PageProperty p s);
        (count, total) \<leftarrow> count_walk check le s;
        Some (count + 1, total + property (pages s p))
      })"

declare count_walk.simps [code]

definition default_check :: "nat \<Rightarrow> nat \<Rightarrow> mem \<Rightarrow> mem option" where
  "default_check nbase npage s = do {
     (count, total) \<leftarrow> count_walk True FreeHead s;
     kassert (total = default_nr_free_pages s);
     s \<leftarrow> basic_check nbase npage s;
     (p0, s) \<leftarrow> alloc_some 5 s;
     kassert (\<not> PageProperty p0 s);
     let free_list_store = save_list s;
     let s = upd_links (list_init FreeHead) s;
     kassert (list_empty FreeHead (free_links s));
     s \<leftarrow> alloc_none 1 s;
     let s = s\<lparr>nr_free := 0\<rparr>;
     s \<leftarrow> default_free_pages (p0 + 2) 3 s;
     s \<leftarrow> alloc_none 4 s;
     kassert (PageProperty (p0 + 2) s \<and> property (pages s (p0 + 2)) = 3);
     (p1, s) \<leftarrow> alloc_some 3 s;
     s \<leftarrow> alloc_none 1 s;
     kassert (p0 + 2 = p1);
     let p2 = p0 + 1;
     s \<leftarrow> default_free_pages p0 1 s;
     s \<leftarrow> default_free_pages p1 3 s;
     kassert (PageProperty p0 s \<and> property (pages s p0) = 1);
     kassert (PageProperty p1 s \<and> property (pages s p1) = 3);
     (p0, s) \<leftarrow> alloc_some 1 s;
     kassert (p0 + 1 = p2);
     s \<leftarrow> default_free_pages p0 1 s;
     (p0, s) \<leftarrow> alloc_some 2 s;
     kassert (p0 = p2 + 1);
     s \<leftarrow> default_free_pages p0 2 s;
     s \<leftarrow> default_free_pages p2 1 s;
     (p0, s) \<leftarrow> alloc_some 5 s;
     s \<leftarrow> alloc_none 1 s;
     kassert (nr_free s = 0);
     let s = restore_list free_list_store s;
     s \<leftarrow> default_free_pages p0 5 s;
     (count', total') \<leftarrow> count_walk False FreeHead s;
     kassert (count' = count);
     kassert (total' = total);
     Some s
   }"

subsection \<open>Scanning the ring\<close>

lemma alloc_scan_seg:
  assumes "dseg (free_links s) le (nodes bs) FreeHead"
    and "\<forall>x \<in> set bs. property (pages s (fst x)) = snd x"
  shows "alloc_scan n le s = Some (map_option fst (find (\<lambda>(b, k). n \<le> k) bs))"
  using assms
proof (induction bs arbitrary: le)
  case Nil
  then show ?case
    by (subst alloc_scan.simps) (simp add: list_next_def)
next
  case (Cons x bs)
  obtain b k where x: "x = (b, k)" by (cases x)
  with Cons.prems have "list_next le (free_links s) = PageLink b"
    by (simp add: list_next_def)
  moreover have "alloc_scan n (PageLink b) s = Some (map_option fst (find (\<lambda>(b, k). n \<le> k) bs))"
    using Cons x by auto
  ultimately show ?case
    using Cons.prems x by (subst alloc_scan.simps) auto
qed

lemma alloc_scan_inv:
  "free_inv s bs \<Longrightarrow>
   alloc_scan n FreeHead s = Some (map_option fst (find (\<lambda>(b, k). n \<le> k) bs))"
  unfolding free_inv_def dlist_def by (intro alloc_scan_seg) auto

lemma insert_loop_before:
  assumes "dseg h le (nodes as @ PageLink c # ns) FreeHead"
    and "\<forall>x \<in> set as. \<not> base < fst x" and "base < c"
  shows "insert_loop base le h = Some (list_add_before (PageLink c) (PageLink base) h)"
  using assms
proof (induction as arbitrary: le)
  case Nil
  then show ?case
    by (subst insert_loop.simps) (simp add: list_next_def Let_def)
next
  case (Cons x as)
  obtain b k where x: "x = (b, k)" by (cases x)
  have "list_next le h = PageLink b"
    using Cons.prems x by (simp add: list_next_def)
  moreover have "list_next (PageLink b) h \<noteq> FreeHead"
    using Cons.prems x by (cases as) (auto simp: list_next_def)
  moreover have "insert_loop base (PageLink b) h =
      Some (list_add_before (PageLink c) (PageLink base) h)"
    using Cons x by auto
  ultimately show ?case
    using Cons.prems x by (subst insert_loop.simps) (simp add: Let_def)
qed

text \<open>
  Behind the last block the loop runs once more than it should: after \<open>list_add\<close> it moves on to
  the node just inserted, which is the last one, and adds it behind itself.
\<close>

lemma insert_loop_tail:
  assumes "dseg h le (nodes (as @ [(a, j)])) FreeHead"
    and "\<forall>x \<in> set as. \<not> base < fst x" and "a < base"
  shows "insert_loop base le h =
    Some (list_add (PageLink base) (PageLink base) (list_add (PageLink a) (PageLink base) h))"
  using assms
proof (induction as arbitrary: le)
  case Nil
  let ?h = "list_add (PageLink a) (PageLink base) h"
  let ?h' = "list_add (PageLink base) (PageLink base) ?h"
  have links: "nxt h le = PageLink a" "nxt h (PageLink a) = FreeHead"
    using Nil.prems by simp_all
  have "nxt ?h (PageLink a) = PageLink base" "nxt ?h (PageLink base) = FreeHead"
    using links Nil.prems by (auto simp: list_op_defs)
  moreover from this have "nxt ?h' (PageLink base) = FreeHead"
    by (simp add: list_add_self)
  ultimately have "insert_loop base (PageLink base) ?h' = Some ?h'"
    and "insert_loop base (PageLink a) ?h = insert_loop base (PageLink base) ?h'"
    by (subst insert_loop.simps, simp add: list_next_def Let_def)+
  with links Nil.prems show ?case
    by (subst insert_loop.simps) (simp add: list_next_def)
next
  case (Cons x as)
  obtain b k where x: "x = (b, k)" by (cases x)
  have "list_next le h = PageLink b"
    using Cons.prems x by (simp add: list_next_def)
  moreover have "list_next (PageLink b) h \<noteq> FreeHead"
    using Cons.prems x by (cases as) (auto simp: list_next_def)
  moreover have "insert_loop base (PageLink b) h =
      Some (list_add (PageLink base) (PageLink base) (list_add (PageLink a) (PageLink base) h))"
    using Cons x by auto
  ultimately show ?case
    using Cons.prems x by (subst insert_loop.simps) (simp add: Let_def)
qed

subsection \<open>Allocation refines taking pages from the first block that fits\<close>

lemma take_block_inv:
  assumes inv: "free_inv s (as @ (b, k) # cs)" and n: "0 < n" "n \<le> k"
  shows "free_inv (take_block b n s) (as @ rest_block b k n @ cs)"
proof -
  let ?h = "free_links s" and ?p = "last (FreeHead # nodes as)"
  have dl: "dlist ?h FreeHead (nodes as @ PageLink b # nodes cs)"
    and ok: "blocks_ok (as @ (b, k) # cs)"
    and size_b: "property (pages s b) = k"
    and nr: "nr_free s = block_total (as @ (b, k) # cs)" "nr_free s < 2 ^ 32"
    using inv by (auto simp: free_inv_def)
  have prev: "list_prev (PageLink b) ?h = ?p"
    by (rule dlist_prev_node [OF dl])
  have del: "dlist (list_del (PageLink b) ?h) FreeHead (nodes as @ nodes cs)"
    by (rule dlist_del [OF dl])
  have b_first: "b \<notin> fst ` set as" "b \<notin> fst ` set cs"
    by (rule blocks_ok_first [OF ok])+
  have ok': "blocks_ok (as @ rest_block b k n @ cs)"
    by (rule blocks_ok_rest [OF ok])
  have tot: "block_total (as @ rest_block b k n @ cs) = nr_free s - n"
    using n nr by (simp add: rest_block_simps)
  have sub: "sub_u32 (nr_free s) n = nr_free s - n"
    using n nr by simp
  show ?thesis
  proof (cases "n < k")
    case False
    with n size_b sub have "take_block b n s = ClearPageProperty b
        ((upd_links (list_del (PageLink b)) s)\<lparr>nr_free := nr_free s - n\<rparr>)"
      by (simp add: take_block_def sub Let_def)
    with False del ok' tot inv b_first nr show ?thesis
      by (auto simp: free_inv_def rest_block_def image_iff)
  next
    case True
    have bn: "b + n \<notin> fst ` set as" "b + n \<notin> fst ` set cs"
      using ok' True blocks_ok_first [of as "b + n" "k - n" cs] by (auto simp: rest_block_def)
    have add: "dlist (list_add ?p (PageLink (b + n)) (list_del (PageLink b) ?h)) FreeHead
        (nodes as @ PageLink (b + n) # nodes cs)"
      unfolding list_add_def by (rule dlist_add_after [OF del]) (use bn in auto)
    have small: "k - n < 4294967296"
      using nr by (auto simp: block_total_def)
    have "take_block b n s = ClearPageProperty b
        ((upd_links (list_add ?p (PageLink (b + n)))
          (SetPageProperty (b + n) (set_property (b + n) (k - n)
            (upd_links (list_del (PageLink b)) s))))\<lparr>nr_free := nr_free s - n\<rparr>)"
      using True size_b n by (simp add: take_block_def sub prev Let_def)
    with True add ok' tot inv b_first bn nr small n show ?thesis
      by (auto simp: free_inv_def rest_block_def image_iff)
  qed
qed

lemma find_first_fit:
  assumes "find P bs = Some x"
  obtains as cs where "bs = as @ x # cs" and "P x" and "\<forall>y \<in> set as. \<not> P y"
  using assms
proof (induction bs arbitrary: thesis)
  case (Cons y bs)
  show ?case
  proof (cases "P y")
    case True
    with Cons.prems show ?thesis by (metis append_Nil empty_iff find.simps(2) list.set(1) option.inject)
  next
    case False
    with Cons.prems(2) have "find P bs = Some x" by simp
    then obtain as cs where "bs = as @ x # cs" "P x" "\<forall>y \<in> set as. \<not> P y"
      by (rule Cons.IH [rotated]) blast
    with False show ?thesis
      by (intro Cons.prems(1) [of "y # as" cs]) auto
  qed
qed simp

lemma default_alloc_inv:
  assumes inv: "free_inv s bs" and n: "0 < n"
  shows "case find (\<lambda>(b, k). n \<le> k) bs of
     None \<Rightarrow> default_alloc_pages n s = Some (None, s)
   | Some (b, k) \<Rightarrow> default_alloc_pages n s = Some (Some b, take_block b n s) \<and>
       free_inv (take_block b n s) (carve b n bs)"
proof (cases "find (\<lambda>(b, k). n \<le> k) bs")
  case None
  with alloc_scan_inv [OF inv] n show ?thesis
    by (simp add: default_alloc_pages_def)
next
  case (Some x)
  obtain b k where x: "x = (b, k)" by (cases x)
  obtain as cs where bs: "bs = as @ (b, k) # cs" and nk: "n \<le> k"
    using Some x by (auto elim: find_first_fit)
  have "n \<le> nr_free s"
    using inv nk bs by (auto simp: free_inv_def)
  moreover have "b \<notin> fst ` set as"
    using inv blocks_ok_first(1) [of as b k cs] by (simp add: free_inv_def bs)
  ultimately show ?thesis
    using Some x n nk inv take_block_inv [of s as b k cs n] alloc_scan_inv [OF inv, of n]
    by (simp add: default_alloc_pages_def bs carve_split)
qed

subsection \<open>Freeing refines giving a block back\<close>

definition releasable :: "nat \<Rightarrow> nat \<Rightarrow> mem \<Rightarrow> bool" where
  "releasable base n s \<longleftrightarrow> (\<forall>i \<in> {base ..< base + n}. \<not> PageReserved i s \<and> \<not> PageProperty i s)"

lemma free_page_loop_ok:
  assumes "releasable p k s"
  shows "\<exists>s'. free_page_loop p k s = Some s' \<and> free_links s' = free_links s \<and>
    nr_free s' = nr_free s \<and> (\<forall>q. property (pages s' q) = property (pages s q)) \<and>
    (\<forall>q. q \<notin> {p ..< p + k} \<longrightarrow> pages s' q = pages s q) \<and>
    (\<forall>q \<in> {p ..< p + k}. flags (pages s' q) = 0 \<and> ref (pages s' q) = 0)"
  using assms
proof (induction k arbitrary: p s)
  case 0
  then show ?case by auto
next
  case (Suc k)
  define t where "t = set_page_ref p 0 (upd_page p (\<lambda>d. d\<lparr>flags := 0\<rparr>) s)"
  have t: "pages t q = (if q = p then (pages s p)\<lparr>flags := 0, ref := 0\<rparr> else pages s q)"
    "free_links t = free_links s" "nr_free t = nr_free s" for q
    by (simp_all add: t_def set_page_ref_def)
  have "releasable (p + 1) k t"
    using Suc.prems by (auto simp: releasable_def t PageReserved_def PageProperty_def)
  from Suc.IH [OF this] obtain s' where s': "free_page_loop (p + 1) k t = Some s'"
    "free_links s' = free_links t" "nr_free s' = nr_free t"
    "\<And>q. property (pages s' q) = property (pages t q)"
    "\<And>q. q \<notin> {p + 1 ..< p + 1 + k} \<Longrightarrow> pages s' q = pages t q"
    "\<And>q. q \<in> {p + 1 ..< p + 1 + k} \<Longrightarrow> flags (pages s' q) = 0 \<and> ref (pages s' q) = 0"
    by blast
  have "free_page_loop p (Suc k) s = Some s'"
    using Suc.prems s'(1) by (simp add: releasable_def t_def)
  moreover have "flags (pages s' q) = 0 \<and> ref (pages s' q) = 0" if "q \<in> {p ..< p + Suc k}" for q
    using s'(5,6) [of q] that t(1) [of q] by (cases "q = p") auto
  moreover have "pages s' q = pages s q" if "q \<notin> {p ..< p + Suc k}" for q
    using s'(5) [of q] that t(1) [of q] by auto
  ultimately show ?case
    using s'(2-4) t by auto
qed

text \<open>The insertion, whenever the free list is empty or holds a block behind the new one.\<close>

lemma insert_block_ring:
  assumes dl: "dlist (free_links s) FreeHead (nodes (as @ cs))"
    and as: "\<forall>x \<in> set as. \<not> base < fst x" and cs: "\<forall>x \<in> set cs. base < fst x"
    and fresh: "base \<notin> fst ` set as" and room: "cs \<noteq> [] \<or> as = []"
  shows "\<exists>h. insert_block base s = Some (s\<lparr>free_links := h\<rparr>) \<and>
    dlist h FreeHead (nodes as @ PageLink base # nodes cs)"
proof (cases cs)
  case Nil
  with room dl have "dlist (free_links s) FreeHead []" by simp
  then show ?thesis
    using Nil room dl.push_front [of "free_links s" FreeHead "[]" "PageLink base"]
      dlist_empty [of "free_links s" FreeHead "[]"]
    by (auto simp: insert_block_def list_add_def upd_links_def)
next
  case (Cons x cs')
  obtain c l where x: "x = (c, l)" by (cases x)
  have "insert_loop base FreeHead (free_links s) =
      Some (list_add_before (PageLink c) (PageLink base) (free_links s))"
    using dl as cs Cons x by (intro insert_loop_before) (auto simp: dlist_def)
  moreover have "\<not> list_empty FreeHead (free_links s)"
    using dlist_empty [OF dl] Cons by simp
  moreover have "dlist (list_add_before (PageLink c) (PageLink base) (free_links s)) FreeHead
      (nodes as @ PageLink base # nodes cs)"
    by (rule dlist_add_before) (use dl fresh cs Cons x in auto)
  ultimately show ?thesis
    by (intro exI conjI) (auto simp: insert_block_def)
qed

lemma merge_prev_inv:
  assumes inv: "free_inv s (as @ (b, k) # cs)"
  shows "if as \<noteq> [] \<and> fst (last as) + snd (last as) = b
    then \<exists>s'. merge_prev b s = Some (fst (last as), s') \<and>
      free_inv s' (butlast as @ (fst (last as), snd (last as) + k) # cs)
    else merge_prev b s = Some (b, s)"
proof (cases as rule: rev_cases)
  case Nil
  with inv show ?thesis
    using dlist_prev_node [of "free_links s" FreeHead "[]" "PageLink b" "nodes cs"]
    by (auto simp: free_inv_def merge_prev_def Let_def)
next
  case (snoc us x)
  obtain a j where x: "x = (a, j)" by (cases x)
  have dl: "dlist (free_links s) FreeHead (nodes (us @ [(a, j)]) @ PageLink b # nodes cs)"
    and ok: "blocks_ok (us @ (a, j) # (b, k) # cs)"
    and sizes: "property (pages s a) = j" "property (pages s b) = k"
    and tot: "block_total us + (j + (k + block_total cs)) < 4294967296"
    using inv by (auto simp: free_inv_def snoc x)
  have prev: "list_prev (PageLink b) (free_links s) = PageLink a"
    using dlist_prev_node [OF dl] by simp
  show ?thesis
  proof (cases "a + j = b")
    case False
    with prev sizes show ?thesis
      by (simp add: merge_prev_def snoc x Let_def)
  next
    case True
    let ?s = "upd_links (list_del (PageLink b)) (ClearPageProperty b (set_property a (j + k) s))"
    have "merge_prev b s = Some (a, ?s)"
      using True prev sizes by (simp add: merge_prev_def Let_def)
    moreover have "dlist (list_del (PageLink b) (free_links s)) FreeHead
        (nodes (us @ [(a, j)]) @ nodes cs)"
      by (rule dlist_del [OF dl])
    moreover have "b \<notin> fst ` set us" "b \<notin> fst ` set cs" "a \<notin> fst ` set us" "a \<notin> fst ` set cs" "a \<noteq> b"
      using blocks_ok_first [of "us @ [(a, j)]" b k cs] blocks_ok_first [of us a j "(b, k) # cs"] ok
      by auto
    moreover have "blocks_ok (us @ (a, j + k) # cs)"
      using ok True by auto
    ultimately show ?thesis
      using True inv tot by (auto simp: snoc x free_inv_def image_iff)
  qed
qed

lemma merge_next_inv:
  assumes inv: "free_inv s (as @ (b, k) # cs)"
  shows "\<exists>s'. merge_next b s = Some s' \<and> free_inv s' (as @ join (b, k) cs)"
proof (cases cs)
  case Nil
  with inv show ?thesis
    using dlist_next_node [of "free_links s" FreeHead "nodes as" "PageLink b" "[]"]
    by (auto simp: free_inv_def merge_next_def Let_def)
next
  case (Cons x ds)
  obtain c l where x: "x = (c, l)" by (cases x)
  have dl: "dlist (free_links s) FreeHead ((nodes as @ [PageLink b]) @ PageLink c # nodes ds)"
    and ok: "blocks_ok (as @ (b, k) # (c, l) # ds)"
    and sizes: "property (pages s b) = k" "property (pages s c) = l"
    and tot: "block_total as + (k + (l + block_total ds)) < 4294967296"
    using inv by (auto simp: free_inv_def Cons x)
  have "next": "list_next (PageLink b) (free_links s) = PageLink c"
    using dlist_next_node [of "free_links s" FreeHead "nodes as" "PageLink b" "nodes cs"] dl
    by (simp add: Cons x)
  show ?thesis
  proof (cases "b + k = c")
    case False
    with "next" sizes inv show ?thesis
      by (simp add: merge_next_def Cons x Let_def)
  next
    case True
    let ?s = "upd_links (list_del (PageLink c)) (ClearPageProperty c (set_property b (k + l) s))"
    have "merge_next b s = Some ?s"
      using True "next" sizes by (simp add: merge_next_def Let_def)
    moreover have "dlist (list_del (PageLink c) (free_links s)) FreeHead
        ((nodes as @ [PageLink b]) @ nodes ds)"
      by (rule dlist_del [OF dl])
    moreover have "b \<notin> fst ` set as" "b \<notin> fst ` set ds" "c \<notin> fst ` set as" "c \<notin> fst ` set ds" "b \<noteq> c"
      using blocks_ok_first [of "as @ [(b, k)]" c l ds] blocks_ok_first [of as b k "(c, l) # ds"] ok
      by auto
    moreover have "blocks_ok (as @ (b, k + l) # ds)"
      using ok True by auto
    ultimately show ?thesis
      using True inv tot by (auto simp: Cons x free_inv_def image_iff)
  qed
qed

text \<open>
  The insertion goes right when the list is empty or its last block lies behind the new one:
  the condition is read off the \<open>prev\<close> pointer of the list head.
\<close>

definition has_room :: "nat \<Rightarrow> mem \<Rightarrow> bool" where
  "has_room base s =
     (case prv (free_links s) FreeHead of FreeHead \<Rightarrow> True | PageLink l \<Rightarrow> base < l)"

definition blocks_below :: "nat \<Rightarrow> blocks \<Rightarrow> blocks" where
  "blocks_below base bs = takeWhile (\<lambda>x. \<not> base < fst x) bs"

definition blocks_above :: "nat \<Rightarrow> blocks \<Rightarrow> blocks" where
  "blocks_above base bs = dropWhile (\<lambda>x. \<not> base < fst x) bs"

lemma below_above: "bs = blocks_below base bs @ blocks_above base bs"
  by (simp add: blocks_below_def blocks_above_def)

lemma below_not: "\<forall>x \<in> set (blocks_below base bs). \<not> base < fst x"
  by (auto simp: blocks_below_def split_beta dest: set_takeWhileD)

lemma above_all:
  assumes "blocks_ok bs"
  shows "\<forall>x \<in> set (blocks_above base bs). base < fst x"
proof (cases "blocks_above base bs")
  case (Cons c ds)
  have "blocks_ok (blocks_below base bs @ c # ds)"
    using assms below_above [of bs base] Cons by simp
  moreover have "base < fst c"
    using Cons by (simp add: blocks_above_def dropWhile_eq_Cons_conv)
  ultimately show ?thesis
    using Cons by (cases c) fastforce
qed simp

lemma has_room_above:
  assumes inv: "free_inv s bs" and room: "has_room base s"
  shows "blocks_above base bs \<noteq> [] \<or> blocks_below base bs = []"
proof (cases bs rule: rev_cases)
  case Nil
  then show ?thesis by (simp add: blocks_below_def)
next
  case (snoc us x)
  have "prv (free_links s) FreeHead = PageLink (fst x)"
    using inv dlist_last [of "free_links s" FreeHead "nodes bs"] snoc
    by (cases x) (simp add: free_inv_def)
  with room have "base < fst x" by (simp add: has_room_def)
  then have "\<not> (\<forall>y \<in> set bs. \<not> base < fst y)" using snoc by auto
  then show ?thesis
    using below_above [of bs base] below_not [of base bs] by (metis append_Nil2)
qed

lemma insert_block_inv:
  assumes inv: "free_inv s bs" and n: "0 < n" and room: "has_room base s"
    and disj: "{base ..< base + n} \<inter> block_pages bs = {}"
    and small: "block_total bs + n < 2 ^ 32"
    and same: "free_links t = free_links s" "nr_free t = nr_free s"
      "\<forall>q. q \<notin> {base ..< base + n} \<longrightarrow> pages t q = pages s q"
  shows "\<exists>s'. insert_block base (SetPageProperty base (set_property base n t)
      \<lparr>nr_free := add_u32 (nr_free s) n\<rparr>) = Some s' \<and>
    free_inv s' (blocks_below base bs @ (base, n) # blocks_above base bs)"
proof -
  let ?t = "SetPageProperty base (set_property base n t)\<lparr>nr_free := add_u32 (nr_free s) n\<rparr>"
  have ok: "blocks_ok bs" and dl: "dlist (free_links s) FreeHead (nodes bs)"
    and nr: "nr_free s = block_total bs"
    using inv by (auto simp: free_inv_def)
  have ok': "blocks_ok (blocks_below base bs @ (base, n) # blocks_above base bs)"
    unfolding blocks_below_def blocks_above_def by (rule insert_sorted [OF ok n disj])
  have outside: "fst x \<notin> {base ..< base + n}" if "x \<in> set bs" for x
    using that block_first_in [OF ok, of "fst x" "snd x"] disj by auto
  have keep: "pages ?t (fst x) = pages s (fst x)" if "x \<in> set bs" for x
    using outside [OF that] same(3) n
    by (auto simp: SetPageProperty_def set_property_def)
  then have sizes: "\<forall>x \<in> set bs. property (pages ?t (fst x)) = snd x \<and> PageProperty (fst x) ?t"
    using inv unfolding free_inv_def PageProperty_def by metis
  have set_bs: "set bs = set (blocks_below base bs) \<union> set (blocks_above base bs)"
    using below_above [of bs base] by (metis set_append)
  have total: "block_total (blocks_below base bs @ blocks_above base bs) = block_total bs"
    using below_above [of bs base] by simp
  have "\<exists>h. insert_block base ?t = Some (?t\<lparr>free_links := h\<rparr>) \<and>
      dlist h FreeHead (nodes (blocks_below base bs) @ PageLink base # nodes (blocks_above base bs))"
  proof (rule insert_block_ring)
    show "dlist (free_links ?t) FreeHead (nodes (blocks_below base bs @ blocks_above base bs))"
      using dl below_above [of bs base] same(1) by simp
    show "\<forall>x \<in> set (blocks_below base bs). \<not> base < fst x" by (rule below_not)
    show "\<forall>x \<in> set (blocks_above base bs). base < fst x" by (rule above_all [OF ok])
    show "base \<notin> fst ` set (blocks_below base bs)" by (rule blocks_ok_first(1) [OF ok'])
    show "blocks_above base bs \<noteq> [] \<or> blocks_below base bs = []" by (rule has_room_above [OF inv room])
  qed
  then obtain h where h: "insert_block base ?t = Some (?t\<lparr>free_links := h\<rparr>)"
    "dlist h FreeHead (nodes (blocks_below base bs) @ PageLink base # nodes (blocks_above base bs))"
    by blast
  have size_n: "property (pages ?t base) = n" "PageProperty base ?t" "nr_free ?t = block_total bs + n"
    using small nr by auto
  have "\<forall>x \<in> set (blocks_below base bs @ (base, n) # blocks_above base bs).
      property (pages ?t (fst x)) = snd x \<and> PageProperty (fst x) ?t"
    using sizes size_n set_bs by auto
  then have "free_inv (?t\<lparr>free_links := h\<rparr>) (blocks_below base bs @ (base, n) # blocks_above base bs)"
    using h(2) ok' total size_n(3) small
    by (simp add: free_inv_def PageProperty_def)
  with h(1) show ?thesis by blast
qed

lemma merge_blocks_inv:
  assumes inv: "free_inv s (blocks_below base bs @ (base, n) # blocks_above base bs)"
  shows "\<exists>b t s'. merge_prev base s = Some (b, t) \<and> merge_next b t = Some s' \<and>
    free_inv s' (give_back base n bs)"
proof (cases "blocks_below base bs \<noteq> [] \<and> fst (last (blocks_below base bs)) + snd (last (blocks_below base bs)) = base")
  case True
  let ?a = "fst (last (blocks_below base bs))" and ?j = "snd (last (blocks_below base bs))"
  obtain t where t: "merge_prev base s = Some (?a, t)"
    "free_inv t (butlast (blocks_below base bs) @ (?a, ?j + n) # blocks_above base bs)"
    using True merge_prev_inv [OF inv] by auto
  from True have "give_back base n bs = butlast (blocks_below base bs) @ join (?a, ?j + n) (blocks_above base bs)"
    by (simp add: give_back_def Let_def blocks_below_def [symmetric] blocks_above_def [symmetric])
  with t merge_next_inv [OF t(2)] show ?thesis by auto
next
  case False
  then have "merge_prev base s = Some (base, s)"
    and "give_back base n bs = blocks_below base bs @ join (base, n) (blocks_above base bs)"
    using merge_prev_inv [OF inv]
    by (auto simp: give_back_def blocks_below_def [symmetric] blocks_above_def [symmetric] split: if_splits)
  with merge_next_inv [OF inv] show ?thesis by auto
qed

lemma default_free_inv:
  assumes inv: "free_inv s bs" and n: "0 < n" and rel: "releasable base n s"
    and room: "has_room base s" and disj: "{base ..< base + n} \<inter> block_pages bs = {}"
    and small: "nr_free s + n < 2 ^ 32"
  shows "\<exists>s'. default_free_pages base n s = Some s' \<and> free_inv s' (give_back base n bs)"
proof -
  obtain t where t: "free_page_loop base n s = Some t" "free_links t = free_links s"
    "nr_free t = nr_free s" "\<forall>q. q \<notin> {base ..< base + n} \<longrightarrow> pages t q = pages s q"
    using free_page_loop_ok [OF rel] by blast
  have "block_total bs + n < 2 ^ 32"
    using small inv by (simp add: free_inv_def)
  from insert_block_inv [OF inv n room disj this t(2-4)] obtain u
    where u: "insert_block base (SetPageProperty base (set_property base n t)
      \<lparr>nr_free := add_u32 (nr_free s) n\<rparr>) = Some u"
      "free_inv u (blocks_below base bs @ (base, n) # blocks_above base bs)"
    by blast
  from merge_blocks_inv [OF u(2)] show ?thesis
    using n t u(1) by (auto simp: default_free_pages_def Let_def)
qed

text \<open>\<open>default_init_memmap\<close> inserts the whole range as one block and merges nothing.\<close>

lemma init_page_loop_ok:
  assumes "\<forall>i \<in> {p ..< p + k}. PageReserved i s"
  shows "\<exists>s'. init_page_loop p k s = Some s' \<and> free_links s' = free_links s \<and>
    nr_free s' = nr_free s \<and> (\<forall>q. q \<notin> {p ..< p + k} \<longrightarrow> pages s' q = pages s q) \<and>
    (\<forall>q \<in> {p ..< p + k}. flags (pages s' q) = 0 \<and> ref (pages s' q) = 0 \<and>
      property (pages s' q) = 0)"
  using assms
proof (induction k arbitrary: p s)
  case 0
  then show ?case by auto
next
  case (Suc k)
  define t where "t = set_page_ref p 0 (upd_page p (\<lambda>d. d\<lparr>property := 0, flags := 0\<rparr>) s)"
  have t: "pages t q = (if q = p then (pages s p)\<lparr>property := 0, flags := 0, ref := 0\<rparr> else pages s q)"
    "free_links t = free_links s" "nr_free t = nr_free s" for q
    by (simp_all add: t_def set_page_ref_def)
  have "\<forall>i \<in> {p + 1 ..< p + 1 + k}. PageReserved i t"
    using Suc.prems by (auto simp: t PageReserved_def)
  from Suc.IH [OF this] obtain s' where s': "init_page_loop (p + 1) k t = Some s'"
    "free_links s' = free_links t" "nr_free s' = nr_free t"
    "\<And>q. q \<notin> {p + 1 ..< p + 1 + k} \<Longrightarrow> pages s' q = pages t q"
    "\<And>q. q \<in> {p + 1 ..< p + 1 + k} \<Longrightarrow>
      flags (pages s' q) = 0 \<and> ref (pages s' q) = 0 \<and> property (pages s' q) = 0"
    by blast
  have "init_page_loop p (Suc k) s = Some s'"
    using Suc.prems s'(1) by (simp add: t_def)
  moreover have "flags (pages s' q) = 0 \<and> ref (pages s' q) = 0 \<and> property (pages s' q) = 0"
    if "q \<in> {p ..< p + Suc k}" for q
    using s'(4,5) [of q] that t(1) [of q] by (cases "q = p") auto
  moreover have "pages s' q = pages s q" if "q \<notin> {p ..< p + Suc k}" for q
    using s'(4) [of q] that t(1) [of q] by auto
  ultimately show ?case
    using s'(2,3) t by auto
qed

lemma default_init_memmap_inv:
  assumes inv: "free_inv s bs" and n: "0 < n"
    and reserved: "\<forall>i \<in> {base ..< base + n}. PageReserved i s"
    and room: "has_room base s" and disj: "{base ..< base + n} \<inter> block_pages bs = {}"
    and small: "nr_free s + n < 2 ^ 32"
  shows "\<exists>s'. default_init_memmap base n s = Some s' \<and>
    free_inv s' (blocks_below base bs @ (base, n) # blocks_above base bs)"
proof -
  obtain t where t: "init_page_loop base n s = Some t" "free_links t = free_links s"
    "nr_free t = nr_free s" "\<forall>q. q \<notin> {base ..< base + n} \<longrightarrow> pages t q = pages s q"
    using init_page_loop_ok [OF reserved] by blast
  have "block_total bs + n < 2 ^ 32"
    using small inv by (simp add: free_inv_def)
  from insert_block_inv [OF inv n room disj this t(2-4)] show ?thesis
    using n t(1,3) by (simp add: default_init_memmap_def Let_def)
qed

lemma default_init_inv: "free_inv (default_init s) []"
  by (simp add: free_inv_def default_init_def dlist_init)

subsection \<open>The manager meets the contract where insertion has room\<close>

interpretation ff: page_allocator free_inv default_alloc_pages default_free_pages
  "\<lambda>base n s. releasable base n s \<and> has_room base s \<and> nr_free s + n < 2 ^ 32"
proof unfold_locales
  fix s bs and n :: nat
  assume inv: "free_inv s bs"
  then show "blocks_ok bs" by (simp add: free_inv_def)
  assume n: "0 < n"
  show "default_alloc_pages n s = Some (None, s) \<or>
    (\<exists>p k s'. default_alloc_pages n s = Some (Some p, s') \<and> (p, k) \<in> set bs \<and> n \<le> k \<and>
      free_inv s' (carve p n bs))"
    using default_alloc_inv [OF inv n]
    by (auto split: option.splits elim!: find_first_fit)
qed (blast intro: default_free_inv)

subsection \<open>What goes wrong behind the last block\<close>

lemma default_free_tail:
  assumes inv: "free_inv s bs" and bs: "bs = us @ [(a, j)]" and n: "0 < n"
    and rel: "releasable base n s" and small: "n < 2 ^ 32"
    and behind: "\<forall>x \<in> set bs. fst x + snd x \<le> base"
  shows "\<exists>s'. default_free_pages base n s = Some s' \<and>
    nr_free s' = add_u32 (nr_free s) n \<and> property (pages s' base) = n \<and>
    (\<forall>x \<in> set bs. property (pages s' (fst x)) = snd x) \<and>
    free_links s' = list_add (PageLink base) (PageLink base)
      (list_add (PageLink a) (PageLink base) (free_links s))"
proof -
  obtain t where t: "free_page_loop base n s = Some t" "free_links t = free_links s"
    "nr_free t = nr_free s" "\<forall>q. property (pages t q) = property (pages s q)"
    using free_page_loop_ok [OF rel] by blast
  let ?t = "SetPageProperty base (set_property base n t)\<lparr>nr_free := add_u32 (nr_free s) n\<rparr>"
  let ?h = "list_add (PageLink base) (PageLink base)
      (list_add (PageLink a) (PageLink base) (free_links s))"
  have ok: "blocks_ok bs" and dl: "dlist (free_links s) FreeHead (nodes bs)"
    using inv by (auto simp: free_inv_def)
  have less: "\<forall>x \<in> set bs. fst x < base"
    using behind blocks_ok_pos [OF ok] by fastforce
  have "insert_loop base FreeHead (free_links s) = Some ?h"
    by (rule insert_loop_tail [where as = us and j = j])
      (use dl less bs in \<open>auto simp: dlist_def not_less less_imp_le\<close>)
  moreover have "\<not> list_empty FreeHead (free_links s)"
    using dlist_empty [OF dl] bs by simp
  ultimately have ins: "insert_block base ?t = Some (?t\<lparr>free_links := ?h\<rparr>)"
    using t(2) by (simp add: insert_block_def)
  have last_next: "nxt (free_links s) (PageLink a) = FreeHead"
    using dlist_next_node [of "free_links s" FreeHead "nodes us" "PageLink a" "[]"] dl bs
    by (simp add: list_next_def)
  have ab: "a \<noteq> base" using less bs by auto
  have "prv ?h (PageLink base) = PageLink base" "nxt ?h (PageLink base) = FreeHead"
    using last_next ab by (auto simp: list_op_defs)
  then have "merge_prev base (?t\<lparr>free_links := ?h\<rparr>) = Some (base, ?t\<lparr>free_links := ?h\<rparr>)"
    and "merge_next base (?t\<lparr>free_links := ?h\<rparr>) = Some (?t\<lparr>free_links := ?h\<rparr>)"
    using n small by (simp_all add: merge_prev_def merge_next_def Let_def list_next_def list_prev_def)
  with ins t n have "default_free_pages base n s = Some (?t\<lparr>free_links := ?h\<rparr>)"
    by (simp add: default_free_pages_def Let_def)
  moreover have "\<forall>x \<in> set bs. fst x \<noteq> base"
    using less by auto
  ultimately show ?thesis
    using small t(4) inv by (auto simp: free_inv_def)
qed

text \<open>
  After such a \<open>free_pages\<close> the ring is no list any more: the last node's \<open>prev\<close> points to
  itself. A block that is larger than all others is then found by every scan, and unlinking it
  unlinks nothing.
\<close>

lemma tail_ring_broken:
  assumes dl: "dlist h FreeHead (nodes (us @ [(a, j)]))" and ab: "a \<noteq> base"
    and fresh: "base \<notin> fst ` set us"
    and h': "h' = list_add (PageLink base) (PageLink base) (list_add (PageLink a) (PageLink base) h)"
  shows "dseg h' FreeHead (nodes us) (PageLink a)"
    and "nxt h' (PageLink a) = PageLink base" and "nxt h' (PageLink base) = FreeHead"
    and "prv h' (PageLink base) = PageLink base" and "prv h' FreeHead = PageLink base"
proof -
  have last_next: "nxt h (PageLink a) = FreeHead"
    using dlist_next_node [of h FreeHead "nodes us" "PageLink a" "[]"] dl
    by (simp add: list_next_def)
  then show "nxt h' (PageLink a) = PageLink base" "nxt h' (PageLink base) = FreeHead"
    "prv h' (PageLink base) = PageLink base" "prv h' FreeHead = PageLink base"
    using ab by (auto simp: h' list_op_defs)
  have "dseg h FreeHead (nodes us) (PageLink a)" and "a \<notin> fst ` set us"
    using dl by (auto simp: dlist_def)
  then show "dseg h' FreeHead (nodes us) (PageLink a)"
    using last_next ab fresh
    by (subst dseg_frame [where h = h]) (auto simp: h' list_op_defs)
qed

text \<open>The scan over the damaged ring: the blocks of \<open>bs\<close> are too small, the one at \<open>base\<close> fits.\<close>

lemma alloc_scan_tail:
  assumes "dseg h le (nodes us) (PageLink a)" and "nxt h (PageLink a) = PageLink base"
    and "h = free_links s" and "\<forall>x \<in> set us. property (pages s (fst x)) < n"
    and "property (pages s a) < n" and "n \<le> property (pages s base)"
  shows "alloc_scan n le s = Some (Some base)"
  using assms
proof (induction us arbitrary: le)
  case Nil
  have "alloc_scan n (PageLink a) s = Some (Some base)"
    using Nil.prems by (subst alloc_scan.simps) (simp add: list_next_def)
  with Nil.prems show ?case
    by (subst alloc_scan.simps) (simp add: list_next_def)
next
  case (Cons x us)
  obtain b k where x: "x = (b, k)" by (cases x)
  have "alloc_scan n (PageLink b) s = Some (Some base)"
    using Cons x by auto
  with Cons.prems x show ?case
    by (subst alloc_scan.simps) (simp add: list_next_def)
qed

lemma take_tail:
  assumes "prv (free_links s) (PageLink base) = PageLink base"
    and "nxt (free_links s) (PageLink base) = FreeHead" and "property (pages s base) = n"
  shows "take_block base n s = ClearPageProperty base
    (upd_links (set_prv FreeHead (PageLink base) \<circ> set_nxt (PageLink base) FreeHead) s
      \<lparr>nr_free := sub_u32 (nr_free s) n\<rparr>)"
  using assms
  by (simp add: take_block_def Let_def list_del_def list_del_between_def upd_links_def)

lemma alloc_tail_again:
  assumes seg: "dseg (free_links s) FreeHead (nodes us) (PageLink a)"
    and links: "nxt (free_links s) (PageLink a) = PageLink base"
      "nxt (free_links s) (PageLink base) = FreeHead"
      "prv (free_links s) (PageLink base) = PageLink base"
    and small: "\<forall>x \<in> set us. property (pages s (fst x)) < n" "property (pages s a) < n"
    and fits: "property (pages s base) = n" and n: "0 < n" "n \<le> nr_free s" "a \<noteq> base"
      "base \<notin> fst ` set us"
  shows "\<exists>s'. default_alloc_pages n s = Some (Some base, s') \<and>
    nr_free s' = sub_u32 (nr_free s) n \<and> pages s' = pages (ClearPageProperty base s) \<and>
    dseg (free_links s') FreeHead (nodes us) (PageLink a) \<and>
    nxt (free_links s') (PageLink a) = PageLink base \<and>
    nxt (free_links s') (PageLink base) = FreeHead \<and>
    prv (free_links s') (PageLink base) = PageLink base"
proof -
  let ?s = "take_block base n s"
  have "alloc_scan n FreeHead s = Some (Some base)"
    by (rule alloc_scan_tail [OF seg links(1)]) (use small fits in auto)
  with n have alloc: "default_alloc_pages n s = Some (Some base, ?s)"
    by (simp add: default_alloc_pages_def)
  have links': "free_links ?s = set_prv FreeHead (PageLink base) (set_nxt (PageLink base) FreeHead
      (free_links s))"
    and rest: "nr_free ?s = sub_u32 (nr_free s) n" "pages ?s = pages (ClearPageProperty base s)"
    using take_tail [OF links(3,2) fits] by (simp_all add: ClearPageProperty_def)
  have "dseg (free_links ?s) FreeHead (nodes us) (PageLink a)"
    using seg n by (subst dseg_frame [where h = "free_links s"]) (auto simp: links')
  then show ?thesis
    using alloc rest links n by (intro exI [of _ ?s]) (simp add: links')
qed

subsection \<open>Properties\<close>

text \<open>C4. \<open>default_alloc_pages\<close> is first fit: on a well-formed free list it returns the first page of
  the first block with at least \<open>n\<close> pages, puts the unused tail of the block back in its place and
  lowers \<open>nr_free\<close> by \<open>n\<close>; when no block is large enough it returns \<open>NULL\<close> and changes nothing.\<close>

theorem default_alloc_first_fit:
  assumes "free_inv s bs" and "0 < n"
  shows "case find (\<lambda>(b, k). n \<le> k) bs of
      None \<Rightarrow> default_alloc_pages n s = Some (None, s)
    | Some (b, k) \<Rightarrow> \<exists>s'. default_alloc_pages n s = Some (Some b, s') \<and>
        free_inv s' (carve b n bs) \<and> nr_free s = nr_free s' + n"
proof (cases "find (\<lambda>(b, k). n \<le> k) bs")
  case None
  with default_alloc_inv [OF assms] show ?thesis by simp
next
  case (Some x)
  obtain b k where x: "x = (b, k)" by (cases x)
  have s': "default_alloc_pages n s = Some (Some b, take_block b n s)"
    "free_inv (take_block b n s) (carve b n bs)"
    using default_alloc_inv [OF assms] Some x by simp_all
  have "(b, k) \<in> set bs" "n \<le> k"
    using Some x by (auto elim!: find_first_fit)
  then have "block_total bs = n + block_total (carve b n bs)"
    using assms carve_pages(4) by (auto simp: free_inv_def)
  then have "nr_free s = nr_free (take_block b n s) + n"
    using assms(1) s'(2) by (simp add: free_inv_def)
  with s' Some x show ?thesis by auto
qed

text \<open>A well-formed memory to instantiate the properties at: two free blocks, page 0 and page 2.\<close>

definition two_blocks :: mem where
  "two_blocks =
     \<lparr>pages = (\<lambda>_. \<lparr>ref = 0, flags = 0, property = 0, pra_vaddr = 0\<rparr>)
        (0 := \<lparr>ref = 0, flags = 2, property = 1, pra_vaddr = 0\<rparr>,
         2 := \<lparr>ref = 0, flags = 2, property = 1, pra_vaddr = 0\<rparr>),
      free_links =
        \<lparr>prv = id(FreeHead := PageLink 2, PageLink 2 := PageLink 0, PageLink 0 := FreeHead),
         nxt = id(FreeHead := PageLink 0, PageLink 0 := PageLink 2, PageLink 2 := FreeHead)\<rparr>,
      nr_free = 2\<rparr>"

lemma two_blocks_inv: "free_inv two_blocks [(0, 1), (2, 1)]"
  by (simp add: free_inv_def two_blocks_def dlist_def PageProperty_def PG_property_def)

lemma two_blocks_nr_free: "nr_free two_blocks = 2"
  by (simp add: two_blocks_def)

theorem default_alloc_first_fit_witness:
  "\<exists>s'. default_alloc_pages 1 two_blocks = Some (Some 0, s') \<and> free_inv s' [(2, 1)]"
  using default_alloc_first_fit [OF two_blocks_inv, of 1] by (auto simp: rest_block_def)

text \<open>C5. \<open>default_free_pages\<close> gives a block of released pages back: when the free list is empty or
  its last block lies behind the new one, the block is inserted in address order and merged with
  both neighbours it touches; exactly its pages become free.\<close>

theorem default_free_gives_back:
  assumes "free_inv s bs" and "0 < n" and "releasable base n s" and "has_room base s"
    and "{base ..< base + n} \<inter> block_pages bs = {}" and "nr_free s + n < 2 ^ 32"
  shows "\<exists>s'. default_free_pages base n s = Some s' \<and> free_inv s' (give_back base n bs) \<and>
    block_pages (give_back base n bs) = block_pages bs \<union> {base ..< base + n} \<and>
    nr_free s' = nr_free s + n"
proof -
  have "blocks_ok bs" and "nr_free s = block_total bs"
    using assms(1) by (auto simp: free_inv_def)
  with default_free_inv [OF assms] give_back_cases [OF _ assms(2,5)] show ?thesis
    by (auto simp: free_inv_def)
qed

lemma two_blocks_released: "releasable 1 1 two_blocks" "has_room 1 two_blocks"
  by (auto simp: releasable_def two_blocks_def PageProperty_def PageReserved_def has_room_def)

theorem default_free_gives_back_witness:
  "\<exists>s'. default_free_pages 1 1 two_blocks = Some s' \<and> free_inv s' [(0, 3)]"
proof -
  have "{1 ..< 1 + 1} \<inter> block_pages [(0, 1), (2, 1)] = {}"
    and "give_back 1 1 [(0, 1), (2, 1)] = [(0, 3)]"
    by (auto simp: give_back_def)
  with default_free_gives_back [OF two_blocks_inv _ two_blocks_released]
  show ?thesis by (auto simp: two_blocks_nr_free)
qed

text \<open>Freeing what was just allocated restores the set of free pages and their number.\<close>

theorem default_alloc_free_roundtrip:
  assumes "free_inv s bs" and "0 < n" and "default_alloc_pages n s = Some (Some p, s1)"
    and "releasable p n s1" and "has_room p s1" and "nr_free s1 + n < 2 ^ 32"
  shows "\<exists>s2 bs2. default_free_pages p n s1 = Some s2 \<and> free_inv s2 bs2 \<and>
    block_pages bs2 = block_pages bs \<and> nr_free s2 = nr_free s"
proof -
  from ff.alloc_free_pages [OF assms(1-3)] assms(4-6) obtain s2 bs2
    where s2: "default_free_pages p n s1 = Some s2" "free_inv s2 bs2"
      "block_pages bs2 = block_pages bs" "block_total bs2 = block_total bs"
    by blast
  with assms(1) show ?thesis by (auto simp: free_inv_def)
qed

lemma two_blocks_alloc:
  "default_alloc_pages 1 two_blocks = Some (Some 0, take_block 0 1 two_blocks)"
  using default_alloc_inv [OF two_blocks_inv, of 1] by simp

theorem default_alloc_free_roundtrip_witness:
  "\<exists>s2 bs2. default_free_pages 0 1 (take_block 0 1 two_blocks) = Some s2 \<and> free_inv s2 bs2 \<and>
    block_pages bs2 = {0, 2} \<and> nr_free s2 = 2"
proof -
  have "releasable 0 1 (take_block 0 1 two_blocks)" "has_room 0 (take_block 0 1 two_blocks)"
    and "nr_free (take_block 0 1 two_blocks) + 1 < 2 ^ 32"
    by (simp_all add: releasable_def PageReserved_def PageProperty_def page_flag_defs has_room_def
        take_block_def two_blocks_def list_op_defs Let_def)
  from default_alloc_free_roundtrip [OF two_blocks_inv _ two_blocks_alloc this]
  obtain s2 bs2 where "default_free_pages 0 1 (take_block 0 1 two_blocks) = Some s2"
    "free_inv s2 bs2" "block_pages bs2 = block_pages [(0, 1), (2, 1)]" "nr_free s2 = 2"
    by (auto simp: two_blocks_nr_free)
  moreover have "block_pages [(0, 1), (2, 1)] = {0, 2}" by auto
  ultimately show ?thesis by blast
qed

text \<open>On a well-formed free list two consecutive allocations never share a page.\<close>

theorem default_allocs_disjoint:
  assumes "free_inv s bs" and "0 < n" and "default_alloc_pages n s = Some (Some p, s1)"
    and "0 < m" and "default_alloc_pages m s1 = Some (Some q, s2)"
  shows "{p ..< p + n} \<inter> {q ..< q + m} = {}"
  by (rule ff.alloc_twice_disjoint [OF assms])

theorem default_allocs_disjoint_witness:
  "{0 ..< 0 + 1} \<inter> {2 ..< 2 + 1} = ({} :: nat set)"
proof -
  have "free_inv (take_block 0 1 two_blocks) [(2, 1)]"
    using default_alloc_inv [OF two_blocks_inv, of 1] by (simp add: rest_block_def)
  then have "default_alloc_pages 1 (take_block 0 1 two_blocks) =
      Some (Some 2, take_block 2 1 (take_block 0 1 two_blocks))"
    using default_alloc_inv [of _ "[(2, 1)]" 1] by fastforce
  from default_allocs_disjoint [OF two_blocks_inv _ two_blocks_alloc _ this] show ?thesis by simp
qed

text \<open>A block freed behind the last block of a non-empty free list leaves a list that is no
  longer well formed, whatever its contents: the insertion loop of \<open>default_free_pages\<close> (and of
  \<open>default_init_memmap\<close>) does not leave after inserting at the end.\<close>

theorem default_free_behind_last_breaks_list:
  assumes "free_inv s bs" and "bs \<noteq> []" and "0 < n" and "n < 2 ^ 32" and "releasable base n s"
    and "\<forall>x \<in> set bs. fst x + snd x \<le> base"
  shows "\<exists>s'. default_free_pages base n s = Some s' \<and> \<not> (\<exists>bs'. free_inv s' bs')"
proof -
  obtain us a j where bs: "bs = us @ [(a, j)]"
    using assms(2) by (metis prod.exhaust rev_exhaust)
  obtain s' where s': "default_free_pages base n s = Some s'"
    "free_links s' = list_add (PageLink base) (PageLink base)
      (list_add (PageLink a) (PageLink base) (free_links s))"
    using default_free_tail [OF assms(1) bs assms(3,5,4,6)] by blast
  have ok: "blocks_ok bs" and dl: "dlist (free_links s) FreeHead (nodes (us @ [(a, j)]))"
    using assms(1) bs by (auto simp: free_inv_def)
  have fresh: "a \<noteq> base" "base \<notin> fst ` set us"
    using assms(6) ok bs by (fastforce dest: blocks_ok_pos)+
  note broken = tail_ring_broken [OF dl fresh s'(2)]
  have "\<not> free_inv s' bs'" for bs'
  proof
    assume "free_inv s' bs'"
    then have dl': "dlist (free_links s') FreeHead (nodes bs')" by (simp add: free_inv_def)
    with broken(5) have "last (FreeHead # nodes bs') = PageLink base"
      by (simp add: dlist_last)
    then obtain ns where ns: "nodes bs' = ns @ [PageLink base]"
      by (metis append_butlast_last_id last.simps pnode.distinct(1))
    with dl' have "prv (free_links s') (PageLink base) = last (FreeHead # ns)"
      and "distinct (FreeHead # ns @ [PageLink base])"
      using dlist_split_links(1) [of "free_links s'" FreeHead ns "PageLink base" "[]"]
        dlist_distinct [OF dl'] by auto
    with broken(4) show False by (cases ns rule: rev_cases) auto
  qed
  with s'(1) show ?thesis by blast
qed

lemma two_blocks_tail: "releasable 4 2 two_blocks"
  by (auto simp: releasable_def two_blocks_def PageProperty_def PageReserved_def)

theorem default_free_behind_last_breaks_list_witness:
  "\<exists>s'. default_free_pages 4 2 two_blocks = Some s' \<and> \<not> (\<exists>bs'. free_inv s' bs')"
  by (rule default_free_behind_last_breaks_list [OF two_blocks_inv _ _ _ two_blocks_tail]) auto

text \<open>C25. The consequence: when the block freed behind the last one is larger than every other
  block, and the free list still counts enough pages, two later allocations of its size both
  return it. The same pages are handed out twice.\<close>

theorem default_double_allocation:
  assumes "free_inv s bs" and "bs \<noteq> []" and "0 < n" and "releasable base n s"
    and "\<forall>x \<in> set bs. fst x + snd x \<le> base" and "\<forall>x \<in> set bs. snd x < n"
    and "n \<le> nr_free s" and "nr_free s + n < 2 ^ 32"
  shows "\<exists>s1 s2 s3. default_free_pages base n s = Some s1 \<and>
    default_alloc_pages n s1 = Some (Some base, s2) \<and>
    default_alloc_pages n s2 = Some (Some base, s3)"
proof -
  obtain us a j where bs: "bs = us @ [(a, j)]"
    using assms(2) by (metis prod.exhaust rev_exhaust)
  have small: "n < 2 ^ 32" using assms(8) by simp
  obtain s1 where s1: "default_free_pages base n s = Some s1"
    "nr_free s1 = nr_free s + n" "property (pages s1 base) = n"
    "\<forall>x \<in> set bs. property (pages s1 (fst x)) = snd x"
    "free_links s1 = list_add (PageLink base) (PageLink base)
      (list_add (PageLink a) (PageLink base) (free_links s))"
    using default_free_tail [OF assms(1) bs assms(3,4) small assms(5)] assms(8) by auto
  have ok: "blocks_ok bs" and dl: "dlist (free_links s) FreeHead (nodes (us @ [(a, j)]))"
    using assms(1) bs by (auto simp: free_inv_def)
  have fresh: "a \<noteq> base" "base \<notin> fst ` set us"
    using assms(5) ok bs by (fastforce dest: blocks_ok_pos)+
  note broken = tail_ring_broken [OF dl fresh s1(5)]
  have less: "\<forall>x \<in> set us. property (pages s1 (fst x)) < n" "property (pages s1 a) < n"
    using s1(4) assms(6) bs by auto
  obtain s2 where s2: "default_alloc_pages n s1 = Some (Some base, s2)"
    "nr_free s2 = sub_u32 (nr_free s1) n" "pages s2 = pages (ClearPageProperty base s1)"
    "dseg (free_links s2) FreeHead (nodes us) (PageLink a)"
    "nxt (free_links s2) (PageLink a) = PageLink base"
    "nxt (free_links s2) (PageLink base) = FreeHead"
    "prv (free_links s2) (PageLink base) = PageLink base"
    using alloc_tail_again [OF broken(1-4) less s1(3) assms(3) _ fresh] s1(2) by auto
  have "n \<le> nr_free s2" using s2(2) s1(2) assms(7,8) by simp
  with alloc_tail_again [OF s2(4-7) _ _ _ assms(3) _ fresh] less s1(1,3) s2(1,3)
  show ?thesis by fastforce
qed

theorem default_double_allocation_witness:
  "\<exists>s1 s2 s3. default_free_pages 4 2 two_blocks = Some s1 \<and>
    default_alloc_pages 2 s1 = Some (Some 4, s2) \<and> default_alloc_pages 2 s2 = Some (Some 4, s3)"
  by (rule default_double_allocation [OF two_blocks_inv _ _ two_blocks_tail])
    (auto simp: two_blocks_def)

end
