(* ===== verification/Best_Fit.thy ===== *)
theory Best_Fit
  imports Pmm_Default
begin

text \<open>
  The best-fit physical memory manager of lab2/kern/mm/best_fit_pmm.c. Its insertion, its merging and the
  way it takes pages from a block are those of the first-fit manager, so they refine the same abstract
  operations; the search is its own. It looks for the smallest block that is large enough, starting from a
  bound of 999999 pages, and so never takes a block of that size or more.
\<close>

subsection \<open>The operations\<close>

definition best_fit_init :: "mem \<Rightarrow> mem" where
  "best_fit_init s = upd_links (list_init FreeHead) (s\<lparr>nr_free := 0\<rparr>)"

definition best_fit_init_memmap :: "nat \<Rightarrow> nat \<Rightarrow> mem \<Rightarrow> mem option" where
  "best_fit_init_memmap base n s = do {
     kassert (n > 0);
     s \<leftarrow> init_page_loop base n s;
     let s = SetPageProperty base (set_property base n s);
     let s = s\<lparr>nr_free := add_u32 (nr_free s) n\<rparr>;
     insert_block base s
   }"

text \<open>The loop over the free list with \<open>le\<close>, \<open>min_property\<close> and \<open>page\<close>. \<open>min_property\<close> is an \<open>int\<close> that starts
  at 999999 and only becomes smaller, so its comparison with the unsigned \<open>property\<close> is that of the numbers.\<close>

partial_function (option) best_fit_scan :: "nat \<Rightarrow> pnode \<Rightarrow> nat \<Rightarrow> nat option \<Rightarrow> mem \<Rightarrow> nat option option" where
  "best_fit_scan n le min_property page s =
     (let le = list_next le (free_links s) in
      if le = FreeHead then Some page
      else do {
        p \<leftarrow> le2page le;
        if property (pages s p) \<ge> n \<and> property (pages s p) < min_property
        then best_fit_scan n le (property (pages s p)) (Some p) s
        else best_fit_scan n le min_property page s
      })"

declare best_fit_scan.simps [code]

definition best_fit_alloc_pages :: "nat \<Rightarrow> mem \<Rightarrow> (nat option \<times> mem) option" where
  "best_fit_alloc_pages n s = do {
     kassert (n > 0);
     if n > nr_free s then Some (None, s)
     else do {
       page \<leftarrow> best_fit_scan n FreeHead 999999 None s;
       (case page of
          None \<Rightarrow> Some (None, s)
        | Some page \<Rightarrow> Some (Some page, take_block page n s))
     }
   }"

definition best_fit_free_pages :: "nat \<Rightarrow> nat \<Rightarrow> mem \<Rightarrow> mem option" where
  "best_fit_free_pages base n s = do {
     kassert (n > 0);
     s \<leftarrow> free_page_loop base n s;
     let s = SetPageProperty base (set_property base n s);
     let s = s\<lparr>nr_free := add_u32 (nr_free s) n\<rparr>;
     s \<leftarrow> insert_block base s;
     (base, s) \<leftarrow> merge_prev base s;
     merge_next base s
   }"

definition best_fit_nr_free_pages :: "mem \<Rightarrow> nat" where
  "best_fit_nr_free_pages s = nr_free s"

definition best_alloc_some :: "nat \<Rightarrow> mem \<Rightarrow> (nat \<times> mem) option" where
  "best_alloc_some n s = do {
     (p, s) \<leftarrow> best_fit_alloc_pages n s;
     (case p of None \<Rightarrow> None | Some p \<Rightarrow> Some (p, s))
   }"

definition best_alloc_none :: "nat \<Rightarrow> mem \<Rightarrow> mem option" where
  "best_alloc_none n s = do {
     (p, s) \<leftarrow> best_fit_alloc_pages n s;
     kassert (p = None);
     Some s
   }"

definition best_basic_check :: "nat \<Rightarrow> nat \<Rightarrow> mem \<Rightarrow> mem option" where
  "best_basic_check nbase npage s = do {
     (p0, s) \<leftarrow> best_alloc_some 1 s;
     (p1, s) \<leftarrow> best_alloc_some 1 s;
     (p2, s) \<leftarrow> best_alloc_some 1 s;
     kassert (p0 \<noteq> p1 \<and> p0 \<noteq> p2 \<and> p1 \<noteq> p2);
     kassert (page_ref p0 s = 0 \<and> page_ref p1 s = 0 \<and> page_ref p2 s = 0);
     kassert ((p0 + nbase) * 4096 < npage * 4096);
     kassert ((p1 + nbase) * 4096 < npage * 4096);
     kassert ((p2 + nbase) * 4096 < npage * 4096);
     let store = save_list s;
     let s = upd_links (list_init FreeHead) s;
     kassert (list_empty FreeHead (free_links s));
     let s = s\<lparr>nr_free := 0\<rparr>;
     s \<leftarrow> best_alloc_none 1 s;
     s \<leftarrow> best_fit_free_pages p0 1 s;
     s \<leftarrow> best_fit_free_pages p1 1 s;
     s \<leftarrow> best_fit_free_pages p2 1 s;
     kassert (nr_free s = 3);
     (p0, s) \<leftarrow> best_alloc_some 1 s;
     (p1, s) \<leftarrow> best_alloc_some 1 s;
     (p2, s) \<leftarrow> best_alloc_some 1 s;
     s \<leftarrow> best_alloc_none 1 s;
     s \<leftarrow> best_fit_free_pages p0 1 s;
     kassert (\<not> list_empty FreeHead (free_links s));
     (p, s) \<leftarrow> best_alloc_some 1 s;
     kassert (p = p0);
     s \<leftarrow> best_alloc_none 1 s;
     kassert (nr_free s = 0);
     let s = restore_list store s;
     s \<leftarrow> best_fit_free_pages p 1 s;
     s \<leftarrow> best_fit_free_pages p1 1 s;
     best_fit_free_pages p2 1 s
   }"

definition best_fit_check :: "nat \<Rightarrow> nat \<Rightarrow> mem \<Rightarrow> mem option" where
  "best_fit_check nbase npage s = do {
     (count, total) \<leftarrow> count_walk True FreeHead s;
     kassert (total = best_fit_nr_free_pages s);
     s \<leftarrow> best_basic_check nbase npage s;
     (p0, s) \<leftarrow> best_alloc_some 5 s;
     kassert (\<not> PageProperty p0 s);
     let free_list_store = save_list s;
     let s = upd_links (list_init FreeHead) s;
     kassert (list_empty FreeHead (free_links s));
     s \<leftarrow> best_alloc_none 1 s;
     let s = s\<lparr>nr_free := 0\<rparr>;
     s \<leftarrow> best_fit_free_pages (p0 + 1) 2 s;
     s \<leftarrow> best_fit_free_pages (p0 + 4) 1 s;
     s \<leftarrow> best_alloc_none 4 s;
     kassert (PageProperty (p0 + 1) s \<and> property (pages s (p0 + 1)) = 2);
     (p1, s) \<leftarrow> best_alloc_some 1 s;
     (_, s) \<leftarrow> best_alloc_some 2 s;
     kassert (p0 + 4 = p1);
     s \<leftarrow> best_fit_free_pages p0 5 s;
     (p0, s) \<leftarrow> best_alloc_some 5 s;
     s \<leftarrow> best_alloc_none 1 s;
     kassert (nr_free s = 0);
     let s = restore_list free_list_store s;
     s \<leftarrow> best_fit_free_pages p0 5 s;
     (count', total') \<leftarrow> count_walk False FreeHead s;
     kassert (count' = count);
     kassert (total' = total);
     Some s
   }"

subsection \<open>The search on the list of blocks\<close>

fun best_of :: "nat \<Rightarrow> nat \<Rightarrow> nat option \<Rightarrow> blocks \<Rightarrow> nat option" where
  "best_of n m r [] = r"
| "best_of n m r ((b, k) # bs) = (if n \<le> k \<and> k < m then best_of n k (Some b) bs else best_of n m r bs)"

lemma best_fit_scan_seg:
  assumes "dseg (free_links s) le (nodes bs) FreeHead"
    and "\<forall>x \<in> set bs. property (pages s (fst x)) = snd x"
  shows "best_fit_scan n le m r s = Some (best_of n m r bs)"
  using assms
proof (induction bs arbitrary: le m r)
  case Nil
  then show ?case by (subst best_fit_scan.simps) (simp add: list_next_def)
next
  case (Cons x bs)
  obtain b k where x: "x = (b, k)" by (cases x)
  with Cons.prems have "list_next le (free_links s) = PageLink b" by (simp add: list_next_def)
  moreover have "best_fit_scan n (PageLink b) m' r' s = Some (best_of n m' r' bs)" for m' r'
    using Cons x by auto
  ultimately show ?case using Cons.prems x by (subst best_fit_scan.simps) auto
qed

lemma best_fit_scan_inv: "free_inv s bs \<Longrightarrow> best_fit_scan n FreeHead m r s = Some (best_of n m r bs)"
  unfolding free_inv_def dlist_def by (intro best_fit_scan_seg) auto

text \<open>The block found is the first of the smallest ones that are large enough and below the bound.\<close>

lemma best_of_cases:
  "(best_of n m r bs = r \<and> (\<forall>x \<in> set bs. n \<le> snd x \<longrightarrow> m \<le> snd x)) \<or>
   (\<exists>as b k cs. bs = as @ (b, k) # cs \<and> best_of n m r bs = Some b \<and> n \<le> k \<and> k < m \<and>
      (\<forall>x \<in> set as. n \<le> snd x \<longrightarrow> k < snd x) \<and> (\<forall>x \<in> set cs. n \<le> snd x \<longrightarrow> k \<le> snd x))"
proof (induction bs arbitrary: m r)
  case (Cons x bs)
  obtain b k where x: "x = (b, k)" by (cases x)
  show ?case
  proof (cases "n \<le> k \<and> k < m")
    case True
    then have eq: "best_of n m r (x # bs) = best_of n k (Some b) bs" using x by simp
    from Cons.IH [of k "Some b"] show ?thesis
    proof (elim disjE exE conjE)
      assume "best_of n k (Some b) bs = Some b" "\<forall>x \<in> set bs. n \<le> snd x \<longrightarrow> k \<le> snd x"
      then show ?thesis using True eq x by (intro disjI2 exI [of _ "[]"]) auto
    next
      fix as b' k' cs
      assume "bs = as @ (b', k') # cs" "best_of n k (Some b) bs = Some b'" "n \<le> k'" "k' < k"
        "\<forall>x \<in> set as. n \<le> snd x \<longrightarrow> k' < snd x" "\<forall>x \<in> set cs. n \<le> snd x \<longrightarrow> k' \<le> snd x"
      then show ?thesis using True eq x by (intro disjI2 exI [of _ "x # as"]) auto
    qed
  next
    case False
    then have eq: "best_of n m r (x # bs) = best_of n m r bs" using x by auto
    from Cons.IH [of m r] show ?thesis
    proof (elim disjE exE conjE)
      assume "best_of n m r bs = r" "\<forall>x \<in> set bs. n \<le> snd x \<longrightarrow> m \<le> snd x"
      then show ?thesis using False eq x by auto
    next
      fix as b' k' cs
      assume "bs = as @ (b', k') # cs" "best_of n m r bs = Some b'" "n \<le> k'" "k' < m"
        "\<forall>x \<in> set as. n \<le> snd x \<longrightarrow> k' < snd x" "\<forall>x \<in> set cs. n \<le> snd x \<longrightarrow> k' \<le> snd x"
      then show ?thesis using False eq x by (intro disjI2 exI [of _ "x # as"]) auto
    qed
  qed
qed simp

lemma best_fit_alloc_inv:
  assumes inv: "free_inv s bs" and n: "0 < n"
  shows "(best_fit_alloc_pages n s = Some (None, s) \<and> (\<forall>(b, k) \<in> set bs. n \<le> k \<longrightarrow> 999999 \<le> k)) \<or>
    (\<exists>as b k cs. bs = as @ (b, k) # cs \<and> n \<le> k \<and> k < 999999 \<and>
      best_fit_alloc_pages n s = Some (Some b, take_block b n s) \<and>
      free_inv (take_block b n s) (as @ rest_block b k n @ cs) \<and>
      (\<forall>(a, j) \<in> set as. n \<le> j \<longrightarrow> k < j) \<and> (\<forall>(a, j) \<in> set cs. n \<le> j \<longrightarrow> k \<le> j))"
proof (cases "n > nr_free s")
  case True
  then have "k < n" if "(b, k) \<in> set bs" for b k
    using block_total_mem [OF that] inv by (simp add: free_inv_def)
  then show ?thesis using True n by (fastforce simp: best_fit_alloc_pages_def)
next
  case False
  have scan: "best_fit_scan n FreeHead 999999 None s = Some (best_of n 999999 None bs)"
    by (rule best_fit_scan_inv [OF inv])
  from best_of_cases [of n 999999 None bs] show ?thesis
  proof (elim disjE exE conjE)
    assume "best_of n 999999 None bs = None" "\<forall>x \<in> set bs. n \<le> snd x \<longrightarrow> 999999 \<le> snd x"
    then show ?thesis using False n scan by (auto simp: best_fit_alloc_pages_def)
  next
    fix as b k cs
    assume *: "bs = as @ (b, k) # cs" "best_of n 999999 None bs = Some b" "n \<le> k" "k < 999999"
      "\<forall>x \<in> set as. n \<le> snd x \<longrightarrow> k < snd x" "\<forall>x \<in> set cs. n \<le> snd x \<longrightarrow> k \<le> snd x"
    moreover have "best_fit_alloc_pages n s = Some (Some b, take_block b n s)"
      using False n scan *(2) by (simp add: best_fit_alloc_pages_def)
    moreover have "free_inv (take_block b n s) (as @ rest_block b k n @ cs)"
      using take_block_inv [of s as b k cs n] inv n * by simp
    ultimately show ?thesis by (intro disjI2 exI [of _ as] exI [of _ b] exI [of _ k] exI [of _ cs]) auto
  qed
qed

lemma best_fit_free_default: "best_fit_free_pages = default_free_pages"
  by (intro ext) (simp add: best_fit_free_pages_def default_free_pages_def)

interpretation bf: page_allocator free_inv best_fit_alloc_pages best_fit_free_pages
  "\<lambda>base n s. releasable base n s \<and> has_room base s \<and> nr_free s + n < 2 ^ 32"
proof unfold_locales
  fix s bs and n :: nat
  assume inv: "free_inv s bs"
  then show ok: "blocks_ok bs" by (simp add: free_inv_def)
  assume n: "0 < n"
  show "best_fit_alloc_pages n s = Some (None, s) \<or>
    (\<exists>p k s'. best_fit_alloc_pages n s = Some (Some p, s') \<and> (p, k) \<in> set bs \<and> n \<le> k \<and>
      free_inv s' (carve p n bs))"
    using best_fit_alloc_inv [OF inv n]
  proof (elim disjE exE conjE)
    fix as b k cs
    assume *: "bs = as @ (b, k) # cs" "n \<le> k" "best_fit_alloc_pages n s = Some (Some b, take_block b n s)"
      "free_inv (take_block b n s) (as @ rest_block b k n @ cs)"
    moreover have "b \<notin> fst ` set as" using ok blocks_ok_first(1) [of as b k cs] * by simp
    ultimately show ?thesis by (auto simp: carve_split)
  qed simp
qed (auto simp: best_fit_free_default intro: default_free_inv)

subsection \<open>Properties\<close>

text \<open>C11. \<open>best_fit_alloc_pages\<close> takes the first of the smallest blocks that are large enough, puts what it does not
  need back in place, and lowers \<open>nr_free\<close> by \<open>n\<close>. It returns \<open>NULL\<close>, and changes nothing, exactly when every
  block that is large enough has 999999 pages or more.\<close>

theorem best_fit_smallest:
  assumes "free_inv s bs" and "0 < n"
  shows "if \<forall>(b, k) \<in> set bs. n \<le> k \<longrightarrow> 999999 \<le> k then best_fit_alloc_pages n s = Some (None, s)
    else \<exists>as b k cs s'. bs = as @ (b, k) # cs \<and> n \<le> k \<and> best_fit_alloc_pages n s = Some (Some b, s') \<and>
      free_inv s' (as @ rest_block b k n @ cs) \<and> nr_free s = nr_free s' + n \<and>
      (\<forall>(a, j) \<in> set as. n \<le> j \<longrightarrow> k < j) \<and> (\<forall>(a, j) \<in> set cs. n \<le> j \<longrightarrow> k \<le> j)"
  using best_fit_alloc_inv [OF assms]
proof (elim disjE exE conjE)
  fix as b k cs
  assume *: "bs = as @ (b, k) # cs" "n \<le> k" "k < 999999" "best_fit_alloc_pages n s = Some (Some b, take_block b n s)"
    "free_inv (take_block b n s) (as @ rest_block b k n @ cs)"
    "\<forall>(a, j) \<in> set as. n \<le> j \<longrightarrow> k < j" "\<forall>(a, j) \<in> set cs. n \<le> j \<longrightarrow> k \<le> j"
  then have "\<not> (\<forall>(b, k) \<in> set bs. n \<le> k \<longrightarrow> 999999 \<le> k)" by auto
  moreover have "nr_free s = nr_free (take_block b n s) + n"
    using assms * by (simp add: free_inv_def rest_block_simps)
  ultimately show ?thesis using * by auto
qed simp

text \<open>A block of three pages at 0 and one of a single page at 5: one page is taken from the second.\<close>

definition three_and_one :: mem where
  "three_and_one =
     \<lparr>pages = (\<lambda>_. \<lparr>ref = 0, flags = 0, property = 0, pra_vaddr = 0\<rparr>)
        (0 := \<lparr>ref = 0, flags = 2, property = 3, pra_vaddr = 0\<rparr>,
         5 := \<lparr>ref = 0, flags = 2, property = 1, pra_vaddr = 0\<rparr>),
      free_links =
        \<lparr>prv = id(FreeHead := PageLink 5, PageLink 5 := PageLink 0, PageLink 0 := FreeHead),
         nxt = id(FreeHead := PageLink 0, PageLink 0 := PageLink 5, PageLink 5 := FreeHead)\<rparr>,
      nr_free = 4\<rparr>"

lemma three_and_one_inv: "free_inv three_and_one [(0, 3), (5, 1)]"
  by (simp add: free_inv_def three_and_one_def dlist_def PageProperty_def PG_property_def)

theorem best_fit_smallest_witness:
  "\<exists>s'. best_fit_alloc_pages 1 three_and_one = Some (Some 5, s') \<and> free_inv s' [(0, 3)]"
  using best_fit_smallest [OF three_and_one_inv, of 1]
  by (auto simp: rest_block_def Cons_eq_append_conv)

end
