(* ===== verification/Skew_Heap.thy ===== *)
theory Skew_Heap
  imports Prelude "HOL-Library.Tree" "HOL-Library.Multiset"
begin

text \<open>
  The intrusive skew heap of libs/skew_heap.h, the priority queue meant for the stride scheduler. An entry is
  found by the number of the structure it is in; \<open>NULL\<close> is \<open>None\<close>. \<open>cmp\<close> reads fields next to the entries, which
  the heap never changes, and so is a function of the two numbers. The locale \<open>priority_queue\<close> is the contract
  a scheduler relies on.
\<close>

subsection \<open>The operations\<close>

record skew_heap_entry =
  parent :: "nat option"
  left :: "nat option"
  right :: "nat option"

type_synonym skew_mem = "nat \<Rightarrow> skew_heap_entry"
type_synonym compare_f = "nat \<Rightarrow> nat \<Rightarrow> int"

definition skew_heap_init :: "nat \<Rightarrow> skew_mem \<Rightarrow> skew_mem" where
  "skew_heap_init a h = h(a := (h a)\<lparr>left := None, right := None, parent := None\<rparr>)"

definition set_parent :: "nat option \<Rightarrow> nat option \<Rightarrow> skew_mem \<Rightarrow> skew_mem" where
  "set_parent c p h = (case c of None \<Rightarrow> h | Some x \<Rightarrow> h(x := (h x)\<lparr>parent := p\<rparr>))"

partial_function (option) skew_heap_merge ::
  "compare_f \<Rightarrow> nat option \<Rightarrow> nat option \<Rightarrow> skew_mem \<Rightarrow> (nat option \<times> skew_mem) option" where
  "skew_heap_merge cmp a b h =
     (case a of None \<Rightarrow> Some (b, h)
      | Some x \<Rightarrow> (case b of None \<Rightarrow> Some (a, h)
        | Some y \<Rightarrow>
          if cmp x y = - 1 then do {
            let r = left (h x);
            (l, h) \<leftarrow> skew_heap_merge cmp (right (h x)) b h;
            let h = h(x := (h x)\<lparr>left := l, right := r\<rparr>);
            Some (a, set_parent l a h)
          }
          else do {
            let r = left (h y);
            (l, h) \<leftarrow> skew_heap_merge cmp a (right (h y)) h;
            let h = h(y := (h y)\<lparr>left := l, right := r\<rparr>);
            Some (b, set_parent l b h)
          }))"

declare skew_heap_merge.simps [code]

definition skew_heap_insert :: "compare_f \<Rightarrow> nat option \<Rightarrow> nat \<Rightarrow> skew_mem \<Rightarrow> (nat option \<times> skew_mem) option" where
  "skew_heap_insert cmp a b h = skew_heap_merge cmp a (Some b) (skew_heap_init b h)"

definition skew_heap_remove :: "compare_f \<Rightarrow> nat option \<Rightarrow> nat \<Rightarrow> skew_mem \<Rightarrow> (nat option \<times> skew_mem) option" where
  "skew_heap_remove cmp a b h = do {
     let p = parent (h b);
     (rep, h) \<leftarrow> skew_heap_merge cmp (left (h b)) (right (h b)) h;
     let h = set_parent rep p h;
     (case p of
        Some q \<Rightarrow>
          Some (a, if left (h q) = Some b then h(q := (h q)\<lparr>left := rep\<rparr>) else h(q := (h q)\<lparr>right := rep\<rparr>))
      | None \<Rightarrow> Some (rep, h))
   }"

subsection \<open>Heaps in memory\<close>

text \<open>The tree that hangs below a pointer: each child points back to its parent. The parent of the root is not
  fixed.\<close>

fun root_of :: "nat tree \<Rightarrow> nat option" where
  "root_of Leaf = None"
| "root_of (Node l x r) = Some x"

definition child :: "skew_mem \<Rightarrow> nat \<Rightarrow> nat tree \<Rightarrow> bool" where
  "child h x t \<longleftrightarrow> (\<forall>c. root_of t = Some c \<longrightarrow> parent (h c) = Some x)"

fun tree_at :: "skew_mem \<Rightarrow> nat tree \<Rightarrow> bool" where
  "tree_at h Leaf \<longleftrightarrow> True"
| "tree_at h (Node l x r) \<longleftrightarrow> left (h x) = root_of l \<and> right (h x) = root_of r \<and> child h x l \<and> child h x r \<and>
     tree_at h l \<and> tree_at h r"

lemma root_of_set: "root_of t = Some c \<Longrightarrow> c \<in> set_tree t"
  by (cases t) auto

lemma root_of_None [simp]: "root_of t = None \<longleftrightarrow> t = Leaf"
  by (cases t) auto

lemma tree_at_frame: "\<forall>x \<in> set_tree t. h' x = h x \<Longrightarrow> tree_at h' t = tree_at h t"
proof (induction t)
  case (Node l x r)
  have "child h' x l = child h x l" "child h' x r = child h x r"
    using Node.prems root_of_set by (fastforce simp: child_def)+
  then show ?case using Node by auto
qed simp

text \<open>The parent of the root plays no part in the tree.\<close>

lemma tree_at_parent:
  assumes "distinct (inorder t)"
  shows "tree_at (set_parent (root_of t) p h) t = tree_at h t"
proof (cases t)
  case (Node l x r)
  let ?h = "h(x := (h x)\<lparr>parent := p\<rparr>)"
  have x: "x \<notin> set_tree l" "x \<notin> set_tree r" using assms Node by auto
  then have "tree_at ?h l = tree_at h l" "tree_at ?h r = tree_at h r" by (auto intro!: tree_at_frame)
  moreover have "child ?h x l = child h x l" "child ?h x r = child h x r"
    using x by (auto simp: child_def dest: root_of_set)
  ultimately show ?thesis using Node by (simp add: set_parent_def)
qed simp

subsection \<open>Merging\<close>

function skew_merge :: "compare_f \<Rightarrow> nat tree \<Rightarrow> nat tree \<Rightarrow> nat tree" where
  "skew_merge cmp Leaf t = t"
| "skew_merge cmp (Node l x r) Leaf = Node l x r"
| "skew_merge cmp (Node l x r) (Node l' y r') =
     (if cmp x y = - 1 then Node (skew_merge cmp r (Node l' y r')) x l
      else Node (skew_merge cmp (Node l x r) r') y l')"
  by pat_completeness auto
termination by (relation "measure (\<lambda>(_, s, t). size s + size t)") auto

lemma skew_merge_mset [simp]: "mset (inorder (skew_merge cmp s t)) = mset (inorder s) + mset (inorder t)"
  by (induction cmp s t rule: skew_merge.induct) (auto simp: ac_simps)

lemma skew_merge_set [simp]: "set_tree (skew_merge cmp s t) = set_tree s \<union> set_tree t"
  by (metis set_inorder set_mset_mset set_mset_union skew_merge_mset)

lemma skew_merge_distinct:
  "distinct (inorder (skew_merge cmp s t)) \<longleftrightarrow>
     distinct (inorder s) \<and> distinct (inorder t) \<and> set_tree s \<inter> set_tree t = {}"
  by (metis distinct_append mset_append mset_eq_imp_distinct_iff set_inorder skew_merge_mset)

lemma skew_merge_root:
  "root_of (skew_merge cmp s t) = root_of s \<or> root_of (skew_merge cmp s t) = root_of t"
  by (induction cmp s t rule: skew_merge.induct) auto

lemma heap_node:
  assumes "tree_at h t" and "tree_at h r" and "distinct (inorder t)" and "x \<notin> set_tree t" "x \<notin> set_tree r"
    and "set_tree t \<inter> set_tree r = {}" and "child h x r"
  shows "tree_at (set_parent (root_of t) (Some x) (h(x := (h x)\<lparr>left := root_of t, right := root_of r\<rparr>))) (Node t x r)"
    (is "tree_at ?h _")
proof -
  let ?g = "h(x := (h x)\<lparr>left := root_of t, right := root_of r\<rparr>)"
  have rt: "root_of t = Some c \<Longrightarrow> c \<in> set_tree t" for c by (rule root_of_set)
  have h: "?h z = ?g z" if "z \<notin> set_tree t" for z
    using that rt by (cases "root_of t") (auto simp: set_parent_def)
  have "tree_at ?h t = tree_at ?g t" using assms(3) by (rule tree_at_parent)
  also have "\<dots> = tree_at h t" using assms(4) by (intro tree_at_frame) auto
  finally have "tree_at ?h t" using assms(1) by simp
  moreover have "\<forall>z \<in> set_tree r. ?h z = h z" 
  proof
    fix z assume z: "z \<in> set_tree r"
    then have "z \<notin> set_tree t" "z \<noteq> x" using assms(5,6) by auto
    then show "?h z = h z" using h [of z] by simp
  qed
  then have "tree_at ?h r = tree_at h r" by (rule tree_at_frame)
  moreover have "child ?h x t" by (auto simp: child_def set_parent_def)
  moreover have "child ?h x r"
    using assms(5-7) h root_of_set [of r] by (fastforce simp: child_def)
  ultimately show ?thesis using assms(2,4) h [of x] by simp
qed

lemma skew_heap_merge_tree:
  assumes "tree_at h s" and "tree_at h t" and "distinct (inorder s)" and "distinct (inorder t)"
    and "set_tree s \<inter> set_tree t = {}"
  shows "\<exists>h'. skew_heap_merge cmp (root_of s) (root_of t) h = Some (root_of (skew_merge cmp s t), h') \<and>
    tree_at h' (skew_merge cmp s t) \<and> (\<forall>z. z \<notin> set_tree s \<union> set_tree t \<longrightarrow> h' z = h z) \<and>
    (\<forall>z. root_of (skew_merge cmp s t) = Some z \<longrightarrow> parent (h' z) = parent (h z))"
  using assms
proof (induction cmp s t arbitrary: h rule: skew_merge.induct)
  case (1 cmp t)
  then show ?case by (subst skew_heap_merge.simps) simp
next
  case (2 cmp l x r)
  then show ?case by (subst skew_heap_merge.simps) simp
next
  case (3 cmp l x r l' y r')
  show ?case
  proof (cases "cmp x y = - 1")
    case True
    let ?t = "Node l' y r'" and ?m = "skew_merge cmp r (Node l' y r')"
    from "3.IH"(1) [OF True, of h] "3.prems" obtain h1 where h1:
      "skew_heap_merge cmp (root_of r) (root_of ?t) h = Some (root_of ?m, h1)" "tree_at h1 ?m"
      "\<forall>z. z \<notin> set_tree r \<union> set_tree ?t \<longrightarrow> h1 z = h z" by auto
    let ?h = "set_parent (root_of ?m) (Some x) (h1(x := (h1 x)\<lparr>left := root_of ?m, right := root_of l\<rparr>))"
    have x: "x \<notin> set_tree ?m" "x \<notin> set_tree l" "set_tree ?m \<inter> set_tree l = {}" using "3.prems" by auto
    have same: "\<forall>z \<in> insert x (set_tree l). h1 z = h z" using h1(3) "3.prems" by auto
    have "skew_heap_merge cmp (Some x) (Some y) h = Some (Some x, ?h)"
      using True h1(1) "3.prems"(1) by (subst skew_heap_merge.simps) (simp add: Let_def)
    moreover have "tree_at ?h (Node ?m x l)"
    proof (rule heap_node [OF h1(2) _ _ x])
      show "tree_at h1 l" using same "3.prems"(1) by (subst tree_at_frame) auto
      show "distinct (inorder ?m)" using "3.prems" by (auto simp: skew_merge_distinct)
      show "child h1 x l" using same "3.prems"(1) root_of_set [of l] by (auto simp: child_def)
    qed
    moreover have "?h z = h z" if "z \<notin> set_tree (Node l x r) \<union> set_tree ?t" for z
      using that h1(3) root_of_set [of ?m] by (cases "root_of ?m") (auto simp: set_parent_def)
    moreover have "parent (?h x) = parent (h x)"
      using x(1) same root_of_set [of ?m] by (cases "root_of ?m") (auto simp: set_parent_def)
    ultimately show ?thesis using True by auto
  next
    case False
    let ?s = "Node l x r" and ?m = "skew_merge cmp (Node l x r) r'"
    from "3.IH"(2) [OF False, of h] "3.prems" obtain h1 where h1:
      "skew_heap_merge cmp (root_of ?s) (root_of r') h = Some (root_of ?m, h1)" "tree_at h1 ?m"
      "\<forall>z. z \<notin> set_tree ?s \<union> set_tree r' \<longrightarrow> h1 z = h z" by auto
    let ?h = "set_parent (root_of ?m) (Some y) (h1(y := (h1 y)\<lparr>left := root_of ?m, right := root_of l'\<rparr>))"
    have y: "y \<notin> set_tree ?m" "y \<notin> set_tree l'" "set_tree ?m \<inter> set_tree l' = {}" using "3.prems" by auto
    have same: "\<forall>z \<in> insert y (set_tree l'). h1 z = h z" using h1(3) "3.prems" by auto
    have "skew_heap_merge cmp (Some x) (Some y) h = Some (Some y, ?h)"
      using False h1(1) "3.prems"(2) by (subst skew_heap_merge.simps) (simp add: Let_def)
    moreover have "tree_at ?h (Node ?m y l')"
    proof (rule heap_node [OF h1(2) _ _ y])
      show "tree_at h1 l'" using same "3.prems"(2) by (subst tree_at_frame) auto
      show "distinct (inorder ?m)" using "3.prems" by (auto simp: skew_merge_distinct)
      show "child h1 y l'" using same "3.prems"(2) root_of_set [of l'] by (auto simp: child_def)
    qed
    moreover have "?h z = h z" if "z \<notin> set_tree ?s \<union> set_tree (Node l' y r')" for z
      using that h1(3) root_of_set [of ?m] by (cases "root_of ?m") (auto simp: set_parent_def)
    moreover have "parent (?h y) = parent (h y)"
      using y(1) same root_of_set [of ?m] by (cases "root_of ?m") (auto simp: set_parent_def)
    ultimately show ?thesis using False by auto
  qed
qed

subsection \<open>Removing an entry\<close>

fun skew_remove :: "compare_f \<Rightarrow> nat \<Rightarrow> nat tree \<Rightarrow> nat tree" where
  "skew_remove cmp b Leaf = Leaf"
| "skew_remove cmp b (Node l x r) =
     (if x = b then skew_merge cmp l r
      else if b \<in> set_tree l then Node (skew_remove cmp b l) x r else Node l x (skew_remove cmp b r))"

lemma skew_remove_mset:
  "b \<in> set_tree t \<Longrightarrow> distinct (inorder t) \<Longrightarrow>
    mset (inorder t) = add_mset b (mset (inorder (skew_remove cmp b t)))"
  by (induction t) auto

lemma skew_remove_set:
  assumes "b \<in> set_tree t" and "distinct (inorder t)"
  shows "set_tree (skew_remove cmp b t) = set_tree t - {b}" and "distinct (inorder (skew_remove cmp b t))"
proof -
  have m: "mset (inorder t) = mset (b # inorder (skew_remove cmp b t))"
    using skew_remove_mset [OF assms] by simp
  then have d: "distinct (b # inorder (skew_remove cmp b t))" using assms(2) mset_eq_imp_distinct_iff by blast
  then show "distinct (inorder (skew_remove cmp b t))" by simp
  have "set (inorder t) = insert b (set (inorder (skew_remove cmp b t)))"
    using arg_cong [OF m, of set_mset] by simp
  then show "set_tree (skew_remove cmp b t) = set_tree t - {b}" using d by (auto simp: set_inorder)
qed

lemma skew_remove_root: "root_of t \<noteq> Some b \<Longrightarrow> root_of (skew_remove cmp b t) = root_of t"
  by (cases t) auto


text \<open>The memory \<open>h'\<close> in which the tree \<open>m\<close> takes the place of \<open>b\<close>, with children \<open>bl\<close> and \<open>br\<close>, below \<open>q\<close>.\<close>

definition grafted :: "skew_mem \<Rightarrow> nat \<Rightarrow> nat \<Rightarrow> nat tree \<Rightarrow> nat tree \<Rightarrow> nat tree \<Rightarrow> skew_mem \<Rightarrow> bool" where
  "grafted h b q bl br m h' \<longleftrightarrow> tree_at h' m \<and> child h' q m \<and> (\<forall>z. z \<notin> set_tree bl \<union> set_tree br \<union> {q} \<longrightarrow> h' z = h z) \<and>
     h' q = (if left (h q) = Some b then (h q)\<lparr>left := root_of m\<rparr> else (h q)\<lparr>right := root_of m\<rparr>)"

lemma tree_at_side:
  assumes "tree_at h r" and "child h x r" and "\<forall>z \<in> set_tree r. h' z = h z"
  shows "tree_at h' r \<and> child h' x r"
  using assms root_of_set [of r] by (auto simp: child_def tree_at_frame [of r h' h])

lemma grafted_root:
  assumes "grafted h b q bl br m h'" and "c \<notin> set_tree bl \<union> set_tree br"
  shows "parent (h' c) = parent (h c)"
  using assms by (cases "c = q") (auto simp: grafted_def)

lemma grafted_frame:
  assumes "grafted h b q bl br m h'" and "set_tree bl \<union> set_tree br \<subseteq> A" and "q \<in> A" and "B \<inter> A = {}"
  shows "\<forall>z \<in> B. h' z = h z"
  using assms unfolding grafted_def by blast

lemma grafted_deep:
  assumes "grafted h b q bl br m h'" and "set_tree bl \<union> set_tree br \<subseteq> set_tree l - set_option (root_of l)"
    and "child h x l" and "root_of l' = root_of l"
  shows "child h' x l'"
  using assms grafted_root [OF assms(1)] root_of_set [of l] by (fastforce simp: child_def)

lemma skew_remove_inner:
  assumes "tree_at h t" and "distinct (inorder t)" and "b \<in> set_tree t" and "root_of t \<noteq> Some b"
  shows "\<exists>q bl br. parent (h b) = Some q \<and> q \<in> set_tree t \<and> q \<notin> insert b (set_tree bl \<union> set_tree br) \<and>
    left (h b) = root_of bl \<and> right (h b) = root_of br \<and> tree_at h bl \<and> tree_at h br \<and>
    distinct (inorder bl) \<and> distinct (inorder br) \<and> set_tree bl \<inter> set_tree br = {} \<and>
    set_tree bl \<union> set_tree br \<subseteq> set_tree t - set_option (root_of t) \<and>
    (\<forall>h'. grafted h b q bl br (skew_merge cmp bl br) h' \<longrightarrow> tree_at h' (skew_remove cmp b t))"
  using assms
proof (induction t)
  case (Node l x r)
  note t = Node.prems
  have d: "distinct (inorder l)" "distinct (inorder r)" "x \<notin> set_tree l" "x \<notin> set_tree r" "set_tree l \<inter> set_tree r = {}"
    using t(2) by auto
  have lr: "tree_at h l" "tree_at h r" "child h x l" "child h x r" "left (h x) = root_of l" "right (h x) = root_of r"
    using t(1) by auto
  have bx: "b \<noteq> x" using t(4) by simp
  consider (l) bl br where "l = Node bl b br" | (r) bl br where "r = Node bl b br" "b \<notin> set_tree l"
    | (left) "b \<in> set_tree l" "root_of l \<noteq> Some b" | (right) "b \<in> set_tree r" "b \<notin> set_tree l" "root_of r \<noteq> Some b"
    using t(3) bx by (cases l; cases r) auto
  then show ?case
  proof cases
    case l
    have "tree_at h' (skew_remove cmp b (Node l x r))" if "grafted h b x bl br (skew_merge cmp bl br) h'" for h'
    proof -
      have "\<forall>z \<in> set_tree r. h' z = h z" using that d l by (fastforce simp: grafted_def)
      then show ?thesis using that tree_at_side [OF lr(2,4)] bx l lr by (auto simp: grafted_def)
    qed
    then show ?thesis using l lr d bx
      by (intro exI [of _ x] exI [of _ bl] exI [of _ br]) (auto simp: child_def)
  next
    case r
    have "tree_at h' (skew_remove cmp b (Node l x r))" if "grafted h b x bl br (skew_merge cmp bl br) h'" for h'
    proof -
      have "root_of l \<noteq> Some b" using r(2) root_of_set by metis
      moreover have "\<forall>z \<in> set_tree l. h' z = h z" using that d r by (auto simp: grafted_def)
      ultimately show ?thesis using that tree_at_side [OF lr(1,3)] bx r lr by (auto simp: grafted_def)
    qed
    then show ?thesis using r lr d bx
      by (intro exI [of _ x] exI [of _ bl] exI [of _ br]) (auto simp: child_def)
  next
    case left
    from Node.IH(1) [OF lr(1) d(1) left] obtain q bl br where q: "parent (h b) = Some q" "q \<in> set_tree l"
      "q \<notin> insert b (set_tree bl \<union> set_tree br)" "left (h b) = root_of bl" "right (h b) = root_of br" "tree_at h bl" "tree_at h br"
      "distinct (inorder bl)" "distinct (inorder br)" "set_tree bl \<inter> set_tree br = {}"
      "set_tree bl \<union> set_tree br \<subseteq> set_tree l - set_option (root_of l)"
      and g: "\<forall>h'. grafted h b q bl br (skew_merge cmp bl br) h' \<longrightarrow> tree_at h' (skew_remove cmp b l)" by blast
    note rt = skew_remove_root [OF left(2), of cmp]
    have "tree_at h' (skew_remove cmp b (Node l x r))" if h': "grafted h b q bl br (skew_merge cmp bl br) h'" for h'
    proof -
      have "\<forall>z \<in> insert x (set_tree r). h' z = h z"
        by (rule grafted_frame [OF h', of "set_tree l"]) (use q(2,11) d in auto)
      then show ?thesis
        using tree_at_side [OF lr(2,4)] grafted_deep [OF h' q(11) lr(3) rt] g h' rt bx left lr by auto
    qed
    then show ?thesis using q d by (intro exI [of _ q] exI [of _ bl] exI [of _ br]) auto
  next
    case right
    from Node.IH(2) [OF lr(2) d(2) right(1,3)] obtain q bl br where q: "parent (h b) = Some q" "q \<in> set_tree r"
      "q \<notin> insert b (set_tree bl \<union> set_tree br)" "left (h b) = root_of bl" "right (h b) = root_of br" "tree_at h bl" "tree_at h br"
      "distinct (inorder bl)" "distinct (inorder br)" "set_tree bl \<inter> set_tree br = {}"
      "set_tree bl \<union> set_tree br \<subseteq> set_tree r - set_option (root_of r)"
      and g: "\<forall>h'. grafted h b q bl br (skew_merge cmp bl br) h' \<longrightarrow> tree_at h' (skew_remove cmp b r)" by blast
    note rt = skew_remove_root [OF right(3), of cmp]
    have "tree_at h' (skew_remove cmp b (Node l x r))" if h': "grafted h b q bl br (skew_merge cmp bl br) h'" for h'
    proof -
      have "\<forall>z \<in> insert x (set_tree l). h' z = h z"
        by (rule grafted_frame [OF h', of "set_tree r"]) (use q(2,11) d in auto)
      then show ?thesis
        using tree_at_side [OF lr(1,3)] grafted_deep [OF h' q(11) lr(4) rt] g h' rt bx right lr by auto
    qed
    then show ?thesis using q d by (intro exI [of _ q] exI [of _ bl] exI [of _ br]) auto
  qed
qed simp

lemma skew_heap_remove_tree:
  assumes "tree_at h t" and "distinct (inorder t)" and "b \<in> set_tree t" and "\<forall>c. root_of t = Some c \<longrightarrow> parent (h c) = None"
  shows "\<exists>h'. skew_heap_remove cmp (root_of t) b h = Some (root_of (skew_remove cmp b t), h') \<and>
    tree_at h' (skew_remove cmp b t) \<and> (\<forall>z. z \<notin> set_tree t \<longrightarrow> h' z = h z) \<and>
    (\<forall>c. root_of (skew_remove cmp b t) = Some c \<longrightarrow> parent (h' c) = None)"
proof (cases "root_of t = Some b")
  case True
  then obtain l r where t: "t = Node l b r" by (cases t) auto
  let ?m = "skew_merge cmp l r"
  from skew_heap_merge_tree [of h l r cmp] assms t obtain h1 where h1:
    "skew_heap_merge cmp (root_of l) (root_of r) h = Some (root_of ?m, h1)" "tree_at h1 ?m"
    "\<forall>z. z \<notin> set_tree l \<union> set_tree r \<longrightarrow> h1 z = h z" by auto
  let ?h = "set_parent (root_of ?m) None h1"
  have "skew_heap_remove cmp (root_of t) b h = Some (root_of ?m, ?h)"
    using h1(1) assms t by (simp add: skew_heap_remove_def Let_def)
  moreover have "tree_at ?h ?m"
    using h1(2) assms(2) t by (subst tree_at_parent) (auto simp: skew_merge_distinct)
  moreover have "?h z = h z" if "z \<notin> set_tree t" for z
    using that t h1(3) root_of_set [of ?m] by (cases "root_of ?m") (auto simp: set_parent_def)
  ultimately show ?thesis using t by (auto simp: set_parent_def)
next
  case False
  from skew_remove_inner [OF assms(1-3) False, of cmp] obtain q l r where q: "parent (h b) = Some q" "q \<in> set_tree t"
    "q \<notin> insert b (set_tree l \<union> set_tree r)" "left (h b) = root_of l" "right (h b) = root_of r" "tree_at h l" "tree_at h r"
    "distinct (inorder l)" "distinct (inorder r)" "set_tree l \<inter> set_tree r = {}"
    "set_tree l \<union> set_tree r \<subseteq> set_tree t - set_option (root_of t)"
    and g: "\<forall>h'. grafted h b q l r (skew_merge cmp l r) h' \<longrightarrow> tree_at h' (skew_remove cmp b t)" by blast
  let ?m = "skew_merge cmp l r"
  from skew_heap_merge_tree [OF q(6-10), of cmp] obtain h1 where h1:
    "skew_heap_merge cmp (root_of l) (root_of r) h = Some (root_of ?m, h1)" "tree_at h1 ?m"
    "\<forall>z. z \<notin> set_tree l \<union> set_tree r \<longrightarrow> h1 z = h z" by blast
  define h2 where "h2 = set_parent (root_of ?m) (Some q) h1"
  define h3 where "h3 = (if left (h2 q) = Some b then h2(q := (h2 q)\<lparr>left := root_of ?m\<rparr>) else h2(q := (h2 q)\<lparr>right := root_of ?m\<rparr>))"
  have m: "c \<in> set_tree l \<union> set_tree r" if "root_of ?m = Some c" for c using root_of_set [OF that] by simp
  have h2: "h2 z = h z" if "z \<notin> set_tree l \<union> set_tree r" for z
    using that h1(3) m by (cases "root_of ?m") (auto simp: h2_def set_parent_def)
  have "tree_at h2 ?m" using h1(2) q unfolding h2_def by (subst tree_at_parent) (auto simp: skew_merge_distinct)
  then have "tree_at h3 ?m" using q(3) by (subst tree_at_frame [of _ h3 h2]) (auto simp: h3_def)
  moreover have "child h3 q ?m"
    using q(3) m by (auto simp: child_def h3_def h2_def set_parent_def)
  ultimately have g3: "grafted h b q l r ?m h3" using h2 q(3) by (auto simp: grafted_def h3_def)
  have "skew_heap_remove cmp (root_of t) b h = Some (root_of t, h3)"
    using h1(1) q(1,4,5) by (simp add: skew_heap_remove_def Let_def h2_def h3_def)
  moreover have "parent (h3 c) = None" if "root_of t = Some c" for c
    using assms(4) that q(11) grafted_root [OF g3, of c] by auto
  moreover have "\<forall>z. z \<notin> set_tree t \<longrightarrow> h3 z = h z" using g3 q(2,11) unfolding grafted_def by auto
  ultimately show ?thesis using g g3 skew_remove_root [OF False, of cmp] by auto
qed


subsection \<open>The order of the heap\<close>

text \<open>On the entries \<open>M\<close> the comparison is that of the keys.\<close>

definition compares :: "compare_f \<Rightarrow> (nat \<Rightarrow> int) \<Rightarrow> nat set \<Rightarrow> bool" where
  "compares cmp key M \<longleftrightarrow> (\<forall>x \<in> M. \<forall>y \<in> M. cmp x y = - 1 \<longleftrightarrow> key x < key y)"

lemma compares_subset: "compares cmp key M \<Longrightarrow> N \<subseteq> M \<Longrightarrow> compares cmp key N"
  by (auto simp: compares_def)

fun ordered :: "(nat \<Rightarrow> int) \<Rightarrow> nat tree \<Rightarrow> bool" where
  "ordered key Leaf \<longleftrightarrow> True"
| "ordered key (Node l x r) \<longleftrightarrow> (\<forall>y \<in> set_tree l \<union> set_tree r. key x \<le> key y) \<and> ordered key l \<and> ordered key r"

lemma skew_merge_ordered:
  "compares cmp key (set_tree s \<union> set_tree t) \<Longrightarrow> ordered key s \<Longrightarrow> ordered key t \<Longrightarrow> ordered key (skew_merge cmp s t)"
proof (induction cmp s t rule: skew_merge.induct)
  case (3 cmp l x r l' y r')
  have "cmp x y = - 1 \<longleftrightarrow> key x < key y" using "3.prems"(1) by (simp add: compares_def)
  moreover have "compares cmp key (set_tree r \<union> set_tree (Node l' y r'))" "compares cmp key (set_tree (Node l x r) \<union> set_tree r')"
    by (rule compares_subset [OF "3.prems"(1)]; auto)+
  ultimately show ?case using "3.IH" "3.prems"(2,3) by (cases "cmp x y = - 1") (auto simp: not_less intro: order_trans [OF less_imp_le] order_trans [of "key y" "key x"])
qed auto

lemma skew_remove_ordered:
  shows "compares cmp key (set_tree t) \<Longrightarrow> ordered key t \<Longrightarrow> distinct (inorder t) \<Longrightarrow> b \<in> set_tree t \<Longrightarrow> ordered key (skew_remove cmp b t)"
proof (induction t)
  case (Node l x r)
  have "compares cmp key (set_tree l \<union> set_tree r)" "compares cmp key (set_tree l)" "compares cmp key (set_tree r)"
    by (rule compares_subset [OF Node.prems(1)]; auto)+
  then show ?case
    using Node skew_merge_ordered [of cmp key l r] skew_remove_set(1) [of b l cmp] skew_remove_set(1) [of b r cmp] by auto
qed simp

definition skew_heap :: "(nat \<Rightarrow> int) \<Rightarrow> skew_mem \<Rightarrow> nat option \<Rightarrow> nat set \<Rightarrow> bool" where
  "skew_heap key h a M \<longleftrightarrow> (\<exists>t. a = root_of t \<and> M = set_tree t \<and> tree_at h t \<and> distinct (inorder t) \<and> ordered key t \<and>
     (\<forall>c. a = Some c \<longrightarrow> parent (h c) = None))"

lemma skew_heap_empty: "skew_heap key h None M \<longleftrightarrow> M = {}"
  by (auto simp: skew_heap_def intro: exI [of _ Leaf] dest: sym)

lemma skew_heap_top: "skew_heap key h (Some x) M \<Longrightarrow> x \<in> M \<and> finite M \<and> (\<forall>y \<in> M. key x \<le> key y)"
  unfolding skew_heap_def by (elim exE conjE, rename_tac t, case_tac t) auto

lemma skew_heap_insert_entry:
  assumes "compares cmp key (insert b M)" and "skew_heap key h a M" and "b \<notin> M"
  shows "\<exists>a' h'. skew_heap_insert cmp a b h = Some (a', h') \<and> skew_heap key h' a' (insert b M) \<and>
    (\<forall>z. z \<notin> insert b M \<longrightarrow> h' z = h z)"
proof -
  obtain t where t: "a = root_of t" "M = set_tree t" "tree_at h t" "distinct (inorder t)" "ordered key t"
    "\<forall>c. a = Some c \<longrightarrow> parent (h c) = None" using assms(2) by (auto simp: skew_heap_def)
  let ?h = "skew_heap_init b h" and ?b = "Node Leaf b Leaf"
  let ?m = "skew_merge cmp t ?b"
  have other: "?h z = h z" if "z \<noteq> b" for z using that by (simp add: skew_heap_init_def)
  have "\<forall>z \<in> set_tree t. ?h z = h z" using t(2) assms(3) other by metis
  from tree_at_frame [OF this] have "tree_at ?h t" using t(3) by simp
  moreover have "tree_at ?h ?b" by (simp add: skew_heap_init_def child_def)
  ultimately obtain h' where h': "skew_heap_merge cmp (root_of t) (root_of ?b) ?h = Some (root_of ?m, h')" "tree_at h' ?m"
    "\<forall>z. z \<notin> set_tree t \<union> set_tree ?b \<longrightarrow> h' z = ?h z" "\<forall>z. root_of ?m = Some z \<longrightarrow> parent (h' z) = parent (?h z)"
    using skew_heap_merge_tree [of ?h t ?b cmp] t(2,4) assms(3) by auto
  have "skew_heap_insert cmp a b h = Some (root_of ?m, h')" using h'(1) t(1) by (simp add: skew_heap_insert_def)
  moreover have "parent (h' c) = None" if "root_of ?m = Some c" for c
    using that h'(4) skew_merge_root [of cmp t ?b] t(1,6) other [of c] by (cases "c = b") (auto simp: skew_heap_init_def)
  then have "skew_heap key h' (root_of ?m) (insert b M)"
    using h'(2) t assms(3) skew_merge_ordered [OF _ t(5), of cmp ?b] assms(1)
    unfolding skew_heap_def by (intro exI [of _ ?m]) (auto simp: skew_merge_distinct)
  moreover have "\<forall>z. z \<notin> insert b M \<longrightarrow> h' z = h z" using h'(3) t(2) other by auto
  ultimately show ?thesis by blast
qed

lemma skew_heap_remove_inv:
  assumes "compares cmp key M" and "skew_heap key h a M" and "b \<in> M"
  shows "\<exists>a' h'. skew_heap_remove cmp a b h = Some (a', h') \<and> skew_heap key h' a' (M - {b}) \<and> (\<forall>z. z \<notin> M \<longrightarrow> h' z = h z)"
proof -
  obtain t where t: "a = root_of t" "M = set_tree t" "tree_at h t" "distinct (inorder t)" "ordered key t"
    "\<forall>c. a = Some c \<longrightarrow> parent (h c) = None" using assms(2) by (auto simp: skew_heap_def)
  from skew_heap_remove_tree [OF t(3,4), of b cmp] t assms(3) obtain h' where
    "skew_heap_remove cmp a b h = Some (root_of (skew_remove cmp b t), h')" "tree_at h' (skew_remove cmp b t)"
    "\<forall>z. z \<notin> set_tree t \<longrightarrow> h' z = h z" "\<forall>c. root_of (skew_remove cmp b t) = Some c \<longrightarrow> parent (h' c) = None" by auto
  then show ?thesis using t assms skew_remove_set [of b t cmp] skew_remove_ordered [OF _ t(5,4), of cmp b]
    unfolding skew_heap_def
    by (intro exI [of _ "root_of (skew_remove cmp b t)"] exI [of _ h'] conjI exI [of _ "skew_remove cmp b t"]) auto
qed

subsection \<open>The contract of a priority queue\<close>

text \<open>Inserting the entries of a list, and taking the first entry \<open>n\<close> times.\<close>

primrec fill_queue :: "(nat \<Rightarrow> 'q \<Rightarrow> 'q option) \<Rightarrow> nat list \<Rightarrow> 'q \<Rightarrow> 'q option" where
  "fill_queue ins [] q = Some q"
| "fill_queue ins (x # xs) q = do { q \<leftarrow> ins x q; fill_queue ins xs q }"

primrec drain_queue :: "('q \<Rightarrow> nat option) \<Rightarrow> (nat \<Rightarrow> 'q \<Rightarrow> 'q option) \<Rightarrow> nat \<Rightarrow> 'q \<Rightarrow> nat list option" where
  "drain_queue fst_entry rmv 0 q = Some []"
| "drain_queue fst_entry rmv (Suc n) q = do {
     x \<leftarrow> fst_entry q;
     q \<leftarrow> rmv x q;
     xs \<leftarrow> drain_queue fst_entry rmv n q;
     Some (x # xs)
   }"

locale priority_queue =
  fixes inv :: "'q \<Rightarrow> nat set \<Rightarrow> bool"
    and fst_entry :: "'q \<Rightarrow> nat option"
    and ins rmv :: "nat \<Rightarrow> 'q \<Rightarrow> 'q option"
    and key :: "nat \<Rightarrow> int"
    and ok :: "nat \<Rightarrow> bool"
  assumes first_none: "inv q M \<Longrightarrow> fst_entry q = None \<Longrightarrow> M = {}"
    and first_some: "inv q M \<Longrightarrow> fst_entry q = Some x \<Longrightarrow> x \<in> M \<and> finite M \<and> (\<forall>y \<in> M. key x \<le> key y)"
    and ins_law: "inv q M \<Longrightarrow> ok x \<Longrightarrow> x \<notin> M \<Longrightarrow> \<exists>q'. ins x q = Some q' \<and> inv q' (insert x M)"
    and rmv_law: "inv q M \<Longrightarrow> x \<in> M \<Longrightarrow> \<exists>q'. rmv x q = Some q' \<and> inv q' (M - {x})"
begin

lemma fill_keeps:
  assumes "inv q M" and "distinct xs" and "set xs \<inter> M = {}" and "\<forall>x \<in> set xs. ok x"
  shows "\<exists>q'. fill_queue ins xs q = Some q' \<and> inv q' (set xs \<union> M)"
  using assms
proof (induction xs arbitrary: q M)
  case (Cons x xs)
  obtain q1 where q1: "ins x q = Some q1" "inv q1 (insert x M)" using ins_law [of q M x] Cons.prems by auto
  from Cons.IH [OF q1(2)] Cons.prems q1(1) show ?case by auto
qed auto

lemma drain_sorts:
  assumes "inv q M" and "card M = n" and "finite M"
  shows "\<exists>ys. drain_queue fst_entry rmv n q = Some ys \<and> distinct ys \<and> set ys = M \<and> sorted (map key ys)"
  using assms
proof (induction n arbitrary: q M)
  case (Suc n)
  then obtain x where x: "fst_entry q = Some x" "x \<in> M" "\<forall>y \<in> M. key x \<le> key y"
    using first_none first_some by (cases "fst_entry q") fastforce+
  obtain q1 where q1: "rmv x q = Some q1" "inv q1 (M - {x})" using rmv_law [OF Suc.prems(1) x(2)] by blast
  from Suc.IH [OF q1(2)] Suc.prems x(2) obtain ys where
    "drain_queue fst_entry rmv n q1 = Some ys" "distinct ys" "set ys = M - {x}" "sorted (map key ys)" by auto
  then show ?case using x q1(1) by auto
qed auto

lemma fill_drain:
  assumes "inv q {}" and "distinct xs" and "\<forall>x \<in> set xs. ok x"
  shows "\<exists>q' ys. fill_queue ins xs q = Some q' \<and> drain_queue fst_entry rmv (length xs) q' = Some ys \<and>
    mset ys = mset xs \<and> sorted (map key ys)"
proof -
  obtain q' where q': "fill_queue ins xs q = Some q'" "inv q' (set xs)" using fill_keeps [OF assms(1,2)] assms(3) by auto
  from drain_sorts [OF q'(2)] assms(2) obtain ys where
    "drain_queue fst_entry rmv (length xs) q' = Some ys" "distinct ys" "set ys = set xs" "sorted (map key ys)"
    by (auto simp: distinct_card)
  then show ?thesis using q'(1) assms(2) set_eq_iff_mset_eq_distinct by blast
qed

end

subsection \<open>Strides\<close>

text \<open>The comparison of the stride scheduler: the sign of the difference of two 32-bit strides.\<close>

definition proc_stride_comp_f :: "(nat \<Rightarrow> 32 word) \<Rightarrow> compare_f" where
  "proc_stride_comp_f lab6_stride a b =
     (let c = sint (lab6_stride a - lab6_stride b) in if c > 0 then 1 else if c = 0 then 0 else - 1)"

text \<open>Strides less than \<open>2 ^ 31\<close> ahead of a base compare by their distance from it, also where they wrap around.\<close>

definition ahead :: "32 word \<Rightarrow> (nat \<Rightarrow> 32 word) \<Rightarrow> nat \<Rightarrow> int" where
  "ahead base lab6_stride x = uint (lab6_stride x - base)"

definition in_window :: "32 word \<Rightarrow> (nat \<Rightarrow> 32 word) \<Rightarrow> nat \<Rightarrow> bool" where
  "in_window base lab6_stride x \<longleftrightarrow> ahead base lab6_stride x < 2 ^ 31"

lemma sint_diff:
  assumes "uint (v :: 32 word) < 2 ^ 31" and "uint w < 2 ^ 31"
  shows "sint (v - w) = uint v - uint w"
proof -
  have bounds: "- (2 ^ 31) \<le> uint v - uint w" "uint v - uint w < 2 ^ 31"
    using assms uint_ge_0 [of v] uint_ge_0 [of w] by linarith+
  have "v - w = word_of_int (uint v - uint w)" by simp
  moreover have "sint (word_of_int (uint v - uint w) :: 32 word) = signed_take_bit 31 (uint v - uint w)"
    by (subst sint_sbintrunc') simp
  moreover have "signed_take_bit 31 (uint v - uint w) = uint v - uint w"
    using bounds by (intro signed_take_bit_int_eq_self) auto
  ultimately show ?thesis by simp
qed

lemma compares_stride:
  assumes "\<forall>x \<in> M. in_window base s x"
  shows "compares (proc_stride_comp_f s) (ahead base s) M"
proof -
  have "proc_stride_comp_f s x y = - 1 \<longleftrightarrow> ahead base s x < ahead base s y" if "x \<in> M" "y \<in> M" for x y
  proof -
    have "s x - s y = (s x - base) - (s y - base)" by simp
    also have "sint \<dots> = ahead base s x - ahead base s y"
      unfolding ahead_def using assms that by (intro sint_diff) (auto simp: in_window_def ahead_def)
    finally show ?thesis by (auto simp: proc_stride_comp_f_def Let_def)
  qed
  then show ?thesis by (simp add: compares_def)
qed

definition stride_inv :: "32 word \<Rightarrow> (nat \<Rightarrow> 32 word) \<Rightarrow> nat option \<times> skew_mem \<Rightarrow> nat set \<Rightarrow> bool" where
  "stride_inv base s q M \<longleftrightarrow> skew_heap (ahead base s) (snd q) (fst q) M \<and> (\<forall>x \<in> M. in_window base s x)"

interpretation stride: priority_queue "stride_inv base s" fst
  "\<lambda>x (a, h). skew_heap_insert (proc_stride_comp_f s) a x h" "\<lambda>x (a, h). skew_heap_remove (proc_stride_comp_f s) a x h"
  "ahead base s" "in_window base s"
  for base s
proof
  fix q M x
  assume inv: "stride_inv base s q M"
  show "fst q = None \<Longrightarrow> M = {}" using inv skew_heap_empty by (auto simp: stride_inv_def)
  show "fst q = Some x \<Longrightarrow> x \<in> M \<and> finite M \<and> (\<forall>y \<in> M. ahead base s x \<le> ahead base s y)"
    using inv skew_heap_top by (metis stride_inv_def)
  obtain a h where q: "q = (a, h)" by (cases q)
  show "\<exists>q'. (case q of (a, h) \<Rightarrow> skew_heap_insert (proc_stride_comp_f s) a x h) = Some q' \<and> stride_inv base s q' (insert x M)"
    if "in_window base s x" "x \<notin> M"
    using skew_heap_insert_entry [OF compares_stride [of "insert x M" base s]] inv that q by (fastforce simp: stride_inv_def)
  show "\<exists>q'. (case q of (a, h) \<Rightarrow> skew_heap_remove (proc_stride_comp_f s) a x h) = Some q' \<and> stride_inv base s q' (M - {x})"
    if "x \<in> M"
    using skew_heap_remove_inv [OF compares_stride [of M base s]] inv that q by (fastforce simp: stride_inv_def)
qed

subsection \<open>Properties\<close>

text \<open>C9. Any entry can be removed from a skew heap: \<open>skew_heap_remove\<close> returns a heap of exactly the other entries,
  changes no entry outside of the heap, and the root it returns has the least key of them.\<close>

theorem skew_heap_remove_entry:
  assumes "compares cmp key M" and "skew_heap key h a M" and "b \<in> M"
  shows "\<exists>a' h'. skew_heap_remove cmp a b h = Some (a', h') \<and> skew_heap key h' a' (M - {b}) \<and>
    (\<forall>z. z \<notin> M \<longrightarrow> h' z = h z) \<and> (case a' of None \<Rightarrow> M = {b} | Some x \<Rightarrow> x \<in> M - {b} \<and> (\<forall>y \<in> M - {b}. key x \<le> key y))"
proof -
  obtain a' h' where *: "skew_heap_remove cmp a b h = Some (a', h')" "skew_heap key h' a' (M - {b})" "\<forall>z. z \<notin> M \<longrightarrow> h' z = h z"
    using skew_heap_remove_inv [OF assms] by blast
  have "case a' of None \<Rightarrow> M = {b} | Some x \<Rightarrow> x \<in> M - {b} \<and> (\<forall>y \<in> M - {b}. key x \<le> key y)"
    using *(2) skew_heap_empty [of key h' "M - {b}"] skew_heap_top [of key h' _ "M - {b}"] assms(3) by (cases a') auto
  with * show ?thesis by blast
qed

definition no_entries :: skew_mem where
  "no_entries = (\<lambda>_. \<lparr>parent = None, left = None, right = None\<rparr>)"

text \<open>Entries 3 and 5 with the number as key; the root 3 is removed.\<close>

definition two_entries :: skew_mem where
  "two_entries = no_entries(3 := \<lparr>parent = None, left = Some 5, right = None\<rparr>, 5 := \<lparr>parent = Some 3, left = None, right = None\<rparr>)"

theorem skew_heap_remove_entry_witness:
  "\<exists>h'. skew_heap_remove (\<lambda>x y. if x < y then - 1 else 1) (Some 3) 3 two_entries = Some (Some 5, h')"
proof -
  have "skew_heap int two_entries (Some 3) {3, 5}"
    unfolding skew_heap_def by (intro exI [of _ "Node (Node Leaf 5 Leaf) 3 Leaf"]) (auto simp: two_entries_def child_def)
  moreover have "compares (\<lambda>x y. if x < y then - 1 else 1) int {3, 5}" by (auto simp: compares_def)
  ultimately show ?thesis using skew_heap_remove_entry [of _ int "{3, 5}" two_entries "Some 3" 3]
    by (fastforce split: option.splits)
qed

text \<open>C10. The run pool of the stride scheduler: processes whose strides lie less than \<open>2 ^ 31\<close> ahead of some base come
  out in the order of their strides, each once, although the 32-bit strides may wrap around between them.\<close>

theorem stride_pool_sorts:
  assumes "distinct xs" and "\<forall>x \<in> set xs. uint (s x - base) < 2 ^ 31"
  shows "\<exists>q ys. fill_queue (\<lambda>x (a, h). skew_heap_insert (proc_stride_comp_f s) a x h) xs (None, h) = Some q \<and>
    drain_queue fst (\<lambda>x (a, h). skew_heap_remove (proc_stride_comp_f s) a x h) (length xs) q = Some ys \<and>
    mset ys = mset xs \<and> sorted (map (\<lambda>x. uint (s x - base)) ys)"
proof -
  have "stride_inv base s (None, h) {}" by (simp add: stride_inv_def skew_heap_empty)
  from stride.fill_drain [OF this assms(1)] assms(2) show ?thesis by (simp add: in_window_def ahead_def [abs_def])
qed

theorem stride_pool_sorts_witness:
  "\<exists>q ys. fill_queue (\<lambda>x (a, h). skew_heap_insert (proc_stride_comp_f (\<lambda>x. if x = 7 then 0xfffffff0 else 0x10)) a x h) [8, 7] (None, no_entries) = Some q \<and>
    drain_queue fst (\<lambda>x (a, h). skew_heap_remove (proc_stride_comp_f (\<lambda>x. if x = 7 then 0xfffffff0 else 0x10)) a x h) 2 q = Some ys \<and> ys = [7, 8]"
proof -
  let ?s = "\<lambda>x :: nat. if x = 7 then 0xfffffff0 else (0x10 :: 32 word)"
  have "distinct [8, 7 :: nat]" "\<forall>x \<in> set [8, 7 :: nat]. uint (?s x - 0xffffff00) < 2 ^ 31" by simp_all
  from stride_pool_sorts [OF this, of no_entries] obtain q ys where
    "fill_queue (\<lambda>x (a, h). skew_heap_insert (proc_stride_comp_f ?s) a x h) [8, 7] (None, no_entries) = Some q"
    "drain_queue fst (\<lambda>x (a, h). skew_heap_remove (proc_stride_comp_f ?s) a x h) 2 q = Some ys"
    "mset ys = mset [8, 7]" "sorted (map (\<lambda>x. uint (?s x - 0xffffff00)) ys)" by (auto simp: numeral_2_eq_2)
  moreover from this(3) have "length ys = Suc (Suc 0)" by (metis mset_eq_length length_Cons list.size(3))
  then obtain x y where "ys = [x, y]" by (auto simp: length_Suc_conv)
  moreover from this have "x = 8 \<and> y = 7 \<or> x = 7 \<and> y = 8" using arg_cong [OF \<open>mset ys = mset [8, 7]\<close>, of set_mset] by (auto simp: doubleton_eq_iff)
  ultimately show ?thesis by auto
qed

end
