(* ===== verification/CString.thy ===== *)
theory CString
  imports Prelude
begin

text \<open>
  libs/string.c on a byte-addressed memory. A pointer is an address, so aliasing and overlap of
  the arguments are visible: each loop performs the byte reads and writes of the code in its
  order. Loops that stop only at a terminating zero are \<^theory_text>\<open>partial_function\<close>s (they do not return
  on a memory without one); loops that count down a size are structural in it. Plain \<open>char\<close> is
  unsigned on RISC-V. The lemmas relate the routines to the string a memory holds at an address
  (\<open>cstr\<close>) and to the bytes of a region (\<open>region\<close>).
\<close>

type_synonym byte = "8 word"
type_synonym bytes = "nat \<Rightarrow> byte"

subsection \<open>Strings\<close>

partial_function (option) strlen_loop :: "bytes \<Rightarrow> nat \<Rightarrow> nat \<Rightarrow> nat option" where
  "strlen_loop m s cnt = (if m s \<noteq> 0 then strlen_loop m (s + 1) (cnt + 1) else Some cnt)"

definition strlen :: "bytes \<Rightarrow> nat \<Rightarrow> nat option" where
  "strlen m s = strlen_loop m s 0"

text \<open>The last argument is \<open>len - cnt\<close>.\<close>

fun strnlen_loop :: "bytes \<Rightarrow> nat \<Rightarrow> nat \<Rightarrow> nat \<Rightarrow> nat" where
  "strnlen_loop m s cnt 0 = cnt"
| "strnlen_loop m s cnt (Suc k) = (if m s \<noteq> 0 then strnlen_loop m (s + 1) (cnt + 1) k else cnt)"

definition strnlen :: "bytes \<Rightarrow> nat \<Rightarrow> nat \<Rightarrow> nat" where
  "strnlen m s len = strnlen_loop m s 0 len"

partial_function (option) strcpy_loop :: "bytes \<Rightarrow> nat \<Rightarrow> nat \<Rightarrow> bytes option" where
  "strcpy_loop m p src =
     (let c = m src; m = m(p := c) in if c \<noteq> 0 then strcpy_loop m (p + 1) (src + 1) else Some m)"

definition strcpy :: "bytes \<Rightarrow> nat \<Rightarrow> nat \<Rightarrow> bytes option" where
  "strcpy m dst src = strcpy_loop m dst src"

fun strncpy_loop :: "bytes \<Rightarrow> nat \<Rightarrow> nat \<Rightarrow> nat \<Rightarrow> bytes" where
  "strncpy_loop m p src 0 = m"
| "strncpy_loop m p src (Suc len) =
     (let c = m src; m = m(p := c)
      in strncpy_loop m (p + 1) (if c \<noteq> 0 then src + 1 else src) len)"

definition strncpy :: "bytes \<Rightarrow> nat \<Rightarrow> nat \<Rightarrow> nat \<Rightarrow> bytes" where
  "strncpy m dst src len = strncpy_loop m dst src len"

definition strcat :: "bytes \<Rightarrow> nat \<Rightarrow> nat \<Rightarrow> bytes option" where
  "strcat m dst src = do { n \<leftarrow> strlen m dst; strcpy m (dst + n) src }"

partial_function (option) strcmp :: "bytes \<Rightarrow> nat \<Rightarrow> nat \<Rightarrow> int option" where
  "strcmp m s1 s2 =
     (if m s1 \<noteq> 0 \<and> m s1 = m s2 then strcmp m (s1 + 1) (s2 + 1)
      else Some (uint (m s1) - uint (m s2)))"

fun strncmp :: "bytes \<Rightarrow> nat \<Rightarrow> nat \<Rightarrow> nat \<Rightarrow> int" where
  "strncmp m s1 s2 0 = 0"
| "strncmp m s1 s2 (Suc n) =
     (if m s1 \<noteq> 0 \<and> m s1 = m s2 then strncmp m (s1 + 1) (s2 + 1) n
      else uint (m s1) - uint (m s2))"

text \<open>The inner option is the returned pointer, \<open>None\<close> for \<open>NULL\<close>.\<close>

partial_function (option) strchr :: "bytes \<Rightarrow> nat \<Rightarrow> byte \<Rightarrow> nat option option" where
  "strchr m s c =
     (if m s \<noteq> 0 then if m s = c then Some (Some s) else strchr m (s + 1) c else Some None)"

partial_function (option) strfind :: "bytes \<Rightarrow> nat \<Rightarrow> byte \<Rightarrow> nat option" where
  "strfind m s c = (if m s \<noteq> 0 \<and> m s \<noteq> c then strfind m (s + 1) c else Some s)"

declare strlen_loop.simps [code] strcpy_loop.simps [code] strcmp.simps [code]
  strchr.simps [code] strfind.simps [code]

subsection \<open>strtol\<close>

partial_function (option) skip_blanks :: "bytes \<Rightarrow> nat \<Rightarrow> nat option" where
  "skip_blanks m s = (if m s = 32 \<or> m s = 9 then skip_blanks m (s + 1) else Some s)"

definition digit_of :: "byte \<Rightarrow> int option" where
  "digit_of c =
     (if 48 \<le> c \<and> c \<le> 57 then Some (uint c - 48)
      else if 97 \<le> c \<and> c \<le> 122 then Some (uint c - 97 + 10)
      else if 65 \<le> c \<and> c \<le> 90 then Some (uint c - 65 + 10)
      else None)"

partial_function (option) digits_loop :: "bytes \<Rightarrow> nat \<Rightarrow> int \<Rightarrow> int \<Rightarrow> (nat \<times> int) option" where
  "digits_loop m s base val =
     (case digit_of (m s) of
        None \<Rightarrow> Some (s, val)
      | Some dig \<Rightarrow>
          if dig \<ge> base then Some (s, val)
          else digits_loop m (s + 1) base (to_i64 (val * base + dig)))"

declare skip_blanks.simps [code] digits_loop.simps [code]

text \<open>The result is the value and the final position (what \<open>*endptr\<close> receives).\<close>

definition strtol :: "bytes \<Rightarrow> nat \<Rightarrow> int \<Rightarrow> (int \<times> nat) option" where
  "strtol m s base = do {
     s \<leftarrow> skip_blanks m s;
     let (s, neg) = (if m s = 43 then (s + 1, False)
                     else if m s = 45 then (s + 1, True) else (s, False));
     let (s, base) =
       (if (base = 0 \<or> base = 16) \<and> m s = 48 \<and> m (s + 1) = 120 then (s + 2, 16)
        else if base = 0 \<and> m s = 48 then (s + 1, 8)
        else if base = 0 then (s, 10) else (s, base));
     (s, val) \<leftarrow> digits_loop m s base 0;
     Some (if neg then to_i64 (- val) else val, s)
   }"

subsection \<open>Memory blocks\<close>

fun memset :: "bytes \<Rightarrow> nat \<Rightarrow> byte \<Rightarrow> nat \<Rightarrow> bytes" where
  "memset m p c 0 = m"
| "memset m p c (Suc n) = memset (m(p := c)) (p + 1) c n"

fun copy_up :: "bytes \<Rightarrow> nat \<Rightarrow> nat \<Rightarrow> nat \<Rightarrow> bytes" where
  "copy_up m d s 0 = m"
| "copy_up m d s (Suc n) = copy_up (m(d := m s)) (d + 1) (s + 1) n"

text \<open>\<open>*-- d = *-- s\<close>: \<open>d\<close> and \<open>s\<close> are the ends of the regions.\<close>

fun copy_down :: "bytes \<Rightarrow> nat \<Rightarrow> nat \<Rightarrow> nat \<Rightarrow> bytes" where
  "copy_down m d s 0 = m"
| "copy_down m d s (Suc n) = copy_down (m(d - 1 := m (s - 1))) (d - 1) (s - 1) n"

definition memmove :: "bytes \<Rightarrow> nat \<Rightarrow> nat \<Rightarrow> nat \<Rightarrow> bytes" where
  "memmove m dst src n =
     (if src < dst \<and> src + n > dst then copy_down m (dst + n) (src + n) n
      else copy_up m dst src n)"

definition memcpy :: "bytes \<Rightarrow> nat \<Rightarrow> nat \<Rightarrow> nat \<Rightarrow> bytes" where
  "memcpy m dst src n = copy_up m dst src n"

fun memcmp :: "bytes \<Rightarrow> nat \<Rightarrow> nat \<Rightarrow> nat \<Rightarrow> int" where
  "memcmp m s1 s2 0 = 0"
| "memcmp m s1 s2 (Suc n) =
     (if m s1 \<noteq> m s2 then uint (m s1) - uint (m s2) else memcmp m (s1 + 1) (s2 + 1) n)"

subsection \<open>Strings and regions in memory\<close>

definition region :: "bytes \<Rightarrow> nat \<Rightarrow> nat \<Rightarrow> byte list" where
  "region m a n = map (\<lambda>i. m (a + i)) [0 ..< n]"

fun cstr :: "bytes \<Rightarrow> nat \<Rightarrow> byte list \<Rightarrow> bool" where
  "cstr m s [] \<longleftrightarrow> m s = 0"
| "cstr m s (c # cs) \<longleftrightarrow> m s = c \<and> c \<noteq> 0 \<and> cstr m (s + 1) cs"

lemma length_region [simp]: "length (region m a n) = n"
  by (simp add: region_def)

lemma region_0 [simp]: "region m a 0 = []"
  by (simp add: region_def)

lemma region_Suc: "region m a (Suc n) = m a # region m (a + 1) n"
  by (auto simp: region_def upt_conv_Cons map_Suc_upt [symmetric] simp del: upt_Suc intro: nth_equalityI)

lemma nth_region [simp]: "i < n \<Longrightarrow> region m a n ! i = m (a + i)"
  by (simp add: region_def)

lemma region_eq_iff: "region m a n = region m' b n \<longleftrightarrow> (\<forall>i < n. m (a + i) = m' (b + i))"
  by (auto simp: list_eq_iff_nth_eq)

lemma cstr_frame: "(\<And>i. s \<le> i \<Longrightarrow> i \<le> s + length cs \<Longrightarrow> m' i = m i) \<Longrightarrow> cstr m' s cs \<longleftrightarrow> cstr m s cs"
proof (induction cs arbitrary: s)
  case (Cons c cs)
  have "cstr m' (s + 1) cs \<longleftrightarrow> cstr m (s + 1) cs"
    by (rule Cons.IH) (rule Cons.prems, auto)
  with Cons.prems [of s] show ?case by simp
qed simp

lemma cstr_append: "cstr m s (xs @ ys) \<Longrightarrow> cstr m (s + length xs) ys"
  by (induction xs arbitrary: s) fastforce+

lemma uint_byte_eq [simp]: "uint (a :: byte) = uint b \<longleftrightarrow> a = b"
  by (simp add: word_uint_eq_iff)

lemma uint_byte_zero [simp]: "uint (a :: byte) = 0 \<longleftrightarrow> a = 0"
  by (simp add: word_uint_eq_iff)

lemma uint_byte_pos [simp]: "0 < uint (a :: byte) \<longleftrightarrow> a \<noteq> 0"
  using uint_ge_0 [of a] uint_byte_zero [of a] by linarith

lemma strlen_loop_cstr: "cstr m s cs \<Longrightarrow> strlen_loop m s cnt = Some (cnt + length cs)"
proof (induction cs arbitrary: s cnt)
  case Nil
  then show ?case by (subst strlen_loop.simps) simp
next
  case (Cons c cs)
  then show ?case by (subst strlen_loop.simps) simp
qed

lemma strlen_cstr: "cstr m s cs \<Longrightarrow> strlen m s = Some (length cs)"
  by (simp add: strlen_def strlen_loop_cstr)

lemma strnlen_loop_cstr: "cstr m s cs \<Longrightarrow> strnlen_loop m s cnt k = cnt + min k (length cs)"
proof (induction cs arbitrary: s cnt k)
  case Nil
  then show ?case by (cases k) auto
next
  case (Cons c cs)
  then show ?case by (cases k) auto
qed

lemma strcpy_loop_cstr:
  assumes "cstr m src cs" and "{p .. p + length cs} \<inter> {src .. src + length cs} = {}"
  shows "\<exists>m'. strcpy_loop m p src = Some m' \<and> cstr m' p cs \<and>
    (\<forall>i. i \<notin> {p .. p + length cs} \<longrightarrow> m' i = m i)"
  using assms
proof (induction cs arbitrary: m p src)
  case Nil
  then show ?case by (subst strcpy_loop.simps) (simp add: Let_def)
next
  case (Cons c cs)
  let ?m = "m(p := c)"
  have "{p + 1 .. p + 1 + length cs} \<inter> {src + 1 .. src + 1 + length cs} = {}"
    using Cons.prems(2) by auto
  moreover have "cstr ?m (src + 1) cs"
    using Cons.prems by (subst cstr_frame [where m = m]) auto
  ultimately obtain m' where m': "strcpy_loop ?m (p + 1) (src + 1) = Some m'"
    "cstr m' (p + 1) cs" "\<forall>i. i \<notin> {p + 1 .. p + 1 + length cs} \<longrightarrow> m' i = ?m i"
    using Cons.IH by blast
  have "strcpy_loop m p src = Some m'"
    using Cons.prems m'(1) by (subst strcpy_loop.simps) (simp add: Let_def)
  with m' Cons.prems show ?case by auto
qed

lemma strcmp_cstr:
  assumes "cstr m s1 xs" and "cstr m s2 ys"
  shows "\<exists>r. strcmp m s1 s2 = Some r \<and> (r = 0 \<longleftrightarrow> xs = ys)"
  using assms
proof (induction xs arbitrary: s1 s2 ys)
  case Nil
  then show ?case by (subst strcmp.simps) (cases ys, auto)
next
  case (Cons c cs)
  show ?case
  proof (cases "\<exists>zs. ys = c # zs")
    case True
    with Cons show ?thesis by (subst strcmp.simps) auto
  next
    case False
    with Cons.prems show ?thesis by (subst strcmp.simps) (cases ys, auto)
  qed
qed

text \<open>The sign of \<open>strcmp\<close> is the lexicographic order of the unsigned bytes.\<close>

lemma strcmp_sign:
  assumes "cstr m s1 xs" and "cstr m s2 ys"
  shows "\<exists>r. strcmp m s1 s2 = Some r \<and> (r < 0 \<longleftrightarrow> ord_class.lexordp (map uint xs) (map uint ys))"
  using assms
proof (induction xs arbitrary: s1 s2 ys)
  case Nil
  then show ?case by (subst strcmp.simps) (cases ys, auto)
next
  case (Cons c cs)
  show ?case
  proof (cases "\<exists>zs. ys = c # zs")
    case True
    with Cons show ?thesis by (subst strcmp.simps) auto
  next
    case False
    with Cons.prems show ?thesis
      by (subst strcmp.simps) (cases ys, auto simp: not_less le_less)
  qed
qed

lemma memset_at: "memset m p c n i = (if p \<le> i \<and> i < p + n then c else m i)"
  by (induction n arbitrary: m p) auto

text \<open>Copying upwards is right unless the destination starts inside the source.\<close>

lemma copy_up_at:
  assumes "d \<le> s \<or> s + n \<le> d"
  shows "copy_up m d s n i = (if d \<le> i \<and> i < d + n then m (s + (i - d)) else m i)"
  using assms
proof (induction n arbitrary: m d s)
  case (Suc n)
  define m1 where "m1 = m(d := m s)"
  have m1: "m1 j = (if j = d then m s else m j)" for j by (simp add: m1_def)
  have "copy_up m1 (d + 1) (s + 1) n i =
      (if d + 1 \<le> i \<and> i < d + 1 + n then m1 (s + 1 + (i - (d + 1))) else m1 i)"
    using Suc.prems by (intro Suc.IH) auto
  moreover have "copy_up m d s (Suc n) i = copy_up m1 (d + 1) (s + 1) n i"
    by (simp add: m1_def)
  ultimately have step: "copy_up m d s (Suc n) i =
      (if d + 1 \<le> i \<and> i < d + 1 + n then m1 (s + 1 + (i - (d + 1))) else m1 i)"
    by simp
  show ?case
  proof (cases "d + 1 \<le> i \<and> i < d + 1 + n")
    case True
    then have "s + 1 + (i - (d + 1)) = s + (i - d)" by arith
    moreover have "s + (i - d) \<noteq> d" using True Suc.prems by auto
    ultimately show ?thesis using step True by (simp add: m1)
  next
    case False
    with step show ?thesis by (auto simp: m1)
  qed
qed auto

lemma copy_down_at:
  assumes "s \<le> d"
  shows "copy_down m (d + n) (s + n) n i = (if d \<le> i \<and> i < d + n then m (s + (i - d)) else m i)"
  using assms
proof (induction n arbitrary: m)
  case (Suc n)
  define m1 where "m1 = m(d + n := m (s + n))"
  have m1: "m1 j = (if j = d + n then m (s + n) else m j)" for j by (simp add: m1_def)
  have "copy_down m1 (d + n) (s + n) n i =
      (if d \<le> i \<and> i < d + n then m1 (s + (i - d)) else m1 i)"
    by (rule Suc.IH [OF Suc.prems])
  moreover have "copy_down m (d + Suc n) (s + Suc n) (Suc n) i = copy_down m1 (d + n) (s + n) n i"
    by (simp add: m1_def)
  ultimately show ?case using Suc.prems by (auto simp: m1)
qed auto

lemma memmove_at:
  "memmove m dst src n i = (if dst \<le> i \<and> i < dst + n then m (src + (i - dst)) else m i)"
  unfolding memmove_def using copy_up_at [of dst src n m i] copy_down_at [of src dst m n i]
  by (auto simp: not_less)

lemma memcmp_zero: "memcmp m a b n = 0 \<longleftrightarrow> region m a n = region m b n"
  by (induction m a b n rule: memcmp.induct) (auto simp: region_Suc region_0)

subsection \<open>Properties\<close>

text \<open>\<open>memmove\<close> copies a region correctly for every overlap of source and destination: the
  destination receives the bytes the source held before the call and nothing else changes.\<close>

theorem memmove_correct:
  "region (memmove m dst src n) dst n = region m src n \<and>
   (\<forall>i. memmove m dst src n i = (if i \<in> {dst ..< dst + n} then m (src + (i - dst)) else m i))"
  by (auto simp: region_eq_iff memmove_at)

text \<open>\<open>strcpy\<close> returns on every terminated source that does not overlap its destination; the
  destination then holds the same string and no byte behind its terminator is touched.\<close>

theorem strcpy_correct:
  assumes "cstr m src cs" and "{dst .. dst + length cs} \<inter> {src .. src + length cs} = {}"
  shows "\<exists>m'. strcpy m dst src = Some m' \<and> cstr m' dst cs \<and>
    (\<forall>i. i \<notin> {dst .. dst + length cs} \<longrightarrow> m' i = m i) \<and> strcmp m' dst src = Some 0"
proof -
  obtain m' where m': "strcpy_loop m dst src = Some m'" "cstr m' dst cs"
    "\<forall>i. i \<notin> {dst .. dst + length cs} \<longrightarrow> m' i = m i"
    using strcpy_loop_cstr [OF assms] by blast
  moreover have "cstr m' src cs"
    using assms m'(3) by (subst cstr_frame [where m = m]) auto
  ultimately show ?thesis
    using strcmp_cstr [of m' dst cs src cs] by (auto simp: strcpy_def)
qed

definition hi_memory :: bytes where
  "hi_memory = (\<lambda>_. 0)(100 := 104, 101 := 105)"

theorem strcpy_correct_witness:
  "\<exists>m'. strcpy hi_memory 200 100 = Some m' \<and> cstr m' 200 [104, 105] \<and> strcmp m' 200 100 = Some 0"
  using strcpy_correct [of hi_memory 100 "[104, 105]" 200] by (auto simp: hi_memory_def)

text \<open>\<open>strcmp\<close> returns on two terminated strings; the result is zero exactly for equal strings
  and negative exactly when the first precedes the second in the order of the unsigned bytes.\<close>

theorem strcmp_correct:
  assumes "cstr m s1 xs" and "cstr m s2 ys"
  shows "\<exists>r. strcmp m s1 s2 = Some r \<and> (r = 0 \<longleftrightarrow> xs = ys) \<and>
    (r < 0 \<longleftrightarrow> ord_class.lexordp (map uint xs) (map uint ys))"
  using strcmp_cstr [OF assms] strcmp_sign [OF assms] by auto

theorem strcmp_correct_witness:
  "\<exists>r. strcmp hi_memory 101 100 = Some r \<and> \<not> r = 0 \<and> \<not> r < 0"
  using strcmp_correct [of hi_memory 101 "[105]" 100 "[104, 105]"] by (auto simp: hi_memory_def)

end
