(* ===== verification/Printf.thy ===== *)
theory Printf
  imports CString
begin

text \<open>
  libs/printfmt.c: the formatted output routines. The model returns the sequence of values handed
  to \<open>putch\<close>. A format or string is read through a function from offsets to bytes, so memory
  strings and string literals are treated alike; the variable arguments are the 64-bit argument
  slots of the RISC-V calling convention, from which \<open>va_arg\<close> takes the low bits of the type
  asked for. Reading more arguments than were passed is undefined in C and \<open>None\<close> here.
  \<open>vsnprintf\<close> writes the output to memory after formatting it; the code interleaves the two,
  which is the same where the buffer does not overlap the format and the string arguments.
\<close>

type_synonym reader = "nat \<Rightarrow> byte"

definition lit :: "string \<Rightarrow> reader" where
  "lit s i = (if i < length s then of_char (s ! i) else 0)"

definition E_UNSPECIFIED :: int where "E_UNSPECIFIED = 1"
definition E_BAD_PROC :: int where "E_BAD_PROC = 2"
definition E_INVAL :: int where "E_INVAL = 3"
definition E_NO_MEM :: int where "E_NO_MEM = 4"
definition E_NO_FREE_PROC :: int where "E_NO_FREE_PROC = 5"
definition E_FAULT :: int where "E_FAULT = 6"
definition E_INVAL_ELF :: int where "E_INVAL_ELF = 8"
definition E_KILLED :: int where "E_KILLED = 9"
definition E_TOO_BIG :: int where "E_TOO_BIG = 12"
definition E_NO_DEV :: int where "E_NO_DEV = 13"
definition E_NA_DEV :: int where "E_NA_DEV = 14"
definition E_BUSY :: int where "E_BUSY = 15"
definition E_NOENT :: int where "E_NOENT = 16"
definition E_ISDIR :: int where "E_ISDIR = 17"
definition E_NOTDIR :: int where "E_NOTDIR = 18"
definition E_XDEV :: int where "E_XDEV = 19"
definition E_UNIMP :: int where "E_UNIMP = 20"
definition E_SEEK :: int where "E_SEEK = 21"
definition E_MAX_OPEN :: int where "E_MAX_OPEN = 22"
definition E_EXISTS :: int where "E_EXISTS = 23"
definition E_NOTEMPTY :: int where "E_NOTEMPTY = 24"
definition MAXERROR :: int where "MAXERROR = 24"

lemmas error_codes = E_UNSPECIFIED_def E_BAD_PROC_def E_INVAL_def E_NO_MEM_def E_NO_FREE_PROC_def
  E_FAULT_def E_INVAL_ELF_def E_KILLED_def E_TOO_BIG_def E_NO_DEV_def E_NA_DEV_def E_BUSY_def
  E_NOENT_def E_ISDIR_def E_NOTDIR_def E_XDEV_def E_UNIMP_def E_SEEK_def E_MAX_OPEN_def
  E_EXISTS_def E_NOTEMPTY_def MAXERROR_def

text \<open>\<open>error_string\<close>: the entries without an initialiser are null pointers.\<close>

definition error_string :: "int \<Rightarrow> string option" where
  "error_string e =
     (if e = 1 then Some ''unspecified error''
      else if e = 2 then Some ''bad process''
      else if e = 3 then Some ''invalid parameter''
      else if e = 4 then Some ''out of memory''
      else if e = 5 then Some ''out of processes''
      else if e = 6 then Some ''segmentation fault''
      else if e = 8 then Some ''invalid elf file''
      else if e = 9 then Some ''process is killed''
      else if e = 10 then Some ''panic failure''
      else if e = 13 then Some ''no such device''
      else if e = 14 then Some ''device not available''
      else if e = 15 then Some ''device/file is busy''
      else if e = 16 then Some ''no such file or directory''
      else if e = 17 then Some ''is a directory''
      else if e = 18 then Some ''not a directory''
      else if e = 19 then Some ''cross device link''
      else if e = 20 then Some ''unimplemented feature''
      else if e = 21 then Some ''illegal seek''
      else if e = 22 then Some ''too many files are open''
      else if e = 23 then Some ''file or directory already exists''
      else if e = 24 then Some ''directory is not empty''
      else None)"

subsection \<open>Numbers\<close>

definition digit_char :: "nat \<Rightarrow> int" where
  "digit_char d = (if d < 10 then 48 + int d else 87 + int d)"

partial_function (option) printnum :: "nat \<Rightarrow> nat \<Rightarrow> int \<Rightarrow> int \<Rightarrow> int list option" where
  "printnum num base width padc =
     (let result = num div base; md = num mod base in
      do {
        out \<leftarrow> (if num \<ge> base then printnum result base (width - 1) padc
               else Some (replicate (nat (width - 1)) padc));
        Some (out @ [digit_char md])
      })"

declare printnum.simps [code]

type_synonym va_list = "64 word list"

fun va_arg :: "va_list \<Rightarrow> (64 word \<times> va_list) option" where
  "va_arg [] = None"
| "va_arg (w # ap) = Some (w, ap)"

definition va_int :: "64 word \<Rightarrow> int" where
  "va_int w = sint (ucast w :: 32 word)"

definition getuint :: "va_list \<Rightarrow> int \<Rightarrow> (nat \<times> va_list) option" where
  "getuint ap lflag = do {
     (w, ap) \<leftarrow> va_arg ap;
     if lflag \<ge> 2 then Some (unat w, ap)
     else if lflag \<noteq> 0 then Some (unat w, ap)
     else Some (unat (ucast w :: 32 word), ap)
   }"

definition getint :: "va_list \<Rightarrow> int \<Rightarrow> (int \<times> va_list) option" where
  "getint ap lflag = do {
     (w, ap) \<leftarrow> va_arg ap;
     if lflag \<ge> 2 then Some (sint w, ap)
     else if lflag \<noteq> 0 then Some (sint w, ap)
     else Some (va_int w, ap)
   }"

subsection \<open>The format interpreter\<close>

record fspec =
  padc :: int
  width :: int
  precision :: int
  lflag :: int
  altflag :: bool

definition fspec0 :: fspec where
  "fspec0 = \<lparr>padc = 32, width = -1, precision = -1, lflag = 0, altflag = False\<rparr>"

definition is_digit :: "byte \<Rightarrow> bool" where
  "is_digit c \<longleftrightarrow> 48 \<le> c \<and> c \<le> 57"

text \<open>The loop of \<open>case '1' ... '9'\<close>: the number read so far and the next position.\<close>

partial_function (option) width_loop :: "reader \<Rightarrow> nat \<Rightarrow> byte \<Rightarrow> int \<Rightarrow> (int \<times> nat) option" where
  "width_loop f i ch prec =
     (let prec = to_i32 (prec * 10 + uint ch - 48); ch = f i in
      if is_digit ch then width_loop f (i + 1) ch prec else Some (prec, i))"

definition process_precision :: "fspec \<Rightarrow> fspec" where
  "process_precision sp =
     (if width sp < 0 then sp\<lparr>width := precision sp, precision := -1\<rparr> else sp)"

text \<open>The character loop of \<open>%s\<close>: the output and the width that is left.\<close>

partial_function (option) string_loop ::
    "reader \<Rightarrow> nat \<Rightarrow> bool \<Rightarrow> int \<Rightarrow> int \<Rightarrow> (int list \<times> int) option" where
  "string_loop p i alt prec wid =
     (let ch = uint (p i); i = i + 1 in
      if ch \<noteq> 0 \<and> (prec < 0 \<or> prec - 1 \<ge> 0)
      then do {
        (out, wid) \<leftarrow> string_loop p i alt (if prec < 0 then prec else prec - 1) (wid - 1);
        Some ((if alt \<and> (ch < 32 \<or> ch > 126) then 63 else ch) # out, wid)
      }
      else Some ([], wid))"

declare width_loop.simps [code] string_loop.simps [code]

text \<open>\<open>precision\<close> is converted to \<open>size_t\<close> when it is passed to \<open>strnlen\<close>.\<close>

definition print_string :: "reader \<Rightarrow> fspec \<Rightarrow> int list option" where
  "print_string p sp =
     (let n = strnlen p 0 (nat (precision sp mod 2 ^ 64));
          (pad, wid) = (if width sp > 0 \<and> padc sp \<noteq> 45
            then (let w = to_i32 (width sp - int n) in (replicate (nat w) (padc sp), min w 0))
            else ([], width sp))
      in do {
        (out, wid) \<leftarrow> string_loop p 0 (altflag sp) (precision sp) wid;
        Some (pad @ out @ replicate (nat wid) 32)
      })"

text \<open>\<open>for (fmt --; fmt[-1] != '%'; fmt --)\<close>, from the position behind the unknown character.\<close>

fun back_to_percent :: "reader \<Rightarrow> nat \<Rightarrow> nat" where
  "back_to_percent f 0 = 0"
| "back_to_percent f (Suc i) = (if f i = 37 then Suc i else back_to_percent f i)"

text \<open>
  From the label \<open>reswitch\<close> on: the flags, width and precision, up to the conversion character.
  The result is that character, the flags, the next position and the remaining arguments.
\<close>

partial_function (option) reswitch ::
    "reader \<Rightarrow> nat \<Rightarrow> va_list \<Rightarrow> fspec \<Rightarrow> (byte \<times> fspec \<times> nat \<times> va_list) option" where
  "reswitch f i ap sp =
     (let ch = f i; i = i + 1 in
      if ch = 45 then reswitch f i ap (sp\<lparr>padc := 45\<rparr>)
      else if ch = 48 then reswitch f i ap (sp\<lparr>padc := 48\<rparr>)
      else if 49 \<le> ch \<and> ch \<le> 57 then do {
        pos \<leftarrow> width_loop f i ch 0;
        reswitch f (snd pos) ap (process_precision (sp\<lparr>precision := fst pos\<rparr>))
      }
      else if ch = 42 then do {
        arg \<leftarrow> va_arg ap;
        reswitch f i (snd arg) (process_precision (sp\<lparr>precision := va_int (fst arg)\<rparr>))
      }
      else if ch = 46 then reswitch f i ap (if width sp < 0 then sp\<lparr>width := 0\<rparr> else sp)
      else if ch = 35 then reswitch f i ap (sp\<lparr>altflag := True\<rparr>)
      else if ch = 108 then reswitch f i ap (sp\<lparr>lflag := lflag sp + 1\<rparr>)
      else Some (ch, sp, i, ap))"

text \<open>The conversions, \<open>%e\<close> apart: the output, the next position and the remaining arguments.\<close>

definition convert ::
    "bytes \<Rightarrow> reader \<Rightarrow> byte \<Rightarrow> fspec \<Rightarrow> nat \<Rightarrow> va_list \<Rightarrow> (int list \<times> nat \<times> va_list) option" where
  "convert m f ch sp i ap =
     (if ch = 99 then do {
        (w, ap) \<leftarrow> va_arg ap;
        Some ([va_int w], i, ap)
      }
      else if ch = 115 then do {
        (w, ap) \<leftarrow> va_arg ap;
        out \<leftarrow> print_string (if w = 0 then lit ''(null)'' else (\<lambda>k. m (unat w + k))) sp;
        Some (out, i, ap)
      }
      else if ch = 100 then do {
        (num, ap) \<leftarrow> getint ap (lflag sp);
        digits \<leftarrow> printnum (nat \<bar>num\<bar>) 10 (width sp) (padc sp);
        Some ((if num < 0 then [45] else []) @ digits, i, ap)
      }
      else if ch = 117 \<or> ch = 111 \<or> ch = 120 then do {
        (num, ap) \<leftarrow> getuint ap (lflag sp);
        digits \<leftarrow> printnum num (if ch = 117 then 10 else if ch = 111 then 8 else 16)
          (width sp) (padc sp);
        Some (digits, i, ap)
      }
      else if ch = 112 then do {
        (w, ap) \<leftarrow> va_arg ap;
        digits \<leftarrow> printnum (unat w) 16 (width sp) (padc sp);
        Some ([48, 120] @ digits, i, ap)
      }
      else if ch = 37 then Some ([37], i, ap)
      else Some ([37], back_to_percent f (i - 1), ap))"

definition error_fmt :: reader where
  "error_fmt = lit ''error %d''"

partial_function (option) vprintfmt :: "bytes \<Rightarrow> reader \<Rightarrow> nat \<Rightarrow> va_list \<Rightarrow> int list option" where
  "vprintfmt m f i ap =
     (let ch = f i; i = i + 1 in
      if ch = 0 then Some []
      else if ch \<noteq> 37 then do {
        out \<leftarrow> vprintfmt m f i ap;
        Some (uint ch # out)
      }
      else do {
        (ch, sp, i, ap) \<leftarrow> reswitch f i ap fspec0;
        if ch = 101 then do {
          (w, ap) \<leftarrow> va_arg ap;
          let err = (if va_int w < 0 then to_i32 (- va_int w) else va_int w);
          msg \<leftarrow> (if err > MAXERROR \<or> error_string err = None
                 then vprintfmt m error_fmt 0 [word_of_int err]
                 else print_string (lit (the (error_string err))) fspec0);
          out \<leftarrow> vprintfmt m f i ap;
          Some (msg @ out)
        }
        else do {
          (str, i, ap) \<leftarrow> convert m f ch sp i ap;
          out \<leftarrow> vprintfmt m f i ap;
          Some (str @ out)
        }
      })"

declare reswitch.simps [code]
declare vprintfmt.simps [code]

definition printfmt :: "bytes \<Rightarrow> reader \<Rightarrow> va_list \<Rightarrow> int list option" where
  "printfmt m f ap = vprintfmt m f 0 ap"

subsection \<open>Printing into a buffer\<close>

record sprintbuf =
  buf :: nat
  ebuf :: nat
  cnt :: nat

definition sprintputch :: "int \<Rightarrow> bytes \<times> sprintbuf \<Rightarrow> bytes \<times> sprintbuf" where
  "sprintputch ch mb =
     (let (m, b) = mb; b = b\<lparr>cnt := cnt b + 1\<rparr> in
      if buf b < ebuf b then (m(buf b := word_of_int ch), b\<lparr>buf := buf b + 1\<rparr>) else (m, b))"

definition vsnprintf :: "bytes \<Rightarrow> nat \<Rightarrow> nat \<Rightarrow> reader \<Rightarrow> va_list \<Rightarrow> (int \<times> bytes) option" where
  "vsnprintf m str sz f ap =
     (if str = 0 \<or> sz = 0 then Some (- E_INVAL, m)
      else do {
        out \<leftarrow> vprintfmt m f 0 ap;
        let mb = fold sprintputch out (m, \<lparr>buf = str, ebuf = str + sz - 1, cnt = 0\<rparr>);
        Some (int (cnt (snd mb)), (fst mb)(buf (snd mb) := 0))
      })"

definition snprintf :: "bytes \<Rightarrow> nat \<Rightarrow> nat \<Rightarrow> reader \<Rightarrow> va_list \<Rightarrow> (int \<times> bytes) option" where
  "snprintf m str sz f ap = vsnprintf m str sz f ap"

subsection \<open>The buffer is never overrun\<close>

lemma sprintputch_fold:
  assumes "p \<le> e"
  shows "fold sprintputch out (m, \<lparr>buf = p, ebuf = e, cnt = c\<rparr>) =
    (\<lambda>i. if p \<le> i \<and> i < min e (p + length out) then word_of_int (out ! (i - p)) else m i,
     \<lparr>buf = min e (p + length out), ebuf = e, cnt = c + length out\<rparr>)"
  using assms
proof (induction out arbitrary: m p c)
  case (Cons x xs)
  show ?case
  proof (cases "p < e")
    case True
    then have "fold sprintputch (x # xs) (m, \<lparr>buf = p, ebuf = e, cnt = c\<rparr>) =
        fold sprintputch xs (m(p := word_of_int x), \<lparr>buf = p + 1, ebuf = e, cnt = c + 1\<rparr>)"
      by (simp add: sprintputch_def)
    also have "\<dots> = (\<lambda>i. if p + 1 \<le> i \<and> i < min e (p + 1 + length xs)
          then word_of_int (xs ! (i - (p + 1))) else (m(p := word_of_int x)) i,
        \<lparr>buf = min e (p + 1 + length xs), ebuf = e, cnt = c + 1 + length xs\<rparr>)"
      by (rule Cons.IH) (use True in simp)
    finally show ?thesis
      using True by (auto simp: nth_Cons' fun_eq_iff)
  next
    case False
    then have "fold sprintputch (x # xs) (m, \<lparr>buf = p, ebuf = e, cnt = c\<rparr>) =
        fold sprintputch xs (m, \<lparr>buf = p, ebuf = e, cnt = c + 1\<rparr>)"
      by (simp add: sprintputch_def)
    also have "\<dots> = (\<lambda>i. if p \<le> i \<and> i < min e (p + length xs)
          then word_of_int (xs ! (i - p)) else m i,
        \<lparr>buf = min e (p + length xs), ebuf = e, cnt = c + 1 + length xs\<rparr>)"
      by (rule Cons.IH) (rule Cons.prems)
    finally show ?thesis
      using False Cons.prems by (auto simp: fun_eq_iff)
  qed
qed (auto simp: min_def fun_eq_iff)

lemma vsnprintf_out:
  assumes "vprintfmt m f 0 ap = Some out" and "str \<noteq> 0" and "0 < sz"
  shows "\<exists>m'. vsnprintf m str sz f ap = Some (int (length out), m') \<and>
    m' (str + min (sz - 1) (length out)) = 0 \<and>
    (\<forall>i < min (sz - 1) (length out). m' (str + i) = word_of_int (out ! i)) \<and>
    (\<forall>a. a \<notin> {str ..< str + sz} \<longrightarrow> m' a = m a)"
proof -
  have "str \<le> str + sz - 1" using assms by simp
  note fold = sprintputch_fold [OF this, of out m 0]
  show ?thesis
    using assms fold by (auto simp: vsnprintf_def Let_def min_def)
qed

subsection \<open>Numbers printed and read back\<close>

text \<open>The value of a sequence of digits, least significant last.\<close>

definition digits_value :: "nat \<Rightarrow> nat list \<Rightarrow> nat" where
  "digits_value base ds = foldl (\<lambda>v d. v * base + d) 0 ds"

lemma printnum_digits:
  assumes "2 \<le> base" and "w \<le> 1"
  shows "\<exists>ds. printnum num base w pd = Some (map digit_char ds) \<and> ds \<noteq> [] \<and>
    (\<forall>d \<in> set ds. d < base) \<and> digits_value base ds = num \<and>
    (\<forall>k. 0 < k \<longrightarrow> num < base ^ k \<longrightarrow> length ds \<le> k)"
  using assms(2)
proof (induction num arbitrary: w rule: less_induct)
  case (less num)
  show ?case
  proof (cases "num \<ge> base")
    case True
    then have "num div base < num" using assms by simp
    from less.IH [OF this, of "w - 1"] less.prems obtain ds where
      ds: "printnum (num div base) base (w - 1) pd = Some (map digit_char ds)" "ds \<noteq> []"
      "\<forall>d \<in> set ds. d < base" "digits_value base ds = num div base"
      "\<forall>k. 0 < k \<longrightarrow> num div base < base ^ k \<longrightarrow> length ds \<le> k" by auto
    then have out: "printnum num base w pd = Some (map digit_char (ds @ [num mod base]))"
      using True by (subst printnum.simps) (simp add: Let_def)
    have "length (ds @ [num mod base]) \<le> k" if "0 < k" "num < base ^ k" for k
    proof (cases k)
      case (Suc j)
      then have "0 < j" using that True by (cases j) auto
      moreover have "num div base < base ^ j"
        using that Suc assms(1) by (simp add: less_mult_imp_div_less mult.commute)
      ultimately show ?thesis using ds(5) Suc by auto
    qed (use that in simp)
    with ds out assms show ?thesis
      by (intro exI [of _ "ds @ [num mod base]"]) (auto simp: digits_value_def)
  next
    case False
    then have "printnum num base w pd = Some (map digit_char [num])"
      using less.prems by (subst printnum.simps) (simp add: Let_def)
    with False show ?thesis
      by (intro exI [of _ "[num]"]) (auto simp: digits_value_def)
  qed
qed

lemma to_i64_step: "to_i64 (to_i64 v * b + d) = to_i64 (v * b + d)"
  unfolding to_i64_def signed_take_bit_eq_iff_take_bit_eq
  by (metis (no_types) mod_add_left_eq mod_mult_left_eq take_bit_eq_mod take_bit_signed_take_bit
      order_refl)

lemma to_i64_minus: "to_i64 (- to_i64 v) = to_i64 (- v)"
  unfolding to_i64_def signed_take_bit_eq_iff_take_bit_eq
  by (metis (no_types) mod_minus_eq take_bit_eq_mod take_bit_signed_take_bit order_refl)

lemma digit_of_char: "d < 10 \<Longrightarrow> digit_of (word_of_int (digit_char d)) = Some (int d)"
  by (subgoal_tac "d \<in> {0, 1, 2, 3, 4, 5, 6, 7, 8, 9}")
    (auto simp: digit_of_def digit_char_def)

lemma digits_loop_digits:
  assumes "\<forall>i < length ds. m (s + i) = word_of_int (digit_char (ds ! i))"
    and "\<forall>d \<in> set ds. d < 10" and "m (s + length ds) = 0"
  shows "digits_loop m s 10 (to_i64 v) =
    Some (s + length ds, to_i64 (foldl (\<lambda>v d. v * 10 + int d) v ds))"
  using assms
proof (induction ds arbitrary: s v)
  case Nil
  then show ?case by (subst digits_loop.simps) (simp add: digit_of_def)
next
  case (Cons d ds)
  have "m s = word_of_int (digit_char d)" using Cons.prems(1) by force
  then have d: "digit_of (m s) = Some (int d)" "d < 10"
    using Cons.prems(2) by (simp_all add: digit_of_char)
  have "digits_loop m (s + 1) 10 (to_i64 (v * 10 + int d)) =
      Some (s + 1 + length ds, to_i64 (foldl (\<lambda>v d. v * 10 + int d) (v * 10 + int d) ds))"
    by (rule Cons.IH) (use Cons.prems in \<open>force+\<close>)
  with d show ?case
    by (subst digits_loop.simps) (simp add: to_i64_step)
qed

lemma foldl_int: "foldl (\<lambda>v d. v * 10 + int d) (int v) ds = int (foldl (\<lambda>v d. v * 10 + d) v ds)"
proof (induction ds arbitrary: v)
  case (Cons d ds)
  have "int v * 10 + int d = int (v * 10 + d)" by simp
  then show ?case using Cons.IH [of "v * 10 + d"] by simp
qed simp

lemma digit_char_not_special:
  assumes "d < 10"
  shows "(word_of_int (digit_char d) :: byte) \<notin> {32, 9, 43, 45}"
  using assms by (subgoal_tac "d \<in> {0, 1, 2, 3, 4, 5, 6, 7, 8, 9}") (auto simp: digit_char_def)

lemma strtol_digits:
  assumes ds: "\<forall>i < length ds. m (s + i) = word_of_int (digit_char (ds ! i))"
    "\<forall>d \<in> set ds. d < 10" "m (s + length ds) = 0" "ds \<noteq> []"
  shows "strtol m s 10 = Some (to_i64 (int (digits_value 10 ds)), s + length ds)"
    and "m (s - 1) = 45 \<Longrightarrow> 0 < s \<Longrightarrow>
      strtol m (s - 1) 10 = Some (to_i64 (- int (digits_value 10 ds)), s + length ds)"
proof -
  have loop: "digits_loop m s 10 0 = Some (s + length ds, to_i64 (int (digits_value 10 ds)))"
    using digits_loop_digits [OF ds(1-3), of 0] foldl_int [of 0 ds] by (simp add: digits_value_def)
  have "m s = word_of_int (digit_char (hd ds))" using ds(1,4) by (cases ds) force+
  moreover have "hd ds < 10" using ds(2,4) by (cases ds) auto
  ultimately have first: "m s \<notin> {32, 9, 43, 45}"
    using digit_char_not_special by metis
  then have "skip_blanks m s = Some s" by (subst skip_blanks.simps) auto
  with first loop show "strtol m s 10 = Some (to_i64 (int (digits_value 10 ds)), s + length ds)"
    by (auto simp: strtol_def)
  assume minus: "m (s - 1) = 45" "0 < s"
  then have "skip_blanks m (s - 1) = Some (s - 1)" by (subst skip_blanks.simps) auto
  with minus loop show
    "strtol m (s - 1) 10 = Some (to_i64 (- int (digits_value 10 ds)), s + length ds)"
    by (auto simp: strtol_def to_i64_minus)
qed

lemma vprintfmt_ld:
  "vprintfmt m (lit ''%ld'') 0 [w] = do {
     digits \<leftarrow> printnum (nat \<bar>sint w\<bar>) 10 (-1) 32;
     Some ((if sint w < 0 then [45] else []) @ digits)
   }"
proof -
  have fmt: "lit ''%ld'' 0 = 37" "lit ''%ld'' (Suc 0) = 108" "lit ''%ld'' (Suc (Suc 0)) = 100"
    "lit ''%ld'' (Suc (Suc (Suc 0))) = 0"
    by (simp_all add: lit_def)
  have sw: "reswitch (lit ''%ld'') (Suc 0) [w] fspec0 =
      Some (100, fspec0\<lparr>lflag := 1\<rparr>, Suc (Suc (Suc 0)), [w])"
    using fmt by (subst reswitch.simps, simp, subst reswitch.simps) (simp add: fspec0_def)
  have last: "vprintfmt m (lit ''%ld'') (Suc (Suc (Suc 0))) [] = Some []"
    using fmt by (subst vprintfmt.simps) simp
  show ?thesis
    using fmt sw last
    by (cases "printnum (nat \<bar>sint w\<bar>) 10 (-1) 32"; subst vprintfmt.simps)
      (auto simp: convert_def getint_def fspec0_def)
qed

subsection \<open>Properties\<close>

text \<open>C37. \<open>vsnprintf\<close> returns the length of the complete output, places its first \<open>size - 1\<close>
  characters at \<open>str\<close>, terminates them, and writes nothing outside the \<open>size\<close> bytes.\<close>

theorem vsnprintf_bounded:
  assumes "vprintfmt m f 0 ap = Some out" and "str \<noteq> 0" and "0 < sz"
  shows "\<exists>m'. vsnprintf m str sz f ap = Some (int (length out), m') \<and>
    m' (str + min (sz - 1) (length out)) = 0 \<and>
    (\<forall>i < min (sz - 1) (length out). m' (str + i) = word_of_int (out ! i)) \<and>
    (\<forall>a. a \<notin> {str ..< str + sz} \<longrightarrow> m' a = m a)"
  by (rule vsnprintf_out [OF assms])

theorem vsnprintf_bounded_witness:
  "\<exists>m'. vsnprintf (\<lambda>_. 7) 100 1 (lit '''') [] = Some (0, m') \<and> m' 100 = 0 \<and> m' 101 = 7"
proof -
  have "vprintfmt (\<lambda>_. 7) (lit '''') 0 [] = Some []"
    by (subst vprintfmt.simps) (simp add: lit_def)
  from vsnprintf_bounded [OF this, of 100 1] show ?thesis by fastforce
qed

text \<open>C36. A \<open>long\<close> printed with \<open>%ld\<close> into a buffer of at least 21 bytes is read back unchanged by
  \<open>strtol\<close>, for every value of the type, the most negative one included.\<close>

theorem printf_strtol_roundtrip:
  assumes "str \<noteq> 0" and "21 \<le> sz"
  shows "\<exists>n m'. vsnprintf m str sz (lit ''%ld'') [w] = Some (int n, m') \<and>
    strtol m' str 10 = Some (sint w, str + n)"
proof -
  let ?num = "nat \<bar>sint w\<bar>"
  have range: "- (2 ^ 63) \<le> sint w" "sint w < 2 ^ 63"
    using sint_ge [of w] sint_lt [of w] by auto
  then have "?num < 10 ^ 19" by auto
  then obtain ds where ds: "printnum ?num 10 (-1) 32 = Some (map digit_char ds)" "ds \<noteq> []"
    "\<forall>d \<in> set ds. d < 10" "digits_value 10 ds = ?num" "length ds \<le> 19"
    using printnum_digits [of 10 "-1" ?num 32] by auto
  define out where "out = (if sint w < 0 then [45] else []) @ map digit_char ds"
  have "vprintfmt m (lit ''%ld'') 0 [w] = Some out"
    by (simp add: vprintfmt_ld ds(1) out_def)
  moreover have len: "min (sz - 1) (length out) = length out"
    using assms(2) ds(5) by (auto simp: out_def)
  ultimately obtain m' where
    m': "vsnprintf m str sz (lit ''%ld'') [w] = Some (int (length out), m')"
    "m' (str + length out) = 0" "\<forall>i < length out. m' (str + i) = word_of_int (out ! i)"
    using vsnprintf_out [OF _ assms(1), of m "lit ''%ld''" "[w]" out sz] assms(2)
    unfolding len by auto
  have "strtol m' str 10 = Some (sint w, str + length out)"
  proof (cases "sint w < 0")
    case True
    then have "m' str = 45" "\<forall>i < length ds. m' (str + 1 + i) = word_of_int (digit_char (ds ! i))"
      "m' (str + 1 + length ds) = 0"
      using m'(2) m'(3) [rule_format, of 0] m'(3) [rule_format, of "Suc _"] by (auto simp: out_def)
    with strtol_digits(2) [OF this(2) ds(3) this(3) ds(2)] True range ds(4) show ?thesis
      by (simp add: out_def)
  next
    case False
    then have "\<forall>i < length ds. m' (str + i) = word_of_int (digit_char (ds ! i))"
      "m' (str + length ds) = 0"
      using m'(2,3) by (auto simp: out_def)
    from strtol_digits(1) [OF this(1) ds(3) this(2) ds(2)] False range ds(4) show ?thesis
      by (simp add: out_def)
  qed
  with m'(1) show ?thesis by blast
qed

theorem printf_strtol_roundtrip_witness:
  "\<exists>n m'. vsnprintf (\<lambda>_. 7) 100 32 (lit ''%ld'') [-1] = Some (int n, m') \<and>
    strtol m' 100 10 = Some (-1, 100 + n)"
  using printf_strtol_roundtrip [of 100 32 "\<lambda>_. 7" "-1"] by simp

end
