(* ===== verification/Procs.thy ===== *)
theory Procs
  imports Printf DList
begin

text \<open>
  The process control blocks of kern/process/proc.h with the scheduler's run queue
  (kern/schedule/sched.h), the timers and the wait queue entries (kern/sync/wait.h) that point
  to them. Pointers to these structures are their numbers, a null pointer is \<open>None\<close>. All
  \<open>list_entry_t\<close> fields of the structures and the list heads form one heap of list nodes, so that
  an operation on one list is seen to leave the others alone. Interrupts are disabled inside the
  sections modelled (\<open>local_intr_save\<close>), which is why each of them is one function.
\<close>

subsection \<open>The state\<close>

datatype proc_state = PROC_UNINIT | PROC_SLEEPING | PROC_RUNNABLE | PROC_ZOMBIE

datatype knode =
    RunHead | RunLink nat
  | TimerHead | TimerLink nat
  | WaitHead nat | WaitLink nat
  | ProcHead | ListLink nat
  | HashHead nat | HashLink nat

record proc =
  pstate :: proc_state
  pid :: int
  runs :: int
  kstack :: nat
  need_resched :: bool
  parent :: "nat option"
  proc_mm :: "nat option"
  pflags :: "32 word"
  pname :: "byte list"
  exit_code :: int
  wait_state :: "32 word"
  cptr :: "nat option"
  yptr :: "nat option"
  optr :: "nat option"
  on_rq :: bool
  time_slice :: int
  lab6_priority :: nat
  filesp :: "nat option"

record timer =
  expires :: nat
  timer_proc :: "nat option"

record wait =
  wait_proc :: "nat option"
  wakeup_flags :: "32 word"
  wait_queue :: "nat option"

record kst =
  procs :: "nat \<Rightarrow> proc"
  klinks :: "knode links"
  current :: "nat option"
  idleproc :: "nat option"
  initproc :: "nat option"
  nr_process :: int
  last_pid :: int
  next_safe :: int
  proc_num :: nat
  max_time_slice :: int
  timers :: "nat \<Rightarrow> timer"
  waits :: "nat \<Rightarrow> wait"
  sems :: "nat \<Rightarrow> int"

definition PF_EXITING :: "32 word" where "PF_EXITING = 1"
definition WT_INTERRUPTED :: "32 word" where "WT_INTERRUPTED = 0x80000000"
definition WT_CHILD :: "32 word" where "WT_CHILD = or 1 WT_INTERRUPTED"
definition WT_KSEM :: "32 word" where "WT_KSEM = 0x100"
definition WT_TIMER :: "32 word" where "WT_TIMER = or 2 WT_INTERRUPTED"
definition WT_KBD :: "32 word" where "WT_KBD = or 4 WT_INTERRUPTED"

definition MAX_PROCESS :: int where "MAX_PROCESS = 4096"
definition MAX_PID :: int where "MAX_PID = MAX_PROCESS * 2"
definition MAX_TIME_SLICE :: int where "MAX_TIME_SLICE = 5"

definition upd_proc :: "nat \<Rightarrow> (proc \<Rightarrow> proc) \<Rightarrow> kst \<Rightarrow> kst" where
  "upd_proc p f s = s\<lparr>procs := (procs s)(p := f (procs s p))\<rparr>"

definition upd_klinks :: "(knode links \<Rightarrow> knode links) \<Rightarrow> kst \<Rightarrow> kst" where
  "upd_klinks f s = s\<lparr>klinks := f (klinks s)\<rparr>"

definition upd_timer :: "nat \<Rightarrow> (timer \<Rightarrow> timer) \<Rightarrow> kst \<Rightarrow> kst" where
  "upd_timer t f s = s\<lparr>timers := (timers s)(t := f (timers s t))\<rparr>"

definition upd_wait :: "nat \<Rightarrow> (wait \<Rightarrow> wait) \<Rightarrow> kst \<Rightarrow> kst" where
  "upd_wait w f s = s\<lparr>waits := (waits s)(w := f (waits s w))\<rparr>"

definition set_sem :: "nat \<Rightarrow> int \<Rightarrow> kst \<Rightarrow> kst" where
  "set_sem i v s = s\<lparr>sems := (sems s)(i := v)\<rparr>"

fun le2proc_run :: "knode \<Rightarrow> nat option" where
  "le2proc_run (RunLink p) = Some p" | "le2proc_run _ = None"

fun le2proc_list :: "knode \<Rightarrow> nat option" where
  "le2proc_list (ListLink p) = Some p" | "le2proc_list _ = None"

fun le2proc_hash :: "knode \<Rightarrow> nat option" where
  "le2proc_hash (HashLink p) = Some p" | "le2proc_hash _ = None"

fun le2timer :: "knode \<Rightarrow> nat option" where
  "le2timer (TimerLink t) = Some t" | "le2timer _ = None"

fun le2wait :: "knode \<Rightarrow> nat option" where
  "le2wait (WaitLink w) = Some w" | "le2wait _ = None"

subsection \<open>Fields after an update\<close>

lemma upd_proc_simps [simp]:
  "procs (upd_proc p f s) = (procs s)(p := f (procs s p))"
  "klinks (upd_proc p f s) = klinks s" "current (upd_proc p f s) = current s"
  "idleproc (upd_proc p f s) = idleproc s" "initproc (upd_proc p f s) = initproc s"
  "nr_process (upd_proc p f s) = nr_process s" "last_pid (upd_proc p f s) = last_pid s"
  "next_safe (upd_proc p f s) = next_safe s" "proc_num (upd_proc p f s) = proc_num s"
  "max_time_slice (upd_proc p f s) = max_time_slice s" "timers (upd_proc p f s) = timers s"
  "waits (upd_proc p f s) = waits s" "sems (upd_proc p f s) = sems s"
  by (simp_all add: upd_proc_def)

lemma upd_klinks_simps [simp]:
  "klinks (upd_klinks g s) = g (klinks s)"
  "procs (upd_klinks g s) = procs s" "current (upd_klinks g s) = current s"
  "idleproc (upd_klinks g s) = idleproc s" "initproc (upd_klinks g s) = initproc s"
  "nr_process (upd_klinks g s) = nr_process s" "last_pid (upd_klinks g s) = last_pid s"
  "next_safe (upd_klinks g s) = next_safe s" "proc_num (upd_klinks g s) = proc_num s"
  "max_time_slice (upd_klinks g s) = max_time_slice s" "timers (upd_klinks g s) = timers s"
  "waits (upd_klinks g s) = waits s" "sems (upd_klinks g s) = sems s"
  by (simp_all add: upd_klinks_def)

lemma upd_timer_simps [simp]:
  "timers (upd_timer t f s) = (timers s)(t := f (timers s t))"
  "klinks (upd_timer t f s) = klinks s" "procs (upd_timer t f s) = procs s"
  "current (upd_timer t f s) = current s" "idleproc (upd_timer t f s) = idleproc s"
  "initproc (upd_timer t f s) = initproc s" "proc_num (upd_timer t f s) = proc_num s"
  "max_time_slice (upd_timer t f s) = max_time_slice s" "waits (upd_timer t f s) = waits s"
  "sems (upd_timer t f s) = sems s"
  by (simp_all add: upd_timer_def)

lemma upd_wait_simps [simp]:
  "waits (upd_wait w f s) = (waits s)(w := f (waits s w))"
  "klinks (upd_wait w f s) = klinks s" "procs (upd_wait w f s) = procs s"
  "current (upd_wait w f s) = current s" "idleproc (upd_wait w f s) = idleproc s"
  "initproc (upd_wait w f s) = initproc s" "proc_num (upd_wait w f s) = proc_num s"
  "max_time_slice (upd_wait w f s) = max_time_slice s" "timers (upd_wait w f s) = timers s"
  "sems (upd_wait w f s) = sems s"
  by (simp_all add: upd_wait_def)

lemma set_sem_simps [simp]:
  "sems (set_sem i v s) = (sems s)(i := v)"
  "klinks (set_sem i v s) = klinks s" "procs (set_sem i v s) = procs s"
  "current (set_sem i v s) = current s" "idleproc (set_sem i v s) = idleproc s"
  "initproc (set_sem i v s) = initproc s" "proc_num (set_sem i v s) = proc_num s"
  "max_time_slice (set_sem i v s) = max_time_slice s" "timers (set_sem i v s) = timers s"
  "waits (set_sem i v s) = waits s"
  by (simp_all add: set_sem_def)

subsection \<open>One kind of list among the others\<close>

text \<open>
  A list of structures: the ring behind a head, whose nodes are the link fields of the
  structures \<open>xs\<close>; the link field of every other structure points to itself.
\<close>

definition linked :: "knode links \<Rightarrow> knode \<Rightarrow> (nat \<Rightarrow> knode) \<Rightarrow> nat list \<Rightarrow> bool" where
  "linked h lh link xs \<longleftrightarrow> dlist h lh (map link xs) \<and> (\<forall>x. x \<notin> set xs \<longrightarrow> dlist h (link x) [])"

lemma dlist_self: "dlist h x [] \<longleftrightarrow> nxt h x = x \<and> prv h x = x"
  by (simp add: dlist_def)

lemma linked_unlinked: "linked h lh link xs \<Longrightarrow> x \<notin> set xs \<Longrightarrow> list_empty (link x) h"
  by (simp add: linked_def list_empty_def dlist_self)

lemma linked_distinct: "linked h lh link xs \<Longrightarrow> distinct xs"
  by (auto simp: linked_def distinct_map dest!: dlist_distinct)

lemma linked_head: "linked h lh link xs \<Longrightarrow> lh \<notin> link ` set xs"
  by (auto simp: linked_def dest: dlist_distinct)

text \<open>Neighbours in the ring are the head or nodes of the list.\<close>

lemma dlist_neighbours:
  assumes "dlist h lh xs" and "x \<in> set (lh # xs)"
  shows "nxt h x \<in> set (lh # xs)" and "prv h x \<in> set (lh # xs)"
proof -
  have "nxt h x \<in> set (lh # xs) \<and> prv h x \<in> set (lh # xs)"
  proof (cases "x = lh")
    case True
    have "hd (xs @ [lh]) \<in> set (lh # xs)" "last (lh # xs) \<in> set (lh # xs)"
      by (cases xs; simp)+
    with True assms show ?thesis by (simp add: dlist_first dlist_last)
  next
    case False
    with assms(2) obtain us vs where xs: "xs = us @ x # vs" by (auto dest: split_list)
    have "hd (vs @ [lh]) \<in> set (lh # xs)" "last (lh # us) \<in> set (lh # xs)"
      by (cases vs; simp add: xs)+
    with dlist_split_links [OF assms(1) [unfolded xs]] show ?thesis by simp
  qed
  then show "nxt h x \<in> set (lh # xs)" "prv h x \<in> set (lh # xs)" by auto
qed

lemma linked_add_before:
  assumes "linked h lh link (us @ vs)" and "x \<notin> set (us @ vs)" and "inj link"
    and "\<And>x. lh \<noteq> link x" and "q = hd (map link vs @ [lh])"
  shows "linked (list_add_before q (link x) h) lh link (us @ x # vs)"
proof -
  have ring: "dlist h lh (map link us @ map link vs)"
    using assms(1) by (simp add: linked_def)
  have new: "link x \<notin> set (lh # map link us @ map link vs)"
    using assms(2-4) by (auto dest: injD)
  have "dlist (list_add_before q (link x) h) lh (map link us @ link x # map link vs)"
    by (rule dlist_add_before [OF ring new assms(5)])
  moreover have "dlist (list_add_before q (link x) h) (link y) []"
    if y: "y \<notin> set (us @ x # vs)" for y
  proof -
    have self: "dlist h (link y) []" using assms(1) y by (simp add: linked_def)
    have q: "q \<in> set (lh # map link us @ map link vs)"
      unfolding assms(5) by (cases vs) auto
    then have "prv h q \<in> set (lh # map link us @ map link vs)"
      by (rule dlist_neighbours(2) [OF ring])
    moreover have "link y \<notin> set (lh # map link us @ map link vs)" "link y \<noteq> link x"
      using y assms(3,4) by (auto dest: injD)
    ultimately show ?thesis
      using self q by (auto simp: dlist_self list_add_before_def list_add_between_def)
  qed
  ultimately show ?thesis by (simp add: linked_def)
qed

lemma linked_del_init:
  assumes "linked h lh link (us @ x # vs)" and "inj link" and "\<And>x. lh \<noteq> link x"
  shows "linked (list_del_init (link x) h) lh link (us @ vs)"
proof -
  have ring: "dlist h lh (map link us @ link x # map link vs)"
    using assms(1) by (simp add: linked_def)
  have "dlist (list_del_init (link x) h) lh (map link us @ map link vs)"
    by (rule dlist_del_init(1) [OF ring])
  moreover have "dlist (list_del_init (link x) h) (link y) []" if y: "y \<notin> set (us @ vs)" for y
  proof (cases "y = x")
    case True
    then show ?thesis using dlist_del_init(2) [OF ring] by simp
  next
    case False
    then have self: "dlist h (link y) []" using assms(1) y by (simp add: linked_def)
    have "link y \<notin> set (lh # map link us @ link x # map link vs)"
      using y False assms(2) assms(3) [of y] by (auto dest: injD)
    moreover have "link x \<in> set (lh # map link us @ link x # map link vs)" by simp
    ultimately have "link y \<noteq> nxt h (link x)" "link y \<noteq> prv h (link x)" "link y \<noteq> link x"
      using dlist_neighbours [OF ring] by metis+
    then show ?thesis
      using self by (auto simp: dlist_self list_del_init_def list_init_def list_del_def
          list_del_between_def)
  qed
  ultimately show ?thesis by (simp add: linked_def)
qed

text \<open>Changes elsewhere in the heap of list nodes.\<close>

lemma linked_frame:
  assumes "\<And>n. n = lh \<or> n \<in> range link \<Longrightarrow> nxt h' n = nxt h n \<and> prv h' n = prv h n"
  shows "linked h' lh link xs \<longleftrightarrow> linked h lh link xs"
proof -
  have "dlist h' lh (map link xs) \<longleftrightarrow> dlist h lh (map link xs)"
    by (rule dlist_frame) (use assms in auto)
  moreover have "dlist h' (link x) [] \<longleftrightarrow> dlist h (link x) []" for x
    by (rule dlist_frame) (use assms in auto)
  ultimately show ?thesis by (simp add: linked_def)
qed

text \<open>The nodes a ring operation writes: those of its own ring.\<close>

lemma add_before_writes:
  assumes "dlist h lh xs" and "q \<in> set (lh # xs)" and "n \<notin> set (lh # xs)" and "n \<noteq> e"
  shows "nxt (list_add_before q e h) n = nxt h n" "prv (list_add_before q e h) n = prv h n"
  using assms dlist_neighbours [OF assms(1,2)]
  by (auto simp: list_add_before_def list_add_between_def)

lemma del_init_writes:
  assumes "dlist h lh xs" and "e \<in> set xs" and "n \<notin> set (lh # xs)"
  shows "nxt (list_del_init e h) n = nxt h n" "prv (list_del_init e h) n = prv h n"
  using assms dlist_neighbours [OF assms(1), of e]
  by (auto simp: list_del_init_def list_init_def list_del_def list_del_between_def)

end
