(* ===== verification/Sched.thy ===== *)
theory Sched
  imports Procs
begin

text \<open>
  The scheduler: the round-robin class (lab6/kern/schedule/default_sched_c.c), the class-independent
  part (kern/schedule/sched.c), and the timer list. The body of \<open>proc_run\<close> (the switch to
  another process) is left empty in the repository and the switch itself is assembler, so
  \<open>schedule\<close> takes what \<open>proc_run\<close> does as the parameter \<open>run\<close>.
\<close>

subsection \<open>The round-robin class\<close>

definition RR_init :: "kst \<Rightarrow> kst" where
  "RR_init s = (upd_klinks (list_init RunHead) s)\<lparr>proc_num := 0\<rparr>"

definition RR_enqueue :: "nat \<Rightarrow> kst \<Rightarrow> kst option" where
  "RR_enqueue p s = do {
     kassert (list_empty (RunLink p) (klinks s));
     let s = upd_klinks (list_add_before RunHead (RunLink p)) s;
     let s = (if time_slice (procs s p) = 0 \<or> time_slice (procs s p) > max_time_slice s
              then upd_proc p (\<lambda>d. d\<lparr>time_slice := max_time_slice s\<rparr>) s else s);
     let s = upd_proc p (\<lambda>d. d\<lparr>on_rq := True\<rparr>) s;
     Some (s\<lparr>proc_num := add_u32 (proc_num s) 1\<rparr>)
   }"

definition RR_dequeue :: "nat \<Rightarrow> kst \<Rightarrow> kst option" where
  "RR_dequeue p s = do {
     kassert (\<not> list_empty (RunLink p) (klinks s) \<and> on_rq (procs s p));
     let s = upd_klinks (list_del_init (RunLink p)) s;
     Some (s\<lparr>proc_num := sub_u32 (proc_num s) 1\<rparr>)
   }"

text \<open>The outer option is a wild pointer, the inner one \<open>NULL\<close>.\<close>

definition RR_pick_next :: "kst \<Rightarrow> nat option option" where
  "RR_pick_next s =
     (let le = list_next RunHead (klinks s) in
      if le \<noteq> RunHead then do { p \<leftarrow> le2proc_run le; Some (Some p) } else Some None)"

definition RR_proc_tick :: "nat \<Rightarrow> kst \<Rightarrow> kst" where
  "RR_proc_tick p s =
     (let s = (if time_slice (procs s p) > 0
               then upd_proc p (\<lambda>d. d\<lparr>time_slice := time_slice d - 1\<rparr>) s else s)
      in if time_slice (procs s p) = 0 then upd_proc p (\<lambda>d. d\<lparr>need_resched := True\<rparr>) s else s)"

subsection \<open>The scheduler\<close>

definition sched_class_enqueue :: "nat \<Rightarrow> kst \<Rightarrow> kst option" where
  "sched_class_enqueue p s = (if Some p \<noteq> idleproc s then RR_enqueue p s else Some s)"

definition sched_class_dequeue :: "nat \<Rightarrow> kst \<Rightarrow> kst option" where
  "sched_class_dequeue p s = RR_dequeue p s"

definition sched_class_pick_next :: "kst \<Rightarrow> nat option option" where
  "sched_class_pick_next s = RR_pick_next s"

definition sched_class_proc_tick :: "nat \<Rightarrow> kst \<Rightarrow> kst" where
  "sched_class_proc_tick p s =
     (if Some p \<noteq> idleproc s then RR_proc_tick p s
      else upd_proc p (\<lambda>d. d\<lparr>need_resched := True\<rparr>) s)"

definition sched_init :: "kst \<Rightarrow> kst" where
  "sched_init s =
     RR_init ((upd_klinks (list_init TimerHead) s)\<lparr>max_time_slice := MAX_TIME_SLICE\<rparr>)"

definition wakeup_proc :: "nat \<Rightarrow> kst \<Rightarrow> kst option" where
  "wakeup_proc p s = do {
     kassert (pstate (procs s p) \<noteq> PROC_ZOMBIE);
     if pstate (procs s p) \<noteq> PROC_RUNNABLE then
       let s = upd_proc p (\<lambda>d. d\<lparr>pstate := PROC_RUNNABLE, wait_state := 0\<rparr>) s
       in if Some p \<noteq> current s then sched_class_enqueue p s else Some s
     else Some s
   }"

text \<open>\<open>schedule\<close> up to the switch, in its two halves: the current process goes back to the run
  queue if it can still run; the next one is taken from the queue. The result is the process to
  run and the state it is switched to in.\<close>

definition requeue_current :: "nat \<Rightarrow> kst \<Rightarrow> kst option" where
  "requeue_current c s =
     (let s = upd_proc c (\<lambda>d. d\<lparr>need_resched := False\<rparr>) s in
      if pstate (procs s c) = PROC_RUNNABLE then sched_class_enqueue c s else Some s)"

definition take_next :: "kst \<Rightarrow> (nat \<times> kst) option" where
  "take_next s = do {
     next \<leftarrow> sched_class_pick_next s;
     s \<leftarrow> (case next of Some n \<Rightarrow> sched_class_dequeue n s | None \<Rightarrow> Some s);
     n \<leftarrow> (case next of Some n \<Rightarrow> Some n | None \<Rightarrow> idleproc s);
     Some (n, upd_proc n (\<lambda>d. d\<lparr>runs := runs d + 1\<rparr>) s)
   }"

definition schedule_next :: "kst \<Rightarrow> (nat \<times> kst) option" where
  "schedule_next s = do { c \<leftarrow> current s; s \<leftarrow> requeue_current c s; take_next s }"

definition schedule :: "(nat \<Rightarrow> kst \<Rightarrow> kst option) \<Rightarrow> kst \<Rightarrow> kst option" where
  "schedule run s = do {
     (n, s) \<leftarrow> schedule_next s;
     if Some n \<noteq> current s then run n s else Some s
   }"

subsection \<open>Timers\<close>

definition timer_init :: "nat \<Rightarrow> nat \<Rightarrow> nat \<Rightarrow> kst \<Rightarrow> kst" where
  "timer_init t p e s =
     upd_klinks (list_init (TimerLink t))
       (upd_timer t (\<lambda>_. \<lparr>expires = to_u32 e, timer_proc = Some p\<rparr>) s)"

text \<open>The loop of \<open>add_timer\<close>: the node to insert before.\<close>

partial_function (option) add_timer_loop :: "nat \<Rightarrow> knode \<Rightarrow> kst \<Rightarrow> (knode \<times> kst) option" where
  "add_timer_loop t le s =
     (if le = TimerHead then Some (le, s)
      else do {
        nx \<leftarrow> le2timer le;
        if expires (timers s t) < expires (timers s nx)
        then Some (le, upd_timer nx (\<lambda>d. d\<lparr>expires := expires d - expires (timers s t)\<rparr>) s)
        else let s = upd_timer t (\<lambda>d. d\<lparr>expires := expires d - expires (timers s nx)\<rparr>) s
             in add_timer_loop t (list_next le (klinks s)) s
      })"

declare add_timer_loop.simps [code]

definition add_timer :: "nat \<Rightarrow> kst \<Rightarrow> kst option" where
  "add_timer t s = do {
     kassert (expires (timers s t) > 0 \<and> timer_proc (timers s t) \<noteq> None);
     kassert (list_empty (TimerLink t) (klinks s));
     (le, s) \<leftarrow> add_timer_loop t (list_next TimerHead (klinks s)) s;
     Some (upd_klinks (list_add_before le (TimerLink t)) s)
   }"

definition del_timer :: "nat \<Rightarrow> kst \<Rightarrow> kst option" where
  "del_timer t s =
     (if \<not> list_empty (TimerLink t) (klinks s) then do {
        s \<leftarrow> (if expires (timers s t) \<noteq> 0 then
               let le = list_next (TimerLink t) (klinks s) in
               if le \<noteq> TimerHead then do {
                 nx \<leftarrow> le2timer le;
                 Some (upd_timer nx (\<lambda>d. d\<lparr>expires := add_u32 (expires d) (expires (timers s t))\<rparr>) s)
               } else Some s
             else Some s);
        Some (upd_klinks (list_del_init (TimerLink t)) s)
      }
      else Some s)"

text \<open>The loop of \<open>run_timer_list\<close> over the timers that have expired; \<open>le\<close> is the node of \<open>t\<close>.\<close>

partial_function (option) expire_loop :: "nat \<Rightarrow> kst \<Rightarrow> kst option" where
  "expire_loop t s =
     (if expires (timers s t) = 0 then do {
        let le = list_next (TimerLink t) (klinks s);
        p \<leftarrow> timer_proc (timers s t);
        kassert (wait_state (procs s p) \<noteq> 0 \<longrightarrow> and (wait_state (procs s p)) WT_INTERRUPTED \<noteq> 0);
        s \<leftarrow> wakeup_proc p s;
        s \<leftarrow> del_timer t s;
        if le = TimerHead then Some s
        else do { t \<leftarrow> le2timer le; expire_loop t s }
      }
      else Some s)"

declare expire_loop.simps [code]

definition run_timer_list :: "kst \<Rightarrow> kst option" where
  "run_timer_list s = do {
     let le = list_next TimerHead (klinks s);
     s \<leftarrow> (if le \<noteq> TimerHead then do {
            t \<leftarrow> le2timer le;
            kassert (expires (timers s t) \<noteq> 0);
            expire_loop t (upd_timer t (\<lambda>d. d\<lparr>expires := expires d - 1\<rparr>) s)
          } else Some s);
     (case current s of
        None \<Rightarrow> Some s
      | Some c \<Rightarrow> Some (sched_class_proc_tick c s))
   }"

subsection \<open>The run queue as a queue\<close>

definition rq_inv :: "kst \<Rightarrow> nat list \<Rightarrow> bool" where
  "rq_inv s ps \<longleftrightarrow>
     linked (klinks s) RunHead RunLink ps \<and> proc_num s = length ps \<and> length ps < 2 ^ 32 - 1 \<and>
     (\<forall>p \<in> set ps. on_rq (procs s p))"

lemma inj_links [simp]:
  "inj RunLink" "inj TimerLink" "inj WaitLink" "inj ListLink" "inj HashLink"
  by (auto intro: injI)

text \<open>The contract of \<open>struct sched_class\<close>: a queue of processes.\<close>

locale sched_queue =
  fixes holds :: "'s \<Rightarrow> nat list \<Rightarrow> bool"
    and enqueue :: "nat \<Rightarrow> 's \<Rightarrow> 's option"
    and dequeue :: "nat \<Rightarrow> 's \<Rightarrow> 's option"
    and pick_next :: "'s \<Rightarrow> nat option option"
    and max_len :: nat
  assumes enqueue_law: "holds s ps \<Longrightarrow> p \<notin> set ps \<Longrightarrow> length ps < max_len \<Longrightarrow>
      \<exists>s'. enqueue p s = Some s' \<and> holds s' (ps @ [p])"
    and pick_law: "holds s ps \<Longrightarrow> pick_next s = Some (if ps = [] then None else Some (hd ps))"
    and dequeue_law: "holds s (us @ p # vs) \<Longrightarrow> \<exists>s'. dequeue p s = Some s' \<and> holds s' (us @ vs)"
    and holds_distinct: "holds s ps \<Longrightarrow> distinct ps"
begin

text \<open>One turn of the scheduler: the process that goes behind the others, the one that runs.\<close>

lemma turn:
  assumes "holds s ps" and "p \<notin> set ps" and "length ps < max_len"
  shows "\<exists>s1 s2 n. enqueue p s = Some s1 \<and> pick_next s1 = Some (Some n) \<and>
    dequeue n s1 = Some s2 \<and> holds s2 (tl (ps @ [p])) \<and> n = hd (ps @ [p])"
proof -
  obtain s1 where s1: "enqueue p s = Some s1" "holds s1 (ps @ [p])"
    using enqueue_law [OF assms] by blast
  moreover obtain n qs where q: "ps @ [p] = n # qs" by (cases "ps @ [p]") auto
  ultimately obtain s2 where "dequeue n s1 = Some s2" "holds s2 qs"
    using dequeue_law [of s1 "[]" n qs] by auto
  with s1 q pick_law [OF s1(2)] show ?thesis by auto
qed

lemma take_first:
  assumes "holds s (n # qs)"
  shows "pick_next s = Some (Some n)" and "\<exists>s'. dequeue n s = Some s' \<and> holds s' qs"
  using pick_law [OF assms] dequeue_law [of s "[]" n qs] assms by auto

end

lemma RR_enqueue_inv:
  assumes "rq_inv s ps" and "p \<notin> set ps" and "length ps < 2 ^ 32 - 2"
  shows "\<exists>s'. RR_enqueue p s = Some s' \<and> rq_inv s' (ps @ [p])"
proof -
  have q: "linked (klinks s) RunHead RunLink (ps @ [])" "p \<notin> set (ps @ [])"
    using assms by (auto simp: rq_inv_def)
  have "linked (list_add_before RunHead (RunLink p) (klinks s)) RunHead RunLink (ps @ [p])"
    by (rule linked_add_before [OF q]) auto
  moreover have "list_empty (RunLink p) (klinks s)"
    using linked_unlinked [of _ RunHead RunLink] assms by (auto simp: rq_inv_def)
  ultimately show ?thesis
    using assms by (auto simp: RR_enqueue_def rq_inv_def Let_def)
qed

lemma linked_member:
  assumes "linked h lh link (us @ x # vs)" and "\<And>x. lh \<noteq> link x" and "inj link"
  shows "\<not> list_empty (link x) h"
proof -
  have ring: "dlist h lh (map link us @ link x # map link vs)"
    using assms(1) by (simp add: linked_def)
  have "hd (map link vs @ [lh]) \<noteq> link x"
    using dlist_distinct [OF ring] by (cases vs) auto
  then show ?thesis
    using dlist_split_links(2) [OF ring] by (simp add: list_empty_def)
qed

lemma RR_dequeue_inv:
  assumes "rq_inv s (us @ p # vs)"
  shows "\<exists>s'. RR_dequeue p s = Some s' \<and> rq_inv s' (us @ vs)"
proof -
  have l: "linked (klinks s) RunHead RunLink (us @ p # vs)"
    using assms by (simp add: rq_inv_def)
  have "linked (list_del_init (RunLink p) (klinks s)) RunHead RunLink (us @ vs)"
    by (rule linked_del_init [OF l]) auto
  moreover have "\<not> list_empty (RunLink p) (klinks s)"
    by (rule linked_member [OF l]) auto
  ultimately show ?thesis
    using assms by (auto simp: RR_dequeue_def rq_inv_def)
qed

lemma RR_pick_inv:
  "rq_inv s ps \<Longrightarrow> RR_pick_next s = Some (if ps = [] then None else Some (hd ps))"
  by (cases ps) (auto simp: rq_inv_def linked_def RR_pick_next_def dlist_next_head Let_def)

interpretation rr: sched_queue rq_inv RR_enqueue RR_dequeue RR_pick_next "2 ^ 32 - 2"
  by unfold_locales
    (use RR_enqueue_inv RR_dequeue_inv RR_pick_inv linked_distinct in \<open>auto simp: rq_inv_def\<close>)

text \<open>What the class operations leave alone.\<close>

lemma RR_enqueue_frame:
  assumes "RR_enqueue p s = Some s'"
  shows "current s' = current s" "idleproc s' = idleproc s" "timers s' = timers s"
    "max_time_slice s' = max_time_slice s" "waits s' = waits s" "sems s' = sems s"
    "pstate (procs s' q) = pstate (procs s q)" "wait_state (procs s' q) = wait_state (procs s q)"
    "runs (procs s' q) = runs (procs s q)" "initproc s' = initproc s"
    "klinks s' = list_add_before RunHead (RunLink p) (klinks s)"
  using assms by (auto simp: RR_enqueue_def Let_def split: if_splits)

lemma RR_dequeue_frame:
  assumes "RR_dequeue p s = Some s'"
  shows "current s' = current s" "idleproc s' = idleproc s" "procs s' = procs s"
    "timers s' = timers s" "klinks s' = list_del_init (RunLink p) (klinks s)"
  using assms by (auto simp: RR_dequeue_def Let_def split: if_splits)

lemma rq_inv_upd_proc:
  "(\<And>d. on_rq (f d) = on_rq d) \<Longrightarrow> rq_inv (upd_proc p f s) ps \<longleftrightarrow> rq_inv s ps"
  by (auto simp: rq_inv_def)

subsection \<open>One call of the scheduler\<close>

definition sched_inv :: "kst \<Rightarrow> nat list \<Rightarrow> nat \<Rightarrow> nat \<Rightarrow> bool" where
  "sched_inv s ps i c \<longleftrightarrow>
     rq_inv s ps \<and> idleproc s = Some i \<and> current s = Some c \<and> i \<notin> set ps \<and> c \<notin> set ps \<and>
     length ps < 2 ^ 32 - 2"

definition requeued :: "kst \<Rightarrow> nat list \<Rightarrow> nat \<Rightarrow> nat \<Rightarrow> nat list" where
  "requeued s ps i c = ps @ (if pstate (procs s c) = PROC_RUNNABLE \<and> c \<noteq> i then [c] else [])"

lemma requeue_current_inv:
  assumes "sched_inv s ps i c"
  shows "\<exists>s'. requeue_current c s = Some s' \<and> rq_inv s' (requeued s ps i c) \<and>
    current s' = current s \<and> idleproc s' = idleproc s \<and>
    (\<forall>p. pstate (procs s' p) = pstate (procs s p))"
proof -
  define s0 where "s0 = upd_proc c (\<lambda>d. d\<lparr>need_resched := False\<rparr>) s"
  have s0: "rq_inv s0 ps" "current s0 = Some c" "idleproc s0 = Some i"
    "\<And>p. pstate (procs s0 p) = pstate (procs s p)"
    using assms by (auto simp: s0_def sched_inv_def rq_inv_upd_proc)
  show ?thesis
  proof (cases "pstate (procs s c) = PROC_RUNNABLE \<and> c \<noteq> i")
    case True
    then obtain s1 where s1: "RR_enqueue c s0 = Some s1" "rq_inv s1 (ps @ [c])"
      using rr.enqueue_law [OF s0(1), of c] assms by (auto simp: sched_inv_def)
    with True s0 RR_enqueue_frame [OF s1(1)] assms show ?thesis
      by (auto simp: requeue_current_def s0_def [symmetric] sched_class_enqueue_def requeued_def
          sched_inv_def)
  next
    case False
    with s0 assms show ?thesis
      by (auto simp: requeue_current_def s0_def [symmetric] sched_class_enqueue_def requeued_def
          sched_inv_def)
  qed
qed

lemma take_next_inv:
  assumes "rq_inv s q" and "idleproc s = Some i"
  shows "\<exists>s'. take_next s = Some (if q = [] then i else hd q, s') \<and> rq_inv s' (tl q) \<and>
    current s' = current s \<and> idleproc s' = idleproc s \<and>
    (\<forall>p. pstate (procs s' p) = pstate (procs s p))"
proof (cases q)
  case Nil
  then have "RR_pick_next s = Some None" using rr.pick_law [OF assms(1)] by simp
  then have "take_next s = Some (i, upd_proc i (\<lambda>d. d\<lparr>runs := runs d + 1\<rparr>) s)"
    using assms(2) by (simp add: take_next_def sched_class_pick_next_def)
  then show ?thesis using assms Nil by (auto simp: rq_inv_upd_proc)
next
  case (Cons n qs)
  then obtain s2 where s2: "RR_pick_next s = Some (Some n)" "RR_dequeue n s = Some s2" "rq_inv s2 qs"
    using rr.take_first [of s n qs] assms(1) by auto
  then have "take_next s = Some (n, upd_proc n (\<lambda>d. d\<lparr>runs := runs d + 1\<rparr>) s2)"
    by (simp add: take_next_def sched_class_pick_next_def sched_class_dequeue_def)
  then show ?thesis
    using s2 RR_dequeue_frame [OF s2(2)] Cons by (auto simp: rq_inv_upd_proc)
qed

lemma schedule_next_inv:
  assumes "sched_inv s ps i c"
  shows "\<exists>s'. schedule_next s = Some (if requeued s ps i c = [] then i else hd (requeued s ps i c), s') \<and>
    rq_inv s' (tl (requeued s ps i c)) \<and> current s' = current s \<and> idleproc s' = idleproc s \<and>
    (\<forall>p. pstate (procs s' p) = pstate (procs s p))"
proof -
  obtain s1 where s1: "requeue_current c s = Some s1" "rq_inv s1 (requeued s ps i c)"
    "current s1 = current s" "idleproc s1 = idleproc s"
    "\<forall>p. pstate (procs s1 p) = pstate (procs s p)"
    using requeue_current_inv [OF assms] by blast
  have "current s = Some c" "idleproc s = Some i" using assms by (auto simp: sched_inv_def)
  with s1 take_next_inv [OF s1(2), of i] show ?thesis by (auto simp: schedule_next_def)
qed

primrec schedules :: "(nat \<Rightarrow> kst \<Rightarrow> kst option) \<Rightarrow> nat \<Rightarrow> kst \<Rightarrow> kst option" where
  "schedules run 0 s = Some s"
| "schedules run (Suc k) s = do { s \<leftarrow> schedule run s; schedules run k s }"

lemma schedule_rotates:
  assumes inv: "sched_inv s ps i c" and i: "i \<noteq> c"
    and runnable: "\<forall>p \<in> set (c # ps). pstate (procs s p) = PROC_RUNNABLE"
    and run: "\<And>n s. run n s = Some (s\<lparr>current := Some n\<rparr>)"
  shows "\<exists>s'. schedule run s = Some s' \<and>
    sched_inv s' (tl (ps @ [c])) i (hd (ps @ [c])) \<and> i \<noteq> hd (ps @ [c]) \<and>
    (\<forall>p. pstate (procs s' p) = pstate (procs s p))"
proof -
  have q: "requeued s ps i c = ps @ [c]" using i runnable by (simp add: requeued_def)
  obtain s' where s': "schedule_next s = Some (hd (ps @ [c]), s')" "rq_inv s' (tl (ps @ [c]))"
    "current s' = Some c" "idleproc s' = Some i" "\<forall>p. pstate (procs s' p) = pstate (procs s p)"
    using schedule_next_inv [OF inv] inv unfolding q by (auto simp: sched_inv_def)
  have "schedule run s = Some (s'\<lparr>current := Some (hd (ps @ [c]))\<rparr>)"
  proof (cases "hd (ps @ [c]) = c")
    case True
    then have "s'\<lparr>current := Some (hd (ps @ [c]))\<rparr> = s'" using s'(3) by (cases s') simp
    with s' True show ?thesis by (simp add: schedule_def)
  next
    case False
    with s' run show ?thesis by (simp add: schedule_def)
  qed
  moreover have "distinct (i # ps @ [c])"
    using inv i rr.holds_distinct [of s ps] by (auto simp: sched_inv_def)
  ultimately show ?thesis
    using s' inv by (cases ps) (auto simp: sched_inv_def rq_inv_def)
qed

lemma schedules_rotate:
  assumes "sched_inv s ps i c" and "i \<noteq> c"
    and "\<forall>p \<in> set (c # ps). pstate (procs s p) = PROC_RUNNABLE"
    and run: "\<And>n s. run n s = Some (s\<lparr>current := Some n\<rparr>)"
  shows "\<exists>s'. schedules run k s = Some s' \<and> current s' = Some (hd (rotate k (c # ps)))"
  using assms(1-3)
proof (induction k arbitrary: s ps c)
  case 0
  then show ?case by (simp add: sched_inv_def)
next
  case (Suc k)
  obtain s' where s': "schedule run s = Some s'" "sched_inv s' (tl (ps @ [c])) i (hd (ps @ [c]))"
    "i \<noteq> hd (ps @ [c])" "\<forall>p. pstate (procs s' p) = pstate (procs s p)"
    using schedule_rotates [OF Suc.prems run] by blast
  have rot: "hd (ps @ [c]) # tl (ps @ [c]) = rotate1 (c # ps)" by (cases ps) auto
  have "\<forall>p \<in> set (hd (ps @ [c]) # tl (ps @ [c])). pstate (procs s' p) = PROC_RUNNABLE"
    unfolding rot using Suc.prems(3) s'(4) by auto
  from Suc.IH [OF s'(2,3) this] s'(1) show ?case
    unfolding rot by (auto simp: rotate1_rotate_swap)
qed

subsection \<open>The timer list\<close>

text \<open>The list holds differences; the deadline of a timer is the sum up to and including it.\<close>

fun deadlines :: "(nat \<Rightarrow> nat) \<Rightarrow> nat \<Rightarrow> nat list \<Rightarrow> (nat \<times> nat) list" where
  "deadlines ex b [] = []"
| "deadlines ex b (t # ts) = (t, b + ex t) # deadlines ex (b + ex t) ts"

abbreviation expiry :: "kst \<Rightarrow> nat \<Rightarrow> nat" where
  "expiry s \<equiv> \<lambda>t. expires (timers s t)"

definition timer_inv :: "kst \<Rightarrow> nat list \<Rightarrow> bool" where
  "timer_inv s ts \<longleftrightarrow>
     linked (klinks s) TimerHead TimerLink ts \<and> (\<forall>x \<in> set (deadlines (expiry s) 0 ts). snd x < 2 ^ 32)"

lemma deadlines_cong:
  "(\<And>t. t \<in> set ts \<Longrightarrow> ex t = ex' t) \<Longrightarrow> deadlines ex b ts = deadlines ex' b ts"
  by (induction ts arbitrary: b) auto

lemma deadlines_ge: "x \<in> set (deadlines ex b ts) \<Longrightarrow> b \<le> snd x"
  by (induction ts arbitrary: b) (auto dest: add_leD1)

lemma fst_deadlines [simp]: "map fst (deadlines ex b ts) = ts"
  by (induction ts arbitrary: b) auto

lemma deadlines_append:
  "deadlines ex b (us @ vs) = deadlines ex b us @ deadlines ex (b + sum_list (map ex us)) vs"
  by (induction us arbitrary: b) (auto simp: add.assoc)

definition insert_deadline :: "nat \<times> nat \<Rightarrow> (nat \<times> nat) list \<Rightarrow> (nat \<times> nat) list" where
  "insert_deadline x ds =
     takeWhile (\<lambda>y. snd y \<le> snd x) ds @ x # dropWhile (\<lambda>y. snd y \<le> snd x) ds"

lemma add_timer_loop_inv:
  assumes "dseg (klinks s) a (map TimerLink vs) TimerHead" and "distinct (t # vs)"
  shows "\<exists>ws zs s'. vs = ws @ zs \<and>
    add_timer_loop t (nxt (klinks s) a) s = Some (hd (map TimerLink zs @ [TimerHead]), s') \<and>
    klinks s' = klinks s \<and> (\<forall>x. x \<notin> set (t # vs) \<longrightarrow> timers s' x = timers s x) \<and>
    procs s' = procs s \<and>
    deadlines (expiry s') b (ws @ t # zs) =
      insert_deadline (t, b + expiry s t) (deadlines (expiry s) b vs)"
  using assms
proof (induction vs arbitrary: a s b)
  case Nil
  then have "add_timer_loop t (nxt (klinks s) a) s = Some (TimerHead, s)"
    by (subst add_timer_loop.simps) simp
  then show ?case by (intro exI [of _ "[]"]) (auto simp: insert_deadline_def)
next
  case (Cons v vs)
  then have a: "nxt (klinks s) a = TimerLink v" by simp
  show ?case
  proof (cases "expires (timers s t) < expires (timers s v)")
    case True
    define s' where "s' = upd_timer v (\<lambda>d. d\<lparr>expires := expires d - expires (timers s t)\<rparr>) s"
    have "add_timer_loop t (nxt (klinks s) a) s = Some (TimerLink v, s')"
      using True a by (subst add_timer_loop.simps) (simp add: s'_def)
    moreover have "deadlines (expiry s') d vs = deadlines (expiry s) d vs" for d
      by (rule deadlines_cong) (use Cons.prems in \<open>auto simp: s'_def\<close>)
    then have "deadlines (expiry s') b ([] @ t # v # vs) =
        insert_deadline (t, b + expiry s t) (deadlines (expiry s) b (v # vs))"
      using True Cons.prems by (auto simp: s'_def insert_deadline_def)
    ultimately show ?thesis
      by (intro exI [of _ "[]"] exI [of _ "v # vs"] exI [of _ s']) (auto simp: s'_def)
  next
    case False
    define s1 where "s1 = upd_timer t (\<lambda>d. d\<lparr>expires := expires d - expires (timers s v)\<rparr>) s"
    have "dseg (klinks s1) (TimerLink v) (map TimerLink vs) TimerHead"
      using Cons.prems by (simp add: s1_def)
    moreover have "distinct (t # vs)" using Cons.prems by auto
    ultimately obtain ws zs s' where IH: "vs = ws @ zs"
      "add_timer_loop t (nxt (klinks s1) (TimerLink v)) s1 =
        Some (hd (map TimerLink zs @ [TimerHead]), s')"
      "klinks s' = klinks s1" "\<forall>x. x \<notin> set (t # vs) \<longrightarrow> timers s' x = timers s1 x"
      "procs s' = procs s1"
      "deadlines (expiry s') (b + expiry s v) (ws @ t # zs) =
        insert_deadline (t, b + expiry s v + expiry s1 t) (deadlines (expiry s1) (b + expiry s v) vs)"
      using Cons.IH [of s1 "TimerLink v" "b + expiry s v"] by blast
    have t: "b + expiry s v + expiry s1 t = b + expiry s t"
      using False by (simp add: s1_def)
    have vs: "deadlines (expiry s1) d vs = deadlines (expiry s) d vs" for d
      by (rule deadlines_cong) (use Cons.prems in \<open>auto simp: s1_def\<close>)
    have v: "expiry s' v = expiry s v"
      using IH(4) Cons.prems by (auto simp: s1_def)
    have "add_timer_loop t (nxt (klinks s) a) s =
        add_timer_loop t (nxt (klinks s1) (TimerLink v)) s1"
      using False a by (subst add_timer_loop.simps) (simp add: s1_def list_next_def)
    moreover have "deadlines (expiry s') b ((v # ws) @ t # zs) =
        insert_deadline (t, b + expiry s t) (deadlines (expiry s) b (v # vs))"
      using IH(6) False unfolding t vs by (simp add: v insert_deadline_def)
    ultimately show ?thesis
      using IH(1-5) by (intro exI [of _ "v # ws"] exI [of _ zs] exI [of _ s']) (auto simp: s1_def)
  qed
qed

lemma add_timer_inv:
  assumes "timer_inv s ts" and "t \<notin> set ts" and "0 < expiry s t" and "expiry s t < 2 ^ 32"
    and "timer_proc (timers s t) \<noteq> None"
  shows "\<exists>s' ts'. add_timer t s = Some s' \<and> timer_inv s' ts' \<and>
    deadlines (expiry s') 0 ts' = insert_deadline (t, expiry s t) (deadlines (expiry s) 0 ts)"
proof -
  have l: "linked (klinks s) TimerHead TimerLink ts" using assms(1) by (simp add: timer_inv_def)
  then have "dseg (klinks s) TimerHead (map TimerLink ts) TimerHead" "distinct (t # ts)"
    using linked_distinct [OF l] assms(2) by (auto simp: linked_def dlist_def)
  from add_timer_loop_inv [OF this, of 0] obtain ws zs s1 where s1: "ts = ws @ zs"
    "add_timer_loop t (nxt (klinks s) TimerHead) s = Some (hd (map TimerLink zs @ [TimerHead]), s1)"
    "klinks s1 = klinks s"
    "deadlines (expiry s1) 0 (ws @ t # zs) = insert_deadline (t, expiry s t) (deadlines (expiry s) 0 ts)"
    by auto
  define s' where "s' = upd_klinks (list_add_before (hd (map TimerLink zs @ [TimerHead])) (TimerLink t)) s1"
  have "linked (klinks s') TimerHead TimerLink (ws @ t # zs)"
    unfolding s'_def upd_klinks_simps
    by (rule linked_add_before) (use l assms(2) s1(1,3) in auto)
  moreover have "add_timer t s = Some s'"
    using assms(3,5) linked_unlinked [OF l assms(2)] s1(2)
    by (simp add: add_timer_def list_next_def s'_def)
  moreover have "set (insert_deadline x ds) = insert x (set ds)" for x ds
    unfolding insert_deadline_def using takeWhile_dropWhile_id [of _ ds, THEN arg_cong, of set]
    by (metis (no_types, lifting) Un_insert_right list.simps(15) set_append)
  moreover have "timers s' = timers s1" by (simp add: s'_def)
  ultimately show ?thesis
    using s1(4) assms(1,4) by (intro exI [of _ s'] exI [of _ "ws @ t # zs"]) (auto simp: timer_inv_def)
qed

lemma deadlines_last_le:
  "sum_list (map ex us) + b + ex t \<le> snd (last (deadlines ex b (us @ [t])))"
  by (simp add: deadlines_append)

lemma del_timer_inv:
  assumes "timer_inv s ts" and "t \<in> set ts"
  shows "\<exists>s'. del_timer t s = Some s' \<and> timer_inv s' (remove1 t ts) \<and>
    deadlines (expiry s') 0 (remove1 t ts) = filter (\<lambda>x. fst x \<noteq> t) (deadlines (expiry s) 0 ts) \<and>
    procs s' = procs s"
proof -
  have l: "linked (klinks s) TimerHead TimerLink ts" using assms(1) by (simp add: timer_inv_def)
  obtain us vs where ts: "ts = us @ t # vs" and us: "t \<notin> set us"
    using assms(2) by (meson split_list_first)
  have dist: "distinct (us @ t # vs)" using linked_distinct [OF l] ts by simp
  have rm: "remove1 t ts = us @ vs" using us by (simp add: ts remove1_append)
  have l': "linked (list_del_init (TimerLink t) (klinks s)) TimerHead TimerLink (us @ vs)"
    by (rule linked_del_init) (use l ts in auto)
  have member: "\<not> list_empty (TimerLink t) (klinks s)"
    by (rule linked_member) (use l ts in auto)
  have next_t: "list_next (TimerLink t) (klinks s) = hd (map TimerLink vs @ [TimerHead])"
    using l ts by (auto simp: linked_def list_next_def dlist_split_links)
  have flt: "filter (\<lambda>x. fst x \<noteq> t) (deadlines ex b ys) = deadlines ex b ys" if "t \<notin> set ys" for ex b ys
    using that by (induction ys arbitrary: b) auto
  let ?b = "sum_list (map (expiry s) us)"
  have D: "filter (\<lambda>x. fst x \<noteq> t) (deadlines (expiry s) 0 ts) =
      deadlines (expiry s) 0 us @ deadlines (expiry s) (?b + expiry s t) vs"
    using dist by (simp add: ts deadlines_append flt)
  define s1 where "s1 = (case vs of [] \<Rightarrow> s | v # vs' \<Rightarrow>
    if expiry s t = 0 then s else upd_timer v (\<lambda>d. d\<lparr>expires := expires d + expires (timers s t)\<rparr>) s)"
  define s' where "s' = upd_klinks (list_del_init (TimerLink t)) s1"
  have bound: "expiry s v + expiry s t < 2 ^ 32" if "vs = v # vs'" for v vs'
  proof -
    have "(v, ?b + expiry s t + expiry s v) \<in> set (deadlines (expiry s) 0 ts)"
      by (simp add: ts that deadlines_append)
    with assms(1) show ?thesis by (fastforce simp: timer_inv_def)
  qed
  have "del_timer t s = Some s'"
    using member next_t bound
    by (cases vs) (auto simp: del_timer_def s'_def s1_def Let_def upd_timer_def)
  moreover have D': "deadlines (expiry s') 0 (us @ vs) =
      deadlines (expiry s) 0 us @ deadlines (expiry s) (?b + expiry s t) vs"
  proof (cases vs)
    case Nil
    then show ?thesis by (simp add: s'_def s1_def)
  next
    case (Cons v vs')
    have us': "deadlines (expiry s') 0 us = deadlines (expiry s) 0 us"
      "map (expiry s') us = map (expiry s) us"
      and vs': "deadlines (expiry s') d vs' = deadlines (expiry s) d vs'" for d
      using dist Cons by (auto intro!: deadlines_cong simp: s'_def s1_def)
    have v: "expiry s' v = expiry s v + expiry s t"
      by (auto simp: s'_def s1_def Cons)
    show ?thesis
      unfolding Cons deadlines_append us' by (simp add: v vs' ac_simps)
  qed
  moreover have "timer_inv s' (us @ vs)"
    unfolding timer_inv_def D' using l' assms(1) D
    by (cases vs) (auto simp: s'_def s1_def timer_inv_def ts deadlines_append)
  moreover have "procs s' = procs s" by (auto simp: s'_def s1_def split: list.split)
  ultimately show ?thesis unfolding rm D by blast
qed

text \<open>A process in \<open>do_sleep\<close>: asleep, waiting for its timer, not on the run queue.\<close>

definition asleep :: "kst \<Rightarrow> nat \<Rightarrow> bool" where
  "asleep s p \<longleftrightarrow>
     pstate (procs s p) = PROC_SLEEPING \<and> wait_state (procs s p) = WT_TIMER \<and>
     current s \<noteq> Some p \<and> idleproc s \<noteq> Some p"

lemma wakeup_asleep:
  assumes "rq_inv s ps" and "asleep s p" and "p \<notin> set ps" and "length ps < 2 ^ 32 - 2"
  shows "\<exists>s'. wakeup_proc p s = Some s' \<and> rq_inv s' (ps @ [p]) \<and> current s' = current s \<and>
    idleproc s' = idleproc s \<and> timers s' = timers s \<and> pstate (procs s' p) = PROC_RUNNABLE \<and>
    (\<forall>q. q \<noteq> p \<longrightarrow> pstate (procs s' q) = pstate (procs s q) \<and>
      wait_state (procs s' q) = wait_state (procs s q)) \<and>
    klinks s' = list_add_before RunHead (RunLink p) (klinks s)"
proof -
  let ?s = "upd_proc p (\<lambda>d. d\<lparr>pstate := PROC_RUNNABLE, wait_state := 0\<rparr>) s"
  have "rq_inv ?s ps" using assms(1) by (simp add: rq_inv_upd_proc)
  from rr.enqueue_law [OF this assms(3,4)] obtain s' where
    s': "RR_enqueue p ?s = Some s'" "rq_inv s' (ps @ [p])" by blast
  moreover have "wakeup_proc p s = Some s'"
    using assms(2) s'(1)
    by (auto simp: wakeup_proc_def asleep_def sched_class_enqueue_def Let_def)
  ultimately show ?thesis using RR_enqueue_frame [OF s'(1)] by auto
qed

text \<open>The run queue and the timer list are disjoint parts of the heap of list nodes.\<close>

lemma run_writes_timers:
  assumes "linked h RunHead RunLink ps" and "p \<notin> set ps"
  shows "linked (list_add_before RunHead (RunLink p) h) TimerHead TimerLink ts \<longleftrightarrow>
    linked h TimerHead TimerLink ts"
proof (rule linked_frame)
  fix n assume "n = TimerHead \<or> n \<in> range TimerLink"
  then have "n \<notin> set (RunHead # map RunLink ps)" "n \<noteq> RunLink p" by auto
  with add_before_writes [of h RunHead "map RunLink ps" RunHead n "RunLink p"] assms
  show "nxt (list_add_before RunHead (RunLink p) h) n = nxt h n \<and>
    prv (list_add_before RunHead (RunLink p) h) n = prv h n"
    by (simp add: linked_def)
qed

lemma timer_writes_run:
  assumes "linked h TimerHead TimerLink ts" and "t \<in> set ts"
  shows "linked (list_del_init (TimerLink t) h) RunHead RunLink ps \<longleftrightarrow> linked h RunHead RunLink ps"
proof (rule linked_frame)
  fix n assume "n = RunHead \<or> n \<in> range RunLink"
  then have "n \<notin> set (TimerHead # map TimerLink ts)" by auto
  with del_init_writes [of h TimerHead "map TimerLink ts" "TimerLink t" n] assms
  show "nxt (list_del_init (TimerLink t) h) n = nxt h n \<and>
    prv (list_del_init (TimerLink t) h) n = prv h n"
    by (simp add: linked_def)
qed

definition timer_owner :: "kst \<Rightarrow> nat \<Rightarrow> nat" where
  "timer_owner s t = the (timer_proc (timers s t))"

lemma expire_one:
  assumes rq: "rq_inv s ps" and l: "linked (klinks s) TimerHead TimerLink (t # ts)"
    and zero: "expires (timers s t) = 0" and own: "timer_proc (timers s t) = Some p"
    and p: "asleep s p" "p \<notin> set ps" and len: "length ps < 2 ^ 32 - 2"
  shows "\<exists>s'. expire_loop t s = (if ts = [] then Some s' else expire_loop (hd ts) s') \<and>
    rq_inv s' (ps @ [p]) \<and> linked (klinks s') TimerHead TimerLink ts \<and> timers s' = timers s \<and>
    current s' = current s \<and> idleproc s' = idleproc s \<and> pstate (procs s' p) = PROC_RUNNABLE \<and>
    (\<forall>q. q \<noteq> p \<longrightarrow> pstate (procs s' q) = pstate (procs s q) \<and>
      wait_state (procs s' q) = wait_state (procs s q))"
proof -
  obtain s1 where s1: "wakeup_proc p s = Some s1" "rq_inv s1 (ps @ [p])" "current s1 = current s"
    "idleproc s1 = idleproc s" "timers s1 = timers s" "pstate (procs s1 p) = PROC_RUNNABLE"
    "\<forall>q. q \<noteq> p \<longrightarrow> pstate (procs s1 q) = pstate (procs s q) \<and>
      wait_state (procs s1 q) = wait_state (procs s q)"
    "klinks s1 = list_add_before RunHead (RunLink p) (klinks s)"
    using wakeup_asleep [OF rq p len] by blast
  have l1: "linked (klinks s1) TimerHead TimerLink ([] @ t # ts)"
    using run_writes_timers [of "klinks s" ps p] rq p(2) l s1(8) by (simp add: rq_inv_def)
  define s2 where "s2 = upd_klinks (list_del_init (TimerLink t)) s1"
  have "\<not> list_empty (TimerLink t) (klinks s1)"
    by (rule linked_member [OF l1]) auto
  then have del: "del_timer t s1 = Some s2"
    using zero s1(5) by (simp add: del_timer_def s2_def)
  have l2: "linked (klinks s2) TimerHead TimerLink ts"
    unfolding s2_def upd_klinks_simps using linked_del_init [OF l1] by simp
  have rq2: "rq_inv s2 (ps @ [p])"
    using timer_writes_run [of "klinks s1" "t # ts" t] l1 s1(2) by (auto simp: rq_inv_def s2_def)
  have nxt: "list_next (TimerLink t) (klinks s) = hd (map TimerLink ts @ [TimerHead])"
    using l dlist_split_links(2) [of "klinks s" TimerHead "[]"]
    by (auto simp: linked_def list_next_def)
  have "and (wait_state (procs s p)) WT_INTERRUPTED \<noteq> 0"
    using p(1) by (simp add: asleep_def WT_TIMER_def WT_INTERRUPTED_def)
  then have "expire_loop t s = (if ts = [] then Some s2 else expire_loop (hd ts) s2)"
    using zero own s1(1) del nxt by (subst expire_loop.simps) (cases ts; simp)
  with l2 rq2 s1 show ?thesis by (intro exI [of _ s2]) (auto simp: s2_def)
qed

lemma expire_loop_inv:
  assumes "rq_inv s ps" and "linked (klinks s) TimerHead TimerLink (es @ rs)" and "es @ rs \<noteq> []"
    and "\<forall>t \<in> set es. expires (timers s t) = 0 \<and> timer_proc (timers s t) \<noteq> None \<and>
      asleep s (timer_owner s t)"
    and "rs \<noteq> [] \<longrightarrow> expires (timers s (hd rs)) \<noteq> 0"
    and "distinct (ps @ map (timer_owner s) es)" and "length ps + length es < 2 ^ 32 - 2"
  shows "\<exists>s'. expire_loop (hd (es @ rs)) s = Some s' \<and> rq_inv s' (ps @ map (timer_owner s) es) \<and>
    linked (klinks s') TimerHead TimerLink rs \<and> timers s' = timers s \<and> current s' = current s \<and>
    idleproc s' = idleproc s \<and>
    (\<forall>q. pstate (procs s' q) =
      (if q \<in> timer_owner s ` set es then PROC_RUNNABLE else pstate (procs s q)))"
  using assms
proof (induction es arbitrary: s ps)
  case Nil
  then have "expire_loop (hd rs) s = Some s" by (subst expire_loop.simps) simp
  with Nil show ?case by auto
next
  case (Cons t es)
  let ?p = "timer_owner s t"
  have own: "timer_proc (timers s t) = Some ?p" using Cons.prems(4) by (auto simp: timer_owner_def)
  have l: "linked (klinks s) TimerHead TimerLink (t # es @ rs)" using Cons.prems(2) by simp
  from expire_one [OF Cons.prems(1) l _ own] Cons.prems(4,6,7) obtain s1 where s1:
    "expire_loop t s = (if es @ rs = [] then Some s1 else expire_loop (hd (es @ rs)) s1)"
    "rq_inv s1 (ps @ [?p])" "linked (klinks s1) TimerHead TimerLink (es @ rs)"
    "timers s1 = timers s" "current s1 = current s" "idleproc s1 = idleproc s"
    "pstate (procs s1 ?p) = PROC_RUNNABLE"
    "\<forall>q. q \<noteq> ?p \<longrightarrow> pstate (procs s1 q) = pstate (procs s q) \<and>
      wait_state (procs s1 q) = wait_state (procs s q)"
    by auto
  have owner: "timer_owner s1 = timer_owner s" using s1(4) by (simp add: timer_owner_def fun_eq_iff)
  show ?case
  proof (cases "es @ rs = []")
    case True
    with s1 show ?thesis by auto
  next
    case False
    have "\<forall>x \<in> set es. expires (timers s1 x) = 0 \<and> timer_proc (timers s1 x) \<noteq> None \<and>
        asleep s1 (timer_owner s1 x)"
    proof
      fix x assume x: "x \<in> set es"
      then have "timer_owner s x \<in> timer_owner s ` set es" by (rule imageI)
      then have "timer_owner s x \<noteq> ?p" using Cons.prems(6) by auto
      with x Cons.prems(4) s1(4-6,8) show "expires (timers s1 x) = 0 \<and>
          timer_proc (timers s1 x) \<noteq> None \<and> asleep s1 (timer_owner s1 x)"
        unfolding owner by (simp add: asleep_def)
    qed
    from Cons.IH [OF s1(2,3) False this] Cons.prems(5-7) s1(4) obtain s' where
      "expire_loop (hd (es @ rs)) s1 = Some s'"
      "rq_inv s' ((ps @ [?p]) @ map (timer_owner s) es)"
      "linked (klinks s') TimerHead TimerLink rs" "timers s' = timers s1"
      "current s' = current s1" "idleproc s' = idleproc s1"
      "\<forall>q. pstate (procs s' q) =
        (if q \<in> timer_owner s ` set es then PROC_RUNNABLE else pstate (procs s1 q))"
      unfolding owner by auto
    with s1 False show ?thesis by (intro exI [of _ s']) auto
  qed
qed

lemma deadlines_shift:
  "0 < ex t \<Longrightarrow> t \<notin> set ts \<Longrightarrow>
   deadlines (ex(t := ex t - 1)) 0 (t # ts) = map (\<lambda>x. (fst x, snd x - 1)) (deadlines ex 0 (t # ts))"
proof -
  assume a: "0 < ex t" "t \<notin> set ts"
  have shift: "map (\<lambda>x. (fst x, snd x - 1)) (deadlines ex b ys) = deadlines ex (b - 1) ys"
    if "0 < b" for b ys
    using that by (induction ys arbitrary: b) auto
  have "deadlines (ex(t := ex t - 1)) b ts = deadlines ex b ts" for b
    by (rule deadlines_cong) (use a in auto)
  then show ?thesis using a shift [of "ex t" ts] by simp
qed

text \<open>The timers at the front whose remaining difference is zero are those whose deadline is.\<close>

lemma deadlines_zero:
  "takeWhile (\<lambda>t. ex t = 0) ts = map fst (filter (\<lambda>x. snd x = 0) (deadlines ex 0 ts))"
  "deadlines ex 0 (dropWhile (\<lambda>t. ex t = 0) ts) = filter (\<lambda>x. snd x \<noteq> 0) (deadlines ex 0 ts)"
proof -
  have pos: "filter (\<lambda>x. snd x = 0) (deadlines ex b us) = []"
    "filter (\<lambda>x. 0 < snd x) (deadlines ex b us) = deadlines ex b us" if "0 < b" for b us
    using that by (auto simp: filter_empty_conv filter_id_conv dest!: deadlines_ge)
  show "takeWhile (\<lambda>t. ex t = 0) ts = map fst (filter (\<lambda>x. snd x = 0) (deadlines ex 0 ts))"
    by (induction ts) (auto simp: pos)
  show "deadlines ex 0 (dropWhile (\<lambda>t. ex t = 0) ts) = filter (\<lambda>x. snd x \<noteq> 0) (deadlines ex 0 ts)"
    by (induction ts) (auto simp: pos)
qed

lemma tick_frame:
  "klinks (sched_class_proc_tick c s) = klinks s" "timers (sched_class_proc_tick c s) = timers s"
  "pstate (procs (sched_class_proc_tick c s) q) = pstate (procs s q)"
  "rq_inv (sched_class_proc_tick c s) ps \<longleftrightarrow> rq_inv s ps"
  by (auto simp: sched_class_proc_tick_def RR_proc_tick_def Let_def rq_inv_upd_proc)

text \<open>The timers whose deadline is the next tick, in the order of the list.\<close>

definition due :: "kst \<Rightarrow> nat list \<Rightarrow> nat list" where
  "due s ts = map fst (filter (\<lambda>x. snd x = 1) (deadlines (expiry s) 0 ts))"

lemma due_subset: "set (due s ts) \<subseteq> set ts"
  by (metis due_def filter_is_subset fst_deadlines image_mono list.set_map)

lemma filter_lowered:
  "filter (\<lambda>x. snd x \<noteq> 0) (map (\<lambda>x. (fst x, snd x - 1)) (ys :: (nat \<times> nat) list)) =
   map (\<lambda>x. (fst x, snd x - 1)) (filter (\<lambda>x. snd x - 1 \<noteq> 0) ys)"
  by (induction ys) auto

lemma run_timer_list_inv:
  assumes rq: "rq_inv s ps" and tm: "timer_inv s ts"
    and pos: "\<forall>x \<in> set (deadlines (expiry s) 0 ts). 0 < snd x"
    and sleepers: "\<forall>t \<in> set (due s ts). timer_proc (timers s t) \<noteq> None \<and> asleep s (timer_owner s t)"
    and dist: "distinct (ps @ map (timer_owner s) (due s ts))"
    and len: "length ps + length (due s ts) < 2 ^ 32 - 2"
  shows "\<exists>s' ts'. run_timer_list s = Some s' \<and> timer_inv s' ts' \<and>
    rq_inv s' (ps @ map (timer_owner s) (due s ts)) \<and>
    deadlines (expiry s') 0 ts' =
      map (\<lambda>x. (fst x, snd x - 1)) (filter (\<lambda>x. snd x \<noteq> 1) (deadlines (expiry s) 0 ts)) \<and>
    (\<forall>q. pstate (procs s' q) =
      (if q \<in> timer_owner s ` set (due s ts) then PROC_RUNNABLE else pstate (procs s q)))"
proof -
  have l: "linked (klinks s) TimerHead TimerLink ts" using tm by (simp add: timer_inv_def)
  let ?tick = "\<lambda>s'. case current s' of None \<Rightarrow> s' | Some c \<Rightarrow> sched_class_proc_tick c s'"
  have tick: "klinks (?tick s') = klinks s'" "timers (?tick s') = timers s'"
    "pstate (procs (?tick s') q) = pstate (procs s' q)" "rq_inv (?tick s') qs \<longleftrightarrow> rq_inv s' qs"
    for s' q qs by (auto simp: tick_frame split: option.split)
  show ?thesis
  proof (cases ts)
    case Nil
    then have "nxt (klinks s) TimerHead = TimerHead" using l by (simp add: linked_def dlist_self)
    then have "run_timer_list s = Some (?tick s)"
      by (simp add: run_timer_list_def list_next_def split: option.split)
    then show ?thesis
      using rq tm Nil by (intro exI [of _ "?tick s"] exI [of _ "[]"])
        (simp add: tick due_def timer_inv_def)
  next
    case (Cons t0 tl)
    define s0 where "s0 = upd_timer t0 (\<lambda>d. d\<lparr>expires := expires d - 1\<rparr>) s"
    have t0: "0 < expiry s t0" "t0 \<notin> set tl"
      using pos Cons linked_distinct [OF l] by auto
    have ex0: "expiry s0 = (expiry s)(t0 := expiry s t0 - 1)" by (auto simp: s0_def)
    have D: "deadlines (expiry s0) 0 ts = map (\<lambda>x. (fst x, snd x - 1)) (deadlines (expiry s) 0 ts)"
      unfolding Cons ex0 using deadlines_shift [of "expiry s" t0 tl] t0 by simp
    define es where "es = takeWhile (\<lambda>t. expiry s0 t = 0) ts"
    define rs where "rs = dropWhile (\<lambda>t. expiry s0 t = 0) ts"
    have ts: "ts = es @ rs" by (simp add: es_def rs_def)
    have one: "snd x - 1 = 0 \<longleftrightarrow> snd x = 1" if "x \<in> set (deadlines (expiry s) 0 ts)" for x
      using that pos by fastforce
    then have es: "es = due s ts"
      unfolding es_def deadlines_zero(1) D due_def
      by (simp add: filter_map o_def cong: filter_cong)
    have rs: "deadlines (expiry s0) 0 rs =
        map (\<lambda>x. (fst x, snd x - 1)) (filter (\<lambda>x. snd x \<noteq> 1) (deadlines (expiry s) 0 ts))"
    proof -
      have "filter (\<lambda>x. snd x - 1 \<noteq> 0) (deadlines (expiry s) 0 ts) =
          filter (\<lambda>x. snd x \<noteq> 1) (deadlines (expiry s) 0 ts)"
        by (rule filter_cong [OF refl], subst one) simp_all
      then show ?thesis by (simp only: rs_def deadlines_zero(2) D filter_lowered)
    qed
    have s0: "klinks s0 = klinks s" "procs s0 = procs s" "current s0 = current s"
      "idleproc s0 = idleproc s" "timer_owner s0 = timer_owner s" "rq_inv s0 ps"
      using rq by (auto simp: s0_def timer_owner_def fun_eq_iff rq_inv_def)
    have proc0: "timer_proc (timers s0 t) = timer_proc (timers s t)" for t by (simp add: s0_def)
    have zero: "expiry s0 t = 0" if "t \<in> set es" for t
      using that unfolding es_def by (rule set_takeWhileD [THEN conjunct2])
    have "asleep s0 p \<longleftrightarrow> asleep s p" for p by (simp add: asleep_def s0(2-4))
    then have "\<forall>t \<in> set es. expires (timers s0 t) = 0 \<and> timer_proc (timers s0 t) \<noteq> None \<and>
        asleep s0 (timer_owner s0 t)"
      using sleepers zero unfolding es [symmetric] by (simp add: proc0 s0(5))
    moreover have "rs \<noteq> [] \<longrightarrow> expires (timers s0 (hd rs)) \<noteq> 0"
      using hd_dropWhile [of "\<lambda>t. expiry s0 t = 0" ts] by (auto simp: rs_def)
    moreover have "es @ rs \<noteq> []" "distinct (ps @ map (timer_owner s0) es)"
      "linked (klinks s0) TimerHead TimerLink (es @ rs)"
      using Cons dist l unfolding ts [symmetric] es [symmetric] s0(1,5) by simp_all
    ultimately obtain s1 where s1: "expire_loop (hd ts) s0 = Some s1"
      "rq_inv s1 (ps @ map (timer_owner s) es)" "linked (klinks s1) TimerHead TimerLink rs"
      "timers s1 = timers s0"
      "\<forall>q. pstate (procs s1 q) = (if q \<in> timer_owner s ` set es then PROC_RUNNABLE
        else pstate (procs s q))"
      using expire_loop_inv [OF s0(6), of es rs] len
      unfolding es [symmetric] ts [symmetric] s0(1-5) by auto
    have "nxt (klinks s) TimerHead = TimerLink t0"
      using l Cons by (simp add: linked_def dlist_def)
    then have run: "run_timer_list s = Some (?tick s1)"
      using s1(1) t0(1) Cons
      unfolding run_timer_list_def s0_def by (simp add: list_next_def split: option.split)
    have D1: "deadlines (expiry (?tick s1)) 0 rs = deadlines (expiry s0) 0 rs"
      by (simp add: tick s1(4))
    have "timer_inv (?tick s1) rs"
      unfolding timer_inv_def D1 unfolding rs using s1(3) tm by (auto simp: tick timer_inv_def)
    with run D1 rs s1(2,5) show ?thesis
      unfolding es [symmetric] by (intro exI [of _ "?tick s1"] exI [of _ rs]) (simp add: tick)
  qed
qed

subsection \<open>Properties\<close>

text \<open>C13. Round robin is fair: when the current process and all processes on the run queue stay
  runnable, the \<open>k\<close>-th of the following calls of \<open>schedule\<close> runs the \<open>k\<close>-th of them in queue order,
  cyclically. So each of \<open>n\<close> processes runs once in every \<open>n\<close> calls.\<close>

theorem round_robin_fair:
  assumes "sched_inv s ps i c" and "i \<noteq> c"
    and "\<forall>p \<in> set (c # ps). pstate (procs s p) = PROC_RUNNABLE"
    and "\<And>n s. run n s = Some (s\<lparr>current := Some n\<rparr>)"
  shows "\<exists>s'. schedules run k s = Some s' \<and> current s' = Some ((c # ps) ! (k mod length (c # ps)))"
  using schedules_rotate [OF assms, of k] by (simp add: hd_rotate_conv_nth)

definition proc0 :: proc where
  "proc0 = \<lparr>pstate = PROC_RUNNABLE, pid = 0, runs = 0, kstack = 0, need_resched = False, parent = None,
     proc_mm = None, pflags = 0, pname = [], exit_code = 0, wait_state = 0, cptr = None, yptr = None,
     optr = None, on_rq = False, time_slice = 0, lab6_priority = 0, filesp = None\<rparr>"

definition kst0 :: kst where
  "kst0 = sched_init \<lparr>procs = (\<lambda>_. proc0), klinks = \<lparr>prv = id, nxt = id\<rparr>, current = Some 1,
     idleproc = Some 0, initproc = Some 1, nr_process = 2, last_pid = 8192, next_safe = 8192,
     proc_num = 0, max_time_slice = 5, timers = (\<lambda>_. \<lparr>expires = 0, timer_proc = None\<rparr>),
     waits = (\<lambda>_. \<lparr>wait_proc = None, wakeup_flags = 0, wait_queue = None\<rparr>), sems = (\<lambda>_. 0)\<rparr>"

lemma kst0_inv: "rq_inv kst0 []" "timer_inv kst0 []"
  by (auto simp: kst0_def sched_init_def RR_init_def rq_inv_def timer_inv_def linked_def dlist_def
      list_init_def MAX_TIME_SLICE_def)

lemma kst0_fields [simp]:
  "current kst0 = Some 1" "idleproc kst0 = Some 0" "procs kst0 = (\<lambda>_. proc0)"
  "timers kst0 = (\<lambda>_. \<lparr>expires = 0, timer_proc = None\<rparr>)"
  by (simp_all add: kst0_def sched_init_def RR_init_def)

theorem round_robin_fair_witness:
  "\<exists>s s'. sched_inv s [2, 3] 0 1 \<and> schedules (\<lambda>n s. Some (s\<lparr>current := Some n\<rparr>)) 5 s = Some s' \<and>
    current s' = Some 3"
proof -
  obtain s1 where s1: "RR_enqueue 2 kst0 = Some s1" "rq_inv s1 [2]"
    using rr.enqueue_law [OF kst0_inv(1), of 2] by auto
  obtain s2 where s2: "RR_enqueue 3 s1 = Some s2" "rq_inv s2 [2, 3]"
    using rr.enqueue_law [OF s1(2), of 3] by auto
  note f = RR_enqueue_frame [OF s1(1)] RR_enqueue_frame [OF s2(1)]
  have inv: "sched_inv s2 [2, 3] 0 1" using s2(2) by (simp add: sched_inv_def f)
  have "\<forall>p \<in> set [1, 2, 3]. pstate (procs s2 p) = PROC_RUNNABLE" by (simp add: f proc0_def)
  from round_robin_fair [OF inv _ this refl, of 5] inv show ?thesis by auto
qed

text \<open>\<open>add_timer\<close> keeps the deadline of every timer already waiting and enters the new one with
  the deadline asked for, behind those that are due no later.\<close>

theorem add_timer_deadlines:
  assumes "timer_inv s ts" and "t \<notin> set ts" and "0 < expiry s t" and "expiry s t < 2 ^ 32"
    and "timer_proc (timers s t) \<noteq> None"
  shows "\<exists>s' ts'. add_timer t s = Some s' \<and> timer_inv s' ts' \<and>
    deadlines (expiry s') 0 ts' = insert_deadline (t, expiry s t) (deadlines (expiry s) 0 ts)"
  by (rule add_timer_inv [OF assms])

lemma timer_init_inv:
  assumes "timer_inv s ts" and "t \<notin> set ts"
  shows "timer_inv (timer_init t p e s) ts"
proof -
  have l: "linked (klinks s) TimerHead TimerLink ts" using assms(1) by (simp add: timer_inv_def)
  then have "dlist (klinks s) (TimerLink t) []" using assms(2) by (simp add: linked_def)
  then have "list_init (TimerLink t) (klinks s) = klinks s"
    by (cases "klinks s") (auto simp: list_init_def set_prv_def set_nxt_def dlist_self fun_upd_idem)
  moreover have "deadlines (expiry (timer_init t p e s)) 0 ts = deadlines (expiry s) 0 ts"
    by (rule deadlines_cong) (use assms(2) in \<open>auto simp: timer_init_def\<close>)
  ultimately show ?thesis using assms(1) by (simp add: timer_inv_def timer_init_def)
qed

theorem add_timer_deadlines_witness:
  "\<exists>s' ts'. add_timer 7 (timer_init 7 2 100 kst0) = Some s' \<and> deadlines (expiry s') 0 ts' = [(7, 100)]"
  using add_timer_deadlines [OF timer_init_inv [OF kst0_inv(2), of 7 2 100], of 7]
  by (auto simp: timer_init_def insert_deadline_def)

text \<open>\<open>del_timer\<close> takes a waiting timer off the list and keeps the deadline of every other one.\<close>

theorem del_timer_deadlines:
  assumes "timer_inv s ts" and "t \<in> set ts"
  shows "\<exists>s'. del_timer t s = Some s' \<and> timer_inv s' (remove1 t ts) \<and>
    deadlines (expiry s') 0 (remove1 t ts) = filter (\<lambda>x. fst x \<noteq> t) (deadlines (expiry s) 0 ts)"
  using del_timer_inv [OF assms] by blast

lemma one_timer: "\<exists>s'. add_timer 7 (timer_init 7 2 1 kst0) = Some s' \<and> timer_inv s' [7] \<and>
  deadlines (expiry s') 0 [7] = [(7, 1)]"
proof -
  obtain s' ts' where s': "add_timer 7 (timer_init 7 2 1 kst0) = Some s'" "timer_inv s' ts'"
    "deadlines (expiry s') 0 ts' = [(7, 1)]"
    using add_timer_inv [OF timer_init_inv [OF kst0_inv(2), of 7 2 1], of 7]
    by (auto simp: timer_init_def insert_deadline_def)
  from arg_cong [OF s'(3), of "map fst"] have "ts' = [7]" by simp
  with s' show ?thesis by auto
qed

theorem del_timer_deadlines_witness: "\<exists>s s'. timer_inv s [7] \<and> del_timer 7 s = Some s' \<and> timer_inv s' []"
proof -
  obtain s where "timer_inv s [7]" using one_timer by blast
  with del_timer_deadlines [OF this, of 7] show ?thesis by auto
qed

text \<open>C32. A timer tick lowers every deadline by one; the timers whose deadline was the tick leave the
  list, and exactly the processes sleeping on them become runnable and join the run queue, in the
  order of the list.\<close>

theorem run_timer_list_wakes_due:
  assumes "rq_inv s ps" and "timer_inv s ts"
    and "\<forall>x \<in> set (deadlines (expiry s) 0 ts). 0 < snd x"
    and "\<forall>t \<in> set (due s ts). timer_proc (timers s t) \<noteq> None \<and> asleep s (timer_owner s t)"
    and "distinct (ps @ map (timer_owner s) (due s ts))"
    and "length ps + length (due s ts) < 2 ^ 32 - 2"
  shows "\<exists>s' ts'. run_timer_list s = Some s' \<and> timer_inv s' ts' \<and>
    rq_inv s' (ps @ map (timer_owner s) (due s ts)) \<and>
    deadlines (expiry s') 0 ts' =
      map (\<lambda>x. (fst x, snd x - 1)) (filter (\<lambda>x. snd x \<noteq> 1) (deadlines (expiry s) 0 ts)) \<and>
    (\<forall>q. pstate (procs s' q) =
      (if q \<in> timer_owner s ` set (due s ts) then PROC_RUNNABLE else pstate (procs s q)))"
  by (rule run_timer_list_inv [OF assms])

text \<open>One process asleep for one more tick.\<close>

definition one_sleeper :: kst where
  "one_sleeper = kst0\<lparr>
     procs := (\<lambda>_. proc0)(2 := proc0\<lparr>pstate := PROC_SLEEPING, wait_state := WT_TIMER\<rparr>),
     timers := (\<lambda>_. \<lparr>expires = 0, timer_proc = None\<rparr>)(7 := \<lparr>expires = 1, timer_proc = Some 2\<rparr>),
     klinks := \<lparr>prv = id(TimerHead := TimerLink 7, TimerLink 7 := TimerHead),
       nxt = id(TimerHead := TimerLink 7, TimerLink 7 := TimerHead)\<rparr>\<rparr>"

lemma one_sleeper_inv: "rq_inv one_sleeper []" "timer_inv one_sleeper [7]"
  using kst0_inv(1)
  by (auto simp: one_sleeper_def rq_inv_def timer_inv_def linked_def dlist_def)

theorem run_timer_list_wakes_due_witness:
  "\<exists>s' ts'. run_timer_list one_sleeper = Some s' \<and> timer_inv s' ts' \<and> rq_inv s' [2] \<and>
    deadlines (expiry s') 0 ts' = [] \<and> pstate (procs s' 2) = PROC_RUNNABLE"
proof -
  have due: "due one_sleeper [7] = [7]" "deadlines (expiry one_sleeper) 0 [7] = [(7, 1)]"
    by (simp_all add: due_def one_sleeper_def)
  have owner: "timer_owner one_sleeper 7 = 2" "timer_proc (timers one_sleeper 7) = Some 2"
    and "asleep one_sleeper 2"
    by (simp_all add: timer_owner_def asleep_def one_sleeper_def)
  with run_timer_list_wakes_due [OF one_sleeper_inv] show ?thesis
    unfolding due by (auto simp: owner)
qed

end
