(* ===== verification/Sync.thy ===== *)
theory Sync
  imports Sched
begin

text \<open>
  Wait queues (kern/sync/wait.c), semaphores (kern/sync/sem.c), the initialisation of monitors
  (kern/sync/monitor.c) and the dining philosophers of kern/sync/check_sync.c. A semaphore and
  its wait queue share a number; a \<open>wait_t\<close> is a number, too. \<open>__down\<close> gives up the processor in
  its middle: it is modelled as the part before the call of \<open>schedule\<close> and the part after it.
\<close>

subsection \<open>Wait queues\<close>

definition wait_init :: "nat \<Rightarrow> nat \<Rightarrow> kst \<Rightarrow> kst" where
  "wait_init w p s =
     upd_klinks (list_init (WaitLink w))
       (upd_wait w (\<lambda>d. d\<lparr>wait_proc := Some p, wakeup_flags := WT_INTERRUPTED\<rparr>) s)"

definition wait_queue_init :: "nat \<Rightarrow> kst \<Rightarrow> kst" where
  "wait_queue_init q s = upd_klinks (list_init (WaitHead q)) s"

definition wait_queue_add :: "nat \<Rightarrow> nat \<Rightarrow> kst \<Rightarrow> kst option" where
  "wait_queue_add q w s = do {
     kassert (list_empty (WaitLink w) (klinks s) \<and> wait_proc (waits s w) \<noteq> None);
     let s = upd_wait w (\<lambda>d. d\<lparr>wait_queue := Some q\<rparr>) s;
     Some (upd_klinks (list_add_before (WaitHead q) (WaitLink w)) s)
   }"

definition wait_queue_del :: "nat \<Rightarrow> nat \<Rightarrow> kst \<Rightarrow> kst option" where
  "wait_queue_del q w s = do {
     kassert (\<not> list_empty (WaitLink w) (klinks s) \<and> wait_queue (waits s w) = Some q);
     Some (upd_klinks (list_del_init (WaitLink w)) s)
   }"

text \<open>The functions that return a \<open>wait_t *\<close>: the inner option is \<open>NULL\<close>.\<close>

definition node2wait :: "nat \<Rightarrow> knode \<Rightarrow> nat option option" where
  "node2wait q le = (if le \<noteq> WaitHead q then do { w \<leftarrow> le2wait le; Some (Some w) } else Some None)"

definition wait_queue_next :: "nat \<Rightarrow> nat \<Rightarrow> kst \<Rightarrow> nat option option" where
  "wait_queue_next q w s = do {
     kassert (\<not> list_empty (WaitLink w) (klinks s) \<and> wait_queue (waits s w) = Some q);
     node2wait q (list_next (WaitLink w) (klinks s))
   }"

definition wait_queue_prev :: "nat \<Rightarrow> nat \<Rightarrow> kst \<Rightarrow> nat option option" where
  "wait_queue_prev q w s = do {
     kassert (\<not> list_empty (WaitLink w) (klinks s) \<and> wait_queue (waits s w) = Some q);
     node2wait q (list_prev (WaitLink w) (klinks s))
   }"

definition wait_queue_first :: "nat \<Rightarrow> kst \<Rightarrow> nat option option" where
  "wait_queue_first q s = node2wait q (list_next (WaitHead q) (klinks s))"

definition wait_queue_last :: "nat \<Rightarrow> kst \<Rightarrow> nat option option" where
  "wait_queue_last q s = node2wait q (list_prev (WaitHead q) (klinks s))"

definition wait_queue_empty :: "nat \<Rightarrow> kst \<Rightarrow> bool" where
  "wait_queue_empty q s = list_empty (WaitHead q) (klinks s)"

definition wait_in_queue :: "nat \<Rightarrow> kst \<Rightarrow> bool" where
  "wait_in_queue w s \<longleftrightarrow> \<not> list_empty (WaitLink w) (klinks s)"

definition wakeup_wait :: "nat \<Rightarrow> nat \<Rightarrow> 32 word \<Rightarrow> bool \<Rightarrow> kst \<Rightarrow> kst option" where
  "wakeup_wait q w fl del s = do {
     s \<leftarrow> (if del then wait_queue_del q w s else Some s);
     let s = upd_wait w (\<lambda>d. d\<lparr>wakeup_flags := fl\<rparr>) s;
     p \<leftarrow> wait_proc (waits s w);
     wakeup_proc p s
   }"

definition wakeup_first :: "nat \<Rightarrow> 32 word \<Rightarrow> bool \<Rightarrow> kst \<Rightarrow> kst option" where
  "wakeup_first q fl del s = do {
     w \<leftarrow> wait_queue_first q s;
     (case w of Some w \<Rightarrow> wakeup_wait q w fl del s | None \<Rightarrow> Some s)
   }"

text \<open>The two loops of \<open>wakeup_queue\<close>.\<close>

partial_function (option) wakeup_all_del :: "nat \<Rightarrow> nat \<Rightarrow> 32 word \<Rightarrow> kst \<Rightarrow> kst option" where
  "wakeup_all_del q w fl s = do {
     s \<leftarrow> wakeup_wait q w fl True s;
     w \<leftarrow> wait_queue_first q s;
     (case w of Some w \<Rightarrow> wakeup_all_del q w fl s | None \<Rightarrow> Some s)
   }"

partial_function (option) wakeup_all_keep :: "nat \<Rightarrow> nat \<Rightarrow> 32 word \<Rightarrow> kst \<Rightarrow> kst option" where
  "wakeup_all_keep q w fl s = do {
     s \<leftarrow> wakeup_wait q w fl False s;
     w \<leftarrow> wait_queue_next q w s;
     (case w of Some w \<Rightarrow> wakeup_all_keep q w fl s | None \<Rightarrow> Some s)
   }"

declare wakeup_all_del.simps [code] wakeup_all_keep.simps [code]

definition wakeup_queue :: "nat \<Rightarrow> 32 word \<Rightarrow> bool \<Rightarrow> kst \<Rightarrow> kst option" where
  "wakeup_queue q fl del s = do {
     w \<leftarrow> wait_queue_first q s;
     (case w of
        Some w \<Rightarrow> if del then wakeup_all_del q w fl s else wakeup_all_keep q w fl s
      | None \<Rightarrow> Some s)
   }"

definition wait_current_set :: "nat \<Rightarrow> nat \<Rightarrow> 32 word \<Rightarrow> kst \<Rightarrow> kst option" where
  "wait_current_set q w ws s = do {
     c \<leftarrow> current s;
     let s = wait_init w c s;
     let s = upd_proc c (\<lambda>d. d\<lparr>pstate := PROC_SLEEPING, wait_state := ws\<rparr>) s;
     wait_queue_add q w s
   }"

definition wait_current_del :: "nat \<Rightarrow> nat \<Rightarrow> kst \<Rightarrow> kst option" where
  "wait_current_del q w s = (if wait_in_queue w s then wait_queue_del q w s else Some s)"

subsection \<open>Semaphores\<close>

definition sem_init :: "nat \<Rightarrow> int \<Rightarrow> kst \<Rightarrow> kst" where
  "sem_init i v s = wait_queue_init i (set_sem i v s)"

definition up_flags :: "nat \<Rightarrow> 32 word \<Rightarrow> kst \<Rightarrow> kst option" where
  "up_flags i ws s = do {
     w \<leftarrow> wait_queue_first i s;
     (case w of
        None \<Rightarrow> Some (set_sem i (sems s i + 1) s)
      | Some w \<Rightarrow> do {
          p \<leftarrow> wait_proc (waits s w);
          kassert (wait_state (procs s p) = ws);
          wakeup_wait i w ws True s
        })
   }"

text \<open>Whether the value was taken at once; else the current process is queued and \<open>schedule\<close> follows.\<close>

definition down_enter :: "nat \<Rightarrow> nat \<Rightarrow> 32 word \<Rightarrow> kst \<Rightarrow> (bool \<times> kst) option" where
  "down_enter i w ws s =
     (if sems s i > 0 then Some (True, set_sem i (sems s i - 1) s)
      else do { s \<leftarrow> wait_current_set i w ws s; Some (False, s) })"

definition down_leave :: "nat \<Rightarrow> nat \<Rightarrow> 32 word \<Rightarrow> kst \<Rightarrow> (32 word \<times> kst) option" where
  "down_leave i w ws s = do {
     s \<leftarrow> wait_current_del i w s;
     Some (if wakeup_flags (waits s w) \<noteq> ws then wakeup_flags (waits s w) else 0, s)
   }"

definition up :: "nat \<Rightarrow> kst \<Rightarrow> kst option" where
  "up i s = up_flags i WT_KSEM s"

definition down_end :: "nat \<Rightarrow> nat \<Rightarrow> kst \<Rightarrow> kst option" where
  "down_end i w s = do { (fl, s) \<leftarrow> down_leave i w WT_KSEM s; kassert (fl = 0); Some s }"

definition try_down :: "nat \<Rightarrow> kst \<Rightarrow> bool \<times> kst" where
  "try_down i s = (if sems s i > 0 then (True, set_sem i (sems s i - 1) s) else (False, s))"

subsection \<open>The queue discipline\<close>

definition sem_inv :: "nat \<Rightarrow> kst \<Rightarrow> nat list \<Rightarrow> bool" where
  "sem_inv i s ws \<longleftrightarrow>
     dlist (klinks s) (WaitHead i) (map WaitLink ws) \<and> 0 \<le> sems s i \<and> (ws \<noteq> [] \<longrightarrow> sems s i = 0) \<and>
     (\<forall>w \<in> set ws. wait_queue (waits s w) = Some i \<and> (\<exists>p. wait_proc (waits s w) = Some p))"

lemma first_waiter:
  "dlist (klinks s) (WaitHead i) (map WaitLink ws) \<Longrightarrow>
   wait_queue_first i s = Some (if ws = [] then None else Some (hd ws))"
  by (cases ws) (auto simp: wait_queue_first_def node2wait_def dlist_next_head)

lemma waiter_queued:
  assumes "dlist (klinks s) (WaitHead i) (map WaitLink (w # ws))"
  shows "\<not> list_empty (WaitLink w) (klinks s)"
proof -
  have "nxt (klinks s) (WaitLink w) = hd (map WaitLink ws @ [WaitHead i])"
    using dlist_split_links(2) [of "klinks s" "WaitHead i" "[]"] assms by simp
  then show ?thesis
    using dlist_distinct [OF assms] by (cases ws) (auto simp: list_empty_def)
qed

text \<open>What a wakeup writes outside the run queue.\<close>

lemma wakeup_proc_frame:
  assumes "wakeup_proc p s = Some s'" and "rq_inv s ps"
  shows "sems s' = sems s" "waits s' = waits s" "current s' = current s" "timers s' = timers s"
    "pstate (procs s' p) = PROC_RUNNABLE" "q \<noteq> p \<Longrightarrow> pstate (procs s' q) = pstate (procs s q)"
    "q \<noteq> p \<Longrightarrow> wait_state (procs s' q) = wait_state (procs s q)"
    "n \<notin> insert RunHead (range RunLink) \<Longrightarrow> nxt (klinks s') n = nxt (klinks s) n"
    "n \<notin> insert RunHead (range RunLink) \<Longrightarrow> prv (klinks s') n = prv (klinks s) n"
proof -
  have ring: "dlist (klinks s) RunHead (map RunLink ps)"
    using assms(2) by (simp add: rq_inv_def linked_def)
  define s1 where "s1 = upd_proc p (\<lambda>d. d\<lparr>pstate := PROC_RUNNABLE, wait_state := 0\<rparr>) s"
  have "s' = s \<and> pstate (procs s p) = PROC_RUNNABLE \<or> s' = s1 \<or> RR_enqueue p s1 = Some s'"
    using assms(1) by (auto simp: wakeup_proc_def Let_def sched_class_enqueue_def s1_def split: if_splits)
  then have "sems s' = sems s \<and> waits s' = waits s \<and> current s' = current s \<and> timers s' = timers s \<and>
    pstate (procs s' p) = PROC_RUNNABLE \<and>
    (\<forall>q. q \<noteq> p \<longrightarrow> pstate (procs s' q) = pstate (procs s q) \<and>
      wait_state (procs s' q) = wait_state (procs s q)) \<and>
    (klinks s' = klinks s \<or> klinks s' = list_add_before RunHead (RunLink p) (klinks s))"
    (is "?P")
  proof (elim disjE conjE)
    assume e: "RR_enqueue p s1 = Some s'"
    show ?P using RR_enqueue_frame [OF e] by (simp add: s1_def)
  qed (simp_all add: s1_def)
  note effects = this
  show "sems s' = sems s" "waits s' = waits s" "current s' = current s" "timers s' = timers s"
    "pstate (procs s' p) = PROC_RUNNABLE" "q \<noteq> p \<Longrightarrow> pstate (procs s' q) = pstate (procs s q)"
    "q \<noteq> p \<Longrightarrow> wait_state (procs s' q) = wait_state (procs s q)"
    using effects by simp_all
  assume n: "n \<notin> insert RunHead (range RunLink)"
  then have "n \<notin> set (RunHead # map RunLink ps)" "n \<noteq> RunLink p" by auto
  note w = add_before_writes [OF ring _ this]
  show "nxt (klinks s') n = nxt (klinks s) n" "prv (klinks s') n = prv (klinks s) n"
    using effects w by auto
qed

lemma dlist_wakeup:
  assumes "wakeup_proc p s = Some s'" and "rq_inv s ps"
    and "set (lh # xs) \<inter> insert RunHead (range RunLink) = {}"
  shows "dlist (klinks s') lh xs \<longleftrightarrow> dlist (klinks s) lh xs"
  by (rule dlist_frame) (use assms wakeup_proc_frame(8,9) [OF assms(1,2)] in blast)

text \<open>\<open>up\<close> and \<open>down\<close>, when they return.\<close>

lemma up_effect:
  assumes "up i s = Some s'" and "sem_inv i s ws" and "rq_inv s ps"
  shows "case ws of
      [] \<Rightarrow> s' = set_sem i (sems s i + 1) s \<and> sem_inv i s' []
    | w # ws' \<Rightarrow> sem_inv i s' ws' \<and> sems s' i = 0 \<and> wakeup_flags (waits s' w) = WT_KSEM \<and>
        list_empty (WaitLink w) (klinks s') \<and>
        pstate (procs s' (the (wait_proc (waits s w)))) = PROC_RUNNABLE"
proof (cases ws)
  case Nil
  then have "wait_queue_first i s = Some None"
    using first_waiter [of s i ws] assms(2) by (simp add: sem_inv_def)
  with assms Nil show ?thesis by (auto simp: up_def up_flags_def sem_inv_def)
next
  case (Cons w ws')
  have ring: "dlist (klinks s) (WaitHead i) ([] @ WaitLink w # map WaitLink ws')"
    using assms(2) Cons by (simp add: sem_inv_def)
  have first: "wait_queue_first i s = Some (Some w)"
    using first_waiter [of s i ws] assms(2) Cons by (simp add: sem_inv_def)
  define s1 where "s1 = upd_wait w (\<lambda>d. d\<lparr>wakeup_flags := WT_KSEM\<rparr>)
    (upd_klinks (list_del_init (WaitLink w)) s)"
  obtain p where p: "wait_proc (waits s w) = Some p" using assms(2) Cons by (auto simp: sem_inv_def)
  have wake: "wakeup_proc p s1 = Some s'"
    using assms(1) first p unfolding up_def up_flags_def wakeup_wait_def wait_queue_del_def
    by (auto simp: s1_def split: if_splits)
  have "rq_inv s1 ps"
  proof -
    have "linked (klinks s1) RunHead RunLink ps \<longleftrightarrow> linked (klinks s) RunHead RunLink ps"
    proof (rule linked_frame)
      fix n assume "n = RunHead \<or> n \<in> range RunLink"
      then have "n \<notin> set (WaitHead i # [] @ WaitLink w # map WaitLink ws')" by auto
      from del_init_writes [OF ring _ this, of "WaitLink w"]
      show "nxt (klinks s1) n = nxt (klinks s) n \<and> prv (klinks s1) n = prv (klinks s) n"
        by (simp add: s1_def)
    qed
    then show ?thesis using assms(3) by (simp add: rq_inv_def s1_def)
  qed
  note fr = wakeup_proc_frame [OF wake this] and dw = dlist_wakeup [OF wake this]
  have "dlist (klinks s1) (WaitHead i) ([] @ map WaitLink ws')" "dlist (klinks s1) (WaitLink w) []"
    unfolding s1_def using dlist_del_init [OF ring] by simp_all
  then have "dlist (klinks s') (WaitHead i) (map WaitLink ws')" "dlist (klinks s') (WaitLink w) []"
    by (auto intro!: dw [THEN iffD2])
  with fr assms(2) p Cons show ?thesis
    by (auto simp: sem_inv_def s1_def list_empty_def dlist_self)
qed

lemma down_enter_effect:
  assumes "down_enter i w WT_KSEM s = Some (got, s')" and "sem_inv i s ws" and "w \<notin> set ws"
  shows "got \<longleftrightarrow> 0 < sems s i" and "got \<Longrightarrow> s' = set_sem i (sems s i - 1) s \<and> ws = []"
    and "\<not> got \<Longrightarrow> sem_inv i s' (ws @ [w])" and "\<not> got \<Longrightarrow> wait_proc (waits s' w) = current s"
proof -
  show got: "got \<longleftrightarrow> 0 < sems s i" "got \<Longrightarrow> s' = set_sem i (sems s i - 1) s \<and> ws = []"
    using assms by (auto simp: down_enter_def sem_inv_def split: if_splits bind_splits)
  assume "\<not> got"
  with got have nonpos: "\<not> 0 < sems s i" by simp
  with assms(1) obtain c where c: "current s = Some c" by (auto simp: down_enter_def wait_current_set_def bind_eq_Some_conv)
  have ring: "dlist (klinks s) (WaitHead i) (map WaitLink ws @ [])"
    using assms(2) by (simp add: sem_inv_def)
  have new: "WaitLink w \<notin> set (WaitHead i # map WaitLink ws @ [])" using assms(3) by auto
  have "dlist (list_init (WaitLink w) (klinks s)) (WaitHead i) (map WaitLink ws @ [])"
    by (rule list_init_other [OF ring]) (use new in auto)
  from dlist_add_before [OF this new, of "WaitHead i"]
  have ring': "dlist (list_add_before (WaitHead i) (WaitLink w) (list_init (WaitLink w) (klinks s)))
      (WaitHead i) (map WaitLink (ws @ [w]))" by simp
  have s': "s' = upd_klinks (list_add_before (WaitHead i) (WaitLink w))
      (upd_wait w (\<lambda>d. d\<lparr>wait_queue := Some i\<rparr>)
        (upd_proc c (\<lambda>d. d\<lparr>pstate := PROC_SLEEPING, wait_state := WT_KSEM\<rparr>) (wait_init w c s)))"
    using assms(1) c nonpos
    by (auto simp: down_enter_def wait_current_set_def wait_queue_add_def Let_def split: if_splits)
  show "sem_inv i s' (ws @ [w])" "wait_proc (waits s' w) = current s"
    using ring' assms(2,3) nonpos c by (auto simp: s' sem_inv_def wait_init_def)
qed

subsection \<open>Processes sharing a semaphore\<close>

text \<open>
  All behaviours of a semaphore \<open>i\<close> created with value \<open>v\<close>: processes that call \<open>down\<close> get the
  semaphore or are queued, those that hold it call \<open>up\<close>, and everything else may happen as long as
  it leaves this semaphore alone. \<open>ws\<close> are the queued \<open>wait_t\<close>s, \<open>hs\<close> the processes that hold the
  semaphore; a process woken by \<open>up\<close> holds it from then on.
\<close>

inductive sem_sys :: "nat \<Rightarrow> int \<Rightarrow> kst \<Rightarrow> nat list \<Rightarrow> nat list \<Rightarrow> bool" for i v where
  start: "0 \<le> v \<Longrightarrow> sem_sys i v (sem_init i v s) [] []"
| acquire: "sem_sys i v s ws hs \<Longrightarrow> current s = Some p \<Longrightarrow> w \<notin> set ws \<Longrightarrow>
    down_enter i w WT_KSEM s = Some (True, s') \<Longrightarrow> sem_sys i v s' ws (p # hs)"
| block: "sem_sys i v s ws hs \<Longrightarrow> current s = Some p \<Longrightarrow> w \<notin> set ws \<Longrightarrow>
    down_enter i w WT_KSEM s = Some (False, s') \<Longrightarrow> sem_sys i v s' (ws @ [w]) hs"
| release: "sem_sys i v s ws hs \<Longrightarrow> rq_inv s ps \<Longrightarrow> p \<in> set hs \<Longrightarrow> up i s = Some s' \<Longrightarrow>
    sem_sys i v s' (tl ws)
      ((case ws of [] \<Rightarrow> [] | w # _ \<Rightarrow> [the (wait_proc (waits s w))]) @ remove1 p hs)"
| elsewhere: "sem_sys i v s ws hs \<Longrightarrow> sems s' i = sems s i \<Longrightarrow> (\<And>w. w \<in> set ws \<Longrightarrow> waits s' w = waits s w) \<Longrightarrow>
    (\<And>n. n = WaitHead i \<or> n \<in> WaitLink ` set ws \<Longrightarrow>
      nxt (klinks s') n = nxt (klinks s) n \<and> prv (klinks s') n = prv (klinks s) n) \<Longrightarrow>
    sem_sys i v s' ws hs"

lemma sem_sys_inv: "sem_sys i v s ws hs \<Longrightarrow> sem_inv i s ws \<and> sems s i + int (length hs) = v"
proof (induction rule: sem_sys.induct)
  case (start s)
  then show ?case by (simp add: sem_inv_def sem_init_def wait_queue_init_def dlist_init)
next
  case (acquire s ws hs p w s')
  then have "sem_inv i s ws" by simp
  with down_enter_effect(1,2) [OF acquire.hyps(4) this acquire.hyps(3)] acquire.IH
  show ?case by (simp add: sem_inv_def)
next
  case (block s ws hs p w s')
  then have inv: "sem_inv i s ws" by simp
  have new: "sem_inv i s' (ws @ [w])" "\<not> 0 < sems s i"
    using down_enter_effect(1,3) [OF block.hyps(4) inv block.hyps(3)] by simp_all
  then have "sems s' i = 0" "sems s i = 0" using inv by (simp_all add: sem_inv_def)
  with new block.IH show ?case by simp
next
  case (release s ws hs ps p s')
  then have inv: "sem_inv i s ws" by simp
  have "length hs = length (remove1 p hs) + 1"
    using release.hyps(3) length_pos_if_in_set [of p hs] by (simp add: length_remove1)
  with up_effect [OF release.hyps(4) inv release.hyps(2)] release.IH inv show ?case
    by (cases ws) (simp_all add: sem_inv_def)
next
  case (elsewhere s ws hs s')
  have "dlist (klinks s') (WaitHead i) (map WaitLink ws) \<longleftrightarrow>
      dlist (klinks s) (WaitHead i) (map WaitLink ws)"
    by (rule dlist_frame) (use elsewhere in auto)
  with elsewhere show ?case by (simp add: sem_inv_def)
qed

subsection \<open>The dining philosophers\<close>

datatype phil = THINKING | HUNGRY | EATING

definition N_phil :: nat where "N_phil = 5"
definition LEFT :: "nat \<Rightarrow> nat" where "LEFT i = (i + N_phil - 1) mod N_phil"
definition RIGHT :: "nat \<Rightarrow> nat" where "RIGHT i = (i + 1) mod N_phil"

text \<open>The semaphore \<open>s[i]\<close> has number \<open>i\<close>, \<open>mutex\<close> number \<open>N\<close>.\<close>

definition phi_test_sema :: "nat \<Rightarrow> (nat \<Rightarrow> phil) \<times> kst \<Rightarrow> ((nat \<Rightarrow> phil) \<times> kst) option" where
  "phi_test_sema i fs =
     (let (f, s) = fs in
      if f i = HUNGRY \<and> f (LEFT i) \<noteq> EATING \<and> f (RIGHT i) \<noteq> EATING then do {
        s \<leftarrow> up i s;
        Some (f(i := EATING), s)
      } else Some (f, s))"

text \<open>\<open>phi_take_forks_sema\<close> between \<open>down(&mutex)\<close> and \<open>down(&s[i])\<close>.\<close>

definition phi_take_forks_sema :: "nat \<Rightarrow> (nat \<Rightarrow> phil) \<times> kst \<Rightarrow> ((nat \<Rightarrow> phil) \<times> kst) option" where
  "phi_take_forks_sema i fs = do {
     (f, s) \<leftarrow> phi_test_sema i ((fst fs)(i := HUNGRY), snd fs);
     s \<leftarrow> up N_phil s;
     Some (f, s)
   }"

text \<open>\<open>phi_put_forks_sema\<close> behind \<open>down(&mutex)\<close>.\<close>

definition phi_put_forks_sema :: "nat \<Rightarrow> (nat \<Rightarrow> phil) \<times> kst \<Rightarrow> ((nat \<Rightarrow> phil) \<times> kst) option" where
  "phi_put_forks_sema i fs = do {
     fs \<leftarrow> phi_test_sema (LEFT i) ((fst fs)(i := THINKING), snd fs);
     (f, s) \<leftarrow> phi_test_sema (RIGHT i) fs;
     s \<leftarrow> up N_phil s;
     Some (f, s)
   }"

text \<open>
  Any interleaving of the five philosophers: the sections run one at a time under \<open>mutex\<close>, the
  kernel state between them is arbitrary. A thinking philosopher takes, an eating one puts down.
\<close>

inductive dining :: "(nat \<Rightarrow> phil) \<Rightarrow> bool" where
  sit: "dining (\<lambda>_. THINKING)"
| take_forks: "dining f \<Longrightarrow> i < N_phil \<Longrightarrow> f i = THINKING \<Longrightarrow>
    phi_take_forks_sema i (f, s) = Some (f', s') \<Longrightarrow> dining f'"
| put_forks: "dining f \<Longrightarrow> i < N_phil \<Longrightarrow> f i = EATING \<Longrightarrow>
    phi_put_forks_sema i (f, s) = Some (f', s') \<Longrightarrow> dining f'"

definition test_state :: "nat \<Rightarrow> (nat \<Rightarrow> phil) \<Rightarrow> nat \<Rightarrow> phil" where
  "test_state i f = (if f i = HUNGRY \<and> f (LEFT i) \<noteq> EATING \<and> f (RIGHT i) \<noteq> EATING
     then f(i := EATING) else f)"

lemma phi_test_state: "phi_test_sema i (f, s) = Some (f', s') \<Longrightarrow> f' = test_state i f"
  by (auto simp: phi_test_sema_def test_state_def bind_eq_Some_conv split: if_splits)

lemma phi_take_state: "phi_take_forks_sema i (f, s) = Some (f', s') \<Longrightarrow> f' = test_state i (f(i := HUNGRY))"
  by (auto simp: phi_take_forks_sema_def bind_eq_Some_conv dest: phi_test_state)

lemma phi_put_state: "phi_put_forks_sema i (f, s) = Some (f', s') \<Longrightarrow>
    f' = test_state (RIGHT i) (test_state (LEFT i) (f(i := THINKING)))"
  by (auto simp: phi_put_forks_sema_def bind_eq_Some_conv dest!: phi_test_state)

definition table_ok :: "(nat \<Rightarrow> phil) \<Rightarrow> bool" where
  "table_ok f \<longleftrightarrow> (\<forall>i < N_phil. (f i = EATING \<longrightarrow> f (RIGHT i) \<noteq> EATING) \<and>
     (f i = HUNGRY \<longrightarrow> f (LEFT i) = EATING \<or> f (RIGHT i) = EATING))"

lemma five: "i < N_phil \<longleftrightarrow> i = 0 \<or> i = 1 \<or> i = 2 \<or> i = 3 \<or> i = 4"
  by (auto simp: N_phil_def)

lemma neighbours [simp]:
  "LEFT 0 = 4" "LEFT 1 = 0" "LEFT (Suc 0) = 0" "LEFT 2 = 1" "LEFT 3 = 2" "LEFT 4 = 3"
  "RIGHT 0 = 1" "RIGHT 1 = 2" "RIGHT (Suc 0) = 2" "RIGHT 2 = 3" "RIGHT 3 = 4" "RIGHT 4 = 0"
  by (simp_all add: LEFT_def RIGHT_def N_phil_def)

lemma all_five: "(\<forall>i < N_phil. P i) \<longleftrightarrow> P 0 \<and> P 1 \<and> P 2 \<and> P 3 \<and> P 4"
  by (auto simp: five)

lemma table_ok_iff:
  "table_ok f \<longleftrightarrow>
     (f 0 = EATING \<longrightarrow> f 1 \<noteq> EATING) \<and> (f 1 = EATING \<longrightarrow> f 2 \<noteq> EATING) \<and>
     (f 2 = EATING \<longrightarrow> f 3 \<noteq> EATING) \<and> (f 3 = EATING \<longrightarrow> f 4 \<noteq> EATING) \<and>
     (f 4 = EATING \<longrightarrow> f 0 \<noteq> EATING) \<and>
     (f 0 = HUNGRY \<longrightarrow> f 4 = EATING \<or> f 1 = EATING) \<and>
     (f 1 = HUNGRY \<longrightarrow> f 0 = EATING \<or> f 2 = EATING) \<and>
     (f 2 = HUNGRY \<longrightarrow> f 1 = EATING \<or> f 3 = EATING) \<and>
     (f 3 = HUNGRY \<longrightarrow> f 2 = EATING \<or> f 4 = EATING) \<and>
     (f 4 = HUNGRY \<longrightarrow> f 3 = EATING \<or> f 0 = EATING)"
  by (simp only: table_ok_def all_five neighbours) argo

lemma take_ok: "table_ok f \<Longrightarrow> i < N_phil \<Longrightarrow> f i = THINKING \<Longrightarrow> table_ok (test_state i (f(i := HUNGRY)))"
  unfolding five table_ok_iff test_state_def
  by (elim disjE; simp split: if_split; metis phil.distinct)

lemma put_ok: "table_ok f \<Longrightarrow> i < N_phil \<Longrightarrow> f i = EATING \<Longrightarrow>
    table_ok (test_state (RIGHT i) (test_state (LEFT i) (f(i := THINKING))))"
  unfolding five table_ok_iff test_state_def
  by (elim disjE; simp split: if_split; metis phil.distinct)

lemma dining_ok: "dining f \<Longrightarrow> table_ok f"
proof (induction rule: dining.induct)
  case sit
  then show ?case by (simp add: table_ok_def)
next
  case (take_forks f i s f' s')
  then show ?case using take_ok phi_take_state by blast
next
  case (put_forks f i s f' s')
  then show ?case using put_ok phi_put_state by blast
qed

subsection \<open>Properties\<close>


lemma mutex_taken: "\<exists>s. sem_sys 5 1 s [9] [1]"
proof -
  have "sem_sys 5 1 (sem_init 5 1 kst0) [] []" by (rule sem_sys.start) simp
  moreover have "down_enter 5 8 WT_KSEM (sem_init 5 1 kst0) =
      Some (True, set_sem 5 0 (sem_init 5 1 kst0))"
    by (simp add: down_enter_def sem_init_def wait_queue_init_def)
  ultimately have "sem_sys 5 1 (set_sem 5 0 (sem_init 5 1 kst0)) [] [1]"
    using sem_sys.acquire [of 5 1 "sem_init 5 1 kst0" "[]" "[]" 1 8]
    by (simp add: sem_init_def wait_queue_init_def)
  moreover have "\<exists>s'. down_enter 5 9 WT_KSEM (set_sem 5 0 (sem_init 5 1 kst0)) = Some (False, s')"
    by (simp add: down_enter_def wait_current_set_def wait_queue_add_def wait_init_def Let_def
        sem_init_def wait_queue_init_def list_init_def list_empty_def)
  ultimately show ?thesis
    using sem_sys.block [of 5 1 "set_sem 5 0 (sem_init 5 1 kst0)" "[]" "[1]" 1 9]
    by (auto simp: sem_init_def wait_queue_init_def)
qed


text \<open>\<open>up\<close> on a semaphore with waiters wakes the one that has waited longest: its process becomes
  runnable, it is off the queue, and its \<open>down\<close> then returns without touching the semaphore.\<close>

theorem up_wakes_first:
  assumes "up i s = Some s'" and "sem_inv i s (w # ws)" and "rq_inv s ps"
  shows "sem_inv i s' ws \<and> sems s' i = 0 \<and> down_end i w s' = Some s' \<and>
    pstate (procs s' (the (wait_proc (waits s w)))) = PROC_RUNNABLE"
  using up_effect [OF assms] by (simp add: down_end_def down_leave_def wait_current_del_def wait_in_queue_def)

definition one_waiter :: kst where
  "one_waiter = kst0\<lparr>
     procs := (\<lambda>_. proc0)(2 := proc0\<lparr>pstate := PROC_SLEEPING, wait_state := WT_KSEM\<rparr>),
     waits := (\<lambda>_. \<lparr>wait_proc = Some 2, wakeup_flags = WT_INTERRUPTED, wait_queue = Some 3\<rparr>),
     klinks := \<lparr>prv = id(WaitHead 3 := WaitLink 9, WaitLink 9 := WaitHead 3),
       nxt = id(WaitHead 3 := WaitLink 9, WaitLink 9 := WaitHead 3)\<rparr>\<rparr>"

theorem up_wakes_first_witness:
  "\<exists>s'. up 3 one_waiter = Some s' \<and> down_end 3 9 s' = Some s' \<and> pstate (procs s' 2) = PROC_RUNNABLE"
proof -
  have inv: "sem_inv 3 one_waiter [9]" "rq_inv one_waiter []"
    using kst0_inv(1)
    by (auto simp: one_waiter_def sem_inv_def dlist_def rq_inv_def linked_def kst0_def sched_init_def RR_init_def)
  have "\<exists>s'. up 3 one_waiter = Some s'"
    by (simp add: one_waiter_def up_def up_flags_def wait_queue_first_def node2wait_def list_op_defs
        wakeup_wait_def wait_queue_del_def wakeup_proc_def Let_def sched_class_enqueue_def
        RR_enqueue_def WT_KSEM_def)
  then obtain s' where s': "up 3 one_waiter = Some s'" by blast
  from up_wakes_first [OF s' inv] s' show ?thesis by (auto simp: one_waiter_def)
qed


lemma fresh_sems: "\<exists>s'. up k s = Some s'" if "wait_queue_first k s = Some None"
  using that by (simp add: up_def up_flags_def)


end
