(* ===== verification/Paging.thy ===== *)
theory Paging
  imports Pmm_Default Printf
begin

text \<open>
  Sv39 page tables and the swap path below them: kern/mm/mmu.h and pmm.h (address arithmetic),
  kern/mm/pmm.c (\<open>get_pte\<close> to \<open>pgdir_alloc_page\<close>), kern/mm/swap_fifo.c, kern/mm/swap.c and
  kern/fs/swap/swapfs.c. Physical memory is the map \<open>frames\<close> from page numbers (indices of the
  array \<open>pages\<close>) to their 512 words; a page directory is named by its frame, a pointer to a page
  table entry by a frame and an index. An access outside the RAM described by \<open>pages\<close>, where the
  code panics or touches no memory, is \<open>None\<close>. The swap device is a map from page-sized slots to
  frames; it holds \<open>max_swap_offset\<close> of them and does not fail (ramdisk).
\<close>

subsection \<open>State\<close>

record mm =
  mmap_cache :: "nat option"
  mm_pgdir :: nat
  map_count :: int
  sm_priv :: bool
  mm_count :: int
  locked_by :: int

record vma =
  vm_mm :: "nat option"
  vm_start :: nat
  vm_end :: nat
  vm_flags :: "32 word"

datatype vnode = MmapHead nat | VmaLink nat
datatype pranode = PraHead | PraLink nat

record vmst =
  pmem :: mem
  frames :: "nat \<Rightarrow> nat \<Rightarrow> 64 word"
  swap_init_ok :: bool
  check_mm_struct :: "nat option"
  pra :: "pranode links"
  disk :: "nat \<Rightarrow> nat \<Rightarrow> 64 word"
  max_swap_offset :: nat
  mms :: "nat \<Rightarrow> mm"
  vmas :: "nat \<Rightarrow> vma"
  vlinks :: "vnode links"
  kmalloc_results :: "nat option list"
  kfreed :: "nat list"
  pgfault_num :: nat

definition PGSIZE :: nat where "PGSIZE = 4096"
definition NPTEENTRY :: nat where "NPTEENTRY = 512"
definition PTSIZE :: nat where "PTSIZE = 4096 * 512"
definition PDSIZE :: nat where "PDSIZE = 4096 * 512 * 512"

definition PTE_V :: "64 word" where "PTE_V = 1"
definition PTE_R :: "64 word" where "PTE_R = 2"
definition PTE_W :: "64 word" where "PTE_W = 4"
definition PTE_X :: "64 word" where "PTE_X = 8"
definition PTE_U :: "64 word" where "PTE_U = 16"
definition PTE_USER :: "64 word" where
  "PTE_USER = or PTE_R (or PTE_W (or PTE_X (or PTE_U PTE_V)))"
definition READ_WRITE :: "64 word" where "READ_WRITE = or PTE_R (or PTE_W PTE_V)"

definition USERTOP :: nat where "USERTOP = 0x80000000"
definition USERBASE :: nat where "USERBASE = 0x00200000"

definition USER_ACCESS :: "nat \<Rightarrow> nat \<Rightarrow> bool" where
  "USER_ACCESS start e \<longleftrightarrow> USERBASE \<le> start \<and> start < e \<and> e \<le> USERTOP"

definition KERN_ACCESS :: "nat \<Rightarrow> nat \<Rightarrow> bool" where
  "KERN_ACCESS start e \<longleftrightarrow>
     0xFFFFFFFFC0200000 \<le> start \<and> start < e \<and> e \<le> 0xFFFFFFFFC0200000 + 0x7E00000"

text \<open>\<open>uintptr_t\<close> arithmetic.\<close>

definition add64 :: "nat \<Rightarrow> nat \<Rightarrow> nat" where
  "add64 a b = (a + b) mod 2 ^ 64"

definition ROUNDDOWN :: "nat \<Rightarrow> nat \<Rightarrow> nat" where
  "ROUNDDOWN a n = a - a mod n"

definition ROUNDUP :: "nat \<Rightarrow> nat \<Rightarrow> nat" where
  "ROUNDUP a n = ROUNDDOWN (add64 a (n - 1)) n"

lemma add64_id [simp]: "a + b < 18446744073709551616 \<Longrightarrow> add64 a b = a + b"
  by (simp add: add64_def)

definition PDX1 :: "nat \<Rightarrow> nat" where "PDX1 la = la div 2 ^ 30 mod 512"
definition PDX0 :: "nat \<Rightarrow> nat" where "PDX0 la = la div 2 ^ 21 mod 512"
definition PTX :: "nat \<Rightarrow> nat" where "PTX la = la div 2 ^ 12 mod 512"

definition nbase :: nat where "nbase = 0x80000"
definition npage :: nat where "npage = 0x88000"

definition page2ppn :: "nat \<Rightarrow> nat" where
  "page2ppn page = page + nbase"

definition pte_create :: "nat \<Rightarrow> 64 word \<Rightarrow> 64 word" where
  "pte_create ppn type = or (push_bit 10 (of_nat ppn)) (or PTE_V type)"

definition PTE_ADDR :: "64 word \<Rightarrow> 64 word" where
  "PTE_ADDR pte = push_bit 2 (and pte (not 0x3FF))"

text \<open>\<open>pa2page\<close> and \<open>KADDR\<close> of the address in an entry: the number of the page.\<close>

definition pa2page :: "64 word \<Rightarrow> nat option" where
  "pa2page pa = (let ppn = unat (drop_bit 12 pa) in
     if ppn \<ge> npage \<or> ppn < nbase then None else Some (ppn - nbase))"

definition pte_valid :: "64 word \<Rightarrow> bool" where
  "pte_valid pte \<longleftrightarrow> and pte PTE_V \<noteq> 0"

definition pte2page :: "64 word \<Rightarrow> nat option" where
  "pte2page pte = (if pte_valid pte then pa2page (PTE_ADDR pte) else None)"

definition pde2page :: "64 word \<Rightarrow> nat option" where
  "pde2page pde = pa2page (PTE_ADDR pde)"

definition set_pte :: "nat \<times> nat \<Rightarrow> 64 word \<Rightarrow> vmst \<Rightarrow> vmst" where
  "set_pte slot v s =
     s\<lparr>frames := (frames s)(fst slot := (frames s (fst slot))(snd slot := v))\<rparr>"

definition get_entry :: "nat \<times> nat \<Rightarrow> vmst \<Rightarrow> 64 word" where
  "get_entry slot s = frames s (fst slot) (snd slot)"

definition upd_pmem :: "(mem \<Rightarrow> mem) \<Rightarrow> vmst \<Rightarrow> vmst" where
  "upd_pmem f s = s\<lparr>pmem := f (pmem s)\<rparr>"

definition set_ref :: "nat \<Rightarrow> int \<Rightarrow> vmst \<Rightarrow> vmst" where
  "set_ref p v = upd_pmem (set_page_ref p v)"

definition set_pra_vaddr :: "nat \<Rightarrow> nat \<Rightarrow> vmst \<Rightarrow> vmst" where
  "set_pra_vaddr p v = upd_pmem (upd_page p (\<lambda>d. d\<lparr>pra_vaddr := v\<rparr>))"

subsection \<open>Walking the page table\<close>

text \<open>\<open>get_pte(pgdir, la, 0)\<close>: the slot of the entry; the inner option is \<open>NULL\<close>.\<close>

definition find_pte :: "nat \<Rightarrow> nat \<Rightarrow> vmst \<Rightarrow> (nat \<times> nat) option option" where
  "find_pte pgdir la s =
     (let pde1 = get_entry (pgdir, PDX1 la) s in
      if \<not> pte_valid pde1 then Some None
      else do {
        f1 \<leftarrow> pa2page (PTE_ADDR pde1);
        let pde0 = get_entry (f1, PDX0 la) s;
        if \<not> pte_valid pde0 then Some None
        else do {
          f0 \<leftarrow> pa2page (PTE_ADDR pde0);
          Some (Some (f0, PTX la))
        }
      })"

subsection \<open>Pages and the swap device\<close>

definition free_pages :: "nat \<Rightarrow> nat \<Rightarrow> vmst \<Rightarrow> vmst option" where
  "free_pages base n s = do { m \<leftarrow> default_free_pages base n (pmem s); Some (s\<lparr>pmem := m\<rparr>) }"

definition nr_free_pages :: "vmst \<Rightarrow> nat" where
  "nr_free_pages s = default_nr_free_pages (pmem s)"

definition fifo_init_mm :: "nat \<Rightarrow> vmst \<Rightarrow> vmst" where
  "fifo_init_mm m s =
     s\<lparr>pra := list_init PraHead (pra s), mms := (mms s)(m := (mms s m)\<lparr>sm_priv := True\<rparr>)\<rparr>"

definition fifo_map_swappable :: "nat \<Rightarrow> nat \<Rightarrow> nat \<Rightarrow> vmst \<Rightarrow> (int \<times> vmst) option" where
  "fifo_map_swappable m addr page s = do {
     kassert (sm_priv (mms s m));
     Some (0, s\<lparr>pra := list_add_before PraHead (PraLink page) (pra s)\<rparr>)
   }"

text \<open>The victim is \<open>le2page\<close> of the first node, with an empty queue that of the head itself.\<close>

definition fifo_swap_out_victim :: "nat \<Rightarrow> bool \<Rightarrow> vmst \<Rightarrow> (int \<times> pranode \<times> vmst) option" where
  "fifo_swap_out_victim m in_tick s = do {
     kassert (sm_priv (mms s m));
     kassert (\<not> in_tick);
     let entry = list_next PraHead (pra s);
     Some (0, entry, s\<lparr>pra := list_del entry (pra s)\<rparr>)
   }"

fun pra2page :: "pranode \<Rightarrow> nat option" where
  "pra2page (PraLink p) = Some p" | "pra2page PraHead = None"

definition swap_map_swappable :: "nat \<Rightarrow> nat \<Rightarrow> nat \<Rightarrow> vmst \<Rightarrow> (int \<times> vmst) option" where
  "swap_map_swappable m addr page s = fifo_map_swappable m addr page s"

definition swap_offset :: "nat \<Rightarrow> vmst \<Rightarrow> nat option" where
  "swap_offset entry s =
     (let off = entry div 2 ^ 8 in if off > 0 \<and> off < max_swap_offset s then Some off else None)"

definition swapfs_read :: "nat \<Rightarrow> nat \<Rightarrow> vmst \<Rightarrow> (int \<times> vmst) option" where
  "swapfs_read entry page s = do {
     off \<leftarrow> swap_offset entry s;
     Some (0, s\<lparr>frames := (frames s)(page := disk s off)\<rparr>)
   }"

definition swapfs_write :: "nat \<Rightarrow> nat \<Rightarrow> vmst \<Rightarrow> (int \<times> vmst) option" where
  "swapfs_write entry page s = do {
     off \<leftarrow> swap_offset entry s;
     Some (0, s\<lparr>disk := (disk s)(off := frames s page)\<rparr>)
   }"

text \<open>The swap entry a victim's page table entry gets.\<close>

definition swap_entry :: "nat \<Rightarrow> nat" where
  "swap_entry v = (v div PGSIZE + 1) * 2 ^ 8"

text \<open>One round of the loop of \<open>swap_out\<close>; \<open>False\<close> when \<open>swap_out_victim\<close> fails and the loop ends.\<close>

definition swap_out_one :: "nat \<Rightarrow> bool \<Rightarrow> vmst \<Rightarrow> (bool \<times> vmst) option" where
  "swap_out_one m in_tick s = do {
     (r, victim, s) \<leftarrow> fifo_swap_out_victim m in_tick s;
     if r \<noteq> 0 then Some (False, s)
     else do {
       page \<leftarrow> pra2page victim;
       let v = pra_vaddr (pages (pmem s) page);
       slot \<leftarrow> find_pte (mm_pgdir (mms s m)) v s;
       slot \<leftarrow> slot;
       kassert (pte_valid (get_entry slot s));
       (w, s) \<leftarrow> swapfs_write (swap_entry v) page s;
       if w \<noteq> 0 then do {
         (_, s) \<leftarrow> fifo_map_swappable m v page s;
         Some (True, s)
       }
       else do {
         s \<leftarrow> free_pages page 1 (set_pte slot (of_nat (swap_entry v)) s);
         Some (True, s)
       }
     }
   }"

text \<open>The result counts the rounds done; the first argument is \<open>n - i\<close>.\<close>

fun swap_out_loop :: "nat \<Rightarrow> nat \<Rightarrow> bool \<Rightarrow> vmst \<Rightarrow> (nat \<times> vmst) option" where
  "swap_out_loop 0 m in_tick s = Some (0, s)"
| "swap_out_loop (Suc k) m in_tick s = do {
     (go, s) \<leftarrow> swap_out_one m in_tick s;
     if \<not> go then Some (0, s)
     else do { (i, s) \<leftarrow> swap_out_loop k m in_tick s; Some (i + 1, s) }
   }"

definition swap_out :: "nat \<Rightarrow> nat \<Rightarrow> bool \<Rightarrow> vmst \<Rightarrow> (nat \<times> vmst) option" where
  "swap_out m n in_tick s = swap_out_loop n m in_tick s"

text \<open>\<open>alloc_pages\<close>: a single page that is not available is made so by swapping one out.\<close>

partial_function (option) alloc_pages :: "nat \<Rightarrow> vmst \<Rightarrow> (nat option \<times> vmst) option" where
  "alloc_pages n s = do {
     (page, m) \<leftarrow> default_alloc_pages n (pmem s);
     let s = s\<lparr>pmem := m\<rparr>;
     if page \<noteq> None \<or> n > 1 \<or> \<not> swap_init_ok s then Some (page, s)
     else do {
       mm \<leftarrow> check_mm_struct s;
       r \<leftarrow> swap_out mm n False s;
       alloc_pages n (snd r)
     }
   }"

declare alloc_pages.simps [code]

definition swap_in :: "nat \<Rightarrow> nat \<Rightarrow> vmst \<Rightarrow> (nat \<times> vmst) option" where
  "swap_in m addr s = do {
     (result, s) \<leftarrow> alloc_pages 1 s;
     page \<leftarrow> result;
     slot \<leftarrow> find_pte (mm_pgdir (mms s m)) addr s;
     slot \<leftarrow> slot;
     (_, s) \<leftarrow> swapfs_read (unat (get_entry slot s)) page s;
     Some (page, s)
   }"

subsection \<open>Changing the page table\<close>

text \<open>One level of \<open>get_pte\<close>: the table below the entry, allocated and zeroed when missing.\<close>

definition ensure_table :: "nat \<times> nat \<Rightarrow> bool \<Rightarrow> vmst \<Rightarrow> (bool \<times> vmst) option" where
  "ensure_table slot create s =
     (if pte_valid (get_entry slot s) then Some (True, s)
      else if \<not> create then Some (False, s)
      else do {
        (page, s) \<leftarrow> alloc_pages 1 s;
        (case page of
           None \<Rightarrow> Some (False, s)
         | Some page \<Rightarrow> do {
             let s = set_ref page 1 s;
             let s = s\<lparr>frames := (frames s)(page := (\<lambda>_. 0))\<rparr>;
             Some (True, set_pte slot (pte_create (page2ppn page) (or PTE_U PTE_V)) s)
           })
      })"

definition get_pte :: "nat \<Rightarrow> nat \<Rightarrow> bool \<Rightarrow> vmst \<Rightarrow> ((nat \<times> nat) option \<times> vmst) option" where
  "get_pte pgdir la create s = do {
     (ok, s) \<leftarrow> ensure_table (pgdir, PDX1 la) create s;
     if \<not> ok then Some (None, s)
     else do {
       f1 \<leftarrow> pa2page (PTE_ADDR (get_entry (pgdir, PDX1 la) s));
       (ok, s) \<leftarrow> ensure_table (f1, PDX0 la) create s;
       if \<not> ok then Some (None, s)
       else do {
         f0 \<leftarrow> pa2page (PTE_ADDR (get_entry (f1, PDX0 la) s));
         Some (Some (f0, PTX la), s)
       }
     }
   }"

definition get_page :: "nat \<Rightarrow> nat \<Rightarrow> vmst \<Rightarrow> nat option option" where
  "get_page pgdir la s = do {
     (slot, s) \<leftarrow> get_pte pgdir la False s;
     (case slot of
        None \<Rightarrow> Some None
      | Some slot \<Rightarrow>
          if pte_valid (get_entry slot s)
          then do { p \<leftarrow> pte2page (get_entry slot s); Some (Some p) } else Some None)
   }"

definition page_remove_pte :: "nat \<times> nat \<Rightarrow> vmst \<Rightarrow> vmst option" where
  "page_remove_pte slot s =
     (if pte_valid (get_entry slot s) then do {
        page \<leftarrow> pte2page (get_entry slot s);
        let s = set_ref page (page_ref page (pmem s) - 1) s;
        s \<leftarrow> (if page_ref page (pmem s) = 0 then free_pages page 1 s else Some s);
        Some (set_pte slot 0 s)
      }
      else Some s)"

definition page_remove :: "nat \<Rightarrow> nat \<Rightarrow> vmst \<Rightarrow> vmst option" where
  "page_remove pgdir la s = do {
     (slot, s) \<leftarrow> get_pte pgdir la False s;
     (case slot of None \<Rightarrow> Some s | Some slot \<Rightarrow> page_remove_pte slot s)
   }"

definition page_insert :: "nat \<Rightarrow> nat \<Rightarrow> nat \<Rightarrow> 64 word \<Rightarrow> vmst \<Rightarrow> (int \<times> vmst) option" where
  "page_insert pgdir page la perm s = do {
     (slot, s) \<leftarrow> get_pte pgdir la True s;
     (case slot of
        None \<Rightarrow> Some (- E_NO_MEM, s)
      | Some slot \<Rightarrow> do {
          let s = set_ref page (page_ref page (pmem s) + 1) s;
          s \<leftarrow> (if pte_valid (get_entry slot s) then do {
                 p \<leftarrow> pte2page (get_entry slot s);
                 if p = page then Some (set_ref page (page_ref page (pmem s) - 1) s)
                 else page_remove_pte slot s
               } else Some s);
          Some (0, set_pte slot (pte_create (page2ppn page) (or PTE_V perm)) s)
        })
   }"

definition pgdir_alloc_page :: "nat \<Rightarrow> nat \<Rightarrow> 64 word \<Rightarrow> vmst \<Rightarrow> (nat option \<times> vmst) option" where
  "pgdir_alloc_page pgdir la perm s = do {
     (page, s) \<leftarrow> alloc_pages 1 s;
     (case page of
        None \<Rightarrow> Some (None, s)
      | Some page \<Rightarrow> do {
          (r, s) \<leftarrow> page_insert pgdir page la perm s;
          if r \<noteq> 0 then do { s \<leftarrow> free_pages page 1 s; Some (None, s) }
          else if swap_init_ok s \<and> check_mm_struct s \<noteq> None then do {
            m \<leftarrow> check_mm_struct s;
            (_, s) \<leftarrow> swap_map_swappable m la page s;
            let s = set_pra_vaddr page la s;
            kassert (page_ref page (pmem s) = 1);
            Some (Some page, s)
          }
          else Some (Some page, s)
        })
   }"

subsection \<open>Unmapping and freeing the tables of a range\<close>

partial_function (option) unmap_loop :: "nat \<Rightarrow> nat \<Rightarrow> nat \<Rightarrow> vmst \<Rightarrow> vmst option" where
  "unmap_loop pgdir start e s = do {
     slot \<leftarrow> find_pte pgdir start s;
     r \<leftarrow> (case slot of
            None \<Rightarrow> Some (ROUNDDOWN (add64 start PTSIZE) PTSIZE, s)
          | Some slot \<Rightarrow> do {
              s \<leftarrow> (if get_entry slot s \<noteq> 0 then page_remove_pte slot s else Some s);
              Some (add64 start PGSIZE, s)
            });
     if fst r \<noteq> 0 \<and> fst r < e then unmap_loop pgdir (fst r) e (snd r) else Some (snd r)
   }"

declare unmap_loop.simps [code]

definition unmap_range :: "nat \<Rightarrow> nat \<Rightarrow> nat \<Rightarrow> vmst \<Rightarrow> vmst option" where
  "unmap_range pgdir start e s = do {
     kassert (start mod PGSIZE = 0 \<and> e mod PGSIZE = 0);
     kassert (USER_ACCESS start e);
     unmap_loop pgdir start e s
   }"

text \<open>One entry of a level 0 directory in \<open>exit_range\<close>: the new \<open>free_pd0\<close>.\<close>

definition exit_pde0 :: "nat \<Rightarrow> nat \<Rightarrow> bool \<Rightarrow> vmst \<Rightarrow> (bool \<times> vmst) option" where
  "exit_pde0 pd0 d0 free_pd0 s =
     (let pde0 = get_entry (pd0, PDX0 d0) s in
      if pte_valid pde0 then do {
        pt \<leftarrow> pde2page pde0;
        if list_all (\<lambda>i. \<not> pte_valid (get_entry (pt, i) s)) [0 ..< NPTEENTRY] then do {
          s \<leftarrow> free_pages pt 1 s;
          Some (free_pd0, set_pte (pd0, PDX0 d0) 0 s)
        }
        else Some (free_pd0, s)
      }
      else Some (False, s))"

partial_function (option) exit_pd0_loop ::
    "nat \<Rightarrow> nat \<Rightarrow> nat \<Rightarrow> nat \<Rightarrow> bool \<Rightarrow> vmst \<Rightarrow> (bool \<times> vmst) option" where
  "exit_pd0_loop pd0 d0 d1 e free_pd0 s = do {
     r \<leftarrow> exit_pde0 pd0 d0 free_pd0 s;
     let d0 = add64 d0 PTSIZE;
     if d0 \<noteq> 0 \<and> d0 < add64 d1 PDSIZE \<and> d0 < e
     then exit_pd0_loop pd0 d0 d1 e (fst r) (snd r) else Some r
   }"

partial_function (option) exit_pd1_loop :: "nat \<Rightarrow> nat \<Rightarrow> nat \<Rightarrow> nat \<Rightarrow> vmst \<Rightarrow> vmst option" where
  "exit_pd1_loop pgdir d0 d1 e s = do {
     let pde1 = get_entry (pgdir, PDX1 d1) s;
     s \<leftarrow> (if pte_valid pde1 then do {
            pd0 \<leftarrow> pde2page pde1;
            (free_pd0, s) \<leftarrow> exit_pd0_loop pd0 d0 d1 e True s;
            if free_pd0 then do {
              s \<leftarrow> free_pages pd0 1 s;
              Some (set_pte (pgdir, PDX1 d1) 0 s)
            } else Some s
          } else Some s);
     let d1 = add64 d1 PDSIZE;
     if d1 \<noteq> 0 \<and> d1 < e then exit_pd1_loop pgdir d1 d1 e s else Some s
   }"

declare exit_pd0_loop.simps [code] exit_pd1_loop.simps [code]

definition exit_range :: "nat \<Rightarrow> nat \<Rightarrow> nat \<Rightarrow> vmst \<Rightarrow> vmst option" where
  "exit_range pgdir start e s = do {
     kassert (start mod PGSIZE = 0 \<and> e mod PGSIZE = 0);
     kassert (USER_ACCESS start e);
     exit_pd1_loop pgdir (ROUNDDOWN start PTSIZE) (ROUNDDOWN start PDSIZE) e s
   }"

text \<open>\<open>copy_range\<close>: the body that copies and maps the page is left empty in the repository, so the
  page allocated for the copy is neither filled nor mapped.\<close>

partial_function (option) copy_loop :: "nat \<Rightarrow> nat \<Rightarrow> nat \<Rightarrow> nat \<Rightarrow> vmst \<Rightarrow> (int \<times> vmst) option" where
  "copy_loop to fr start e s = do {
     slot \<leftarrow> find_pte fr start s;
     r \<leftarrow> (case slot of
            None \<Rightarrow> Some (True, ROUNDDOWN (add64 start PTSIZE) PTSIZE, s)
          | Some slot \<Rightarrow>
              if pte_valid (get_entry slot s) then do {
                (nslot, s) \<leftarrow> get_pte to start True s;
                (case nslot of
                   None \<Rightarrow> Some (False, start, s)
                 | Some _ \<Rightarrow> do {
                     page \<leftarrow> pte2page (get_entry slot s);
                     (np, s) \<leftarrow> alloc_pages 1 s;
                     kassert (np \<noteq> None);
                     Some (True, add64 start PGSIZE, s)
                   })
              }
              else Some (True, add64 start PGSIZE, s));
     if \<not> fst r then Some (- E_NO_MEM, snd (snd r))
     else if fst (snd r) \<noteq> 0 \<and> fst (snd r) < e then copy_loop to fr (fst (snd r)) e (snd (snd r))
     else Some (0, snd (snd r))
   }"

declare copy_loop.simps [code]

definition copy_range :: "nat \<Rightarrow> nat \<Rightarrow> nat \<Rightarrow> nat \<Rightarrow> vmst \<Rightarrow> (int \<times> vmst) option" where
  "copy_range to fr start e s = do {
     kassert (start mod PGSIZE = 0 \<and> e mod PGSIZE = 0);
     kassert (USER_ACCESS start e);
     copy_loop to fr start e s
   }"

text \<open>\<open>get_pgtable_items\<close>: the permissions of the next run of valid entries, and its bounds.\<close>

fun skip_invalid :: "nat \<Rightarrow> nat \<Rightarrow> (nat \<Rightarrow> 64 word) \<Rightarrow> nat" where
  "skip_invalid 0 start table = start"
| "skip_invalid (Suc k) start table =
     (if \<not> pte_valid (table start) then skip_invalid k (start + 1) table else start)"

fun same_perm :: "nat \<Rightarrow> nat \<Rightarrow> 64 word \<Rightarrow> (nat \<Rightarrow> 64 word) \<Rightarrow> nat" where
  "same_perm 0 start perm table = start"
| "same_perm (Suc k) start perm table =
     (if and (table start) PTE_USER = perm then same_perm k (start + 1) perm table else start)"

definition get_pgtable_items :: "nat \<Rightarrow> nat \<Rightarrow> (nat \<Rightarrow> 64 word) \<Rightarrow> 64 word \<times> (nat \<times> nat) option" where
  "get_pgtable_items right start table =
     (if start \<ge> right then (0, None)
      else let start = skip_invalid (right - start) start table in
      if start < right then
        let perm = and (table start) PTE_USER;
            e = same_perm (right - (start + 1)) (start + 1) perm table
        in (perm, Some (start, e))
      else (0, None))"

text \<open>\<open>boot_map_segment\<close>; \<open>k\<close> pages to go.\<close>

fun boot_map_loop :: "nat \<Rightarrow> nat \<Rightarrow> nat \<Rightarrow> nat \<Rightarrow> 64 word \<Rightarrow> vmst \<Rightarrow> vmst option" where
  "boot_map_loop pgdir 0 la pa perm s = Some s"
| "boot_map_loop pgdir (Suc k) la pa perm s = do {
     (slot, s) \<leftarrow> get_pte pgdir la True s;
     slot \<leftarrow> slot;
     boot_map_loop pgdir k (add64 la PGSIZE) (add64 pa PGSIZE) perm
       (set_pte slot (pte_create (pa div 2 ^ 12) (or PTE_V perm)) s)
   }"

definition boot_map_segment :: "nat \<Rightarrow> nat \<Rightarrow> nat \<Rightarrow> nat \<Rightarrow> 64 word \<Rightarrow> vmst \<Rightarrow> vmst option" where
  "boot_map_segment pgdir la sz pa perm s = do {
     kassert (la mod PGSIZE = pa mod PGSIZE);
     let n = ROUNDUP (add64 sz (la mod PGSIZE)) PGSIZE div PGSIZE;
     boot_map_loop pgdir n (ROUNDDOWN la PGSIZE) (ROUNDDOWN pa PGSIZE) perm s
   }"

definition boot_alloc_page :: "vmst \<Rightarrow> (nat \<times> vmst) option" where
  "boot_alloc_page s = do { (p, s) \<leftarrow> alloc_pages 1 s; p \<leftarrow> p; Some (p, s) }"

end
