(* ===== verification/Page_Tables.thy ===== *)
theory Page_Tables
  imports Paging
begin

text \<open>
  What the operations of theory Paging do: entries and the pages they name, mapping and unmapping,
  the FIFO queue of swappable pages and the way of a page's contents to the swap device and back,
  and the release of page tables by \<open>exit_range\<close>.
\<close>

subsection \<open>Entries\<close>

lemma pte_valid_iff [simp]: "pte_valid pte \<longleftrightarrow> bit pte 0"
  by (simp add: pte_valid_def PTE_V_def and_one_eq bit_0 odd_iff_mod_2_eq_one)

lemma pte_create_valid [simp]: "pte_valid (pte_create ppn t)"
  by (simp add: pte_create_def PTE_V_def bit_or_iff)

lemma bit_small: "(t :: 64 word) < 1024 \<Longrightarrow> bit t i \<Longrightarrow> i < 10"
proof (rule ccontr)
  assume t: "t < 1024" "bit t i" "\<not> i < 10"
  have "take_bit 10 t = t"
    using t(1) by (simp add: take_bit_eq_mod mod_word_less)
  then show False using t by (metis bit_take_bit_iff)
qed

lemma PTE_ADDR_create:
  assumes "t < 1024"
  shows "drop_bit 12 (PTE_ADDR (pte_create n t)) = take_bit 52 (of_nat n)"
proof (rule bit_eqI)
  fix i
  have m: "(0x3FF :: 64 word) = mask 10" by (simp add: mask_eq_exp_minus_1)
  have t: "\<not> bit t (i + 10)" using bit_small [OF assms, of "i + 10"] by auto
  have four: "\<not> bit (4 :: 64 word) (i + 12)"
    using bit_exp_iff [of 2 "i + 12", where 'a = "64 word"] by simp
  show "bit (drop_bit 12 (PTE_ADDR (pte_create n t))) i = bit (take_bit 52 (of_nat n :: 64 word)) i"
    using t four
    by (auto simp: PTE_ADDR_def pte_create_def PTE_V_def m bit_simps ac_simps dest: bit_imp_le_length)
qed

lemma pa2page_create:
  assumes "t < 1024" and "p < npage - nbase"
  shows "pa2page (PTE_ADDR (pte_create (page2ppn p) t)) = Some p"
proof -
  have "page2ppn p < 2 ^ 52" using assms(2) by (simp add: page2ppn_def npage_def nbase_def)
  then have "take_bit 52 (of_nat (page2ppn p) :: 64 word) = of_nat (page2ppn p)"
    by (simp add: take_bit_of_nat take_bit_nat_eq_self)
  moreover have "unat (of_nat (page2ppn p) :: 64 word) = page2ppn p"
    using \<open>page2ppn p < 2 ^ 52\<close> by (simp add: unsigned_of_nat take_bit_nat_eq_self)
  ultimately show ?thesis
    using assms by (simp add: pa2page_def PTE_ADDR_create Let_def page2ppn_def npage_def nbase_def)
qed

lemma pte2page_create:
  "t < 1024 \<Longrightarrow> p < npage - nbase \<Longrightarrow> pte2page (pte_create (page2ppn p) t) = Some p"
  by (simp add: pte2page_def pa2page_create del: pte_valid_iff)

subsection \<open>The walk\<close>

lemma upd_pmem_simps [simp]:
  "frames (upd_pmem f s) = frames s" "pmem (upd_pmem f s) = f (pmem s)" "disk (upd_pmem f s) = disk s"
  "mms (upd_pmem f s) = mms s" "pra (upd_pmem f s) = pra s" "swap_init_ok (upd_pmem f s) = swap_init_ok s"
  "check_mm_struct (upd_pmem f s) = check_mm_struct s"
  "max_swap_offset (upd_pmem f s) = max_swap_offset s"
  by (simp_all add: upd_pmem_def)

lemma set_pte_simps [simp]:
  "pmem (set_pte slot v s) = pmem s" "disk (set_pte slot v s) = disk s" "mms (set_pte slot v s) = mms s"
  "pra (set_pte slot v s) = pra s" "swap_init_ok (set_pte slot v s) = swap_init_ok s"
  "check_mm_struct (set_pte slot v s) = check_mm_struct s"
  "max_swap_offset (set_pte slot v s) = max_swap_offset s"
  "get_entry slot' (set_pte slot v s) = (if slot' = slot then v else get_entry slot' s)"
  "frames (set_pte slot v s) f = (if f = fst slot then (frames s f)(snd slot := v) else frames s f)"
  by (auto simp: set_pte_def get_entry_def prod_eq_iff)

lemma get_entry_simps [simp]:
  "get_entry slot (upd_pmem f s) = get_entry slot s"
  "get_entry slot (s\<lparr>pmem := m\<rparr>) = get_entry slot s"
  "get_entry slot (s\<lparr>disk := d\<rparr>) = get_entry slot s"
  "get_entry slot (s\<lparr>pra := h\<rparr>) = get_entry slot s"
  by (simp_all add: get_entry_def)

lemma get_pte_find:
  "get_pte pgdir la False s = (case find_pte pgdir la s of None \<Rightarrow> None | Some r \<Rightarrow> Some (r, s))"
  by (cases "pa2page (PTE_ADDR (get_entry (pgdir, PDX1 la) s))";
      cases "pa2page (PTE_ADDR (get_entry (the (pa2page (PTE_ADDR (get_entry (pgdir, PDX1 la) s))), PDX0 la) s))")
    (simp_all add: get_pte_def find_pte_def ensure_table_def Let_def del: pte_valid_iff)

text \<open>A mapped page is found where no table on the path is also the table of the last level.\<close>

definition path :: "nat \<Rightarrow> nat \<Rightarrow> nat \<Rightarrow> nat \<Rightarrow> vmst \<Rightarrow> bool" where
  "path pgdir f1 f0 la s \<longleftrightarrow>
     pte_valid (get_entry (pgdir, PDX1 la) s) \<and>
     pa2page (PTE_ADDR (get_entry (pgdir, PDX1 la) s)) = Some f1 \<and>
     pte_valid (get_entry (f1, PDX0 la) s) \<and>
     pa2page (PTE_ADDR (get_entry (f1, PDX0 la) s)) = Some f0 \<and> f0 \<noteq> pgdir \<and> f0 \<noteq> f1"

lemma path_find: "path pgdir f1 f0 la s \<Longrightarrow> find_pte pgdir la s = Some (Some (f0, PTX la))"
  by (simp add: path_def find_pte_def Let_def del: pte_valid_iff)

lemma path_get_pte: "path pgdir f1 f0 la s \<Longrightarrow> get_pte pgdir la create s = Some (Some (f0, PTX la), s)"
  by (simp add: path_def get_pte_def ensure_table_def del: pte_valid_iff)

lemma path_set_pte: "path pgdir f1 f0 la s \<Longrightarrow> fst slot = f0 \<Longrightarrow> path pgdir f1 f0 la (set_pte slot v s)"
  by (auto simp: path_def prod_eq_iff simp del: pte_valid_iff)

lemma path_frames: "frames s' = frames s \<Longrightarrow> path pgdir f1 f0 la s' \<longleftrightarrow> path pgdir f1 f0 la s"
  by (simp add: path_def get_entry_def)

lemma free_pages_frames: "free_pages b n s = Some s' \<Longrightarrow> frames s' = frames s"
  by (auto simp: free_pages_def bind_eq_Some_conv)

lemma page_ref_set_ref [simp]: "page_ref q (pmem (set_ref p v s)) = (if q = p then v else page_ref q (pmem s))"
  by (simp add: set_ref_def)

lemma set_ref_simps [simp]:
  "frames (set_ref p v s) = frames s" "get_entry slot (set_ref p v s) = get_entry slot s"
  by (simp_all add: set_ref_def)

lemma set_pte_frames: "frames s' = frames s \<Longrightarrow> frames (set_pte slot v s') = frames (set_pte slot v s)"
  by (simp add: fun_eq_iff)

lemma page_remove_pte_frames:
  assumes "page_remove_pte slot s = Some s'" and "pte_valid (get_entry slot s)"
  shows "frames s' = frames (set_pte slot 0 s)"
proof -
  obtain page where page: "pte2page (get_entry slot s) = Some page"
    using assms by (auto simp: page_remove_pte_def bind_eq_Some_conv simp del: pte_valid_iff)
  define s1 where "s1 = set_ref page (page_ref page (pmem s) - 1) s"
  obtain s2 where s2: "(if page_ref page (pmem s1) = 0 then free_pages page 1 s1 else Some s1) = Some s2"
    "s' = set_pte slot 0 s2"
    using assms page unfolding page_remove_pte_def s1_def
    by (auto simp: bind_eq_Some_conv Let_def simp del: pte_valid_iff)
  have "frames s2 = frames s"
    using s2(1) by (auto simp: s1_def split: if_splits dest: free_pages_frames)
  then show ?thesis unfolding s2(2) by (rule set_pte_frames)
qed

lemma page_insert_frames:
  assumes "path pgdir f1 f0 la s" and "page_insert pgdir page la perm s = Some (r, s')"
  shows "r = 0 \<and> frames s' = frames (set_pte (f0, PTX la) (pte_create (page2ppn page) (or PTE_V perm)) s)"
proof -
  define s1 where "s1 = set_ref page (page_ref page (pmem s) + 1) s"
  define slot where "slot = (f0, PTX la)"
  define v where "v = pte_create (page2ppn page) (or PTE_V perm)"
  have "get_pte pgdir la True s = Some (Some slot, s)"
    using path_get_pte [OF assms(1)] by (simp add: slot_def)
  then obtain s2 where s2: "(if pte_valid (get_entry slot s1) then do {
          p \<leftarrow> pte2page (get_entry slot s1);
          if p = page then Some (set_ref page (page_ref page (pmem s1) - 1) s1)
          else page_remove_pte slot s1
        } else Some s1) = Some s2" and r: "r = 0" "s' = set_pte slot v s2"
    using assms(2) unfolding page_insert_def s1_def v_def
    by (auto simp: bind_eq_Some_conv Let_def simp del: pte_valid_iff)
  have "frames s2 = frames s1 \<or> frames s2 = frames (set_pte slot 0 s1)"
    using s2 page_remove_pte_frames [of slot s1 s2]
    by (auto simp: bind_eq_Some_conv split: if_splits simp del: pte_valid_iff)
  then have "frames (set_pte slot v s2) = frames (set_pte slot v s)"
    by (auto simp: set_pte_def s1_def fun_eq_iff)
  with r show ?thesis by (simp add: slot_def v_def)
qed

subsection \<open>Freeing page tables\<close>

lemma exit_pde0_False: "exit_pde0 pd0 d0 False s = Some (fl, s') \<Longrightarrow> \<not> fl"
  by (auto simp: exit_pde0_def Let_def bind_eq_Some_conv split: if_splits simp del: pte_valid_iff)

lemma exit_pd0_loop_empty:
  assumes "\<forall>j < 512. \<not> pte_valid (get_entry (pd0, j) s)" and "d0 < e" and "e \<le> 2 ^ 32"
  shows "exit_pd0_loop pd0 d0 d1 e fl s = Some (False, s)"
  using assms(2)
proof (induction "e - d0" arbitrary: d0 fl rule: less_induct)
  case less
  have "\<not> pte_valid (get_entry (pd0, PDX0 d0) s)"
    using assms(1) by (simp add: PDX0_def del: pte_valid_iff)
  then have step: "exit_pde0 pd0 d0 fl s = Some (False, s)"
    by (simp add: exit_pde0_def del: pte_valid_iff)
  have add: "add64 d0 PTSIZE = d0 + PTSIZE" using less.prems assms(3) by (simp add: PTSIZE_def)
  have "exit_pd0_loop pd0 (d0 + PTSIZE) d1 e False s = Some (False, s)" if "d0 + PTSIZE < e"
    by (rule less.hyps) (use that in \<open>simp_all add: PTSIZE_def\<close>)
  then show ?case
    by (subst exit_pd0_loop.simps) (simp add: step add Let_def)
qed

lemma exit_pd0_loop_single:
  assumes "d0 + PTSIZE \<ge> e" and "d0 < 2 ^ 63"
  shows "exit_pd0_loop pd0 d0 d1 e True s = exit_pde0 pd0 d0 True s"
proof -
  have "add64 d0 PTSIZE = d0 + PTSIZE" using assms(2) by (simp add: PTSIZE_def)
  then show ?thesis
    using assms(1) by (subst exit_pd0_loop.simps) (cases "exit_pde0 pd0 d0 True s"; simp add: Let_def)
qed

lemma exit_pd1_loop_single:
  assumes "d1 + PDSIZE \<ge> e" and "d1 < 2 ^ 62"
  shows "exit_pd1_loop pgdir d0 d1 e s =
    (let pde1 = get_entry (pgdir, PDX1 d1) s in
      if pte_valid pde1 then do {
        pd0 \<leftarrow> pde2page pde1;
        (free_pd0, s) \<leftarrow> exit_pd0_loop pd0 d0 d1 e True s;
        if free_pd0 then do {
          s \<leftarrow> free_pages pd0 1 s;
          Some (set_pte (pgdir, PDX1 d1) 0 s)
        } else Some s
      } else Some s)" (is "_ = ?r")
proof -
  have add: "add64 d1 PDSIZE = d1 + PDSIZE" using assms(2) by (simp add: PDSIZE_def)
  have "Option.bind ?r (\<lambda>s. if d1 + PDSIZE \<noteq> 0 \<and> d1 + PDSIZE < e
      then exit_pd1_loop pgdir (d1 + PDSIZE) (d1 + PDSIZE) e s else Some s) = ?r"
    using assms(1) by (cases ?r) simp_all
  then show ?thesis
    by (subst exit_pd1_loop.simps) (simp add: Let_def add del: pte_valid_iff)
qed

subsection \<open>The queue of swappable pages\<close>

text \<open>The contract of a first-in first-out \<open>struct swap_manager\<close>.\<close>

locale fifo_manager =
  fixes holds :: "'s \<Rightarrow> nat list \<Rightarrow> bool"
    and insert_page :: "nat \<Rightarrow> 's \<Rightarrow> 's option"
    and victim :: "'s \<Rightarrow> (nat option \<times> 's) option"
  assumes insert_law: "holds s ps \<Longrightarrow> p \<notin> set ps \<Longrightarrow> \<exists>s'. insert_page p s = Some s' \<and> holds s' (ps @ [p])"
    and victim_law: "holds s (p # ps) \<Longrightarrow> \<exists>s'. victim s = Some (Some p, s') \<and> holds s' ps"
begin

fun insert_pages :: "nat list \<Rightarrow> 's \<Rightarrow> 's option" where
  "insert_pages [] s = Some s"
| "insert_pages (p # ps) s = do { s \<leftarrow> insert_page p s; insert_pages ps s }"

fun victims :: "nat \<Rightarrow> 's \<Rightarrow> nat option list option" where
  "victims 0 s = Some []"
| "victims (Suc n) s = do { (p, s) \<leftarrow> victim s; ps \<leftarrow> victims n s; Some (p # ps) }"

lemma insert_pages_holds:
  "holds s ps \<Longrightarrow> distinct (ps @ qs) \<Longrightarrow> \<exists>s'. insert_pages qs s = Some s' \<and> holds s' (ps @ qs)"
proof (induction qs arbitrary: s ps)
  case (Cons q qs)
  then obtain s1 where s1: "insert_page q s = Some s1" "holds s1 (ps @ [q])"
    using insert_law [of s ps q] by auto
  moreover have "distinct ((ps @ [q]) @ qs)" using Cons.prems by auto
  ultimately show ?case using Cons.IH [OF s1(2)] by auto
qed auto

lemma victims_holds:
  "holds s (ps @ qs) \<Longrightarrow> victims (length ps) s = Some (map Some ps)"
proof (induction ps arbitrary: s)
  case (Cons p ps)
  then obtain s1 where "victim s = Some (Some p, s1)" "holds s1 (ps @ qs)"
    using victim_law [of s p "ps @ qs"] by auto
  with Cons.IH show ?case by auto
qed simp

text \<open>Pages leave in the order they came.\<close>

lemma first_in_first_out:
  assumes "holds s []" and "distinct ps"
  shows "\<exists>s'. insert_pages ps s = Some s' \<and> victims (length ps) s' = Some (map Some ps)"
proof -
  obtain s' where "insert_pages ps s = Some s'" "holds s' ps"
    using insert_pages_holds [of s "[]" ps] assms by auto
  then show ?thesis using victims_holds [of s' ps "[]"] by auto
qed

end

definition pra_queue :: "nat \<Rightarrow> vmst \<Rightarrow> nat list \<Rightarrow> bool" where
  "pra_queue m s ps \<longleftrightarrow> dlist (pra s) PraHead (map PraLink ps) \<and> sm_priv (mms s m)"

definition map_page :: "nat \<Rightarrow> nat \<Rightarrow> vmst \<Rightarrow> vmst option" where
  "map_page m p s = map_option snd (swap_map_swappable m 0 p s)"

definition victim_page :: "nat \<Rightarrow> vmst \<Rightarrow> (nat option \<times> vmst) option" where
  "victim_page m s = map_option (\<lambda>(_, n, s). (pra2page n, s)) (fifo_swap_out_victim m False s)"

interpretation fifo: fifo_manager "pra_queue m" "map_page m" "victim_page m" for m
proof
  fix s ps p assume a: "pra_queue m s ps" "p \<notin> set ps"
  then have "dlist (list_add_before PraHead (PraLink p) (pra s)) PraHead (map PraLink ps @ [PraLink p])"
    by (intro dl.push_back) (auto simp: pra_queue_def)
  with a show "\<exists>s'. map_page m p s = Some s' \<and> pra_queue m s' (ps @ [p])"
    by (simp add: map_page_def swap_map_swappable_def fifo_map_swappable_def pra_queue_def)
next
  fix s p ps assume a: "pra_queue m s (p # ps)"
  then have "dlist (pra s) PraHead (PraLink p # map PraLink ps)" by (simp add: pra_queue_def)
  from dl.pop_front [OF this] a
  show "\<exists>s'. victim_page m s = Some (Some p, s') \<and> pra_queue m s' ps"
    by (simp add: victim_page_def fifo_swap_out_victim_def pra_queue_def Let_def)
qed

text \<open>The same runs over the operations of the code.\<close>

primrec map_pages :: "nat \<Rightarrow> nat list \<Rightarrow> vmst \<Rightarrow> vmst option" where
  "map_pages m [] s = Some s"
| "map_pages m (p # ps) s = do { (_, s) \<leftarrow> swap_map_swappable m 0 p s; map_pages m ps s }"

primrec victim_pages :: "nat \<Rightarrow> nat \<Rightarrow> vmst \<Rightarrow> nat option list option" where
  "victim_pages m 0 s = Some []"
| "victim_pages m (Suc n) s = do {
     (_, v, s) \<leftarrow> fifo_swap_out_victim m False s;
     vs \<leftarrow> victim_pages m n s;
     Some (pra2page v # vs)
   }"

lemma map_pages_fifo: "map_pages m ps s = fifo.insert_pages m ps s"
  by (induction ps arbitrary: s) (auto simp: map_page_def split: bind_splits)

lemma victim_pages_fifo: "victim_pages m n s = fifo.victims m n s"
  by (induction n arbitrary: s) (auto simp: victim_page_def split: bind_splits)

lemma fifo_victim:
  assumes "pra_queue m s (p # ps)"
  shows "fifo_swap_out_victim m False s = Some (0, PraLink p, s\<lparr>pra := list_del (PraLink p) (pra s)\<rparr>)"
proof -
  have "dlist (pra s) PraHead (PraLink p # map PraLink ps)" using assms by (simp add: pra_queue_def)
  from dl.pop_front [OF this] assms show ?thesis
    by (simp add: fifo_swap_out_victim_def pra_queue_def Let_def)
qed

subsection \<open>Properties\<close>

text \<open>C19. After \<open>page_insert\<close> the address is mapped to the page with the permissions given, whatever
  was mapped there before.\<close>

theorem page_insert_maps:
  assumes "path pgdir f1 f0 la s" and "page_insert pgdir page la perm s = Some (r, s')"
    and "page < npage - nbase" and "perm < 512"
  shows "r = 0 \<and> get_page pgdir la s' = Some (Some page) \<and>
    get_entry (f0, PTX la) s' = pte_create (page2ppn page) (or PTE_V perm)"
proof -
  define v where "v = pte_create (page2ppn page) (or PTE_V perm)"
  have r: "r = 0" and fr: "frames s' = frames (set_pte (f0, PTX la) v s)"
    using page_insert_frames [OF assms(1,2)] by (simp_all add: v_def)
  have p': "path pgdir f1 f0 la s'"
    using path_set_pte [OF assms(1), of "(f0, PTX la)" v] path_frames [OF fr] by simp
  have e: "get_entry (f0, PTX la) s' = v"
    using fr by (simp add: get_entry_def fun_eq_iff)
  have "or PTE_V perm = or perm 1" by (simp add: PTE_V_def ac_simps)
  also have "\<dots> < 1024"
    using assms(4) by (cases "even perm"; simp add: or_one_eq; unat_arith)
  finally have "pte2page v = Some page" unfolding v_def by (rule pte2page_create) (rule assms(3))
  then have "get_page pgdir la s' = Some (Some page)"
    using path_get_pte [OF p'] e by (simp add: get_page_def v_def del: pte_valid_iff)
  with r e show ?thesis by (simp add: v_def)
qed

text \<open>Page directory 0, level 0 directory 1, page table 2 for the 2 MB at 0x800000.\<close>

definition pt0 :: vmst where
  "pt0 =
     \<lparr>pmem = \<lparr>pages = (\<lambda>_. \<lparr>ref = 0, flags = 0, property = 0, pra_vaddr = 0x800000\<rparr>),
        free_links = \<lparr>prv = id, nxt = id\<rparr>, nr_free = 0\<rparr>,
      frames = (\<lambda>_ _. 0)(0 := (\<lambda>_. 0)(0 := pte_create (page2ppn 1) 17),
        1 := (\<lambda>_. 0)(4 := pte_create (page2ppn 2) 17, 8 := pte_create (page2ppn 6) 17),
        2 := (\<lambda>_. 0)(3 := pte_create (page2ppn 7) 31)),
      swap_init_ok = False, check_mm_struct = None,
      pra = list_add_before PraHead (PraLink 7) \<lparr>prv = id, nxt = id\<rparr>,
      disk = (\<lambda>_ _. 0), max_swap_offset = 0x10000,
      mms = (\<lambda>_. \<lparr>mmap_cache = None, mm_pgdir = 0, map_count = 0, sm_priv = True, mm_count = 0,
        locked_by = 0\<rparr>),
      vmas = (\<lambda>_. \<lparr>vm_mm = None, vm_start = 0, vm_end = 0, vm_flags = 0\<rparr>),
      vlinks = \<lparr>prv = id, nxt = id\<rparr>, kmalloc_results = [], kfreed = [], pgfault_num = 0\<rparr>"

lemma pt0_entries:
  "get_entry (0, 0) pt0 = pte_create (page2ppn 1) 17" "get_entry (1, 4) pt0 = pte_create (page2ppn 2) 17"
  "get_entry (1, 8) pt0 = pte_create (page2ppn 6) 17" "get_entry (2, 3) pt0 = pte_create (page2ppn 7) 31"
  "get_entry (2, 0) pt0 = 0" "get_entry (Suc 0, 4) pt0 = pte_create (page2ppn 2) 17"
  by (simp_all add: get_entry_def pt0_def)

lemma pt0_pages:
  "pa2page (PTE_ADDR (pte_create (page2ppn p) t)) = Some p" if "p < 100" "t < 1024"
  by (rule pa2page_create) (use that in \<open>simp_all add: npage_def nbase_def\<close>)

lemma pt0_path: "la div 2 ^ 21 = 4 \<Longrightarrow> path 0 1 2 la pt0"
proof -
  assume la: "la div 2 ^ 21 = 4"
  have "la div 2 ^ 30 = la div 2 ^ 21 div 2 ^ 9" by (simp add: div_mult2_eq [symmetric])
  with la have "PDX1 la = 0" "PDX0 la = 4" by (simp_all add: PDX1_def PDX0_def)
  then show ?thesis by (simp add: path_def pt0_entries pt0_pages del: pte_valid_iff)
qed

theorem page_insert_maps_witness:
  "\<exists>s'. page_insert 0 9 0x800000 4 pt0 = Some (0, s') \<and> get_page 0 0x800000 s' = Some (Some 9)"
proof -
  have p: "path 0 1 2 0x800000 pt0" by (rule pt0_path) simp
  have "PTX 0x800000 = 0" by (simp add: PTX_def)
  then have "\<exists>s'. page_insert 0 9 0x800000 4 pt0 = Some (0, s')"
    using path_get_pte [OF p] by (simp add: page_insert_def Let_def pt0_entries)
  with page_insert_maps [OF p, of 9 4] show ?thesis
    by (auto simp: npage_def nbase_def)
qed

text \<open>\<open>page_remove\<close> of a mapped address leaves it unmapped and takes one reference off the page;
  the page is freed exactly when this was the last one.\<close>

theorem page_remove_unmaps:
  assumes "path pgdir f1 f0 la s" and "get_page pgdir la s = Some (Some page)"
    and "page_remove pgdir la s = Some s'"
  shows "get_page pgdir la s' = Some None \<and>
    (if page_ref page (pmem s) = 1
     then \<exists>t. free_pages page 1 (set_ref page 0 s) = Some t \<and> pmem s' = pmem t
     else pmem s' = pmem (set_ref page (page_ref page (pmem s) - 1) s))"
proof -
  let ?slot = "(f0, PTX la)"
  have g: "get_pte pgdir la False s = Some (Some ?slot, s)" by (rule path_get_pte [OF assms(1)])
  then have v: "pte_valid (get_entry ?slot s)" "pte2page (get_entry ?slot s) = Some page"
    using assms(2) by (auto simp: get_page_def bind_eq_Some_conv split: if_splits simp del: pte_valid_iff)
  have rm: "page_remove_pte ?slot s = Some s'" using assms(3) g by (simp add: page_remove_def)
  have fr: "frames s' = frames (set_pte ?slot 0 s)" by (rule page_remove_pte_frames [OF rm v(1)])
  have p': "path pgdir f1 f0 la s'"
    using path_set_pte [OF assms(1), of ?slot 0] path_frames [OF fr] by simp
  have "get_entry ?slot s' = 0" using fr by (simp add: get_entry_def fun_eq_iff)
  then have "get_page pgdir la s' = Some None"
    using path_get_pte [OF p'] by (simp add: get_page_def)
  with rm v show ?thesis
    by (auto simp: page_remove_pte_def Let_def bind_eq_Some_conv simp del: pte_valid_iff split: if_splits)
qed

theorem page_remove_unmaps_witness:
  "\<exists>s'. page_remove 0 0x803000 pt0 = Some s' \<and> get_page 0 0x803000 s' = Some None"
proof -
  have p: "path 0 1 2 0x803000 pt0" by (rule pt0_path) simp
  have ptx: "PTX 0x803000 = 3" by (simp add: PTX_def)
  have page: "pte2page (get_entry (2, 3) pt0) = Some 7"
    by (simp add: pt0_entries pte2page_def pt0_pages del: pte_valid_iff)
  have g: "get_page 0 0x803000 pt0 = Some (Some 7)"
    using path_get_pte [OF p] page by (simp add: get_page_def ptx pt0_entries del: pte_valid_iff)
  have "page_ref 7 (pmem pt0) = 0" by (simp add: pt0_def page_ref_def)
  then have "\<exists>s'. page_remove 0 0x803000 pt0 = Some s'"
    using path_get_pte [OF p] page
    by (simp add: page_remove_def page_remove_pte_def ptx Let_def)
  with page_remove_unmaps [OF p g] show ?thesis by blast
qed

text \<open>\<open>exit_range\<close> never frees a level 0 directory that is empty, although its comment says that it
  does so "only when all pde0s in it are already invalid": with no valid entry it changes nothing.\<close>

theorem exit_range_keeps_empty_directory:
  assumes "start mod PGSIZE = 0" and "e mod PGSIZE = 0" and "USER_ACCESS start e"
    and "e \<le> ROUNDDOWN start PDSIZE + PDSIZE"
    and "pte_valid (get_entry (pgdir, PDX1 (ROUNDDOWN start PDSIZE)) s)"
    and "pde2page (get_entry (pgdir, PDX1 (ROUNDDOWN start PDSIZE)) s) = Some pd0"
    and "\<forall>j < 512. \<not> pte_valid (get_entry (pd0, j) s)"
  shows "exit_range pgdir start e s = Some s"
proof -
  have range: "start < e" "e \<le> 2 ^ 32" "start < 2 ^ 62"
    using assms(3) by (auto simp: USER_ACCESS_def USERTOP_def)
  have down: "ROUNDDOWN start n \<le> start" for n by (simp add: ROUNDDOWN_def)
  have "exit_pd0_loop pd0 (ROUNDDOWN start PTSIZE) (ROUNDDOWN start PDSIZE) e True s = Some (False, s)"
    by (rule exit_pd0_loop_empty [OF assms(7)]) (use down [of PTSIZE] range in auto)
  moreover have "ROUNDDOWN start PDSIZE < 2 ^ 62" using down [of PDSIZE] range by simp
  ultimately show ?thesis
    using assms exit_pd1_loop_single [OF assms(4)]
    by (simp add: exit_range_def del: pte_valid_iff)
qed

definition pt1 :: vmst where
  "pt1 = pt0\<lparr>frames := (\<lambda>_ _. 0)(0 := (\<lambda>_. 0)(0 := pte_create (page2ppn 1) 17))\<rparr>"

theorem exit_range_keeps_empty_directory_witness: "exit_range 0 0x800000 0x801000 pt1 = Some pt1"
proof (rule exit_range_keeps_empty_directory)
  have "PDX1 (ROUNDDOWN 0x800000 PDSIZE) = 0" by (simp add: PDX1_def ROUNDDOWN_def PDSIZE_def)
  then show "pte_valid (get_entry (0, PDX1 (ROUNDDOWN 0x800000 PDSIZE)) pt1)"
    "pde2page (get_entry (0, PDX1 (ROUNDDOWN 0x800000 PDSIZE)) pt1) = Some 1"
    by (simp_all add: get_entry_def pt1_def pde2page_def pt0_pages del: pte_valid_iff)
  show "\<forall>j < 512. \<not> pte_valid (get_entry (1, j) pt1)"
    by (simp add: get_entry_def pt1_def)
qed (simp_all add: PGSIZE_def USER_ACCESS_def USERBASE_def USERTOP_def ROUNDDOWN_def PDSIZE_def)

text \<open>C30. \<open>exit_range\<close> frees a level 0 directory that is still in use: for a range inside one page table
  it looks at one entry only, and when that is valid the directory is freed and unlinked, although
  its other entries are still valid and the page tables they name are then lost.\<close>

theorem exit_range_frees_directory_in_use:
  assumes "start mod PGSIZE = 0" and "e mod PGSIZE = 0" and "USER_ACCESS start e"
    and "e \<le> ROUNDDOWN start PTSIZE + PTSIZE" and "e \<le> ROUNDDOWN start PDSIZE + PDSIZE"
    and "pde2page (get_entry (pgdir, PDX1 (ROUNDDOWN start PDSIZE)) s) = Some pd0"
    and "pte_valid (get_entry (pgdir, PDX1 (ROUNDDOWN start PDSIZE)) s)"
    and "pte_valid (get_entry (pd0, PDX0 (ROUNDDOWN start PTSIZE)) s)"
    and "pde2page (get_entry (pd0, PDX0 (ROUNDDOWN start PTSIZE)) s) = Some pt"
    and "i < NPTEENTRY" and "pte_valid (get_entry (pt, i) s)"
    and "free_pages pd0 1 s = Some s1"
  shows "exit_range pgdir start e s = Some (set_pte (pgdir, PDX1 (ROUNDDOWN start PDSIZE)) 0 s1)"
proof -
  have range: "start < e" "start < 2 ^ 62"
    using assms(3) by (auto simp: USER_ACCESS_def USERTOP_def)
  have down: "ROUNDDOWN start n \<le> start" for n by (simp add: ROUNDDOWN_def)
  have "\<not> list_all (\<lambda>i. \<not> pte_valid (get_entry (pt, i) s)) [0 ..< NPTEENTRY]"
    using assms(10,11) by (auto simp: list_all_iff simp del: pte_valid_iff)
  then have "exit_pde0 pd0 (ROUNDDOWN start PTSIZE) True s = Some (True, s)"
    using assms(8,9) by (simp add: exit_pde0_def del: pte_valid_iff)
  then have "exit_pd0_loop pd0 (ROUNDDOWN start PTSIZE) (ROUNDDOWN start PDSIZE) e True s = Some (True, s)"
    using exit_pd0_loop_single [OF assms(4)] down [of PTSIZE] range by simp
  moreover have "ROUNDDOWN start PDSIZE < 2 ^ 62" using down [of PDSIZE] range by simp
  ultimately show ?thesis
    using assms exit_pd1_loop_single [OF assms(5)]
    by (simp add: exit_range_def del: pte_valid_iff)
qed

lemma pt0_free: "\<exists>s1. free_pages 1 1 pt0 = Some s1"
proof -
  have "free_inv (pmem pt0) []" by (simp add: free_inv_def pt0_def dlist_def)
  moreover have "releasable 1 1 (pmem pt0)"
    by (simp add: releasable_def pt0_def PageReserved_def PageProperty_def)
  moreover have "has_room 1 (pmem pt0)" "nr_free (pmem pt0) + 1 < 2 ^ 32"
    by (simp_all add: has_room_def pt0_def)
  ultimately have "\<exists>m. default_free_pages 1 1 (pmem pt0) = Some m"
    using default_free_inv [of "pmem pt0" "[]" 1 1] by auto
  then show ?thesis by (auto simp: free_pages_def)
qed

theorem exit_range_frees_directory_in_use_witness:
  "\<exists>s'. exit_range 0 0x800000 0x801000 pt0 = Some s' \<and> get_entry (0, 0) s' = 0"
proof -
  have r: "ROUNDDOWN 0x800000 PDSIZE = 0" "ROUNDDOWN 0x800000 PTSIZE = 0x800000"
    "PDX1 0 = 0" "PDX0 0x800000 = 4"
    by (simp_all add: ROUNDDOWN_def PDSIZE_def PTSIZE_def PDX1_def PDX0_def)
  obtain s1 where s1: "free_pages 1 1 pt0 = Some s1" using pt0_free by blast
  have "exit_range 0 0x800000 0x801000 pt0 = Some (set_pte (0, PDX1 (ROUNDDOWN 0x800000 PDSIZE)) 0 s1)"
  proof (rule exit_range_frees_directory_in_use [where pt = 2 and i = 3])
    show "free_pages 1 1 pt0 = Some s1" by (rule s1)
    show "pde2page (get_entry (0, PDX1 (ROUNDDOWN 0x800000 PDSIZE)) pt0) = Some 1"
      "pte_valid (get_entry (0, PDX1 (ROUNDDOWN 0x800000 PDSIZE)) pt0)"
      "pte_valid (get_entry (1, PDX0 (ROUNDDOWN 0x800000 PTSIZE)) pt0)"
      "pde2page (get_entry (1, PDX0 (ROUNDDOWN 0x800000 PTSIZE)) pt0) = Some 2"
      "pte_valid (get_entry (2, 3) pt0)"
      unfolding r by (simp_all add: pt0_entries pde2page_def pt0_pages del: pte_valid_iff)
    show "0x801000 \<le> ROUNDDOWN 0x800000 PTSIZE + PTSIZE" "0x801000 \<le> ROUNDDOWN 0x800000 PDSIZE + PDSIZE"
      unfolding r by (simp_all add: PTSIZE_def PDSIZE_def)
  qed (simp_all add: PGSIZE_def USER_ACCESS_def USERBASE_def USERTOP_def NPTEENTRY_def)
  then show ?thesis by (simp add: r)
qed

definition pt2 :: vmst where
  "pt2 = pt0\<lparr>pra := \<lparr>prv = id, nxt = id\<rparr>\<rparr>"

text \<open>C33. A page swapped out keeps its contents: \<open>swap_out\<close> writes the oldest page to the slot of its
  virtual address, leaves that slot's number in the page table entry, which is no longer valid, and
  reading the entry back into any page restores the frame.\<close>

theorem swap_out_in_contents:
  assumes "pra_queue m s (page # ps)" and "find_pte (mm_pgdir (mms s m)) (pra_vaddr (pages (pmem s) page)) s = Some (Some slot)"
    and "swap_out_one m False s = Some (go, s1)"
    and "swap_entry (pra_vaddr (pages (pmem s) page)) < 2 ^ 64"
    and "swapfs_read (unat (get_entry slot s1)) q s1 = Some (r, s2)"
  shows "go \<and> \<not> pte_valid (get_entry slot s1) \<and> frames s2 q = frames s page \<and> pra_queue m s1 ps"
proof -
  define v where "v = pra_vaddr (pages (pmem s) page)"
  define t where "t = s\<lparr>pra := list_del (PraLink page) (pra s)\<rparr>"
  have vic: "fifo_swap_out_victim m False s = Some (0, PraLink page, t)"
    unfolding t_def by (rule fifo_victim [OF assms(1)])
  have t: "pmem t = pmem s" "frames t = frames s" "mms t = mms s" "disk t = disk s"
    "max_swap_offset t = max_swap_offset s" "\<And>sl. get_entry sl t = get_entry sl s"
    by (simp_all add: t_def)
  have f: "find_pte (mm_pgdir (mms s m)) v t = Some (Some slot)"
    using assms(2) unfolding find_pte_def t(6) v_def .
  obtain off where off: "swap_offset (swap_entry v) t = Some off"
    and fr: "free_pages page 1 (set_pte slot (of_nat (swap_entry v)) (t\<lparr>disk := (disk t)(off := frames t page)\<rparr>)) = Some s1"
    and go
    using assms(3) f unfolding swap_out_one_def vic v_def
    by (auto simp: t swapfs_write_def bind_eq_Some_conv Let_def split: if_splits simp del: pte_valid_iff)
  have s1: "frames s1 = frames (set_pte slot (of_nat (swap_entry v)) t)" "disk s1 = (disk s)(off := frames s page)"
    "pra s1 = pra t" "mms s1 = mms s" "max_swap_offset s1 = max_swap_offset t"
    using fr by (auto simp: free_pages_def bind_eq_Some_conv t fun_eq_iff)
  have "even (of_nat (swap_entry v) :: 64 word)" by (simp add: swap_entry_def)
  then have inv: "\<not> pte_valid (of_nat (swap_entry v))" by (simp add: bit_0)
  have e: "get_entry slot s1 = of_nat (swap_entry v)"
    using s1(1) by (cases slot) (simp add: get_entry_def fun_eq_iff)
  have "unat (of_nat (swap_entry v) :: 64 word) = swap_entry v"
    using assms(4) by (simp add: v_def unsigned_of_nat take_bit_nat_eq_self)
  then have "frames s2 q = disk s1 off"
    using assms(5) off s1(5) unfolding e
    by (auto simp: swapfs_read_def swap_offset_def bind_eq_Some_conv Let_def split: if_splits)
  moreover have "pra_queue m s1 ps"
    using fifo.victim_law [OF assms(1)] vic s1(3,4) t(3)
    by (auto simp: victim_page_def pra_queue_def)
  ultimately show ?thesis using \<open>go\<close> inv e s1(2) by simp
qed

definition pt3 :: vmst where
  "pt3 = pt0\<lparr>pmem := (pmem pt0)\<lparr>pages := (\<lambda>_. \<lparr>ref = 0, flags = 0, property = 0, pra_vaddr = 0x803000\<rparr>)\<rparr>\<rparr>"

theorem swap_out_in_contents_witness:
  "\<exists>go s1 r s2. swap_out_one 0 False pt3 = Some (go, s1) \<and> go \<and>
    swapfs_read (unat (get_entry (2, 3) s1)) 5 s1 = Some (r, s2) \<and> frames s2 5 = frames pt3 7"
proof -
  have path: "path 0 1 2 0x803000 pt3"
    using pt0_path [of "0x803000"] path_frames [of pt3 pt0] by (simp add: pt3_def)
  have v: "pra_vaddr (pages (pmem pt3) 7) = 0x803000" "mm_pgdir (mms pt3 0) = 0" by (simp_all add: pt3_def pt0_def)
  have ptx: "PTX 0x803000 = 3" by (simp add: PTX_def)
  have q: "pra_queue 0 pt3 [7]"
    using dl.push_back [of "\<lparr>prv = id, nxt = id\<rparr>" PraHead "[]" "PraLink 7"]
    by (simp add: pra_queue_def pt3_def pt0_def dlist_def)
  have f: "find_pte (mm_pgdir (mms pt3 0)) (pra_vaddr (pages (pmem pt3) 7)) pt3 = Some (Some (2, 3))"
    using path_find [OF path] by (simp only: v ptx)
  have se: "swap_entry 0x803000 = 0x80400" by (simp add: swap_entry_def PGSIZE_def)
  define t where "t = set_pte (2, 3) 0x80400
    (pt3\<lparr>pra := list_del (PraLink 7) (pra pt3), disk := (disk pt3)(0x804 := frames pt3 7)\<rparr>)"
  have pm: "pmem t = pmem pt3" by (simp add: t_def)
  have "free_inv (pmem t) []" unfolding pm by (simp add: free_inv_def pt3_def pt0_def dlist_def)
  moreover have "releasable 7 1 (pmem t)"
    unfolding pm by (simp add: releasable_def pt3_def pt0_def PageReserved_def PageProperty_def)
  moreover have "has_room 7 (pmem t)" "nr_free (pmem t) + 1 < 2 ^ 32"
    unfolding pm by (simp_all add: has_room_def pt3_def pt0_def)
  ultimately have "\<exists>m. default_free_pages 7 1 (pmem t) = Some m"
    using default_free_inv [of "pmem t" "[]" 1 7] by auto
  then obtain s1 where s1: "free_pages 7 1 t = Some s1" by (auto simp: free_pages_def)
  have ent: "pte_valid (get_entry (2, 3) pt3)" by (simp add: get_entry_def pt3_def pt0_def del: pte_valid_iff)
  have fr: "frames s1 = frames t" by (rule free_pages_frames [OF s1])
  have mx: "max_swap_offset s1 = 0x10000" "disk s1 0x804 = frames pt3 7"
    using s1 by (auto simp: free_pages_def bind_eq_Some_conv t_def pt3_def pt0_def)
  have f': "find_pte 0 0x803000 (pt3\<lparr>pra := list_del (PraLink 7) (pra pt3)\<rparr>) = Some (Some (2, 3))"
    using path_find [of 0 1 2 "0x803000" "pt3\<lparr>pra := list_del (PraLink 7) (pra pt3)\<rparr>"]
      path path_frames [of "pt3\<lparr>pra := list_del (PraLink 7) (pra pt3)\<rparr>" pt3] by (simp add: ptx)
  have "max_swap_offset pt3 = 0x10000" by (simp add: pt3_def pt0_def)
  then have "swapfs_write (swap_entry 0x803000) 7 (pt3\<lparr>pra := list_del (PraLink 7) (pra pt3)\<rparr>) =
    Some (0, pt3\<lparr>pra := list_del (PraLink 7) (pra pt3), disk := (disk pt3)(0x804 := frames pt3 7)\<rparr>)"
    unfolding se by (simp add: swapfs_write_def swap_offset_def)
  then have so: "swap_out_one 0 False pt3 = Some (True, s1)"
    using f' ent s1 v unfolding t_def
    by (simp add: swap_out_one_def fifo_victim [OF q] se get_entry_def del: pte_valid_iff)
  have e: "get_entry (2, 3) s1 = 0x80400" unfolding get_entry_def fr by (simp add: t_def set_pte_def)
  have r: "swapfs_read (unat (get_entry (2, 3) s1)) 5 s1 = Some (0, s1\<lparr>frames := (frames s1)(5 := disk s1 0x804)\<rparr>)"
    by (simp add: e swapfs_read_def swap_offset_def mx)
  have "swap_entry (pra_vaddr (pages (pmem pt3) 7)) < 2 ^ 64" by (simp add: v se)
  from swap_out_in_contents [OF q f so this r] so r show ?thesis by blast
qed

text \<open>Pages become victims in the order in which they were made swappable.\<close>

theorem fifo_swap_order:
  assumes "distinct ps" and "sm_priv (mms s m)" and "dlist (pra s) PraHead []"
  shows "\<exists>s'. map_pages m ps s = Some s' \<and> victim_pages m (length ps) s' = Some (map Some ps)"
  unfolding map_pages_fifo victim_pages_fifo
  by (rule fifo.first_in_first_out) (use assms in \<open>simp_all add: pra_queue_def\<close>)

theorem fifo_swap_order_witness:
  "\<exists>s'. map_pages 0 [5, 3] pt2 = Some s' \<and> victim_pages 0 (length [5, 3 :: nat]) s' = Some (map Some [5, 3])"
proof (rule fifo_swap_order)
  show "sm_priv (mms pt2 0)" "dlist (pra pt2) PraHead []" by (simp_all add: pt2_def pt0_def dlist_def)
qed simp

end
