(* ===== verification/Vmm.thy ===== *)
theory Vmm
  imports Paging
begin

text \<open>
  kern/mm/vmm.c: memory areas (vma) and their set per address space (mm). The areas of an mm form a
  ring of list.h behind \<open>mmap_list\<close>, sorted by their start. \<open>kmalloc\<close> is taken from its contract
  here (the allocator itself is theory Kmalloc): \<open>kmalloc_results\<close> holds the addresses the coming
  calls return, \<open>kfreed\<close> the addresses freed. The semaphore of an mm is not part of this state.
\<close>

definition VM_READ :: "32 word" where "VM_READ = 1"
definition VM_WRITE :: "32 word" where "VM_WRITE = 2"
definition VM_EXEC :: "32 word" where "VM_EXEC = 4"
definition VM_STACK :: "32 word" where "VM_STACK = 8"

definition kmalloc_call :: "vmst \<Rightarrow> nat option \<times> vmst" where
  "kmalloc_call s =
     (case kmalloc_results s of [] \<Rightarrow> (None, s) | r # rs \<Rightarrow> (r, s\<lparr>kmalloc_results := rs\<rparr>))"

definition kfree_call :: "nat \<Rightarrow> vmst \<Rightarrow> vmst" where
  "kfree_call a s = s\<lparr>kfreed := a # kfreed s\<rparr>"

definition upd_mm :: "nat \<Rightarrow> (mm \<Rightarrow> mm) \<Rightarrow> vmst \<Rightarrow> vmst" where
  "upd_mm m f s = s\<lparr>mms := (mms s)(m := f (mms s m))\<rparr>"

definition upd_vlinks :: "(vnode links \<Rightarrow> vnode links) \<Rightarrow> vmst \<Rightarrow> vmst" where
  "upd_vlinks f s = s\<lparr>vlinks := f (vlinks s)\<rparr>"

fun le2vma :: "vnode \<Rightarrow> nat option" where
  "le2vma (VmaLink v) = Some v" | "le2vma (MmapHead m) = None"

subsection \<open>The operations\<close>

definition mm_create :: "vmst \<Rightarrow> nat option \<times> vmst" where
  "mm_create s =
     (let (r, s) = kmalloc_call s in
      case r of
        None \<Rightarrow> (None, s)
      | Some m \<Rightarrow>
          let s = upd_vlinks (list_init (MmapHead m)) s;
              s = upd_mm m (\<lambda>d. d\<lparr>mmap_cache := None, mm_pgdir := 0, map_count := 0\<rparr>) s;
              s = (if swap_init_ok s then fifo_init_mm m s else upd_mm m (\<lambda>d. d\<lparr>sm_priv := False\<rparr>) s)
          in (Some m, upd_mm m (\<lambda>d. d\<lparr>mm_count := 0\<rparr>) s))"

definition vma_create :: "nat \<Rightarrow> nat \<Rightarrow> 32 word \<Rightarrow> vmst \<Rightarrow> nat option \<times> vmst" where
  "vma_create start e fl s =
     (let (r, s) = kmalloc_call s in
      case r of
        None \<Rightarrow> (None, s)
      | Some v \<Rightarrow> (Some v, s\<lparr>vmas := (vmas s)(v := (vmas s v)\<lparr>vm_start := start, vm_end := e, vm_flags := fl\<rparr>)\<rparr>))"

definition vma_covers :: "nat \<Rightarrow> nat \<Rightarrow> vmst \<Rightarrow> bool" where
  "vma_covers v addr s \<longleftrightarrow> vm_start (vmas s v) \<le> addr \<and> addr < vm_end (vmas s v)"

partial_function (option) find_vma_loop :: "nat \<Rightarrow> vnode \<Rightarrow> nat \<Rightarrow> vmst \<Rightarrow> nat option option" where
  "find_vma_loop m le addr s =
     (let le = list_next le (vlinks s) in
      if le = MmapHead m then Some None
      else do {
        v \<leftarrow> le2vma le;
        if vma_covers v addr s then Some (Some v) else find_vma_loop m le addr s
      })"

declare find_vma_loop.simps [code]

definition find_vma :: "nat option \<Rightarrow> nat \<Rightarrow> vmst \<Rightarrow> (nat option \<times> vmst) option" where
  "find_vma m addr s =
     (case m of
        None \<Rightarrow> Some (None, s)
      | Some m \<Rightarrow> do {
          vma \<leftarrow> (case mmap_cache (mms s m) of
                    Some v \<Rightarrow> if vma_covers v addr s then Some (Some v)
                              else find_vma_loop m (MmapHead m) addr s
                  | None \<Rightarrow> find_vma_loop m (MmapHead m) addr s);
          Some (vma, if vma \<noteq> None then upd_mm m (\<lambda>d. d\<lparr>mmap_cache := vma\<rparr>) s else s)
        })"

definition check_vma_overlap :: "nat \<Rightarrow> nat \<Rightarrow> vmst \<Rightarrow> bool" where
  "check_vma_overlap prev next s \<longleftrightarrow>
     vm_start (vmas s prev) < vm_end (vmas s prev) \<and> vm_end (vmas s prev) \<le> vm_start (vmas s next) \<and>
     vm_start (vmas s next) < vm_end (vmas s next)"

text \<open>The search of \<open>insert_vma_struct\<close>: \<open>le_prev\<close> when the loop ends; \<open>le\<close> is the node reached.\<close>

partial_function (option) insert_vma_loop ::
    "nat \<Rightarrow> nat \<Rightarrow> vnode \<Rightarrow> vnode \<Rightarrow> vmst \<Rightarrow> vnode option" where
  "insert_vma_loop m vma le_prev le s =
     (let le = list_next le (vlinks s) in
      if le = MmapHead m then Some le_prev
      else do {
        v \<leftarrow> le2vma le;
        if vm_start (vmas s v) > vm_start (vmas s vma) then Some le_prev
        else insert_vma_loop m vma le le s
      })"

declare insert_vma_loop.simps [code]

definition insert_vma_struct :: "nat \<Rightarrow> nat \<Rightarrow> vmst \<Rightarrow> vmst option" where
  "insert_vma_struct m vma s = do {
     kassert (vm_start (vmas s vma) < vm_end (vmas s vma));
     le_prev \<leftarrow> insert_vma_loop m vma (MmapHead m) (MmapHead m) s;
     let le_next = list_next le_prev (vlinks s);
     _ \<leftarrow> (if le_prev \<noteq> MmapHead m
          then do { p \<leftarrow> le2vma le_prev; kassert (check_vma_overlap p vma s) } else Some ());
     _ \<leftarrow> (if le_next \<noteq> MmapHead m
          then do { n \<leftarrow> le2vma le_next; kassert (check_vma_overlap vma n s) } else Some ());
     let s = s\<lparr>vmas := (vmas s)(vma := (vmas s vma)\<lparr>vm_mm := Some m\<rparr>)\<rparr>;
     let s = upd_vlinks (list_add_after le_prev (VmaLink vma)) s;
     Some (upd_mm m (\<lambda>d. d\<lparr>map_count := map_count d + 1\<rparr>) s)
   }"

partial_function (option) mm_destroy_loop :: "nat \<Rightarrow> vmst \<Rightarrow> vmst option" where
  "mm_destroy_loop m s =
     (let le = list_next (MmapHead m) (vlinks s) in
      if le = MmapHead m then Some s
      else do {
        let s = upd_vlinks (list_del le) s;
        v \<leftarrow> le2vma le;
        mm_destroy_loop m (kfree_call v s)
      })"

declare mm_destroy_loop.simps [code]

definition mm_destroy :: "nat \<Rightarrow> vmst \<Rightarrow> vmst option" where
  "mm_destroy m s = do {
     kassert (mm_count (mms s m) = 0);
     s \<leftarrow> mm_destroy_loop m s;
     Some (kfree_call m s)
   }"

definition mm_map :: "nat option \<Rightarrow> nat \<Rightarrow> nat \<Rightarrow> 32 word \<Rightarrow> vmst \<Rightarrow> (int \<times> nat option \<times> vmst) option" where
  "mm_map m addr len fl s =
     (let start = ROUNDDOWN addr PGSIZE; e = ROUNDUP (add64 addr len) PGSIZE in
      if \<not> USER_ACCESS start e then Some (- E_INVAL, None, s)
      else do {
        m \<leftarrow> m;
        (vma, s) \<leftarrow> find_vma (Some m) start s;
        if (case vma of Some v \<Rightarrow> e > vm_start (vmas s v) | None \<Rightarrow> False)
        then Some (- E_INVAL, None, s)
        else (case vma_create start e fl s of
            (None, s) \<Rightarrow> Some (- E_NO_MEM, None, s)
          | (Some v, s) \<Rightarrow> do {
              s \<leftarrow> insert_vma_struct m v s;
              Some (0, Some v, s)
            })
      })"

text \<open>\<open>dup_mmap\<close> walks the source backwards.\<close>

partial_function (option) dup_mmap_loop :: "nat \<Rightarrow> nat \<Rightarrow> vnode \<Rightarrow> vmst \<Rightarrow> (int \<times> vmst) option" where
  "dup_mmap_loop to fr le s =
     (let le = list_prev le (vlinks s) in
      if le = MmapHead fr then Some (0, s)
      else do {
        vma \<leftarrow> le2vma le;
        let r = vma_create (vm_start (vmas s vma)) (vm_end (vmas s vma)) (vm_flags (vmas s vma)) s;
        if fst r = None then Some (- E_NO_MEM, snd r)
        else do {
          nvma \<leftarrow> fst r;
          s \<leftarrow> insert_vma_struct to nvma (snd r);
          c \<leftarrow> copy_range (mm_pgdir (mms s to)) (mm_pgdir (mms s fr))
                 (vm_start (vmas s vma)) (vm_end (vmas s vma)) s;
          if fst c \<noteq> 0 then Some (- E_NO_MEM, snd c)
          else dup_mmap_loop to fr le (snd c)
        }
      })"

declare dup_mmap_loop.simps [code]

definition dup_mmap :: "nat \<Rightarrow> nat \<Rightarrow> vmst \<Rightarrow> (int \<times> vmst) option" where
  "dup_mmap to fr s = dup_mmap_loop to fr (MmapHead fr) s"

text \<open>The two loops of \<open>exit_mmap\<close> over the areas.\<close>

partial_function (option) each_vma ::
    "(nat \<Rightarrow> nat \<Rightarrow> nat \<Rightarrow> vmst \<Rightarrow> vmst option) \<Rightarrow> nat \<Rightarrow> nat \<Rightarrow> vnode \<Rightarrow> vmst \<Rightarrow> vmst option" where
  "each_vma f m pgd le s =
     (let le = list_next le (vlinks s) in
      if le = MmapHead m then Some s
      else do {
        v \<leftarrow> le2vma le;
        s \<leftarrow> f pgd (vm_start (vmas s v)) (vm_end (vmas s v)) s;
        each_vma f m pgd le s
      })"

declare each_vma.simps [code]

definition exit_mmap :: "nat \<Rightarrow> vmst \<Rightarrow> vmst option" where
  "exit_mmap m s = do {
     kassert (mm_count (mms s m) = 0);
     let pgd = mm_pgdir (mms s m);
     s \<leftarrow> each_vma unmap_range m pgd (MmapHead m) s;
     each_vma exit_range m pgd (MmapHead m) s
   }"

partial_function (option) user_mem_loop ::
    "nat \<Rightarrow> nat \<Rightarrow> nat \<Rightarrow> bool \<Rightarrow> vmst \<Rightarrow> (bool \<times> vmst) option" where
  "user_mem_loop m start e wr s =
     (if start < e then do {
        r \<leftarrow> find_vma (Some m) start s;
        let s = snd r;
        (case fst r of
           None \<Rightarrow> Some (False, s)
         | Some v \<Rightarrow>
             if start < vm_start (vmas s v) then Some (False, s)
             else if and (vm_flags (vmas s v)) (if wr then VM_WRITE else VM_READ) = 0
             then Some (False, s)
             else if wr \<and> and (vm_flags (vmas s v)) VM_STACK \<noteq> 0 \<and>
               start < add64 (vm_start (vmas s v)) PGSIZE
             then Some (False, s)
             else user_mem_loop m (vm_end (vmas s v)) e wr s)
      }
      else Some (True, s))"

declare user_mem_loop.simps [code]

definition user_mem_check :: "nat option \<Rightarrow> nat \<Rightarrow> nat \<Rightarrow> bool \<Rightarrow> vmst \<Rightarrow> (bool \<times> vmst) option" where
  "user_mem_check m addr len wr s =
     (case m of
        Some m \<Rightarrow>
          if \<not> USER_ACCESS addr (add64 addr len) then Some (False, s)
          else user_mem_loop m addr (add64 addr len) wr s
      | None \<Rightarrow> Some (KERN_ACCESS addr (add64 addr len), s))"

text \<open>Copies between user and kernel memory, on the bytes \<open>b\<close> the current address space shows.\<close>

definition copy_from_user ::
    "nat option \<Rightarrow> nat \<Rightarrow> nat \<Rightarrow> nat \<Rightarrow> bool \<Rightarrow> bytes \<times> vmst \<Rightarrow> (bool \<times> bytes \<times> vmst) option" where
  "copy_from_user m dst src len writable bs = do {
     (ok, s) \<leftarrow> user_mem_check m src len writable (snd bs);
     Some (if ok then (True, memcpy (fst bs) dst src len, s) else (False, fst bs, s))
   }"

definition copy_to_user ::
    "nat option \<Rightarrow> nat \<Rightarrow> nat \<Rightarrow> nat \<Rightarrow> bytes \<times> vmst \<Rightarrow> (bool \<times> bytes \<times> vmst) option" where
  "copy_to_user m dst src len bs = do {
     (ok, s) \<leftarrow> user_mem_check m dst len True (snd bs);
     Some (if ok then (True, memcpy (fst bs) dst src len, s) else (False, fst bs, s))
   }"

partial_function (option) copy_string_loop ::
    "nat option \<Rightarrow> nat \<Rightarrow> nat \<Rightarrow> nat \<Rightarrow> nat \<Rightarrow> bytes \<Rightarrow> vmst \<Rightarrow> (bool \<times> bytes \<times> vmst) option" where
  "copy_string_loop m dst src maxn part b s =
     (let part = (if part > maxn then maxn else part) in do {
        r \<leftarrow> user_mem_check m src part False s;
        if \<not> fst r then Some (False, b, snd r)
        else let alen = strnlen b src part in
        if alen < part then Some (True, memcpy b dst src (alen + 1), snd r)
        else if part = maxn then Some (False, b, snd r)
        else copy_string_loop m (dst + part) (src + part) (maxn - part) PGSIZE
               (memcpy b dst src part) (snd r)
      })"

declare copy_string_loop.simps [code]

definition copy_string ::
    "nat option \<Rightarrow> nat \<Rightarrow> nat \<Rightarrow> nat \<Rightarrow> bytes \<times> vmst \<Rightarrow> (bool \<times> bytes \<times> vmst) option" where
  "copy_string m dst src maxn bs =
     copy_string_loop m dst src maxn (ROUNDDOWN (add64 src PGSIZE) PGSIZE - src) (fst bs) (snd bs)"

text \<open>
  \<open>do_pgfault\<close> as filled in by lab3/kern/mm/vmm.c; lab4 to lab8 leave the three calls of the swap
  branch out. The result is the error code.
\<close>

definition do_pgfault :: "nat option \<Rightarrow> nat \<Rightarrow> vmst \<Rightarrow> (int \<times> vmst) option" where
  "do_pgfault m addr s = do {
     (vma, s) \<leftarrow> find_vma m addr s;
     let s = s\<lparr>pgfault_num := add_u32 (pgfault_num s) 1\<rparr>;
     (case vma of
        None \<Rightarrow> Some (- E_INVAL, s)
      | Some v \<Rightarrow>
          if vm_start (vmas s v) > addr then Some (- E_INVAL, s)
          else do {
            m \<leftarrow> m;
            let perm = (if and (vm_flags (vmas s v)) VM_WRITE \<noteq> 0 then or PTE_U (or PTE_R PTE_W) else PTE_U);
            let addr = ROUNDDOWN addr PGSIZE;
            let pgd = mm_pgdir (mms s m);
            (slot, s) \<leftarrow> get_pte pgd addr True s;
            (case slot of
               None \<Rightarrow> Some (- E_NO_MEM, s)
             | Some slot \<Rightarrow>
                 if get_entry slot s = 0 then do {
                   (page, s) \<leftarrow> pgdir_alloc_page pgd addr perm s;
                   Some (if page = None then - E_NO_MEM else 0, s)
                 }
                 else if swap_init_ok s then do {
                   (page, s) \<leftarrow> swap_in m addr s;
                   (_, s) \<leftarrow> page_insert pgd page addr perm s;
                   (_, s) \<leftarrow> swap_map_swappable m addr page s;
                   Some (0, set_pra_vaddr page addr s)
                 }
                 else Some (- E_NO_MEM, s))
          })
   }"

subsection \<open>The areas as a sorted list of disjoint intervals\<close>

definition mm_areas :: "nat \<Rightarrow> vmst \<Rightarrow> nat list \<Rightarrow> bool" where
  "mm_areas m s vs \<longleftrightarrow>
     dlist (vlinks s) (MmapHead m) (map VmaLink vs) \<and>
     (\<forall>v \<in> set vs. vm_start (vmas s v) < vm_end (vmas s v)) \<and>
     sorted_wrt (\<lambda>v w. vm_end (vmas s v) \<le> vm_start (vmas s w)) vs \<and>
     (case mmap_cache (mms s m) of Some v \<Rightarrow> v \<in> set vs | None \<Rightarrow> True)"

lemma find_vma_loop_seg:
  assumes "dseg (vlinks s) le (map VmaLink vs) (MmapHead m)"
  shows "find_vma_loop m le addr s = Some (find (\<lambda>v. vma_covers v addr s) vs)"
  using assms
proof (induction vs arbitrary: le)
  case Nil
  then show ?case by (subst find_vma_loop.simps) (simp add: list_next_def)
next
  case (Cons v vs)
  then have "list_next le (vlinks s) = VmaLink v" by (simp add: list_next_def)
  with Cons show ?case by (subst find_vma_loop.simps) simp
qed

text \<open>At most one area covers an address.\<close>

lemma covers_unique:
  assumes "sorted_wrt (\<lambda>v w. vm_end (vmas s v) \<le> vm_start (vmas s w)) vs"
    and "v \<in> set vs" "w \<in> set vs" "vma_covers v addr s" "vma_covers w addr s"
  shows "v = w"
  using assms by (induction vs) (fastforce simp: vma_covers_def)+

lemma find_vma_areas:
  assumes "mm_areas m s vs"
  shows "\<exists>s'. find_vma (Some m) addr s = Some (find (\<lambda>v. vma_covers v addr s) vs, s') \<and>
    mm_areas m s' vs \<and> vmas s' = vmas s \<and> vlinks s' = vlinks s \<and>
    mm_pgdir (mms s' m) = mm_pgdir (mms s m) \<and> pmem s' = pmem s \<and> frames s' = frames s \<and>
    kmalloc_results s' = kmalloc_results s"
proof -
  have loop: "find_vma_loop m (MmapHead m) addr s = Some (find (\<lambda>v. vma_covers v addr s) vs)"
    using assms by (intro find_vma_loop_seg) (simp add: mm_areas_def dlist_def)
  have cached: "find (\<lambda>v. vma_covers v addr s) vs = Some v"
    if v: "mmap_cache (mms s m) = Some v" "vma_covers v addr s" for v
  proof -
    have "v \<in> set vs" using assms v by (simp add: mm_areas_def)
    then obtain w where w: "find (\<lambda>v. vma_covers v addr s) vs = Some w"
      using v(2) by (cases "find (\<lambda>v. vma_covers v addr s) vs") (auto simp: find_None_iff)
    then have "w \<in> set vs" "vma_covers w addr s" by (auto simp: find_Some_iff)
    with covers_unique [of s vs v w addr] \<open>v \<in> set vs\<close> v(2) assms w show ?thesis
      by (simp add: mm_areas_def)
  qed
  define r where "r = find (\<lambda>v. vma_covers v addr s) vs"
  have r: "w \<in> set vs" if "r = Some w" for w using that by (auto simp: r_def find_Some_iff)
  have "find_vma (Some m) addr s =
      Some (r, if r \<noteq> None then upd_mm m (\<lambda>d. d\<lparr>mmap_cache := r\<rparr>) s else s)"
    using loop cached by (auto simp: find_vma_def r_def split: option.split)
  then show ?thesis
    using assms r unfolding r_def [symmetric]
    by (intro exI [of _ "if r \<noteq> None then upd_mm m (\<lambda>d. d\<lparr>mmap_cache := r\<rparr>) s else s"])
      (auto simp: mm_areas_def upd_mm_def)
qed

lemma sorted_last_end:
  assumes "sorted_wrt (\<lambda>v w. vm_end (vmas s v) \<le> vm_start (vmas s w)) us"
    and "\<forall>u \<in> set us. vm_start (vmas s u) < vm_end (vmas s u)" and "u \<in> set us"
  shows "vm_end (vmas s u) \<le> vm_end (vmas s (last us))"
  using assms by (induction us rule: rev_induct) (fastforce simp: sorted_wrt_append)+

lemma sorted_first_start:
  assumes "sorted_wrt (\<lambda>v w. vm_end (vmas s v) \<le> vm_start (vmas s w)) us"
    and "\<forall>u \<in> set us. vm_start (vmas s u) < vm_end (vmas s u)" and "u \<in> set us"
  shows "vm_start (vmas s (hd us)) \<le> vm_start (vmas s u)"
  using assms by (cases us) fastforce+

lemma insert_vma_loop_seg:
  assumes "dseg (vlinks s) le (map VmaLink (us @ ws)) (MmapHead m)"
    and "\<forall>u \<in> set us. vm_start (vmas s u) \<le> vm_start (vmas s v)"
    and "ws \<noteq> [] \<longrightarrow> vm_start (vmas s v) < vm_start (vmas s (hd ws))"
  shows "insert_vma_loop m v p le s = Some (if us = [] then p else VmaLink (last us))"
  using assms
proof (induction us arbitrary: le p)
  case Nil
  then show ?case
    by (subst insert_vma_loop.simps) (cases ws; simp add: list_next_def Let_def)
next
  case (Cons u us)
  then have "list_next le (vlinks s) = VmaLink u" by (simp add: list_next_def)
  moreover have "insert_vma_loop m v (VmaLink u) (VmaLink u) s =
      Some (if us = [] then VmaLink u else VmaLink (last us))"
    using Cons by auto
  ultimately show ?case
    using Cons.prems by (subst insert_vma_loop.simps) (simp add: Let_def)
qed

text \<open>Where a new area goes, among areas sorted by their start.\<close>

definition before_start :: "nat \<Rightarrow> vmst \<Rightarrow> nat list \<Rightarrow> nat list" where
  "before_start x s vs = takeWhile (\<lambda>u. vm_start (vmas s u) \<le> x) vs"

definition after_start :: "nat \<Rightarrow> vmst \<Rightarrow> nat list \<Rightarrow> nat list" where
  "after_start x s vs = dropWhile (\<lambda>u. vm_start (vmas s u) \<le> x) vs"

lemma start_split [simp]: "before_start x s vs @ after_start x s vs = vs"
  by (simp add: before_start_def after_start_def)

definition overlaps :: "nat \<Rightarrow> nat \<Rightarrow> nat \<Rightarrow> vmst \<Rightarrow> bool" where
  "overlaps a b v s \<longleftrightarrow> a < vm_end (vmas s v) \<and> vm_start (vmas s v) < b"

text \<open>\<open>insert_vma_struct\<close>: the assertions pass exactly when no area overlaps the new one.\<close>

lemma insert_vma_areas:
  assumes areas: "mm_areas m s vs" and new: "v \<notin> set vs"
    and ne: "vm_start (vmas s v) < vm_end (vmas s v)"
  shows "(if \<exists>w \<in> set vs. overlaps (vm_start (vmas s v)) (vm_end (vmas s v)) w s
    then insert_vma_struct m v s = None
    else \<exists>s'. insert_vma_struct m v s = Some s' \<and>
      mm_areas m s' (before_start (vm_start (vmas s v)) s vs @ v # after_start (vm_start (vmas s v)) s vs) \<and>
      (\<forall>w. vm_start (vmas s' w) = vm_start (vmas s w) \<and> vm_end (vmas s' w) = vm_end (vmas s w)) \<and>
      map_count (mms s' m) = map_count (mms s m) + 1)"
proof -
  let ?x = "vm_start (vmas s v)" and ?y = "vm_end (vmas s v)"
  define us where "us = before_start ?x s vs"
  define ws where "ws = after_start ?x s vs"
  have vs: "vs = us @ ws" by (simp add: us_def ws_def)
  have ring: "dlist (vlinks s) (MmapHead m) (map VmaLink us @ map VmaLink ws)"
    and pos: "\<forall>w \<in> set vs. vm_start (vmas s w) < vm_end (vmas s w)"
    and sorted: "sorted_wrt (\<lambda>v w. vm_end (vmas s v) \<le> vm_start (vmas s w)) (us @ ws)"
    using areas vs by (simp_all add: mm_areas_def)
  have cache: "case mmap_cache (mms s m) of Some c \<Rightarrow> c \<in> set vs | None \<Rightarrow> True"
    using areas by (simp add: mm_areas_def)
  have us: "\<forall>u \<in> set us. vm_start (vmas s u) \<le> ?x"
    by (auto simp: us_def before_start_def dest: set_takeWhileD)
  have hd_ws: "ws \<noteq> [] \<longrightarrow> ?x < vm_start (vmas s (hd ws))"
    using hd_dropWhile [of "\<lambda>u. vm_start (vmas s u) \<le> ?x" vs]
    unfolding ws_def after_start_def not_le by blast
  let ?p = "if us = [] then MmapHead m else VmaLink (last us)"
  have loop: "insert_vma_loop m v (MmapHead m) (MmapHead m) s = Some ?p"
    using ring us hd_ws by (intro insert_vma_loop_seg) (simp_all add: dlist_def)
  have p_last: "?p = last (MmapHead m # map VmaLink us)" by (simp add: last_map)
  have nxt_p: "list_next ?p (vlinks s) = hd (map VmaLink ws @ [MmapHead m])"
  proof (cases us rule: rev_cases)
    case Nil
    with ring show ?thesis by (simp add: dlist_next_head)
  next
    case (snoc us' u)
    with ring dlist_next_node [of "vlinks s" "MmapHead m" "map VmaLink us'" "VmaLink u"]
    show ?thesis by simp
  qed
  have last_ok: "us \<noteq> [] \<Longrightarrow> check_vma_overlap (last us) v s \<longleftrightarrow> vm_end (vmas s (last us)) \<le> ?x"
    using ne pos vs by (auto simp: check_vma_overlap_def)
  have hd_ok: "ws \<noteq> [] \<Longrightarrow> check_vma_overlap v (hd ws) s \<longleftrightarrow> ?y \<le> vm_start (vmas s (hd ws))"
    using ne pos vs by (auto simp: check_vma_overlap_def)
  have us_end: "vm_end (vmas s u) \<le> vm_end (vmas s (last us))" if "u \<in> set us" for u
    using sorted_last_end [of s us u] sorted pos that vs by (simp add: sorted_wrt_append)
  have ws_start: "vm_start (vmas s (hd ws)) \<le> vm_start (vmas s w)" if "w \<in> set ws" for w
    using sorted_first_start [of s ws w] sorted pos that vs by (simp add: sorted_wrt_append)
  have no_overlap: "(\<exists>w \<in> set vs. overlaps ?x ?y w s) \<longleftrightarrow>
      (us \<noteq> [] \<and> \<not> vm_end (vmas s (last us)) \<le> ?x) \<or> (ws \<noteq> [] \<and> \<not> ?y \<le> vm_start (vmas s (hd ws)))"
  proof
    assume "\<exists>w \<in> set vs. overlaps ?x ?y w s"
    then show "(us \<noteq> [] \<and> \<not> vm_end (vmas s (last us)) \<le> ?x) \<or>
        (ws \<noteq> [] \<and> \<not> ?y \<le> vm_start (vmas s (hd ws)))"
      using us_end ws_start unfolding vs overlaps_def by fastforce
  next
    have "last us \<in> set us \<and> vm_start (vmas s (last us)) < ?y" if "us \<noteq> []"
      using that us [rule_format, OF last_in_set [OF that]] ne by simp
    moreover have "hd ws \<in> set ws \<and> ?x < vm_end (vmas s (hd ws))" if "ws \<noteq> []"
      using that hd_ws pos [rule_format, of "hd ws"] vs by simp
    moreover assume "(us \<noteq> [] \<and> \<not> vm_end (vmas s (last us)) \<le> ?x) \<or>
        (ws \<noteq> [] \<and> \<not> ?y \<le> vm_start (vmas s (hd ws)))"
    ultimately show "\<exists>w \<in> set vs. overlaps ?x ?y w s"
      unfolding vs overlaps_def by (auto simp: not_le)
  qed
  define s' where "s' = upd_mm m (\<lambda>d. d\<lparr>map_count := map_count d + 1\<rparr>)
    (upd_vlinks (list_add_after ?p (VmaLink v))
      (s\<lparr>vmas := (vmas s)(v := (vmas s v)\<lparr>vm_mm := Some m\<rparr>)\<rparr>))"
  have res: "insert_vma_struct m v s =
      (if (us \<noteq> [] \<longrightarrow> check_vma_overlap (last us) v s) \<and> (ws \<noteq> [] \<longrightarrow> check_vma_overlap v (hd ws) s)
       then Some s' else None)"
    using ne loop nxt_p
    by (cases ws) (auto simp: insert_vma_struct_def Let_def s'_def kassert_def)
  show ?thesis
  proof (cases "\<exists>w \<in> set vs. overlaps ?x ?y w s")
    case True
    with res no_overlap last_ok hd_ok show ?thesis by auto
  next
    case False
    then have ok: "us \<noteq> [] \<longrightarrow> vm_end (vmas s (last us)) \<le> ?x" "ws \<noteq> [] \<longrightarrow> ?y \<le> vm_start (vmas s (hd ws))"
      using no_overlap by auto
    have r: "insert_vma_struct m v s = Some s'"
      unfolding res using ok last_ok hd_ok by simp
    have fld: "vm_start (vmas s' w) = vm_start (vmas s w) \<and> vm_end (vmas s' w) = vm_end (vmas s w)" for w
      by (simp add: s'_def upd_mm_def upd_vlinks_def)
    have "VmaLink v \<notin> set (MmapHead m # map VmaLink us @ map VmaLink ws)" using new vs by auto
    from dlist_add_after [OF ring this p_last]
    have "dlist (vlinks s') (MmapHead m) (map VmaLink us @ VmaLink v # map VmaLink ws)"
      by (simp add: s'_def upd_mm_def upd_vlinks_def)
    moreover have "sorted_wrt (\<lambda>v w. vm_end (vmas s' v) \<le> vm_start (vmas s' w)) (us @ v # ws)"
      using sorted ok us_end ws_start unfolding fld [THEN conjunct1] fld [THEN conjunct2]
      by (fastforce simp: sorted_wrt_append)
    moreover have "mmap_cache (mms s' m) = mmap_cache (mms s m)"
      "map_count (mms s' m) = map_count (mms s m) + 1"
      by (simp_all add: s'_def upd_mm_def upd_vlinks_def)
    ultimately have "mm_areas m s' (us @ v # ws)"
      using pos ne cache vs unfolding mm_areas_def
      by (auto simp: fld split: option.splits)
    with False r fld \<open>map_count (mms s' m) = map_count (mms s m) + 1\<close> show ?thesis
      unfolding us_def ws_def by auto
  qed
qed

subsection \<open>Checking user memory\<close>

definition allowed :: "nat \<Rightarrow> nat \<Rightarrow> bool \<Rightarrow> vmst \<Rightarrow> bool" where
  "allowed v a wr s \<longleftrightarrow>
     vma_covers v a s \<and> and (vm_flags (vmas s v)) (if wr then VM_WRITE else VM_READ) \<noteq> 0 \<and>
     (wr \<and> and (vm_flags (vmas s v)) VM_STACK \<noteq> 0 \<longrightarrow> vm_start (vmas s v) + PGSIZE \<le> a)"

lemma vma_covers_vmas: "vmas s' = vmas s \<Longrightarrow> vma_covers v a s' = vma_covers v a s"
  by (simp add: vma_covers_def)

lemma allowed_vmas: "vmas s' = vmas s \<Longrightarrow> allowed v a wr s' = allowed v a wr s"
  by (simp add: allowed_def vma_covers_def)

lemma mm_areas_unique:
  "mm_areas m s vs \<Longrightarrow> v \<in> set vs \<Longrightarrow> w \<in> set vs \<Longrightarrow> vma_covers v a s \<Longrightarrow> vma_covers w a s \<Longrightarrow> v = w"
  using covers_unique by (auto simp: mm_areas_def)

lemma user_mem_loop_inv:
  assumes "mm_areas m s vs" and "\<forall>v \<in> set vs. vm_end (vmas s v) \<le> USERTOP"
  shows "\<exists>s'. user_mem_loop m start e wr s =
      Some (\<forall>a. start \<le> a \<and> a < e \<longrightarrow> (\<exists>v \<in> set vs. allowed v a wr s), s') \<and>
    mm_areas m s' vs \<and> vmas s' = vmas s"
  using assms
proof (induction "e - start" arbitrary: start s rule: less_induct)
  case less
  show ?case
  proof (cases "start < e")
    case False
    then show ?thesis using less.prems by (subst user_mem_loop.simps) auto
  next
    case True
    obtain s1 where s1: "find_vma (Some m) start s = Some (find (\<lambda>v. vma_covers v start s) vs, s1)"
      "mm_areas m s1 vs" "vmas s1 = vmas s"
      using find_vma_areas [OF less.prems(1), of start] by blast
    show ?thesis
    proof (cases "find (\<lambda>v. vma_covers v start s) vs")
      case None
      then have "\<not> (\<exists>v \<in> set vs. allowed v start wr s)" by (auto simp: find_None_iff allowed_def)
      with None True s1 show ?thesis by (subst user_mem_loop.simps) auto
    next
      case (Some v)
      then have v: "v \<in> set vs" "vma_covers v start s" by (auto simp: find_Some_iff)
      then have bnd: "add64 (vm_start (vmas s v)) PGSIZE = vm_start (vmas s v) + PGSIZE"
        using less.prems(2) by (fastforce simp: vma_covers_def USERTOP_def PGSIZE_def intro: add64_id)
      have only: "allowed w a wr s \<Longrightarrow> w \<in> set vs \<Longrightarrow> vma_covers v a s \<Longrightarrow> w = v" for w a
        using mm_areas_unique [OF less.prems(1)] v(1) by (auto simp: allowed_def)
      have unfolded: "user_mem_loop m start e wr s =
          (if allowed v start wr s then user_mem_loop m (vm_end (vmas s v)) e wr s1 else Some (False, s1))"
        using True s1(1,3) Some v(2) bnd
        by (subst user_mem_loop.simps) (auto simp: allowed_def vma_covers_def)
      show ?thesis
      proof (cases "allowed v start wr s")
        case False
        then have "\<not> (\<exists>w \<in> set vs. allowed w start wr s)" using only [of _ start] v(2) by auto
        with False unfolded True s1 show ?thesis by auto
      next
        case ok: True
        have low: "allowed v a wr s" if "start \<le> a" "a < vm_end (vmas s v)" for a
          using ok that by (auto simp: allowed_def vma_covers_def)
        have "e - vm_end (vmas s v) < e - start" using True v(2) by (auto simp: vma_covers_def)
        from less.hyps [OF this s1(2)] less.prems(2) s1(3) obtain s' where s':
          "user_mem_loop m (vm_end (vmas s v)) e wr s1 =
            Some (\<forall>a. vm_end (vmas s v) \<le> a \<and> a < e \<longrightarrow> (\<exists>v \<in> set vs. allowed v a wr s), s')"
          "mm_areas m s' vs" "vmas s' = vmas s"
          by (auto simp: allowed_vmas [OF s1(3)])
        have "(\<forall>a. vm_end (vmas s v) \<le> a \<and> a < e \<longrightarrow> (\<exists>v \<in> set vs. allowed v a wr s)) \<longleftrightarrow>
            (\<forall>a. start \<le> a \<and> a < e \<longrightarrow> (\<exists>v \<in> set vs. allowed v a wr s))"
          using low v by (fastforce simp: vma_covers_def not_le dest: leI)
        with s' ok unfolded show ?thesis by auto
      qed
    qed
  qed
qed

subsection \<open>Destroying an address space\<close>

lemma mm_destroy_loop_inv:
  assumes "dlist (vlinks s) (MmapHead m) (map VmaLink vs)"
  shows "\<exists>s'. mm_destroy_loop m s = Some s' \<and> kfreed s' = rev vs @ kfreed s \<and>
    dlist (vlinks s') (MmapHead m) []"
  using assms
proof (induction vs arbitrary: s)
  case Nil
  then have "list_next (MmapHead m) (vlinks s) = MmapHead m" by (simp add: dlist_next_head)
  with Nil show ?case by (subst mm_destroy_loop.simps) simp
next
  case (Cons v vs)
  define s1 where "s1 = kfree_call v (upd_vlinks (list_del (VmaLink v)) s)"
  have "list_next (MmapHead m) (vlinks s) = VmaLink v"
    using Cons.prems by (simp add: dlist_next_head)
  then have "mm_destroy_loop m s = mm_destroy_loop m s1"
    by (subst mm_destroy_loop.simps) (simp add: s1_def)
  moreover have "dlist (vlinks s1) (MmapHead m) (map VmaLink vs)"
    using dlist_del [of "vlinks s" "MmapHead m" "[]"] Cons.prems
    by (simp add: s1_def kfree_call_def upd_vlinks_def)
  ultimately show ?case
    using Cons.IH [of s1] by (auto simp: s1_def kfree_call_def upd_vlinks_def)
qed

subsection \<open>Properties\<close>

text \<open>\<open>find_vma\<close> returns the area that contains the address, or \<open>NULL\<close> when there is none; the
  cached area never makes a difference, and the areas stay as they are.\<close>

theorem find_vma_correct:
  assumes "mm_areas m s vs"
  shows "\<exists>s'. find_vma (Some m) addr s = Some (find (\<lambda>v. vma_covers v addr s) vs, s') \<and>
    mm_areas m s' vs \<and> vmas s' = vmas s"
  using find_vma_areas [OF assms] by blast

text \<open>An address space with two areas.\<close>

definition vm0 :: vmst where
  "vm0 =
     \<lparr>pmem = \<lparr>pages = (\<lambda>_. \<lparr>ref = 0, flags = 0, property = 0, pra_vaddr = 0\<rparr>),
        free_links = \<lparr>prv = id, nxt = id\<rparr>, nr_free = 0\<rparr>,
      frames = (\<lambda>_ _. 0), swap_init_ok = False, check_mm_struct = None,
      pra = \<lparr>prv = id, nxt = id\<rparr>, disk = (\<lambda>_ _. 0), max_swap_offset = 8,
      mms = (\<lambda>_. \<lparr>mmap_cache = None, mm_pgdir = 0, map_count = 2, sm_priv = False, mm_count = 0,
        locked_by = 0\<rparr>),
      vmas = (\<lambda>_. \<lparr>vm_mm = Some 1, vm_start = 0x800000, vm_end = 0x802000, vm_flags = 3\<rparr>)
        (5 := \<lparr>vm_mm = Some 1, vm_start = 0x804000, vm_end = 0x806000, vm_flags = 1\<rparr>),
      vlinks = \<lparr>prv = id(MmapHead 1 := VmaLink 5, VmaLink 5 := VmaLink 4, VmaLink 4 := MmapHead 1),
        nxt = id(MmapHead 1 := VmaLink 4, VmaLink 4 := VmaLink 5, VmaLink 5 := MmapHead 1)\<rparr>,
      kmalloc_results = [Some 9], kfreed = [], pgfault_num = 0\<rparr>"

lemma vm0_areas: "mm_areas 1 vm0 [4, 5]"
  by (simp add: mm_areas_def vm0_def dlist_def)

theorem find_vma_correct_witness: "\<exists>s'. find_vma (Some 1) 0x805123 vm0 = Some (Some 5, s')"
  using find_vma_correct [OF vm0_areas, of "0x805123"] by (auto simp: vma_covers_def vm0_def)

text \<open>C34. \<open>insert_vma_struct\<close> keeps the areas sorted and disjoint; it panics exactly when the new area
  overlaps one that is there.\<close>

theorem insert_vma_struct_correct:
  assumes "mm_areas m s vs" and "v \<notin> set vs" and "vm_start (vmas s v) < vm_end (vmas s v)"
  shows "(if \<exists>w \<in> set vs. overlaps (vm_start (vmas s v)) (vm_end (vmas s v)) w s
    then insert_vma_struct m v s = None
    else \<exists>s'. insert_vma_struct m v s = Some s' \<and>
      mm_areas m s' (before_start (vm_start (vmas s v)) s vs @ v # after_start (vm_start (vmas s v)) s vs) \<and>
      map_count (mms s' m) = map_count (mms s m) + 1)"
  using insert_vma_areas [OF assms] by (auto split: if_splits)

definition vm1 :: vmst where
  "vm1 = vm0\<lparr>vmas := (vmas vm0)(9 := \<lparr>vm_mm = None, vm_start = 0x803000, vm_end = 0x804000, vm_flags = 3\<rparr>)\<rparr>"

theorem insert_vma_struct_correct_witness:
  "\<exists>s'. insert_vma_struct 1 9 vm1 = Some s' \<and> mm_areas 1 s' [4, 9, 5]"
proof -
  have "mm_areas 1 vm1 [4, 5]" by (simp add: mm_areas_def vm1_def vm0_def dlist_def)
  from insert_vma_struct_correct [OF this, of 9] show ?thesis
    by (simp add: vm1_def vm0_def overlaps_def before_start_def after_start_def)
      (auto split: if_splits)
qed

text \<open>\<open>mm_map\<close> past its checks: a fresh area is filled in and inserted, or there is an overlap.\<close>

lemma vma_create_insert:
  assumes "mm_areas m s vs" and "kmalloc_results s = Some v # rs" and "v \<notin> set vs" and "start < e"
  shows "\<exists>s2. vma_create start e fl s = (Some v, s2) \<and>
    (if \<exists>w \<in> set vs. overlaps start e w s then insert_vma_struct m v s2 = None
     else \<exists>s'. insert_vma_struct m v s2 = Some s' \<and> mm_areas m s' (before_start start s vs @ v # after_start start s vs) \<and>
       vm_start (vmas s' v) = start \<and> vm_end (vmas s' v) = e)"
proof -
  define s2 where "s2 = s\<lparr>kmalloc_results := rs,
    vmas := (vmas s)(v := (vmas s v)\<lparr>vm_start := start, vm_end := e, vm_flags := fl\<rparr>)\<rparr>"
  have cr: "vma_create start e fl s = (Some v, s2)"
    using assms(2) by (simp add: vma_create_def kmalloc_call_def s2_def)
  have other: "vmas s2 w = vmas s w" if "w \<in> set vs" for w using that assms(3) by (auto simp: s2_def)
  have "mm_areas m s2 vs"
    using assms(1,3) other unfolding mm_areas_def by (auto simp: s2_def sorted_wrt_iff_nth_less)
  note ins = insert_vma_areas [OF this assms(3)]
  have sv: "vm_start (vmas s2 v) = start" "vm_end (vmas s2 v) = e" by (simp_all add: s2_def)
  have ov: "overlaps start e w s2 \<longleftrightarrow> overlaps start e w s" if "w \<in> set vs" for w
    by (simp add: overlaps_def other [OF that])
  have "before_start start s2 vs = before_start start s vs" "after_start start s2 vs = after_start start s vs"
    unfolding before_start_def after_start_def using other by (auto intro!: takeWhile_cong dropWhile_cong)
  with ins assms(4) ov sv cr show ?thesis by (auto split: if_splits)
qed

text \<open>C35. \<open>mm_map\<close> on a well-formed address space: a range outside user memory, or one whose first page
  is already mapped, is refused with \<open>-E_INVAL\<close>; without memory the result is \<open>-E_NO_MEM\<close>; a range
  that runs into a later area is not refused but panics in \<open>insert_vma_struct\<close>; otherwise the area is added.\<close>

theorem mm_map_cases:
  assumes "mm_areas m s vs" and "\<forall>v rs. kmalloc_results s = Some v # rs \<longrightarrow> v \<notin> set vs"
  shows "let start = ROUNDDOWN addr PGSIZE; e = ROUNDUP (add64 addr len) PGSIZE in
    (if \<not> USER_ACCESS start e then mm_map (Some m) addr len fl s = Some (- E_INVAL, None, s)
     else if \<exists>v \<in> set vs. vma_covers v start s
     then \<exists>s'. mm_map (Some m) addr len fl s = Some (- E_INVAL, None, s') \<and> mm_areas m s' vs
     else case kmalloc_results s of
         Some v # rs \<Rightarrow>
           if \<exists>w \<in> set vs. overlaps start e w s then mm_map (Some m) addr len fl s = None
           else \<exists>s'. mm_map (Some m) addr len fl s = Some (0, Some v, s') \<and>
             mm_areas m s' (before_start start s vs @ v # after_start start s vs) \<and>
             vm_start (vmas s' v) = start \<and> vm_end (vmas s' v) = e
       | _ \<Rightarrow> \<exists>s'. mm_map (Some m) addr len fl s = Some (- E_NO_MEM, None, s') \<and> mm_areas m s' vs)"
proof -
  define start where "start = ROUNDDOWN addr PGSIZE"
  define e where "e = ROUNDUP (add64 addr len) PGSIZE"
  obtain s1 where s1: "find_vma (Some m) start s = Some (find (\<lambda>v. vma_covers v start s) vs, s1)"
    "mm_areas m s1 vs" "vmas s1 = vmas s" "vlinks s1 = vlinks s" "kmalloc_results s1 = kmalloc_results s"
    using find_vma_areas [OF assms(1), of start] by blast
  show ?thesis
  proof (cases "USER_ACCESS start e")
    case False
    then show ?thesis by (simp add: mm_map_def start_def [symmetric] e_def [symmetric] Let_def)
  next
    case ua: True
    then have se: "start < e" by (simp add: USER_ACCESS_def)
    show ?thesis
    proof (cases "\<exists>v \<in> set vs. vma_covers v start s")
      case True
      then obtain v where v: "find (\<lambda>v. vma_covers v start s) vs = Some v"
        by (cases "find (\<lambda>v. vma_covers v start s) vs") (auto simp: find_None_iff)
      then have "vm_start (vmas s v) < e" using se by (auto simp: find_Some_iff vma_covers_def)
      with v ua s1 True show ?thesis
        by (simp add: mm_map_def start_def [symmetric] e_def [symmetric] Let_def)
    next
      case uncovered: False
      then have none: "find (\<lambda>v. vma_covers v start s) vs = None" by (auto simp: find_None_iff)
      show ?thesis
      proof (cases "\<exists>v rs. kmalloc_results s = Some v # rs")
        case False
        then have "\<exists>s2. vma_create start e fl s1 = (None, s2) \<and> mm_areas m s2 vs"
          using s1 by (cases "kmalloc_results s" rule: list.exhaust)
            (auto simp: vma_create_def kmalloc_call_def mm_areas_def split: option.splits)
        with False ua uncovered none s1 show ?thesis
          by (auto simp: mm_map_def start_def [symmetric] e_def [symmetric] Let_def
              split: list.splits option.splits)
      next
        case True
        then obtain v rs where v: "kmalloc_results s = Some v # rs" by blast
        have "kmalloc_results s1 = Some v # rs" "v \<notin> set vs" using v s1(5) assms(2) by auto
        note cr = vma_create_insert [OF s1(2) this se, of fl]
        have same: "overlaps start e w s1 = overlaps start e w s" "before_start start s1 vs = before_start start s vs"
          "after_start start s1 vs = after_start start s vs" for w
          by (simp_all add: overlaps_def before_start_def after_start_def s1(3))
        obtain s2 where
          "vma_create start e fl s1 = (Some v, s2)"
          "if \<exists>w \<in> set vs. overlaps start e w s then insert_vma_struct m v s2 = None
           else \<exists>s'. insert_vma_struct m v s2 = Some s' \<and> mm_areas m s' (before_start start s vs @ v # after_start start s vs) \<and>
             vm_start (vmas s' v) = start \<and> vm_end (vmas s' v) = e"
          using cr unfolding same by blast
        with v ua uncovered none s1(1) show ?thesis
          by (simp add: mm_map_def start_def [symmetric] e_def [symmetric] Let_def)
            (auto split: if_splits)
      qed
    qed
  qed
qed

theorem mm_map_cases_witness:
  "mm_map (Some 1) 0x803000 0x2000 3 vm0 = None"
proof -
  have "ROUNDDOWN 0x803000 PGSIZE = 0x803000" "ROUNDUP (add64 0x803000 0x2000) PGSIZE = 0x805000"
    by (simp_all add: ROUNDDOWN_def ROUNDUP_def PGSIZE_def)
  moreover have "USER_ACCESS 0x803000 0x805000" "\<not> (\<exists>v \<in> set [4, 5]. vma_covers v 0x803000 vm0)"
    "\<exists>w \<in> set [4, 5]. overlaps 0x803000 0x805000 w vm0"
    by (simp_all add: USER_ACCESS_def USERBASE_def USERTOP_def vma_covers_def overlaps_def vm0_def)
  moreover have "kmalloc_results vm0 = [Some 9]" by (simp add: vm0_def)
  ultimately show ?thesis
    using mm_map_cases [OF vm0_areas, of "0x803000" "0x2000" 3] by (simp add: Let_def)
qed

text \<open>C12. \<open>user_mem_check\<close> always returns, and accepts a range of user memory exactly when every byte of
  it lies in an area with the permission asked for (and above the guard page of a stack area, for
  writing).\<close>

theorem user_mem_check_exact:
  assumes "mm_areas m s vs" and "\<forall>v \<in> set vs. vm_end (vmas s v) \<le> USERTOP"
  shows "\<exists>s'. user_mem_check (Some m) addr len wr s =
      Some (USER_ACCESS addr (add64 addr len) \<and>
        (\<forall>a. addr \<le> a \<and> a < add64 addr len \<longrightarrow> (\<exists>v \<in> set vs. allowed v a wr s)), s') \<and>
    mm_areas m s' vs \<and> vmas s' = vmas s"
proof (cases "USER_ACCESS addr (add64 addr len)")
  case True
  with user_mem_loop_inv [OF assms, of addr "add64 addr len" wr] show ?thesis
    by (auto simp: user_mem_check_def)
next
  case False
  with assms(1) show ?thesis by (auto simp: user_mem_check_def)
qed

theorem user_mem_check_exact_witness:
  "\<exists>s'. user_mem_check (Some 1) 0x800010 0x100 True vm0 = Some (True, s')"
proof -
  have "\<forall>v \<in> set [4, 5]. vm_end (vmas vm0 v) \<le> USERTOP"
    by (simp add: vm0_def USERTOP_def)
  moreover have "\<exists>v \<in> set [4, 5]. allowed v a True vm0" if "0x800010 \<le> a" "a < 0x800110" for a
    using that by (auto simp: allowed_def vma_covers_def vm0_def VM_WRITE_def VM_STACK_def)
  ultimately show ?thesis
    using user_mem_check_exact [OF vm0_areas, of "0x800010" "0x100" True]
    by (auto simp: USER_ACCESS_def USERBASE_def USERTOP_def)
qed

text \<open>\<open>mm_destroy\<close> frees every area of the address space once, and the address space itself.\<close>

theorem mm_destroy_frees_all:
  assumes "mm_areas m s vs" and "mm_count (mms s m) = 0"
  shows "\<exists>s'. mm_destroy m s = Some s' \<and> kfreed s' = m # rev vs @ kfreed s \<and> distinct vs"
proof -
  have ring: "dlist (vlinks s) (MmapHead m) (map VmaLink vs)" using assms(1) by (simp add: mm_areas_def)
  then have "distinct vs" by (auto simp: distinct_map dest!: dlist_distinct)
  moreover obtain s' where "mm_destroy_loop m s = Some s'" "kfreed s' = rev vs @ kfreed s"
    using mm_destroy_loop_inv [OF ring] by blast
  ultimately show ?thesis using assms(2) by (simp add: mm_destroy_def kfree_call_def)
qed

theorem mm_destroy_frees_all_witness: "\<exists>s'. mm_destroy 1 vm0 = Some s' \<and> kfreed s' = [1, 5, 4]"
  using mm_destroy_frees_all [OF vm0_areas] by (simp add: vm0_def)

end
