(* ===== verification/Proc.thy ===== *)
theory Proc
  imports Sched CString
begin

text \<open>
  Process management of kern/process/proc.c on the process control blocks: names, the family
  tree (\<open>cptr\<close>, \<open>yptr\<close>, \<open>optr\<close>), process identifiers, the pid hash table, and the parts of
  \<open>do_exit\<close>, \<open>do_wait\<close>, \<open>do_kill\<close> and \<open>do_sleep\<close> that act on them; the hash function of
  libs/hash.c. The bodies of \<open>alloc_proc\<close>, \<open>proc_run\<close>, \<open>load_icode\<close> and most of \<open>do_fork\<close> are left
  empty in the repository.
\<close>

subsection \<open>Names\<close>

definition PROC_NAME_LEN :: nat where "PROC_NAME_LEN = 15"

text \<open>\<open>name\<close> points into the memory \<open>m\<close>; \<open>PROC_NAME_LEN\<close> bytes are read, whatever the length
  of the string there.\<close>

definition set_proc_name :: "nat \<Rightarrow> bytes \<Rightarrow> nat \<Rightarrow> kst \<Rightarrow> kst" where
  "set_proc_name p m name s =
     upd_proc p (\<lambda>d. d\<lparr>pname := map (\<lambda>i. m (name + i)) [0 ..< PROC_NAME_LEN] @ [0]\<rparr>) s"

definition get_proc_name :: "nat \<Rightarrow> kst \<Rightarrow> byte list" where
  "get_proc_name p s = take PROC_NAME_LEN (pname (procs s p)) @ [0]"

subsection \<open>The family tree\<close>

definition set_optr :: "nat \<Rightarrow> nat option \<Rightarrow> kst \<Rightarrow> kst" where
  "set_optr p v = upd_proc p (\<lambda>d. d\<lparr>optr := v\<rparr>)"

definition set_yptr :: "nat \<Rightarrow> nat option \<Rightarrow> kst \<Rightarrow> kst" where
  "set_yptr p v = upd_proc p (\<lambda>d. d\<lparr>yptr := v\<rparr>)"

definition set_cptr :: "nat \<Rightarrow> nat option \<Rightarrow> kst \<Rightarrow> kst" where
  "set_cptr p v = upd_proc p (\<lambda>d. d\<lparr>cptr := v\<rparr>)"

definition set_parent :: "nat \<Rightarrow> nat option \<Rightarrow> kst \<Rightarrow> kst" where
  "set_parent p v = upd_proc p (\<lambda>d. d\<lparr>parent := v\<rparr>)"

definition set_links :: "nat \<Rightarrow> kst \<Rightarrow> kst option" where
  "set_links p s = do {
     let s = upd_klinks (list_add ProcHead (ListLink p)) s;
     let s = set_yptr p None s;
     par \<leftarrow> parent (procs s p);
     let s = set_optr p (cptr (procs s par)) s;
     let s = (case optr (procs s p) of None \<Rightarrow> s | Some q \<Rightarrow> set_yptr q (Some p) s);
     par \<leftarrow> parent (procs s p);
     let s = set_cptr par (Some p) s;
     Some (s\<lparr>nr_process := nr_process s + 1\<rparr>)
   }"

definition remove_links :: "nat \<Rightarrow> kst \<Rightarrow> kst option" where
  "remove_links p s = do {
     let s = upd_klinks (list_del (ListLink p)) s;
     let s = (case optr (procs s p) of None \<Rightarrow> s | Some q \<Rightarrow> set_yptr q (yptr (procs s p)) s);
     s \<leftarrow> (case yptr (procs s p) of
            Some q \<Rightarrow> Some (set_optr q (optr (procs s p)) s)
          | None \<Rightarrow> do { par \<leftarrow> parent (procs s p); Some (set_cptr par (optr (procs s p)) s) });
     Some (s\<lparr>nr_process := nr_process s - 1\<rparr>)
   }"

subsection \<open>Process identifiers\<close>

text \<open>
  The loop of \<open>get_pid\<close>, from the list node \<open>le\<close> with \<open>last_pid\<close> and \<open>next_safe\<close>; going back
  to the label \<open>repeat\<close> is a call at the list head.
\<close>

partial_function (option) get_pid_loop :: "knode \<Rightarrow> int \<Rightarrow> int \<Rightarrow> kst \<Rightarrow> (int \<times> int) option" where
  "get_pid_loop le lp ns s =
     (let le = list_next le (klinks s) in
      if le = ProcHead then Some (lp, ns)
      else do {
        p \<leftarrow> le2proc_list le;
        if pid (procs s p) = lp then
          if lp + 1 \<ge> ns
          then get_pid_loop ProcHead (if lp + 1 \<ge> MAX_PID then 1 else lp + 1) MAX_PID s
          else get_pid_loop le (lp + 1) ns s
        else if pid (procs s p) > lp \<and> ns > pid (procs s p)
        then get_pid_loop le lp (pid (procs s p)) s
        else get_pid_loop le lp ns s
      })"

declare get_pid_loop.simps [code]

definition get_pid :: "kst \<Rightarrow> (int \<times> kst) option" where
  "get_pid s =
     (let lp = last_pid s + 1 in
      if lp \<ge> MAX_PID then do {
        (lp, ns) \<leftarrow> get_pid_loop ProcHead 1 MAX_PID s;
        Some (lp, s\<lparr>last_pid := lp, next_safe := ns\<rparr>)
      }
      else if lp \<ge> next_safe s then do {
        (lp, ns) \<leftarrow> get_pid_loop ProcHead lp MAX_PID s;
        Some (lp, s\<lparr>last_pid := lp, next_safe := ns\<rparr>)
      }
      else Some (lp, s\<lparr>last_pid := lp\<rparr>))"

subsection \<open>The pid hash table\<close>

definition HASH_SHIFT :: nat where "HASH_SHIFT = 10"

definition HASH_LIST_SIZE :: nat where "HASH_LIST_SIZE = 1024"

definition hash32 :: "32 word \<Rightarrow> nat \<Rightarrow> 32 word" where
  "hash32 val bits =
     (let hash = (ucast (ucast val * (0x9e370001 :: 64 word)) :: 32 word)
      in drop_bit (32 - bits) hash)"

definition pid_hashfn :: "int \<Rightarrow> nat" where
  "pid_hashfn x = unat (hash32 (of_int x) HASH_SHIFT)"

definition hash_proc :: "nat \<Rightarrow> kst \<Rightarrow> kst" where
  "hash_proc p s = upd_klinks (list_add (HashHead (pid_hashfn (pid (procs s p)))) (HashLink p)) s"

definition unhash_proc :: "nat \<Rightarrow> kst \<Rightarrow> kst" where
  "unhash_proc p s = upd_klinks (list_del (HashLink p)) s"

partial_function (option) find_proc_loop :: "knode \<Rightarrow> knode \<Rightarrow> int \<Rightarrow> kst \<Rightarrow> nat option option" where
  "find_proc_loop lh le i s =
     (let le = list_next le (klinks s) in
      if le = lh then Some None
      else do {
        p \<leftarrow> le2proc_hash le;
        if pid (procs s p) = i then Some (Some p) else find_proc_loop lh le i s
      })"

declare find_proc_loop.simps [code]

definition find_proc :: "int \<Rightarrow> kst \<Rightarrow> nat option option" where
  "find_proc i s =
     (if 0 < i \<and> i < MAX_PID then
        let lh = HashHead (pid_hashfn i) in find_proc_loop lh lh i s
      else Some None)"

text \<open>The lists of \<open>proc_init\<close>.\<close>

definition init_lists :: "kst \<Rightarrow> kst" where
  "init_lists s = upd_klinks (\<lambda>h. fold (\<lambda>i. list_init (HashHead i)) [0 ..< HASH_LIST_SIZE] (list_init ProcHead h)) s"

subsection \<open>Exit, wait, kill, sleep\<close>

text \<open>One round of the loop of \<open>do_exit\<close> that gives the children of \<open>c\<close> to the process \<open>i\<close>.\<close>

definition reparent_one :: "nat \<Rightarrow> nat \<Rightarrow> nat \<Rightarrow> kst \<Rightarrow> kst option" where
  "reparent_one c i p s = do {
     let s = set_cptr c (optr (procs s p)) s;
     let s = set_yptr p None s;
     let s = set_optr p (cptr (procs s i)) s;
     let s = (case cptr (procs s i) of None \<Rightarrow> s | Some q \<Rightarrow> set_yptr q (Some p) s);
     let s = set_parent p (Some i) s;
     let s = set_cptr i (Some p) s;
     if pstate (procs s p) = PROC_ZOMBIE \<and> wait_state (procs s i) = WT_CHILD
     then wakeup_proc i s else Some s
   }"

partial_function (option) reparent_loop :: "nat \<Rightarrow> nat \<Rightarrow> kst \<Rightarrow> kst option" where
  "reparent_loop c i s =
     (case cptr (procs s c) of
        None \<Rightarrow> Some s
      | Some p \<Rightarrow> do { s \<leftarrow> reparent_one c i p s; reparent_loop c i s })"

declare reparent_loop.simps [code]

text \<open>\<open>do_exit\<close> from the change of state to the call of \<open>schedule\<close>.\<close>

definition exit_family :: "int \<Rightarrow> kst \<Rightarrow> kst option" where
  "exit_family error_code s = do {
     c \<leftarrow> current s;
     let s = upd_proc c (\<lambda>d. d\<lparr>pstate := PROC_ZOMBIE, exit_code := error_code\<rparr>) s;
     p \<leftarrow> parent (procs s c);
     s \<leftarrow> (if wait_state (procs s p) = WT_CHILD then wakeup_proc p s else Some s);
     (case cptr (procs s c) of
        None \<Rightarrow> Some s
      | Some _ \<Rightarrow> do { i \<leftarrow> initproc s; reparent_loop c i s })
   }"

text \<open>
  The search of \<open>do_wait\<close>, from the label \<open>repeat\<close> to the decision: \<open>haskid\<close> and the zombie found.
\<close>

partial_function (option) zombie_loop :: "nat option \<Rightarrow> bool \<Rightarrow> kst \<Rightarrow> (bool \<times> nat option) option" where
  "zombie_loop p haskid s =
     (case p of
        None \<Rightarrow> Some (haskid, None)
      | Some q \<Rightarrow> if pstate (procs s q) = PROC_ZOMBIE then Some (True, Some q)
                 else zombie_loop (optr (procs s q)) True s)"

declare zombie_loop.simps [code]

definition wait_look :: "int \<Rightarrow> kst \<Rightarrow> (bool \<times> nat option) option" where
  "wait_look i s = do {
     c \<leftarrow> current s;
     if i \<noteq> 0 then do {
       r \<leftarrow> find_proc i s;
       Some (case r of
               None \<Rightarrow> (False, None)
             | Some p \<Rightarrow>
                 if parent (procs s p) = Some c
                 then (True, if pstate (procs s p) = PROC_ZOMBIE then Some p else None)
                 else (False, None))
     }
     else zombie_loop (cptr (procs s c)) False s
   }"

definition wait_sleep :: "nat \<Rightarrow> kst \<Rightarrow> kst" where
  "wait_sleep c s = upd_proc c (\<lambda>d. d\<lparr>pstate := PROC_SLEEPING, wait_state := WT_CHILD\<rparr>) s"

text \<open>From the label \<open>found\<close> up to \<open>put_kstack\<close>; the result holds the exit code.\<close>

definition wait_reap :: "nat \<Rightarrow> kst \<Rightarrow> (int \<times> kst) option" where
  "wait_reap p s = do {
     kassert (\<not> (Some p = idleproc s \<or> Some p = initproc s));
     let code = exit_code (procs s p);
     s \<leftarrow> remove_links p (unhash_proc p s);
     Some (code, s)
   }"

definition do_kill :: "int \<Rightarrow> kst \<Rightarrow> (int \<times> kst) option" where
  "do_kill i s = do {
     r \<leftarrow> find_proc i s;
     (case r of
        Some p \<Rightarrow>
          if and (pflags (procs s p)) PF_EXITING = 0 then do {
            let s = upd_proc p (\<lambda>d. d\<lparr>pflags := or (pflags d) PF_EXITING\<rparr>) s;
            s \<leftarrow> (if and (wait_state (procs s p)) WT_INTERRUPTED \<noteq> 0 then wakeup_proc p s else Some s);
            Some (0, s)
          }
          else Some (- E_KILLED, s)
      | None \<Rightarrow> Some (- E_INVAL, s))
   }"

definition do_yield :: "kst \<Rightarrow> (int \<times> kst) option" where
  "do_yield s = do { c \<leftarrow> current s; Some (0, upd_proc c (\<lambda>d. d\<lparr>need_resched := True\<rparr>) s) }"

definition lab6_set_priority :: "nat \<Rightarrow> kst \<Rightarrow> kst option" where
  "lab6_set_priority priority s = do {
     c \<leftarrow> current s;
     Some (upd_proc c (\<lambda>d. d\<lparr>proc.lab6_priority := (if priority = 0 then 1 else priority)\<rparr>) s)
   }"

text \<open>\<open>do_sleep\<close>, first up to the call of \<open>schedule\<close>; \<open>t\<close> is the timer on the caller's kernel stack.\<close>

definition sleep_begin :: "nat \<Rightarrow> nat \<Rightarrow> kst \<Rightarrow> kst option" where
  "sleep_begin t time s = do {
     c \<leftarrow> current s;
     let s = timer_init t c time s;
     let s = upd_proc c (\<lambda>d. d\<lparr>pstate := PROC_SLEEPING, wait_state := WT_TIMER\<rparr>) s;
     add_timer t s
   }"

definition do_sleep :: "(nat \<Rightarrow> kst \<Rightarrow> kst option) \<Rightarrow> nat \<Rightarrow> nat \<Rightarrow> kst \<Rightarrow> (int \<times> kst) option" where
  "do_sleep run t time s =
     (if time = 0 then Some (0, s)
      else do { s \<leftarrow> sleep_begin t time s; s \<leftarrow> schedule run s; s \<leftarrow> del_timer t s; Some (0, s) })"

subsection \<open>A fresh pid\<close>

definition proc_ring :: "kst \<Rightarrow> nat list \<Rightarrow> bool" where
  "proc_ring s ps \<longleftrightarrow> dlist (klinks s) ProcHead (map ListLink ps)"

text \<open>\<open>unused lp ns\<close>: no process of the list has the pid \<open>lp\<close> or one between \<open>lp\<close> and \<open>ns\<close>.\<close>

definition unused :: "kst \<Rightarrow> nat list \<Rightarrow> int \<Rightarrow> int \<Rightarrow> bool" where
  "unused s ps lp ns \<longleftrightarrow> (\<forall>p \<in> set ps. \<not> (lp \<le> pid (procs s p) \<and> pid (procs s p) < ns))"

definition pid_inv :: "kst \<Rightarrow> nat list \<Rightarrow> bool" where
  "pid_inv s ps \<longleftrightarrow> proc_ring s ps \<and> 1 \<le> last_pid s \<and> last_pid s \<le> MAX_PID \<and>
     next_safe s \<le> MAX_PID \<and> unused s ps (last_pid s + 1) (next_safe s)"

lemma ring_next:
  assumes "proc_ring s (us @ vs)"
  shows "list_next (last (ProcHead # map ListLink us)) (klinks s) = hd (map ListLink vs @ [ProcHead])"
proof (cases us rule: rev_cases)
  case Nil
  then show ?thesis using dlist_first assms by (fastforce simp: proc_ring_def list_next_def)
next
  case (snoc ws w)
  then have "dlist (klinks s) ProcHead (map ListLink ws @ ListLink w # map ListLink vs)"
    using assms by (simp add: proc_ring_def)
  from dlist_split_links(2) [OF this] show ?thesis by (simp add: snoc list_next_def)
qed

lemma unused_snoc [simp]:
  "unused s (us @ [p]) lp ns \<longleftrightarrow> unused s us lp ns \<and> \<not> (lp \<le> pid (procs s p) \<and> pid (procs s p) < ns)"
  by (auto simp: unused_def)

lemma unused_mono: "unused s ps lp ns \<Longrightarrow> lp \<le> lp' \<Longrightarrow> ns' \<le> ns \<Longrightarrow> unused s ps lp' ns'"
  by (fastforce simp: unused_def)

text \<open>
  \<open>away lp f\<close> is the number of candidates from \<open>lp\<close> to a free pid \<open>f\<close>, counting on from 1 behind
  the largest pid. Every change of \<open>last_pid\<close> in the loop makes it smaller, so the loop ends.
\<close>

definition away :: "int \<Rightarrow> int \<Rightarrow> nat" where
  "away lp f = nat (if lp \<le> f then f - lp else f - lp + MAX_PID - 1)"

lemma away_next:
  assumes "1 \<le> lp" and "lp < MAX_PID" and "1 \<le> f" and "f < MAX_PID" and "lp \<noteq> f"
  shows "away (if MAX_PID \<le> lp + 1 then 1 else lp + 1) f < away lp f"
  using assms by (auto simp: away_def)

lemma get_pid_loop_ends:
  assumes "proc_ring s (us @ vs)" and "1 \<le> lp" and "lp < ns" and "ns \<le> MAX_PID" and "unused s us lp ns"
    and f: "1 \<le> f" "f < MAX_PID" "f \<notin> (\<lambda>p. pid (procs s p)) ` set (us @ vs)"
  shows "\<exists>lp' ns'. get_pid_loop (last (ProcHead # map ListLink us)) lp ns s = Some (lp', ns') \<and>
    1 \<le> lp' \<and> lp' < ns' \<and> ns' \<le> MAX_PID \<and> unused s (us @ vs) lp' ns'"
  using assms
proof (induction "away lp f * Suc (length (us @ vs)) + length vs" arbitrary: us vs lp ns rule: less_induct)
  case less
  note ring = less.prems(1)
  show ?case
  proof (cases vs)
    case Nil
    then show ?thesis using less.prems ring_next [OF ring]
      by (subst get_pid_loop.simps) (simp add: Let_def)
  next
    case (Cons p ws)
    have next_node: "list_next (last (ProcHead # map ListLink us)) (klinks s) = ListLink p"
      using ring_next [OF ring] Cons by simp
    have ring': "proc_ring s ((us @ [p]) @ ws)" using ring Cons by simp
    have at: "last (ProcHead # map ListLink (us @ [p])) = ListLink p" by simp
    have f': "f \<notin> (\<lambda>q. pid (procs s q)) ` set ((us @ [p]) @ ws)" using less.prems(8) Cons by simp
    have len: "length ((us @ [p]) @ ws) = length (us @ vs)" using Cons by simp
    show ?thesis
    proof (cases "pid (procs s p) = lp")
      case same: True
      then have nf: "lp \<noteq> f" using f' by auto
      define lp1 where "lp1 = (if MAX_PID \<le> lp + 1 then 1 else lp + 1)"
      have aw: "away lp1 f < away lp f" unfolding lp1_def by (rule away_next) (use less.prems nf in auto)
      then have smaller: "away lp1 f * Suc (length (us @ vs)) + n < away lp f * Suc (length (us @ vs)) + length vs"
        if "n \<le> length (us @ vs)" for n
      proof -
        have "Suc (away lp1 f) * Suc (length (us @ vs)) \<le> away lp f * Suc (length (us @ vs))"
          using aw by (intro mult_le_mono1) simp
        then show ?thesis using that Cons by simp
      qed
      show ?thesis
      proof (cases "ns \<le> lp + 1")
        case True
        have "get_pid_loop (last (ProcHead # map ListLink us)) lp ns s = get_pid_loop ProcHead lp1 MAX_PID s"
          using next_node same True by (subst get_pid_loop.simps) (simp add: Let_def lp1_def)
        moreover have "\<exists>lp' ns'. get_pid_loop (last (ProcHead # map ListLink [])) lp1 MAX_PID s = Some (lp', ns') \<and>
            1 \<le> lp' \<and> lp' < ns' \<and> ns' \<le> MAX_PID \<and> unused s ([] @ us @ vs) lp' ns'"
        proof (rule less.hyps)
          show "away lp1 f * Suc (length ([] @ us @ vs)) + length (us @ vs)
            < away lp f * Suc (length (us @ vs)) + length vs" using smaller by simp
          show "1 \<le> lp1" "lp1 < MAX_PID" using less.prems by (auto simp: lp1_def MAX_PID_def MAX_PROCESS_def)
        qed (use ring f less.prems(8) in \<open>auto simp: unused_def\<close>)
        ultimately show ?thesis by simp
      next
        case False
        then have lp1: "lp1 = lp + 1" using less.prems by (simp add: lp1_def)
        have "get_pid_loop (last (ProcHead # map ListLink us)) lp ns s =
            get_pid_loop (last (ProcHead # map ListLink (us @ [p]))) lp1 ns s"
          using next_node same False unfolding at lp1 by (subst get_pid_loop.simps) (simp add: Let_def)
        moreover have "\<exists>lp' ns'. get_pid_loop (last (ProcHead # map ListLink (us @ [p]))) lp1 ns s = Some (lp', ns') \<and>
            1 \<le> lp' \<and> lp' < ns' \<and> ns' \<le> MAX_PID \<and> unused s ((us @ [p]) @ ws) lp' ns'"
        proof (rule less.hyps)
          show "away lp1 f * Suc (length ((us @ [p]) @ ws)) + length ws
            < away lp f * Suc (length (us @ vs)) + length vs"
            using smaller [of "length ws"] Cons unfolding len by simp
          show "unused s (us @ [p]) lp1 ns"
            using unused_mono [OF less.prems(5), of lp1 ns] same lp1 by simp
        qed (use ring' f f' False less.prems lp1 in auto)
        ultimately show ?thesis using Cons by simp
      qed
    next
      case other: False
      define ns1 where "ns1 = (if lp < pid (procs s p) \<and> pid (procs s p) < ns then pid (procs s p) else ns)"
      have "get_pid_loop (last (ProcHead # map ListLink us)) lp ns s =
          get_pid_loop (last (ProcHead # map ListLink (us @ [p]))) lp ns1 s"
        using next_node other unfolding at ns1_def by (subst get_pid_loop.simps) (simp add: Let_def)
      moreover have "\<exists>lp' ns'. get_pid_loop (last (ProcHead # map ListLink (us @ [p]))) lp ns1 s = Some (lp', ns') \<and>
          1 \<le> lp' \<and> lp' < ns' \<and> ns' \<le> MAX_PID \<and> unused s ((us @ [p]) @ ws) lp' ns'"
      proof (rule less.hyps)
        show "away lp f * Suc (length ((us @ [p]) @ ws)) + length ws
          < away lp f * Suc (length (us @ vs)) + length vs"
          using Cons by simp
        show "unused s (us @ [p]) lp ns1"
          using unused_mono [OF less.prems(5), of lp ns1] other by (auto simp: ns1_def)
      qed (use ring' f f' less.prems in \<open>auto simp: ns1_def\<close>)
      ultimately show ?thesis using Cons by simp
    qed
  qed
qed

lemma free_pid:
  assumes "int (length ps) < MAX_PID - 1"
  shows "\<exists>f \<ge> 1. f < MAX_PID \<and> f \<notin> (\<lambda>p. pid (procs s p)) ` set ps"
proof (rule ccontr)
  assume "\<not> ?thesis"
  then have "{1 ..< MAX_PID} \<subseteq> (\<lambda>p. pid (procs s p)) ` set ps" by auto
  then have "card {1 ..< MAX_PID} \<le> card ((\<lambda>p. pid (procs s p)) ` set ps)" by (intro card_mono finite_imageI) simp_all
  also have "\<dots> \<le> length ps" using card_image_le [of "set ps"] card_length [of ps] le_trans by blast
  finally show False using assms by simp
qed

lemma get_pid_fresh:
  assumes "pid_inv s ps" and "int (length ps) < MAX_PID - 1"
  shows "\<exists>i s'. get_pid s = Some (i, s') \<and> 1 \<le> i \<and> i < MAX_PID \<and> i \<notin> (\<lambda>p. pid (procs s p)) ` set ps \<and>
    procs s' = procs s \<and> klinks s' = klinks s \<and> last_pid s' = i \<and> pid_inv s' ps"
proof -
  obtain f where f: "1 \<le> f" "f < MAX_PID" "f \<notin> (\<lambda>p. pid (procs s p)) ` set ps"
    using free_pid [OF assms(2)] by blast
  have ring: "proc_ring s ([] @ ps)" using assms(1) by (simp add: pid_inv_def)
  have loop: "\<exists>lp' ns'. get_pid_loop ProcHead lp MAX_PID s = Some (lp', ns') \<and>
      1 \<le> lp' \<and> lp' < ns' \<and> ns' \<le> MAX_PID \<and> unused s ps lp' ns'" if "1 \<le> lp" "lp < MAX_PID" for lp
    using get_pid_loop_ends [OF ring that order_refl _ f(1,2)] f(3) by (simp add: unused_def)
  have result: ?thesis if "get_pid_loop ProcHead lp MAX_PID s = Some (lp', ns')" "1 \<le> lp'" "lp' < ns'"
      "ns' \<le> MAX_PID" "unused s ps lp' ns'"
      "get_pid s = Some (lp', s\<lparr>last_pid := lp', next_safe := ns'\<rparr>)" for lp lp' ns'
  proof -
    have "unused s ps (lp' + 1) ns'" by (rule unused_mono [OF that(5)]) auto
    moreover have "lp' \<notin> (\<lambda>p. pid (procs s p)) ` set ps" using that(3,5) by (auto simp: unused_def)
    ultimately show ?thesis using that assms(1) by (auto simp: pid_inv_def proc_ring_def unused_def)
  qed
  consider "last_pid s + 1 \<ge> MAX_PID" | "last_pid s + 1 < MAX_PID" "last_pid s + 1 \<ge> next_safe s"
    | "last_pid s + 1 < MAX_PID" "last_pid s + 1 < next_safe s" by linarith
  then show ?thesis
  proof cases
    case 1
    obtain lp' ns' where l: "get_pid_loop ProcHead 1 MAX_PID s = Some (lp', ns')"
      "1 \<le> lp'" "lp' < ns'" "ns' \<le> MAX_PID" "unused s ps lp' ns'"
      using loop [of 1] by (auto simp: MAX_PID_def MAX_PROCESS_def)
    show ?thesis by (rule result [OF l]) (use l 1 in \<open>simp add: get_pid_def\<close>)
  next
    case 2
    obtain lp' ns' where l: "get_pid_loop ProcHead (last_pid s + 1) MAX_PID s = Some (lp', ns')"
      "1 \<le> lp'" "lp' < ns'" "ns' \<le> MAX_PID" "unused s ps lp' ns'"
      using loop [of "last_pid s + 1"] 2 assms(1) by (auto simp: pid_inv_def)
    show ?thesis by (rule result [OF l]) (use l 2 in \<open>simp add: get_pid_def\<close>)
  next
    case 3
    have u: "unused s ps (last_pid s + 1) (next_safe s)" using assms(1) by (simp add: pid_inv_def)
    have "unused s ps (last_pid s + 1 + 1) (next_safe s)" by (rule unused_mono [OF u]) auto
    moreover have "last_pid s + 1 \<notin> (\<lambda>p. pid (procs s p)) ` set ps" using u 3(2) by (auto simp: unused_def)
    ultimately show ?thesis using 3 assms(1) by (auto simp: get_pid_def Let_def pid_inv_def proc_ring_def unused_def)
  qed
qed


subsection \<open>The hash table as a set of processes\<close>

definition hashed :: "kst \<Rightarrow> (nat \<Rightarrow> nat list) \<Rightarrow> bool" where
  "hashed s B \<longleftrightarrow>
     (\<forall>i. dlist (klinks s) (HashHead i) (map HashLink (B i)) \<and> (\<forall>p \<in> set (B i). pid_hashfn (pid (procs s p)) = i))"

definition pid_table :: "kst \<Rightarrow> nat set \<Rightarrow> bool" where
  "pid_table s P \<longleftrightarrow> (\<exists>B. hashed s B \<and> P = (\<Union>i. set (B i)))"

lemma pid_hashfn_less: "pid_hashfn i < HASH_LIST_SIZE"
proof -
  have "unat (drop_bit 22 w) < 1024" for w :: "32 word"
  proof -
    have "unat w < 2 ^ 32" using unsigned_less [of w] by simp
    then have "unat w div 2 ^ 22 < 1024" by (simp add: less_mult_imp_div_less)
    then show ?thesis by (simp add: drop_bit_eq_div unat_div_distrib)
  qed
  then show ?thesis by (simp add: pid_hashfn_def hash32_def HASH_SHIFT_def HASH_LIST_SIZE_def)
qed

lemma hashed_bucket: "hashed s B \<Longrightarrow> p \<in> set (B i) \<Longrightarrow> i = pid_hashfn (pid (procs s p))"
  by (auto simp: hashed_def)

lemma buckets_disjoint: "hashed s B \<Longrightarrow> i \<noteq> j \<Longrightarrow> set (B i) \<inter> set (B j) = {}"
  by (auto dest: hashed_bucket)

lemma find_proc_loop_ends:
  assumes "dlist (klinks s) lh (map HashLink (us @ vs))" and "\<And>p. lh \<noteq> HashLink p"
  shows "find_proc_loop lh (last (lh # map HashLink us)) i s = Some (find (\<lambda>p. pid (procs s p) = i) vs)"
  using assms(1)
proof (induction vs arbitrary: us)
  case Nil
  then have "list_next (last (lh # map HashLink us)) (klinks s) = lh"
  proof (cases us rule: rev_cases)
    case (snoc ws w)
    with Nil show ?thesis using dlist_next_node [of "klinks s" lh "map HashLink ws" "HashLink w" "[]"] by simp
  qed (auto dest: dlist_next_head)
  then show ?case by (subst find_proc_loop.simps) (simp add: Let_def)
next
  case (Cons v vs)
  have "list_next (last (lh # map HashLink us)) (klinks s) = HashLink v"
  proof (cases us rule: rev_cases)
    case (snoc ws w)
    with Cons.prems show ?thesis
      using dlist_next_node [of "klinks s" lh "map HashLink ws" "HashLink w" "HashLink v # map HashLink vs"] by simp
  qed (use Cons.prems in \<open>auto dest: dlist_next_head\<close>)
  moreover have "find_proc_loop lh (HashLink v) i s = Some (find (\<lambda>p. pid (procs s p) = i) vs)"
    using Cons.IH [of "us @ [v]"] Cons.prems by simp
  ultimately show ?case using assms(2) [of v]
    by (subst find_proc_loop.simps) (simp add: Let_def)
qed

lemma find_proc_bucket:
  assumes "hashed s B"
  shows "find_proc i s = Some (if 0 < i \<and> i < MAX_PID
    then find (\<lambda>p. pid (procs s p) = i) (B (pid_hashfn i)) else None)"
  using find_proc_loop_ends [of s "HashHead (pid_hashfn i)" "[]" "B (pid_hashfn i)" i] assms
  by (simp add: find_proc_def Let_def hashed_def)

lemma dlist_delete_other:
  assumes "dlist h lh xs" and "e \<in> set xs" and "dlist h lh' ys" and "set (lh # xs) \<inter> set (lh' # ys) = {}"
  shows "dlist (list_del e h) lh' ys"
  unfolding list_del_def
  by (rule dlist_del_between_other [OF assms(3)])
    (use dlist_neighbours [OF assms(1), of e] assms(2,4) in auto)

lemma dlist_add_before_other:
  assumes "dlist h lh xs" and "q \<in> set (lh # xs)" and "dlist h lh' ys"
    and "set (e # lh # xs) \<inter> set (lh' # ys) = {}"
  shows "dlist (list_add_before q e h) lh' ys"
  unfolding list_add_before_def
  by (rule dlist_add_between_other [OF assms(3)])
    (use dlist_neighbours [OF assms(1), of q] assms(2,4) in auto)

text \<open>The contract of the table: a finite map from pids to processes, as a set of processes with
  distinct pids.\<close>

locale pid_map =
  fixes table :: "'s \<Rightarrow> nat set \<Rightarrow> bool"
    and key :: "'s \<Rightarrow> nat \<Rightarrow> int"
    and lookup :: "int \<Rightarrow> 's \<Rightarrow> nat option option"
    and insert_key :: "nat \<Rightarrow> 's \<Rightarrow> 's"
    and delete_key :: "nat \<Rightarrow> 's \<Rightarrow> 's"
    and valid :: "int \<Rightarrow> bool"
  assumes lookup_some: "table s P \<Longrightarrow> inj_on (key s) P \<Longrightarrow> p \<in> P \<Longrightarrow> valid (key s p) \<Longrightarrow>
      lookup (key s p) s = Some (Some p)"
    and lookup_none: "table s P \<Longrightarrow> \<not> valid i \<or> i \<notin> key s ` P \<Longrightarrow> lookup i s = Some None"
    and insert_law: "table s P \<Longrightarrow> p \<notin> P \<Longrightarrow> table (insert_key p s) (insert p P)"
    and delete_law: "table s P \<Longrightarrow> p \<in> P \<Longrightarrow> table (delete_key p s) (P - {p})"
    and key_insert: "key (insert_key p s) = key s"
    and key_delete: "key (delete_key p s) = key s"
begin

lemma lookup_insert:
  assumes "table s P" and "p \<notin> P" and "inj_on (key s) (insert p P)" and "valid (key s p)"
  shows "lookup (key s p) (insert_key p s) = Some (Some p)"
  using lookup_some [of "insert_key p s" "insert p P" p] insert_law [OF assms(1,2)] assms
  by (simp add: key_insert)

lemma lookup_insert_other:
  assumes "table s P" and "p \<notin> P" and "inj_on (key s) (insert p P)" and "i \<noteq> key s p"
  shows "lookup i (insert_key p s) = lookup i s"
proof (cases "valid i \<and> i \<in> key s ` P")
  case True
  then obtain q where q: "q \<in> P" "i = key s q" "valid i" by auto
  have "lookup i s = Some (Some q)"
    unfolding q(2) by (rule lookup_some [OF assms(1) _ q(1)]) (use assms q in auto)
  moreover have "lookup i (insert_key p s) = Some (Some q)"
    using lookup_some [OF insert_law [OF assms(1,2)], of q] q assms(3) by (simp add: key_insert)
  ultimately show ?thesis by simp
next
  case False
  then have "lookup i s = Some None" using lookup_none [OF assms(1), of i] by blast
  moreover have "lookup i (insert_key p s) = Some None"
    using lookup_none [OF insert_law [OF assms(1,2)], of i] False assms(4) by (auto simp: key_insert)
  ultimately show ?thesis by simp
qed

lemma lookup_delete:
  assumes "table s P" and "p \<in> P" and "inj_on (key s) P"
  shows "lookup (key s p) (delete_key p s) = Some None"
proof (rule lookup_none [OF delete_law [OF assms(1,2)]])
  show "\<not> valid (key s p) \<or> key s p \<notin> key (delete_key p s) ` (P - {p})"
    using assms(2,3) by (auto simp: key_delete inj_on_def)
qed

end

definition valid_pid :: "int \<Rightarrow> bool" where
  "valid_pid i \<longleftrightarrow> 0 < i \<and> i < MAX_PID"

lemma hash_proc_hashed:
  assumes "hashed s B" and "\<And>i. p \<notin> set (B i)"
  shows "hashed (hash_proc p s) (B(pid_hashfn (pid (procs s p)) := p # B (pid_hashfn (pid (procs s p)))))"
proof -
  let ?i = "pid_hashfn (pid (procs s p))"
  have rings: "dlist (klinks s) (HashHead i) (map HashLink (B i))" for i
    using assms(1) by (simp add: hashed_def)
  have "dlist (list_add_after (HashHead ?i) (HashLink p) (klinks s)) (HashHead ?i) (map HashLink (p # B ?i))"
    using dl.push_front [OF rings, of "HashLink p" ?i] assms(2) by fastforce
  moreover have "dlist (list_add_after (HashHead ?i) (HashLink p) (klinks s)) (HashHead j) (map HashLink (B j))"
    if "j \<noteq> ?i" for j
  proof -
    have "nxt (klinks s) (HashHead ?i) \<in> set (HashHead ?i # map HashLink (B ?i))"
      by (rule dlist_neighbours(1) [OF rings]) simp
    moreover have "set (B ?i) \<inter> set (B j) = {}" by (rule buckets_disjoint [OF assms(1)]) (use that in simp)
    ultimately show ?thesis unfolding list_add_after_def
      by (intro dlist_add_between_other [OF rings]) (use that assms(2) in auto)
  qed
  ultimately show ?thesis
    using assms(1) by (auto simp: hashed_def hash_proc_def list_add_def)
qed

lemma unhash_proc_hashed:
  assumes "hashed s B" and "B i = us @ p # vs"
  shows "hashed (unhash_proc p s) (B(i := us @ vs))"
proof -
  have rings: "dlist (klinks s) (HashHead i) (map HashLink (B i))" for i
    using assms(1) by (simp add: hashed_def)
  have "dlist (list_del (HashLink p) (klinks s)) (HashHead i) (map HashLink us @ map HashLink vs)"
    by (rule dlist_del) (use rings [of i] assms(2) in simp)
  moreover have "dlist (list_del (HashLink p) (klinks s)) (HashHead j) (map HashLink (B j))" if "j \<noteq> i" for j
  proof (rule dlist_delete_other [OF rings [of i] _ rings])
    have "set (B i) \<inter> set (B j) = {}" by (rule buckets_disjoint [OF assms(1)]) (use that in simp)
    then show "set (HashHead i # map HashLink (B i)) \<inter> set (HashHead j # map HashLink (B j)) = {}"
      using that by auto
  qed (use assms(2) in simp)
  ultimately show ?thesis
    using assms by (auto simp: hashed_def unhash_proc_def)
qed

interpretation pids: pid_map pid_table "\<lambda>s p. pid (procs s p)" find_proc hash_proc unhash_proc valid_pid
proof
  fix s P p assume a: "pid_table s P" "inj_on (\<lambda>p. pid (procs s p)) P" "p \<in> P" "valid_pid (pid (procs s p))"
  then obtain B where B: "hashed s B" "P = (\<Union>i. set (B i))" by (auto simp: pid_table_def)
  let ?i = "pid (procs s p)"
  obtain j where "p \<in> set (B j)" using a(3) B(2) by auto
  then have b: "p \<in> set (B (pid_hashfn ?i))" using hashed_bucket [OF B(1)] by metis
  have only: "q = p" if "q \<in> set (B (pid_hashfn ?i))" "pid (procs s q) = ?i" for q
    using a(2,3) that B(2) by (auto simp: inj_on_def)
  have "find (\<lambda>q. pid (procs s q) = ?i) (B (pid_hashfn ?i)) = Some p"
  proof (cases "find (\<lambda>q. pid (procs s q) = ?i) (B (pid_hashfn ?i))")
    case None
    then show ?thesis using b by (auto simp: find_None_iff)
  next
    case (Some q)
    then show ?thesis using only [of q] by (auto simp: find_Some_iff)
  qed
  then show "find_proc ?i s = Some (Some p)"
    using a(4) by (simp add: find_proc_bucket [OF B(1)] valid_pid_def)
next
  fix s P i assume a: "pid_table s P" "\<not> valid_pid i \<or> i \<notin> (\<lambda>p. pid (procs s p)) ` P"
  then obtain B where B: "hashed s B" "P = (\<Union>i. set (B i))" by (auto simp: pid_table_def)
  then have "valid_pid i \<Longrightarrow> find (\<lambda>p. pid (procs s p) = i) (B (pid_hashfn i)) = None"
    using a(2) by (auto simp: find_None_iff)
  then show "find_proc i s = Some None" by (auto simp: find_proc_bucket [OF B(1)] valid_pid_def)
next
  fix s P p assume a: "pid_table s P" "p \<notin> P"
  then obtain B where B: "hashed s B" "P = (\<Union>i. set (B i))" by (auto simp: pid_table_def)
  have "hashed (hash_proc p s) (B(pid_hashfn (pid (procs s p)) := p # B (pid_hashfn (pid (procs s p)))))"
    by (rule hash_proc_hashed [OF B(1)]) (use a(2) B(2) in auto)
  then show "pid_table (hash_proc p s) (insert p P)"
    unfolding pid_table_def B(2) by (intro exI conjI, assumption) (auto split: if_splits)
next
  fix s P p assume a: "pid_table s P" "p \<in> P"
  then obtain B where B: "hashed s B" "P = (\<Union>i. set (B i))" by (auto simp: pid_table_def)
  from a(2) B(2) obtain i us vs where i: "B i = us @ p # vs" by (auto dest: split_list)
  have "dlist (klinks s) (HashHead i) (map HashLink (B i))" using B(1) by (simp add: hashed_def)
  then have "distinct (B i)" by (auto dest!: dlist_distinct simp: distinct_map)
  then have away: "p \<notin> set (us @ vs)" by (simp add: i)
  have other: "p \<notin> set (B j)" if "j \<noteq> i" for j
    using that hashed_bucket [OF B(1), of p j] hashed_bucket [OF B(1), of p i] i by auto
  have "set ((B(i := us @ vs)) j) = set (B j) - {p}" for j
    using away other [of j] i by auto
  then have "(\<Union>j. set ((B(i := us @ vs)) j)) = P - {p}" using B(2) by (simp only:) blast
  then show "pid_table (unhash_proc p s) (P - {p})"
    using unhash_proc_hashed [OF B(1) i] unfolding pid_table_def by metis
qed (simp_all add: hash_proc_def unhash_proc_def)


text \<open>The process list and the hash table are disjoint parts of the heap of list nodes.\<close>

lemma proc_ring_unhash:
  assumes "proc_ring s ps" and "pid_table s P" and "q \<in> P"
  shows "proc_ring (unhash_proc q s) ps"
proof -
  obtain B where B: "hashed s B" "P = (\<Union>i. set (B i))" using assms(2) by (auto simp: pid_table_def)
  then obtain i where i: "q \<in> set (B i)" using assms(3) by auto
  have "dlist (klinks s) (HashHead i) (map HashLink (B i))" using B(1) by (simp add: hashed_def)
  from dlist_delete_other [OF this, of "HashLink q" ProcHead "map ListLink ps"] i assms(1)
  show ?thesis by (auto simp: proc_ring_def unhash_proc_def)
qed

lemma pid_table_ring_del:
  assumes "pid_table s P" and "proc_ring s ps" and "q \<in> set ps"
    and "klinks s' = list_del (ListLink q) (klinks s)" and "\<And>r. pid (procs s' r) = pid (procs s r)"
  shows "pid_table s' P"
proof -
  obtain B where B: "hashed s B" "P = (\<Union>i. set (B i))" using assms(1) by (auto simp: pid_table_def)
  have "dlist (list_del (ListLink q) (klinks s)) (HashHead i) (map HashLink (B i))" for i
    by (rule dlist_delete_other [OF assms(2) [unfolded proc_ring_def]])
      (use B(1) assms(3) in \<open>auto simp: hashed_def\<close>)
  then have "hashed s' B" using B(1) by (simp add: hashed_def assms(4,5))
  with B(2) show ?thesis by (auto simp: pid_table_def)
qed

lemma map_remove1_inj: "inj f \<Longrightarrow> map f (remove1 x xs) = remove1 (f x) (map f xs)"
  by (induction xs) (auto dest: injD)

lemma remove_links_pid: "remove_links q s = Some s' \<Longrightarrow> pid (procs s' r) = pid (procs s r)"
  by (auto simp: remove_links_def Let_def set_yptr_def set_optr_def set_cptr_def bind_eq_Some_conv
      split: option.splits if_splits)

subsection \<open>The children of a process as a list\<close>

primrec first :: "'a list \<Rightarrow> 'a option \<Rightarrow> 'a option" where
  "first [] e = e"
| "first (x # xs) e = Some x"

text \<open>\<open>sibs s y xs e\<close>: the chain of siblings \<open>xs\<close>, younger ones first, with \<open>y\<close> as the \<open>yptr\<close> of
  its first and \<open>e\<close> as the \<open>optr\<close> of its last element.\<close>

primrec sibs :: "kst \<Rightarrow> nat option \<Rightarrow> nat list \<Rightarrow> nat option \<Rightarrow> bool" where
  "sibs s y [] e \<longleftrightarrow> True"
| "sibs s y (c # cs) e \<longleftrightarrow> yptr (procs s c) = y \<and> optr (procs s c) = first cs e \<and> sibs s (Some c) cs e"

definition family :: "kst \<Rightarrow> nat \<Rightarrow> nat list \<Rightarrow> bool" where
  "family s p cs \<longleftrightarrow> cptr (procs s p) = first cs None \<and> sibs s None cs None \<and> distinct (p # cs) \<and>
     (\<forall>c \<in> set cs. parent (procs s c) = Some p)"

lemma first_append [simp]: "first (xs @ ys) e = first xs (first ys e)"
  by (cases xs) auto

lemma sibs_append:
  "sibs s y (us @ vs) e \<longleftrightarrow> sibs s y us (first vs e) \<and> sibs s (if us = [] then y else Some (last us)) vs e"
  by (induction us arbitrary: y) auto

lemma sibs_cong:
  "(\<And>c. c \<in> set cs \<Longrightarrow> yptr (procs s' c) = yptr (procs s c) \<and> optr (procs s' c) = optr (procs s c)) \<Longrightarrow>
   sibs s' y cs e \<longleftrightarrow> sibs s y cs e"
  by (induction cs arbitrary: y) auto

text \<open>Changes at the two ends of a chain.\<close>

lemma sibs_first:
  assumes "sibs s y (v # vs) e" and "v \<notin> set vs"
  shows "sibs (set_yptr v y' s) y' (v # vs) e"
proof -
  have "sibs (set_yptr v y' s) (Some v) vs e \<longleftrightarrow> sibs s (Some v) vs e"
    by (rule sibs_cong) (use assms(2) in \<open>auto simp: set_yptr_def\<close>)
  with assms(1) show ?thesis by (simp add: set_yptr_def)
qed

lemma sibs_last:
  assumes "sibs s y (us @ [w]) e" and "w \<notin> set us"
  shows "sibs (set_optr w e' s) y (us @ [w]) e'"
proof -
  have "sibs (set_optr w e' s) y us (Some w) \<longleftrightarrow> sibs s y us (Some w)"
    by (rule sibs_cong) (use assms(2) in \<open>auto simp: set_optr_def\<close>)
  with assms(1) show ?thesis by (auto simp: sibs_append set_optr_def)
qed

lemma first_None [simp]: "first xs None = None \<longleftrightarrow> xs = []"
  by (cases xs) auto

lemma family_cong:
  assumes "cptr (procs s' p) = cptr (procs s p)"
    and "\<And>c. c \<in> set cs \<Longrightarrow> yptr (procs s' c) = yptr (procs s c) \<and> optr (procs s' c) = optr (procs s c) \<and>
      parent (procs s' c) = parent (procs s c)"
  shows "family s' p cs \<longleftrightarrow> family s p cs"
proof -
  have "sibs s' None cs None \<longleftrightarrow> sibs s None cs None" by (rule sibs_cong) (use assms(2) in blast)
  with assms show ?thesis by (auto simp: family_def)
qed

lemma set_links_family_inv:
  assumes "family s q cs" and "parent (procs s p) = Some q" and "p \<notin> set cs" and "p \<noteq> q"
  shows "\<exists>s'. set_links p s = Some s' \<and> family s' q (p # cs) \<and> nr_process s' = nr_process s + 1 \<and>
    klinks s' = list_add ProcHead (ListLink p) (klinks s) \<and>
    (\<forall>r ds. family s r ds \<and> r \<noteq> q \<and> set ds \<inter> set (p # q # cs) = {} \<longrightarrow> family s' r ds)"
proof -
  have cs: "cptr (procs s q) = first cs None" "sibs s None cs None" "q \<notin> set cs" "distinct cs"
    "\<forall>c \<in> set cs. parent (procs s c) = Some q"
    using assms(1) by (auto simp: family_def)
  define s1 where "s1 = set_optr p (cptr (procs s q)) (set_yptr p None (upd_klinks (list_add ProcHead (ListLink p)) s))"
  define s2 where "s2 = (case cptr (procs s q) of None \<Rightarrow> s1 | Some c \<Rightarrow> set_yptr c (Some p) s1)"
  define s' where "s' = (set_cptr q (Some p) s2)\<lparr>nr_process := nr_process s + 1\<rparr>"
  have nr: "nr_process s2 = nr_process s" "klinks s2 = list_add ProcHead (ListLink p) (klinks s)"
    "parent (procs s2 r) = parent (procs s r)" for r
    by (auto simp: s2_def s1_def set_yptr_def set_optr_def split: option.splits)
  have "set_links p s = Some s'"
    using assms(2,4) nr unfolding s'_def s2_def s1_def
    by (auto simp: set_links_def Let_def set_yptr_def set_optr_def set_cptr_def split: option.splits)
  moreover have "sibs s1 None cs None \<longleftrightarrow> sibs s None cs None"
    by (rule sibs_cong) (use assms(3) in \<open>auto simp: s1_def set_yptr_def set_optr_def\<close>)
  then have s2: "sibs s2 (Some p) cs None"
    using sibs_first [of s1 None _ _ None "Some p"] cs(1,2,4) by (cases cs) (auto simp: s2_def)
  have "p \<notin> set cs" "p \<noteq> q" using assms by auto
  moreover have "sibs s' (Some p) cs None \<longleftrightarrow> sibs s2 (Some p) cs None"
    by (rule sibs_cong) (simp add: s'_def set_cptr_def)
  moreover have "optr (procs s' p) = first cs None" "yptr (procs s' p) = None"
    using assms(3,4) cs(1,3)
    by (cases cs; auto simp: s'_def s2_def s1_def set_yptr_def set_optr_def set_cptr_def)+
  moreover have "parent (procs s' r) = parent (procs s r)" for r
    by (simp add: s'_def nr set_cptr_def)
  moreover have "family s' r ds" if "family s r ds" "r \<noteq> q" "set ds \<inter> set (p # q # cs) = {}" for r ds
  proof -
    have "\<And>c. c \<in> set ds \<Longrightarrow> yptr (procs s' c) = yptr (procs s c) \<and> optr (procs s' c) = optr (procs s c)"
      using that(3) cs(1) by (cases cs) (auto simp: s'_def s2_def s1_def set_yptr_def set_optr_def set_cptr_def)
    moreover have "cptr (procs s' r) = cptr (procs s r)" using that(2)
      by (auto simp: s'_def s2_def s1_def set_yptr_def set_optr_def set_cptr_def split: option.splits)
    ultimately show ?thesis
      using that(1) family_cong [of s' r s ds] \<open>\<And>r. parent (procs s' r) = parent (procs s r)\<close> by simp
  qed
  ultimately show ?thesis
    using assms cs by (intro exI [of _ s']) (auto simp: family_def s'_def nr set_cptr_def s2)
qed

lemma remove_links_family_inv:
  assumes "family s q (us @ p # vs)"
  shows "\<exists>s'. remove_links p s = Some s' \<and> family s' q (us @ vs) \<and> nr_process s' = nr_process s - 1 \<and>
    klinks s' = list_del (ListLink p) (klinks s)"
proof -
  have f: "cptr (procs s q) = first (us @ [p]) None" "sibs s None us (Some p)"
    "yptr (procs s p) = (if us = [] then None else Some (last us))" "optr (procs s p) = first vs None"
    "sibs s (Some p) vs None" "distinct (q # us @ p # vs)" "parent (procs s p) = Some q"
    "\<forall>c \<in> set (us @ vs). parent (procs s c) = Some q"
    using assms by (auto simp: family_def sibs_append)
  define s0 where "s0 = upd_klinks (list_del (ListLink p)) s"
  define s1 where "s1 = (case optr (procs s p) of None \<Rightarrow> s0 | Some v \<Rightarrow> set_yptr v (yptr (procs s p)) s0)"
  define s2 where "s2 = (case yptr (procs s p) of Some u \<Rightarrow> set_optr u (optr (procs s p)) s1
    | None \<Rightarrow> set_cptr q (optr (procs s p)) s1)"
  define s' where "s' = s2\<lparr>nr_process := nr_process s - 1\<rparr>"
  have n: "optr (procs s p) \<noteq> Some p" "yptr (procs s p) \<noteq> Some p" using f(3,4,6)
    by (cases vs; auto)+
  have "optr (procs s1 p) = optr (procs s p)" "yptr (procs s1 p) = yptr (procs s p)"
      "parent (procs s1 r) = parent (procs s r)" "nr_process s2 = nr_process s"
      "klinks s2 = list_del (ListLink p) (klinks s)" "parent (procs s2 r) = parent (procs s r)" for r
    using n by (auto simp: s2_def s1_def s0_def set_yptr_def set_optr_def set_cptr_def split: option.splits)
  note g = this
  have "remove_links p s = Some s'"
    using g f(7) unfolding remove_links_def s'_def s2_def
    by (auto simp: Let_def s0_def [symmetric] s1_def [symmetric] split: option.splits)
      (auto simp: s1_def s0_def split: option.splits)
  moreover have "sibs s0 (Some p) vs None \<longleftrightarrow> sibs s (Some p) vs None"
    by (rule sibs_cong) (simp add: s0_def)
  then have v1: "sibs s1 (yptr (procs s p)) vs None"
    using sibs_first [of s0 "Some p" _ _ None "yptr (procs s p)"] f(4,5,6) by (cases vs) (auto simp: s1_def)
  have "sibs s1 None us (Some p) \<longleftrightarrow> sibs s None us (Some p)"
    by (rule sibs_cong) (use f(4,6) in \<open>cases vs; auto simp: s1_def s0_def set_yptr_def\<close>)
  with v1 f(2) have s1: "sibs s1 None us (Some p)" "sibs s1 (yptr (procs s p)) vs None" by simp_all
  have "sibs s2 None us (first vs None)"
  proof (cases us rule: rev_cases)
    case (snoc ws w)
    then have "s2 = set_optr w (first vs None) s1" using f(3,4) by (simp add: s2_def)
    then show ?thesis using sibs_last [of s1 None ws w "Some p" "first vs None"] s1(1) snoc f(6) by simp
  qed simp
  moreover have lu: "last us \<notin> set vs" if "us \<noteq> []"
    using last_in_set [OF that] f(6) by auto
  have "sibs s2 (yptr (procs s p)) vs None \<longleftrightarrow> sibs s1 (yptr (procs s p)) vs None"
    by (rule sibs_cong) (use f(3,6) lu in \<open>auto simp: s2_def set_optr_def set_cptr_def\<close>)
  moreover have "cptr (procs s2 q) = first (us @ vs) None"
    using f(1,3,4) by (cases us) (auto simp: s2_def s1_def s0_def set_optr_def set_cptr_def set_yptr_def split: option.splits)
  moreover have "sibs s' y xs e \<longleftrightarrow> sibs s2 y xs e" for y xs e
    by (rule sibs_cong) (simp add: s'_def)
  ultimately have "family s' q (us @ vs)"
    using s1(2) f(3,6,8) g(6) by (auto simp: family_def sibs_append s'_def)
  then show ?thesis using \<open>remove_links p s = Some s'\<close> g(4,5) by (auto simp: s'_def)
qed


subsection \<open>Children handed to the init process\<close>

lemma wakeup_proc_procs:
  assumes "wakeup_proc p s = Some s'"
  shows "cptr (procs s' q) = cptr (procs s q)" "yptr (procs s' q) = yptr (procs s q)"
    "optr (procs s' q) = optr (procs s q)" "parent (procs s' q) = parent (procs s q)"
    "exit_code (procs s' q) = exit_code (procs s q)" "pid (procs s' q) = pid (procs s q)"
    "q \<noteq> p \<Longrightarrow> pstate (procs s' q) = pstate (procs s q) \<and> wait_state (procs s' q) = wait_state (procs s q)"
    "pstate (procs s' p) = PROC_RUNNABLE" "pstate (procs s p) \<noteq> PROC_RUNNABLE \<Longrightarrow> wait_state (procs s' p) = 0"
    "initproc s' = initproc s" "current s' = current s" "pstate (procs s p) \<noteq> PROC_ZOMBIE"
  using assms
  by (auto simp: wakeup_proc_def sched_class_enqueue_def RR_enqueue_def Let_def split: if_splits)

lemma family_wakeup: "wakeup_proc p s = Some s' \<Longrightarrow> family s' q cs \<longleftrightarrow> family s q cs"
  by (rule family_cong) (simp_all add: wakeup_proc_procs)

text \<open>\<open>wakeable s q\<close>: \<open>wakeup_proc\<close> of \<open>q\<close>, if it is waiting for a child, does not panic.\<close>

definition wakeable :: "kst \<Rightarrow> nat \<Rightarrow> bool" where
  "wakeable s q \<longleftrightarrow> pstate (procs s q) \<noteq> PROC_ZOMBIE \<and>
     (wait_state (procs s q) = WT_CHILD \<and> pstate (procs s q) \<noteq> PROC_RUNNABLE \<longrightarrow>
       (\<exists>ps. rq_inv s ps \<and> q \<notin> set ps \<and> length ps < 2 ^ 32 - 2))"

lemma WT_CHILD_nonzero [simp]: "WT_CHILD \<noteq> 0"
  by (simp add: WT_CHILD_def WT_INTERRUPTED_def)

lemma wakeup_wakeable:
  assumes "wakeable s q" and "wait_state (procs s q) = WT_CHILD"
  shows "\<exists>s'. wakeup_proc q s = Some s' \<and> wakeable s' q"
proof (cases "pstate (procs s q) = PROC_RUNNABLE")
  case True
  then show ?thesis using assms by (auto simp: wakeup_proc_def)
next
  case False
  let ?s = "upd_proc q (\<lambda>d. d\<lparr>pstate := PROC_RUNNABLE, wait_state := 0\<rparr>) s"
  obtain ps where ps: "rq_inv s ps" "q \<notin> set ps" "length ps < 2 ^ 32 - 2"
    using assms False by (auto simp: wakeable_def)
  then have "rq_inv ?s ps" by (simp add: rq_inv_upd_proc)
  from RR_enqueue_inv [OF this ps(2,3)] obtain s1 where "RR_enqueue q ?s = Some s1" by blast
  then have "\<exists>s'. wakeup_proc q s = Some s'"
    using assms False by (auto simp: wakeup_proc_def sched_class_enqueue_def wakeable_def Let_def)
  then obtain s' where s': "wakeup_proc q s = Some s'" by blast
  have "wakeable s' q"
    using wakeup_proc_procs(8,9) [OF s'] False by (simp add: wakeable_def)
  with s' show ?thesis by blast
qed

lemma wakeup_other:
  assumes "wakeup_proc p s = Some s'" and "current s \<noteq> Some p" and "rq_inv s ps" and "length ps < 2 ^ 32 - 3"
    and "p \<notin> set ps" and "i \<noteq> p" and "pstate (procs s i) \<noteq> PROC_ZOMBIE"
    and "wait_state (procs s i) = WT_CHILD \<Longrightarrow> i \<notin> set ps"
  shows "wakeable s' i"
proof (cases "pstate (procs s p) = PROC_RUNNABLE")
  case True
  then have "s' = s" using assms(1) by (simp add: wakeup_proc_def split: if_splits)
  then show ?thesis using assms(3,4,7,8) unfolding wakeable_def by (auto intro!: exI [of _ ps])
next
  case False
  let ?s = "upd_proc p (\<lambda>d. d\<lparr>pstate := PROC_RUNNABLE, wait_state := 0\<rparr>) s"
  have "rq_inv ?s ps" using assms(3) by (simp add: rq_inv_upd_proc)
  from RR_enqueue_inv [OF this assms(5)] assms(4)
  obtain s3 where s3: "RR_enqueue p ?s = Some s3" "rq_inv s3 (ps @ [p])" by auto
  have "(if Some p = idleproc s then Some ?s else RR_enqueue p ?s) = Some s'"
    using assms(1,2) False by (auto simp: wakeup_proc_def sched_class_enqueue_def Let_def split: if_splits)
  with s3 \<open>rq_inv ?s ps\<close> have rq: "rq_inv s' ps \<or> rq_inv s' (ps @ [p])" by (auto split: if_splits)
  have i: "pstate (procs s' i) = pstate (procs s i)" "wait_state (procs s' i) = wait_state (procs s i)"
    using wakeup_proc_procs(7) [OF assms(1,6)] by simp_all
  have "i \<notin> set (ps @ [p])" if "wait_state (procs s i) = WT_CHILD" using assms(6,8) that by simp
  moreover obtain qs where "rq_inv s' qs" "set qs \<subseteq> set (ps @ [p])" "length qs < 2 ^ 32 - 2"
  proof (cases "rq_inv s' ps")
    case True
    then show ?thesis using that [of ps] assms(4) by auto
  next
    case False
    then show ?thesis using that [of "ps @ [p]"] rq assms(4) by auto
  qed
  ultimately show ?thesis using assms(7) unfolding wakeable_def i by blast
qed

text \<open>
  One child moves from the chain of \<open>c\<close> to the family of \<open>i\<close>. The \<open>yptr\<close> of the next child still
  points to it, which is why the rest is a chain with some \<open>yptr\<close> at its head.
\<close>

lemma reparent_one_inv:
  assumes c: "cptr (procs s c) = Some p" "sibs s y (p # cs) None" "distinct (c # p # cs)"
    and fi: "family s i ds" and "c \<noteq> i" and "i \<notin> set (p # cs)"
    and "set (p # cs) \<inter> set ds = {}" and "wakeable s i"
  shows "\<exists>s'. reparent_one c i p s = Some s' \<and> cptr (procs s' c) = first cs None \<and> sibs s' (Some p) cs None \<and>
    family s' i (p # ds) \<and> wakeable s' i \<and>
    (\<forall>q. q \<noteq> i \<longrightarrow> pstate (procs s' q) = pstate (procs s q)) \<and>
    (\<forall>q. exit_code (procs s' q) = exit_code (procs s q)) \<and>
    (pstate (procs s i) = PROC_RUNNABLE \<longrightarrow> pstate (procs s' i) = PROC_RUNNABLE) \<and>
    (wait_state (procs s i) = WT_CHILD \<longrightarrow>
      (if pstate (procs s p) = PROC_ZOMBIE then pstate (procs s' i) = PROC_RUNNABLE
       else wait_state (procs s' i) = WT_CHILD))"
proof -
  have i: "cptr (procs s i) = first ds None" "sibs s None ds None" "distinct (i # ds)"
    "\<forall>d \<in> set ds. parent (procs s d) = Some i"
    using fi by (auto simp: family_def)
  have o: "optr (procs s p) = first cs None" "sibs s (Some p) cs None" using c(2) by auto
  define s0 where "s0 = set_yptr p None (set_cptr c (optr (procs s p)) s)"
  define s1 where "s1 = set_optr p (cptr (procs s0 i)) s0"
  define s2 where "s2 = (case cptr (procs s1 i) of None \<Rightarrow> s1 | Some q \<Rightarrow> set_yptr q (Some p) s1)"
  define s3 where "s3 = set_cptr i (Some p) (set_parent p (Some i) s2)"
  note setters = set_optr_def set_yptr_def set_cptr_def set_parent_def
  have i1: "cptr (procs s0 i) = first ds None" "cptr (procs s1 i) = first ds None"
    using i(1) assms(5,6) by (simp_all add: s1_def s0_def setters)
  have g: "parent (procs s2 d) = parent (procs s1 d)" "cptr (procs s2 d) = cptr (procs s1 d)"
      "pstate (procs s2 d) = pstate (procs s1 d)" "wait_state (procs s2 d) = wait_state (procs s1 d)"
      "exit_code (procs s2 d) = exit_code (procs s1 d)" "current s2 = current s1" "klinks s2 = klinks s1"
      "proc_num s2 = proc_num s1" "on_rq (procs s2 d) = on_rq (procs s1 d)" for d
    by (simp_all add: s2_def set_yptr_def split: option.split)
  have "sibs s1 None ds None \<longleftrightarrow> sibs s None ds None"
    by (rule sibs_cong) (use assms(7) in \<open>auto simp: s1_def s0_def setters\<close>)
  then have "sibs s2 (Some p) ds None"
    using sibs_first [of s1 None _ _ None "Some p"] i i1 by (cases ds) (auto simp: s2_def)
  moreover have "sibs s3 (Some p) ds None \<longleftrightarrow> sibs s2 (Some p) ds None"
    by (rule sibs_cong) (use assms(7) in \<open>auto simp: s3_def setters\<close>)
  moreover have "sibs s3 (Some p) cs None \<longleftrightarrow> sibs s (Some p) cs None"
    by (rule sibs_cong)
      (use assms(7) c(3) i1 in \<open>cases ds; auto simp: s3_def s2_def s1_def s0_def setters\<close>)
  moreover have "yptr (procs s3 p) = None" "optr (procs s3 p) = first ds None"
    using assms(7) i1 by (cases ds; auto simp: s3_def s2_def s1_def s0_def setters)+
  moreover have "parent (procs s3 d) = (if d = p then Some i else parent (procs s d))"
      "cptr (procs s3 d) = (if d = i then Some p else if d = c then first cs None else cptr (procs s d))"
      "pstate (procs s3 d) = pstate (procs s d)" "wait_state (procs s3 d) = wait_state (procs s d)"
      "exit_code (procs s3 d) = exit_code (procs s d)" "current s3 = current s" for d
    by (simp_all add: s3_def g s1_def s0_def setters o(1)) (use c(3) o(1) in auto)
  note f = this
  ultimately have seg: "sibs s3 (Some p) ds None" "sibs s3 (Some p) cs None" "yptr (procs s3 p) = None"
    "optr (procs s3 p) = first ds None"
    using o(2) by simp_all
  have pi: "p \<noteq> i" "p \<notin> set ds" using assms(6,7) by auto
  have fam: "family s3 i (p # ds)" "sibs s3 (Some p) cs None" "cptr (procs s3 c) = first cs None"
  proof -
    have "\<forall>d \<in> set (p # ds). parent (procs s3 d) = Some i" using i(4) pi by (simp add: f(1))
    moreover have "cptr (procs s3 i) = Some p" by (simp add: f(2))
    moreover have "distinct (i # p # ds)" using i(3) pi by auto
    ultimately show "family s3 i (p # ds)" using seg by (simp add: family_def)
    show "sibs s3 (Some p) cs None" by (rule seg(2))
    show "cptr (procs s3 c) = first cs None" using assms(5) by (simp add: f(2))
  qed
  have "klinks s3 = klinks s" "proc_num s3 = proc_num s" "on_rq (procs s3 d) = on_rq (procs s d)" for d
    by (simp_all add: s3_def g s1_def s0_def setters)
  then have rq: "rq_inv s3 ps \<longleftrightarrow> rq_inv s ps" for ps by (simp add: rq_inv_def)
  have w3: "wakeable s3 i" using assms(8) by (simp add: wakeable_def f rq)
  have one: "reparent_one c i p s = (if pstate (procs s p) = PROC_ZOMBIE \<and> wait_state (procs s i) = WT_CHILD
      then wakeup_proc i s3 else Some s3)"
    unfolding reparent_one_def Let_def s0_def [symmetric] s1_def [symmetric] s2_def [symmetric]
      s3_def [symmetric]
    by (simp add: f)
  show ?thesis
  proof (cases "pstate (procs s p) = PROC_ZOMBIE \<and> wait_state (procs s i) = WT_CHILD")
    case True
    then obtain s' where s': "wakeup_proc i s3 = Some s'" "wakeable s' i"
      using wakeup_wakeable [OF w3] f by auto
    note w = wakeup_proc_procs [OF s'(1)]
    have "sibs s' (Some p) cs None \<longleftrightarrow> sibs s3 (Some p) cs None" by (rule sibs_cong) (simp add: w)
    moreover have "pstate (procs s' q) = pstate (procs s q)" if "q \<noteq> i" for q
      using w(7) [OF that] f(3) by simp
    ultimately show ?thesis using True s' one fam family_wakeup [OF s'(1)] w by (auto simp: f)
  next
    case False
    then show ?thesis using one fam w3 by (auto simp: f)
  qed
qed

text \<open>The whole loop; it ends because the chain of children is finite.\<close>

lemma reparent_loop_inv:
  assumes "cptr (procs s c) = first cs None" and "sibs s y cs None" and "distinct (c # cs)"
    and "family s i ds" and "c \<noteq> i" and "i \<notin> set cs" and "set cs \<inter> set ds = {}" and "wakeable s i"
  shows "\<exists>s'. reparent_loop c i s = Some s' \<and> cptr (procs s' c) = None \<and> family s' i (rev cs @ ds) \<and>
    (\<forall>q. q \<noteq> i \<longrightarrow> pstate (procs s' q) = pstate (procs s q)) \<and>
    (\<forall>q. exit_code (procs s' q) = exit_code (procs s q)) \<and>
    (pstate (procs s i) = PROC_RUNNABLE \<longrightarrow> pstate (procs s' i) = PROC_RUNNABLE) \<and>
    (wait_state (procs s i) = WT_CHILD \<longrightarrow> (\<exists>p \<in> set cs. pstate (procs s p) = PROC_ZOMBIE) \<longrightarrow>
      pstate (procs s' i) = PROC_RUNNABLE)"
  using assms
proof (induction cs arbitrary: s y ds)
  case Nil
  then show ?case by (subst reparent_loop.simps) simp
next
  case (Cons p cs)
  then have "cptr (procs s c) = Some p" by simp
  from reparent_one_inv [OF this Cons.prems(2) _ Cons.prems(4,5,6,7,8)] Cons.prems(3)
  obtain s1 where s1: "reparent_one c i p s = Some s1" "cptr (procs s1 c) = first cs None"
    "sibs s1 (Some p) cs None" "family s1 i (p # ds)" "wakeable s1 i"
    "\<And>q. q \<noteq> i \<Longrightarrow> pstate (procs s1 q) = pstate (procs s q)"
    "\<And>q. exit_code (procs s1 q) = exit_code (procs s q)"
    "pstate (procs s i) = PROC_RUNNABLE \<Longrightarrow> pstate (procs s1 i) = PROC_RUNNABLE"
    "wait_state (procs s i) = WT_CHILD \<Longrightarrow> (if pstate (procs s p) = PROC_ZOMBIE
      then pstate (procs s1 i) = PROC_RUNNABLE else wait_state (procs s1 i) = WT_CHILD)"
    by auto
  have "\<exists>s'. reparent_loop c i s1 = Some s' \<and> cptr (procs s' c) = None \<and> family s' i (rev cs @ p # ds) \<and>
    (\<forall>q. q \<noteq> i \<longrightarrow> pstate (procs s' q) = pstate (procs s1 q)) \<and>
    (\<forall>q. exit_code (procs s' q) = exit_code (procs s1 q)) \<and>
    (pstate (procs s1 i) = PROC_RUNNABLE \<longrightarrow> pstate (procs s' i) = PROC_RUNNABLE) \<and>
    (wait_state (procs s1 i) = WT_CHILD \<longrightarrow> (\<exists>p \<in> set cs. pstate (procs s1 p) = PROC_ZOMBIE) \<longrightarrow>
      pstate (procs s' i) = PROC_RUNNABLE)"
    by (rule Cons.IH [OF s1(2,3) _ s1(4)]) (use Cons.prems s1(5) in auto)
  then obtain s' where s': "reparent_loop c i s1 = Some s'" "cptr (procs s' c) = None"
    "family s' i (rev cs @ p # ds)" "\<And>q. q \<noteq> i \<Longrightarrow> pstate (procs s' q) = pstate (procs s1 q)"
    "\<And>q. exit_code (procs s' q) = exit_code (procs s1 q)"
    "pstate (procs s1 i) = PROC_RUNNABLE \<Longrightarrow> pstate (procs s' i) = PROC_RUNNABLE"
    "wait_state (procs s1 i) = WT_CHILD \<Longrightarrow> \<exists>p \<in> set cs. pstate (procs s1 p) = PROC_ZOMBIE \<Longrightarrow>
      pstate (procs s' i) = PROC_RUNNABLE" by blast
  have "reparent_loop c i s = Some s'"
    using s1(1) s'(1) Cons.prems(1) by (subst reparent_loop.simps) simp
  moreover have "pstate (procs s1 q) = pstate (procs s q)" if "q \<in> set cs" for q
    by (rule s1(6)) (use that Cons.prems(6) in auto)
  then have "pstate (procs s' i) = PROC_RUNNABLE"
    if "wait_state (procs s i) = WT_CHILD" "\<exists>p \<in> set (p # cs). pstate (procs s p) = PROC_ZOMBIE"
    using s1(9) [OF that(1)] s'(6,7) that(2) by (auto split: if_splits)
  ultimately show ?case using s' s1(6-8) by auto
qed


subsection \<open>The search of do_wait\<close>

lemma zombie_loop_chain:
  "sibs s y cs None \<Longrightarrow> zombie_loop (first cs None) h s =
     Some (h \<or> cs \<noteq> [], find (\<lambda>p. pstate (procs s p) = PROC_ZOMBIE) cs)"
proof (induction cs arbitrary: y h)
  case (Cons c cs)
  have "zombie_loop (first cs None) True s = Some (True, find (\<lambda>p. pstate (procs s p) = PROC_ZOMBIE) cs)"
    using Cons.IH [of "Some c" True] Cons.prems by simp
  then show ?case using Cons.prems by (subst zombie_loop.simps) simp
qed (subst zombie_loop.simps, simp)

subsection \<open>Properties\<close>

text \<open>C16. \<open>get_pid\<close> always returns, with a pid between 1 and \<open>MAX_PID\<close> that no process of the list has,
  as long as the list holds fewer than \<open>MAX_PID - 1\<close> processes; and the invariant behind its fast path
  (no process has a pid between \<open>last_pid\<close> and \<open>next_safe\<close>) holds again, also when the new process
  joins the list.\<close>

theorem get_pid_unique:
  assumes "pid_inv s ps" and "int (length ps) < MAX_PID - 1"
  shows "\<exists>i s'. get_pid s = Some (i, s') \<and> 1 \<le> i \<and> i < MAX_PID \<and> i \<notin> (\<lambda>p. pid (procs s p)) ` set ps \<and>
    pid_inv s' ps \<and> (\<forall>p. pid (procs s' p) = i \<longrightarrow> unused s' (p # ps) (last_pid s' + 1) (next_safe s'))"
proof -
  obtain i s' where g: "get_pid s = Some (i, s')" "1 \<le> i" "i < MAX_PID" "i \<notin> (\<lambda>p. pid (procs s p)) ` set ps"
    "last_pid s' = i" "pid_inv s' ps"
    using get_pid_fresh [OF assms] by blast
  then have "unused s' ps (last_pid s' + 1) (next_safe s')" by (simp add: pid_inv_def)
  with g show ?thesis by (auto simp: unused_def)
qed

definition ks_two :: kst where
  "ks_two = kst0\<lparr>procs := (\<lambda>p. proc0\<lparr>pid := int p\<rparr>),
     klinks := list_add_before ProcHead (ListLink 2) (list_add_before ProcHead (ListLink 1) \<lparr>prv = id, nxt = id\<rparr>)\<rparr>"

theorem get_pid_unique_witness:
  "\<exists>i s'. get_pid ks_two = Some (i, s') \<and> i \<noteq> 1 \<and> i \<noteq> 2 \<and> pid_inv s' [1, 2]"
proof -
  have "dlist (list_add_before ProcHead (ListLink 1) \<lparr>prv = id, nxt = id\<rparr>) ProcHead ([] @ [ListLink 1])"
    by (rule dl.push_back) (simp_all add: dlist_def)
  from dl.push_back [OF this, of "ListLink 2"] have "dlist (klinks ks_two) ProcHead [ListLink 1, ListLink 2]"
    by (simp add: ks_two_def)
  then have "pid_inv ks_two [1, 2]"
    by (simp add: pid_inv_def proc_ring_def unused_def ks_two_def kst0_def sched_init_def RR_init_def MAX_PID_def
        MAX_PROCESS_def)
  from get_pid_unique [OF this] show ?thesis
    by (auto simp: ks_two_def MAX_PID_def MAX_PROCESS_def)
qed

text \<open>C24. The pid hash table is a finite map: \<open>find_proc\<close> of a pid in range is the process of the table with
  that pid, or \<open>NULL\<close> when there is none; it finds a process once it is hashed and no longer
  once it is unhashed.\<close>

theorem find_proc_table:
  assumes "pid_table s P" and "inj_on (\<lambda>p. pid (procs s p)) P"
  shows "(\<exists>r. find_proc i s = Some r \<and>
      (case r of Some p \<Rightarrow> p \<in> P \<and> pid (procs s p) = i \<and> valid_pid i
       | None \<Rightarrow> \<not> valid_pid i \<or> i \<notin> (\<lambda>p. pid (procs s p)) ` P)) \<and>
    (q \<notin> P \<longrightarrow> pid (procs s q) \<notin> (\<lambda>p. pid (procs s p)) ` P \<longrightarrow> valid_pid (pid (procs s q)) \<longrightarrow>
      find_proc (pid (procs s q)) (hash_proc q s) = Some (Some q)) \<and>
    (q \<in> P \<longrightarrow> find_proc (pid (procs s q)) (unhash_proc q s) = Some None)"
proof (intro conjI impI)
  show "\<exists>r. find_proc i s = Some r \<and>
    (case r of Some p \<Rightarrow> p \<in> P \<and> pid (procs s p) = i \<and> valid_pid i
     | None \<Rightarrow> \<not> valid_pid i \<or> i \<notin> (\<lambda>p. pid (procs s p)) ` P)"
  proof (cases "valid_pid i \<and> i \<in> (\<lambda>p. pid (procs s p)) ` P")
    case True
    then obtain p where "p \<in> P" "i = pid (procs s p)" by auto
    with pids.lookup_some [OF assms this(1)] True show ?thesis by auto
  next
    case False
    then show ?thesis using pids.lookup_none [OF assms(1), of i] by auto
  qed
  show "find_proc (pid (procs s q)) (hash_proc q s) = Some (Some q)"
    if "q \<notin> P" "pid (procs s q) \<notin> (\<lambda>p. pid (procs s p)) ` P" "valid_pid (pid (procs s q))"
    by (rule pids.lookup_insert [OF assms(1) that(1) _ that(3)]) (use assms(2) that(1,2) in auto)
  show "find_proc (pid (procs s q)) (unhash_proc q s) = Some None" if "q \<in> P"
    by (rule pids.lookup_delete [OF assms(1) that assms(2)])
qed

lemma empty_table: "pid_table (ks_two\<lparr>klinks := \<lparr>prv = id, nxt = id\<rparr>\<rparr>) {}"
  unfolding pid_table_def by (rule exI [of _ "\<lambda>_. []"]) (simp add: hashed_def dlist_def)

theorem find_proc_table_witness:
  "find_proc 7 (hash_proc 7 (ks_two\<lparr>klinks := \<lparr>prv = id, nxt = id\<rparr>\<rparr>)) = Some (Some 7)"
  using find_proc_table [OF empty_table, of 0 7]
  by (simp add: ks_two_def valid_pid_def MAX_PID_def MAX_PROCESS_def)

lemma exit_wakes_parent:
  assumes "initproc s = Some i" and "current s \<noteq> Some p" and "family s c cs" and "family s i ds"
    and "rq_inv s ps" and "length ps < 2 ^ 32 - 3"
    and "\<forall>q \<in> {p, i}. pstate (procs s q) \<noteq> PROC_ZOMBIE \<and> (wait_state (procs s q) = WT_CHILD \<longrightarrow> q \<notin> set ps)"
  obtains s' where "(if wait_state (procs s p) = WT_CHILD then wakeup_proc p s else Some s) = Some s'"
    and "wakeable s' i" "family s' c cs" "family s' i ds" "initproc s' = Some i"
    and "\<forall>q. q \<noteq> p \<longrightarrow> pstate (procs s' q) = pstate (procs s q) \<and> wait_state (procs s' q) = wait_state (procs s q)"
    and "\<forall>q. exit_code (procs s' q) = exit_code (procs s q)"
    and "wait_state (procs s p) = WT_CHILD \<longrightarrow> pstate (procs s' p) = PROC_RUNNABLE"
proof -
  have w: "wakeable s p" "wakeable s i" using assms(5-7) unfolding wakeable_def by (auto intro!: exI [of _ ps])
  show thesis
  proof (cases "wait_state (procs s p) = WT_CHILD")
    case True
    obtain s' where s': "wakeup_proc p s = Some s'" "wakeable s' p" using wakeup_wakeable [OF w(1) True] by blast
    note f = wakeup_proc_procs [OF s'(1)]
    have "wakeable s' i"
    proof (cases "i = p")
      case other: False
      show ?thesis by (rule wakeup_other [OF s'(1) assms(2,5,6) _ other]) (use assms(7) True in auto)
    qed (use s'(2) in simp)
    then show thesis using that [of s'] s'(1) True f assms(1,3,4) family_wakeup [OF s'(1)] by simp
  next
    case False
    then show thesis using that [of s] w(2) assms(1,3,4) by simp
  qed
qed

text \<open>C17. A process that exits becomes a zombie with its exit code, its parent is woken if it waits for a
  child, and all of its children become the youngest children of the init process, which is woken
  when one of them is a zombie it waits for.\<close>

theorem exit_hands_over_children:
  assumes "current s = Some c" and "initproc s = Some i" and "parent (procs s c) = Some p"
    and "family s c cs" and "family s i ds" and "set cs \<inter> set ds = {}" and "c \<noteq> i" and "p \<noteq> c" and "i \<notin> set cs"
    and "rq_inv s ps" and "length ps < 2 ^ 32 - 3"
    and "\<forall>q \<in> {p, i}. pstate (procs s q) \<noteq> PROC_ZOMBIE \<and> (wait_state (procs s q) = WT_CHILD \<longrightarrow> q \<notin> set ps)"
  shows "\<exists>s'. exit_family code s = Some s' \<and> cptr (procs s' c) = None \<and> family s' i (rev cs @ ds) \<and>
    pstate (procs s' c) = PROC_ZOMBIE \<and> exit_code (procs s' c) = code \<and>
    (wait_state (procs s p) = WT_CHILD \<longrightarrow> pstate (procs s' p) = PROC_RUNNABLE) \<and>
    (wait_state (procs s i) = WT_CHILD \<and> (\<exists>q \<in> set cs. pstate (procs s q) = PROC_ZOMBIE) \<longrightarrow>
      pstate (procs s' i) = PROC_RUNNABLE)"
proof -
  define s1 where "s1 = upd_proc c (\<lambda>d. d\<lparr>pstate := PROC_ZOMBIE, exit_code := code\<rparr>) s"
  have fam: "family s1 q xs \<longleftrightarrow> family s q xs" for q xs by (rule family_cong) (simp_all add: s1_def)
  have q1: "pstate (procs s1 q) = pstate (procs s q)" "wait_state (procs s1 q) = wait_state (procs s q)"
    if "q \<noteq> c" for q using that by (simp_all add: s1_def)
  have c1: "pstate (procs s1 c) = PROC_ZOMBIE" "exit_code (procs s1 c) = code" "initproc s1 = Some i"
    "current s1 \<noteq> Some p" "rq_inv s1 ps"
    using assms(1,2,8,10) by (simp_all add: s1_def rq_inv_upd_proc)
  have "\<forall>q \<in> {p, i}. pstate (procs s1 q) \<noteq> PROC_ZOMBIE \<and> (wait_state (procs s1 q) = WT_CHILD \<longrightarrow> q \<notin> set ps)"
    using assms(7,8,12) q1 by auto
  from exit_wakes_parent [OF c1(3,4) _ _ c1(5) assms(11) this, of c cs ds] obtain s2 where
    s2: "(if wait_state (procs s1 p) = WT_CHILD then wakeup_proc p s1 else Some s1) = Some s2" "wakeable s2 i"
    "family s2 c cs" "family s2 i ds" "initproc s2 = Some i"
    "\<forall>q. q \<noteq> p \<longrightarrow> pstate (procs s2 q) = pstate (procs s1 q) \<and> wait_state (procs s2 q) = wait_state (procs s1 q)"
    "\<forall>q. exit_code (procs s2 q) = exit_code (procs s1 q)"
    "wait_state (procs s1 p) = WT_CHILD \<longrightarrow> pstate (procs s2 p) = PROC_RUNNABLE"
    using assms(4,5) fam by blast
  have c2: "pstate (procs s2 c) = PROC_ZOMBIE" "exit_code (procs s2 c) = code" "cptr (procs s2 c) = first cs None"
    "sibs s2 None cs None" "distinct (c # cs)"
    using s2(3,6,7) c1 assms(8) by (auto simp: family_def)
  have par: "wait_state (procs s p) = WT_CHILD \<Longrightarrow> pstate (procs s2 p) = PROC_RUNNABLE" using s2(8) q1 assms(8) by simp
  have ex: "exit_family code s = (case cptr (procs s2 c) of None \<Rightarrow> Some s2
      | Some _ \<Rightarrow> do { i \<leftarrow> initproc s2; reparent_loop c i s2 })"
    using s2(1) assms(1,3) unfolding exit_family_def s1_def by simp
  show ?thesis
  proof (cases cs)
    case Nil
    then show ?thesis using ex c2 s2(4) par by auto
  next
    case (Cons d ds')
    from reparent_loop_inv [OF c2(3-5) s2(4) assms(7,9,6) s2(2)]
    obtain s' where s': "reparent_loop c i s2 = Some s'" "cptr (procs s' c) = None" "family s' i (rev cs @ ds)"
      "\<And>q. q \<noteq> i \<Longrightarrow> pstate (procs s' q) = pstate (procs s2 q)" "\<And>q. exit_code (procs s' q) = exit_code (procs s2 q)"
      "pstate (procs s2 i) = PROC_RUNNABLE \<Longrightarrow> pstate (procs s' i) = PROC_RUNNABLE"
      "wait_state (procs s2 i) = WT_CHILD \<Longrightarrow> \<exists>p \<in> set cs. pstate (procs s2 p) = PROC_ZOMBIE \<Longrightarrow>
        pstate (procs s' i) = PROC_RUNNABLE" by blast
    have "pstate (procs s' p) = PROC_RUNNABLE" if "wait_state (procs s p) = WT_CHILD"
      using par [OF that] s'(4) [of p] s'(6) by (cases "p = i") auto
    moreover have "pstate (procs s' i) = PROC_RUNNABLE"
      if h: "wait_state (procs s i) = WT_CHILD" "q \<in> set cs" "pstate (procs s q) = PROC_ZOMBIE" for q
    proof (cases "p = i")
      case False
      have "q \<noteq> p" "q \<noteq> c" using h(2,3) assms(12) c2(5) by auto
      then have "pstate (procs s2 q) = PROC_ZOMBIE" "wait_state (procs s2 i) = WT_CHILD"
        using False s2(6) q1 [of q] q1 [of i] h assms(7) by simp_all
      then show ?thesis using s'(7) h(2) by blast
    qed (use par s'(6) h(1) in simp)
    ultimately show ?thesis using ex c2 s2(5) s' assms(7) Cons by auto
  qed
qed

definition ks_exit :: kst where
  "ks_exit = kst0\<lparr>current := Some 5, procs := (\<lambda>_. proc0)
     (1 := proc0\<lparr>cptr := Some 5, pstate := PROC_SLEEPING, wait_state := WT_CHILD\<rparr>,
      5 := proc0\<lparr>parent := Some 1, cptr := Some 7\<rparr>,
      7 := proc0\<lparr>parent := Some 5, pstate := PROC_ZOMBIE\<rparr>)\<rparr>"

theorem exit_hands_over_children_witness:
  "\<exists>s'. exit_family 3 ks_exit = Some s' \<and> family s' 1 [7, 5] \<and> pstate (procs s' 1) = PROC_RUNNABLE"
proof -
  have f: "current ks_exit = Some 5" "initproc ks_exit = Some 1" "parent (procs ks_exit 5) = Some 1"
    "family ks_exit 5 [7]" "family ks_exit 1 [5]" "set [7] \<inter> set [5 :: nat] = {}" "(5 :: nat) \<noteq> 1"
    "(1 :: nat) \<noteq> 5" "(1 :: nat) \<notin> set [7]"
    by (simp_all add: ks_exit_def kst0_def sched_init_def RR_init_def family_def proc0_def)
  have "rq_inv ks_exit []" using kst0_inv(1) by (simp add: ks_exit_def rq_inv_def)
  from exit_hands_over_children [OF f this, of 3] show ?thesis
    by (simp add: ks_exit_def proc0_def) blast
qed

text \<open>\<open>do_wait\<close> for any child looks at the children from the youngest to the oldest and takes the first
  zombie among them; it sleeps only when it has children and none of them is a zombie. The zombie
  taken leaves the pid table, the process list and its parent's family, and its exit code is returned.\<close>

theorem wait_reaps_zombie:
  assumes "current s = Some c" and "family s c cs" and "proc_ring s ps" and "pid_table s P"
    and "\<forall>q \<in> set cs. q \<in> P \<and> q \<in> set ps \<and> Some q \<noteq> idleproc s \<and> Some q \<noteq> initproc s"
  shows "wait_look 0 s = Some (cs \<noteq> [], find (\<lambda>q. pstate (procs s q) = PROC_ZOMBIE) cs) \<and>
    (\<forall>q. find (\<lambda>q. pstate (procs s q) = PROC_ZOMBIE) cs = Some q \<longrightarrow>
      (\<exists>s'. wait_reap q s = Some (exit_code (procs s q), s') \<and> family s' c (remove1 q cs) \<and>
        proc_ring s' (remove1 q ps) \<and> pid_table s' (P - {q}) \<and> nr_process s' = nr_process s - 1))"
proof (intro conjI allI impI)
  have "sibs s None cs None" "cptr (procs s c) = first cs None" using assms(2) by (simp_all add: family_def)
  then show "wait_look 0 s = Some (cs \<noteq> [], find (\<lambda>q. pstate (procs s q) = PROC_ZOMBIE) cs)"
    using zombie_loop_chain [of s None cs False] assms(1) by (simp add: wait_look_def)
next
  fix q assume "find (\<lambda>q. pstate (procs s q) = PROC_ZOMBIE) cs = Some q"
  then have q: "q \<in> set cs" by (auto simp: find_Some_iff)
  let ?s = "unhash_proc q s"
  have "family ?s c cs" using assms(2) family_cong [of ?s c s cs] by (simp add: unhash_proc_def)
  moreover obtain us vs where cs: "cs = us @ q # vs" using q by (auto dest: split_list)
  ultimately have "family ?s c (us @ q # vs)" by simp
  from remove_links_family_inv [OF this] obtain s' where s': "remove_links q ?s = Some s'"
    "family s' c (us @ vs)" "nr_process s' = nr_process ?s - 1" "klinks s' = list_del (ListLink q) (klinks ?s)"
    "procs s' = procs s'" by blast
  have dist: "distinct cs" using assms(2) by (simp add: family_def)
  have rem: "remove1 q cs = us @ vs" using dist by (simp add: cs remove1_append)
  have reap: "wait_reap q s = Some (exit_code (procs s q), s')"
    using assms(5) q s'(1) by (auto simp: wait_reap_def Let_def)
  have ring: "proc_ring ?s ps" and table: "pid_table ?s (P - {q})"
    using proc_ring_unhash [OF assms(3,4)] pids.delete_law [OF assms(4)] assms(5) q by blast+
  have "pid (procs s' r) = pid (procs ?s r)" for r by (rule remove_links_pid [OF s'(1)])
  then have "pid_table s' (P - {q})" using pid_table_ring_del [OF table ring] s'(4) assms(5) q by blast
  moreover have "proc_ring s' (remove1 q ps)"
    using dl.del_member [of "klinks ?s" ProcHead "map ListLink ps" "ListLink q"] ring assms(5) q s'(4)
    by (simp add: proc_ring_def map_remove1_inj)
  ultimately show "\<exists>s'. wait_reap q s = Some (exit_code (procs s q), s') \<and> family s' c (remove1 q cs) \<and>
        proc_ring s' (remove1 q ps) \<and> pid_table s' (P - {q}) \<and> nr_process s' = nr_process s - 1"
    using reap s' rem by (auto simp: unhash_proc_def)
qed

definition ks_wait :: kst where
  "ks_wait = kst0\<lparr>current := Some 5, procs := (\<lambda>_. proc0)
     (5 := proc0\<lparr>cptr := Some 7\<rparr>,
      7 := proc0\<lparr>parent := Some 5, pid := 7, pstate := PROC_ZOMBIE, exit_code := 42\<rparr>),
     klinks := list_add_before ProcHead (ListLink 7)
       (list_add (HashHead (pid_hashfn 7)) (HashLink 7) \<lparr>prv = id, nxt = id\<rparr>)\<rparr>"

theorem wait_reaps_zombie_witness:
  "\<exists>s'. wait_look 0 ks_wait = Some (True, Some 7) \<and> wait_reap 7 ks_wait = Some (42, s') \<and> family s' 5 []"
proof -
  have "hashed ks_wait (\<lambda>i. if i = pid_hashfn 7 then [7] else [])"
    by (auto simp: hashed_def dlist_def ks_wait_def list_op_defs)
  then have "pid_table ks_wait {7}"
    unfolding pid_table_def by (intro exI conjI, assumption) (auto split: if_splits)
  moreover have "proc_ring ks_wait [7]" by (simp add: proc_ring_def dlist_def ks_wait_def list_op_defs)
  moreover have "current ks_wait = Some 5" "family ks_wait 5 [7]" "pstate (procs ks_wait 7) = PROC_ZOMBIE"
    "exit_code (procs ks_wait 7) = 42" "idleproc ks_wait = Some 0" "initproc ks_wait = Some 1"
    by (simp_all add: ks_wait_def family_def proc0_def kst0_def sched_init_def RR_init_def)
  ultimately show ?thesis
    using wait_reaps_zombie [of ks_wait 5 "[7]" "[7]" "{7}"] by auto
qed

end
