(* ===== verification/Kmalloc.thy ===== *)
theory Kmalloc
  imports Page_Tables
begin

text \<open>
  The SLOB allocator of kern/mm/kmalloc.c. Memory is addressed in units of \<open>SLOB_UNIT\<close> (16) bytes:
  page \<open>p\<close> is the units \<open>256 * p\<close> to \<open>256 * p + 255\<close>, and a pointer to a \<open>slob_t\<close> is the number of its
  unit. The headers of the blocks are the two maps \<open>units\<close> and \<open>next\<close>. The free list is a ring
  through the static block \<open>arena\<close>, which lies in the kernel image, below every page of the
  allocator. A \<open>bigblock_t\<close> lives in a block of two units; its fields are kept in a map of their own,
  since no header is read from that memory while it is in use.
\<close>

subsection \<open>State\<close>

record bigblock =
  order :: nat
  bpages :: nat
  bnext :: "nat option"

record slobst =
  units :: "nat \<Rightarrow> nat"
  snext :: "nat \<Rightarrow> nat"
  slobfree :: nat
  bigblocks :: "nat option"
  big :: "nat \<Rightarrow> bigblock"
  vm :: vmst

definition SLOB_UNIT :: nat where "SLOB_UNIT = 16"

definition SLOB_UNITS :: "nat \<Rightarrow> nat" where
  "SLOB_UNITS sz = (sz + SLOB_UNIT - 1) div SLOB_UNIT"

definition ALIGN :: "nat \<Rightarrow> nat \<Rightarrow> nat" where
  "ALIGN addr sz = and (addr + sz - 1) (mask 64 - (sz - 1))"

definition arena :: nat where "arena = 0x20000"

definition slob_start :: "vmst \<Rightarrow> slobst" where
  "slob_start v = \<lparr>units = (\<lambda>_. 0)(arena := 1), snext = (\<lambda>_. 0)(arena := arena), slobfree = arena, bigblocks = None,
     big = (\<lambda>_. \<lparr>order = 0, bpages = 0, bnext = None\<rparr>), vm = v\<rparr>"

definition set_units :: "nat \<Rightarrow> nat \<Rightarrow> slobst \<Rightarrow> slobst" where
  "set_units b n s = s\<lparr>units := (units s)(b := n)\<rparr>"

definition set_snext :: "nat \<Rightarrow> nat \<Rightarrow> slobst \<Rightarrow> slobst" where
  "set_snext b n s = s\<lparr>snext := (snext s)(b := n)\<rparr>"

definition upd_big :: "nat \<Rightarrow> (bigblock \<Rightarrow> bigblock) \<Rightarrow> slobst \<Rightarrow> slobst" where
  "upd_big b f s = s\<lparr>big := (big s)(b := f (big s b))\<rparr>"

subsection \<open>Pages\<close>

definition slob_get_free_pages :: "nat \<Rightarrow> slobst \<Rightarrow> (nat option \<times> slobst) option" where
  "slob_get_free_pages ord s = do {
     (page, v) \<leftarrow> alloc_pages (2 ^ ord) (vm s);
     Some (map_option (\<lambda>p. 256 * p) page, s\<lparr>vm := v\<rparr>)
   }"

definition slob_free_pages :: "nat \<Rightarrow> nat \<Rightarrow> slobst \<Rightarrow> slobst option" where
  "slob_free_pages kva ord s = do { v \<leftarrow> free_pages (kva div 256) (2 ^ ord) (vm s); Some (s\<lparr>vm := v\<rparr>) }"

subsection \<open>Freeing a block\<close>

text \<open>The insertion point: the loop of \<open>slob_free\<close>.\<close>

partial_function (option) slob_find :: "nat \<Rightarrow> nat \<Rightarrow> slobst \<Rightarrow> nat option" where
  "slob_find b cur s =
     (if b > cur \<and> b < snext s cur then Some cur
      else if cur \<ge> snext s cur \<and> (b > cur \<or> b < snext s cur) then Some cur
      else slob_find b (snext s cur) s)"

declare slob_find.simps [code]

definition slob_free :: "nat option \<Rightarrow> nat \<Rightarrow> slobst \<Rightarrow> slobst option" where
  "slob_free block sz s =
     (case block of
        None \<Rightarrow> Some s
      | Some b \<Rightarrow> do {
          let s = (if sz \<noteq> 0 then set_units b (SLOB_UNITS sz) s else s);
          cur \<leftarrow> slob_find b (slobfree s) s;
          let s = (if b + units s b = snext s cur
                   then let s = set_units b (units s b + units s (snext s cur)) s
                        in set_snext b (snext s (snext s cur)) s
                   else set_snext b (snext s cur) s);
          let s = (if cur + units s cur = b
                   then set_snext cur (snext s b) (set_units cur (units s cur + units s b) s)
                   else set_snext cur b s);
          Some (s\<lparr>slobfree := cur\<rparr>)
        })"

subsection \<open>Allocating a block\<close>

text \<open>The block \<open>cur\<close> behind \<open>prev\<close> has room: it is cut off at \<open>aligned\<close> when \<open>delta\<close> units have to be
  skipped, then unlinked or split.\<close>

definition slob_take :: "nat \<Rightarrow> nat \<Rightarrow> nat \<Rightarrow> nat \<Rightarrow> nat \<Rightarrow> slobst \<Rightarrow> nat \<times> slobst" where
  "slob_take n aligned delta prev cur s =
     (let (prev, cur, s) =
            (if delta \<noteq> 0 then
               let s = set_units aligned (units s cur - delta) s;
                   s = set_snext aligned (snext s cur) s;
                   s = set_units cur delta (set_snext cur aligned s)
               in (cur, aligned, s)
             else (prev, cur, s));
          s = (if units s cur = n then set_snext prev (snext s cur) s
               else let s = set_snext prev (cur + n) s;
                        s = set_units (cur + n) (units s cur - n) s;
                        s = set_snext (cur + n) (snext s cur) s
                    in set_units cur n s)
      in (cur, s\<lparr>slobfree := prev\<rparr>))"

partial_function (option) slob_alloc_loop ::
    "nat \<Rightarrow> nat \<Rightarrow> nat \<Rightarrow> nat \<Rightarrow> nat \<Rightarrow> slobst \<Rightarrow> (nat option \<times> slobst) option" where
  "slob_alloc_loop sz n align prev cur s =
     (let aligned = (if align \<noteq> 0 then ALIGN (cur * SLOB_UNIT) align div SLOB_UNIT else 0);
          delta = (if align \<noteq> 0 then aligned - cur else 0) in
      if units s cur \<ge> n + delta then
        let (b, s) = slob_take n aligned delta prev cur s in Some (Some b, s)
      else if cur = slobfree s then
        if sz = PGSIZE then Some (None, s)
        else do {
          (page, s) \<leftarrow> slob_get_free_pages 0 s;
          (case page of
             None \<Rightarrow> Some (None, s)
           | Some p \<Rightarrow> do {
               s \<leftarrow> slob_free (Some p) PGSIZE s;
               slob_alloc_loop sz n align (slobfree s) (snext s (slobfree s)) s
             })
        }
      else slob_alloc_loop sz n align cur (snext s cur) s)"

declare slob_alloc_loop.simps [code]

definition slob_alloc :: "nat \<Rightarrow> nat \<Rightarrow> slobst \<Rightarrow> (nat option \<times> slobst) option" where
  "slob_alloc sz align s = do {
     kassert (sz + SLOB_UNIT < PGSIZE);
     slob_alloc_loop sz (SLOB_UNITS sz) align (slobfree s) (snext s (slobfree s)) s
   }"

subsection \<open>kmalloc, kfree, ksize\<close>

text \<open>\<open>for ( ; size > 4096 ; size >>= 1) order ++\<close>\<close>

fun find_order :: "nat \<Rightarrow> nat" where
  "find_order sz = (if sz > 4096 then find_order (sz div 2) + 1 else 0)"

declare find_order.simps [simp del]

definition sizeof_bigblock :: nat where "sizeof_bigblock = 24"

definition kmalloc :: "nat \<Rightarrow> slobst \<Rightarrow> (nat option \<times> slobst) option" where
  "kmalloc sz s =
     (if sz < PGSIZE - SLOB_UNIT then do {
        (m, s) \<leftarrow> slob_alloc (sz + SLOB_UNIT) 0 s;
        Some (map_option (\<lambda>m. m + 1) m, s)
      }
      else do {
        (bb, s) \<leftarrow> slob_alloc sizeof_bigblock 0 s;
        (case bb of
           None \<Rightarrow> Some (None, s)
         | Some bb \<Rightarrow> do {
             let s = upd_big bb (\<lambda>b. b\<lparr>order := find_order sz\<rparr>) s;
             (pg, s) \<leftarrow> slob_get_free_pages (order (big s bb)) s;
             (case pg of
                Some pg \<Rightarrow>
                  let s = upd_big bb (\<lambda>b. b\<lparr>bpages := pg, bnext := bigblocks s\<rparr>) s
                  in Some (Some pg, s\<lparr>bigblocks := Some bb\<rparr>)
              | None \<Rightarrow> do { s \<leftarrow> slob_free (Some bb) sizeof_bigblock s; Some (None, s) })
           })
      })"

text \<open>The search of the list of big blocks: the entry found and the one before it.\<close>

partial_function (option) big_find ::
    "nat \<Rightarrow> nat option \<Rightarrow> nat option \<Rightarrow> slobst \<Rightarrow> (nat option \<times> nat option) option" where
  "big_find block prev bb s =
     (case bb of
        None \<Rightarrow> Some (prev, None)
      | Some b \<Rightarrow> if bpages (big s b) = block then Some (prev, Some b)
                 else big_find block (Some b) (bnext (big s b)) s)"

declare big_find.simps [code]

definition kfree :: "nat option \<Rightarrow> slobst \<Rightarrow> slobst option" where
  "kfree block s =
     (case block of
        None \<Rightarrow> Some s
      | Some block \<Rightarrow> do {
          (prev, bb) \<leftarrow> (if block mod 256 = 0 then big_find block None (bigblocks s) s else Some (None, None));
          (case bb of
             Some b \<Rightarrow> do {
               let s = (case prev of
                          None \<Rightarrow> s\<lparr>bigblocks := bnext (big s b)\<rparr>
                        | Some q \<Rightarrow> upd_big q (\<lambda>d. d\<lparr>bnext := bnext (big s b)\<rparr>) s);
               s \<leftarrow> slob_free_pages block (order (big s b)) s;
               slob_free (Some b) sizeof_bigblock s
             }
           | None \<Rightarrow> slob_free (Some (block - 1)) 0 s)
        })"

definition ksize :: "nat option \<Rightarrow> slobst \<Rightarrow> nat option" where
  "ksize block s =
     (case block of
        None \<Rightarrow> Some 0
      | Some block \<Rightarrow> do {
          (_, bb) \<leftarrow> (if block mod 256 = 0 then big_find block None (bigblocks s) s else Some (None, None));
          Some (case bb of
                  Some b \<Rightarrow> to_u32 (PGSIZE * 2 ^ order (big s b))
                | None \<Rightarrow> to_u32 (units s (block - 1) * SLOB_UNIT))
        })"


subsection \<open>The free list\<close>

text \<open>\<open>chain nx bs z\<close>: the \<open>next\<close> pointers visit \<open>bs\<close> and then point to \<open>z\<close>.\<close>

primrec chain :: "(nat \<Rightarrow> nat) \<Rightarrow> nat list \<Rightarrow> nat \<Rightarrow> bool" where
  "chain nx [] z \<longleftrightarrow> True"
| "chain nx (a # bs) z \<longleftrightarrow> nx a = hd (bs @ [z]) \<and> chain nx bs z"

text \<open>Blocks in the order of their addresses, no two of them overlapping or adjacent.\<close>

primrec gaps :: "(nat \<Rightarrow> nat) \<Rightarrow> nat list \<Rightarrow> bool" where
  "gaps u [] \<longleftrightarrow> True"
| "gaps u (a # bs) \<longleftrightarrow> 0 < u a \<and> (\<forall>c \<in> set bs. a + u a < c) \<and> gaps u bs"

definition slob_inv :: "slobst \<Rightarrow> nat list \<Rightarrow> bool" where
  "slob_inv s bs \<longleftrightarrow> bs \<noteq> [] \<and> hd bs = arena \<and> units s arena = 1 \<and> chain (snext s) bs arena \<and>
     gaps (units s) bs \<and> slobfree s \<in> set bs"

definition area :: "slobst \<Rightarrow> nat list \<Rightarrow> nat set" where
  "area s bs = (\<Union>a \<in> set bs. {a ..< a + units s a})"

lemma area_cong: "(\<And>a. a \<in> set bs \<Longrightarrow> units s' a = units s a) \<Longrightarrow> area s' bs = area s bs"
  by (simp add: area_def)

lemma chain_append: "chain nx (us @ vs) z \<longleftrightarrow> chain nx us (hd (vs @ [z])) \<and> chain nx vs z"
  by (induction us) (auto simp: hd_append)

lemma chain_cong: "(\<And>a. a \<in> set bs \<Longrightarrow> nx' a = nx a) \<Longrightarrow> chain nx' bs z \<longleftrightarrow> chain nx bs z"
  by (induction bs) auto

lemma gaps_append:
  "gaps u (us @ vs) \<longleftrightarrow> gaps u us \<and> gaps u vs \<and> (\<forall>a \<in> set us. \<forall>c \<in> set vs. a + u a < c)"
  by (induction us) auto

lemma gaps_cong: "(\<And>a. a \<in> set bs \<Longrightarrow> u' a = u a) \<Longrightarrow> gaps u' bs \<longleftrightarrow> gaps u bs"
  by (induction bs) auto

lemma gaps_strict: "gaps u bs \<Longrightarrow> sorted_wrt (<) bs"
  by (induction bs) fastforce+

lemma gaps_distinct: "gaps u bs \<Longrightarrow> distinct bs"
  using gaps_strict strict_sorted_iff by blast

lemma slob_find_ahead:
  assumes "chain (snext s) (cur # ws @ vs) z" and "sorted_wrt (<) (cur # ws @ vs)" and "z \<le> cur"
    and "last (cur # ws) < b" and "vs = [] \<or> b < hd vs"
  shows "slob_find b cur s = Some (last (cur # ws))"
  using assms
proof (induction ws arbitrary: cur)
  case Nil
  then show ?case by (subst slob_find.simps) (cases vs; auto)
next
  case (Cons w ws)
  have "w \<le> last (w # ws)"
    using Cons.prems(2) by (cases ws rule: rev_cases) (auto simp: sorted_wrt_append)
  then have "w < b" "cur < w" using Cons.prems by auto
  moreover have "slob_find b w s = Some (last (w # ws))"
    by (rule Cons.IH) (use Cons.prems in auto)
  ultimately show ?case using Cons.prems(1) by (subst slob_find.simps) auto
qed

lemma slob_find_wrap:
  assumes "chain (snext s) (cur # ws) z" and "sorted_wrt (<) (cur # ws)" and "b < cur" and "z < b"
  shows "slob_find b cur s = slob_find b z s"
  using assms
proof (induction ws arbitrary: cur)
  case Nil
  then show ?case by (subst slob_find.simps) auto
next
  case (Cons w ws)
  then have "slob_find b w s = slob_find b z s" by auto
  with Cons.prems show ?case by (subst slob_find.simps) auto
qed

lemma slob_find_pos:
  assumes "slob_inv s bs" and "bs = us @ p # vs" and "p < b" and "vs = [] \<or> b < hd vs"
  shows "slob_find b (slobfree s) s = Some p"
proof -
  have ch: "chain (snext s) bs arena" "sorted_wrt (<) bs" and f: "slobfree s \<in> set bs"
    and a: "\<And>c. c \<in> set bs \<Longrightarrow> arena \<le> c"
    using assms(1) gaps_strict [of "units s" bs] by (cases bs; auto simp: slob_inv_def)+
  have ahead: "slob_find b cur s = Some p" if cur: "cur \<in> set (us @ [p])" for cur
  proof -
    from cur obtain xs ys where x: "us @ [p] = xs @ cur # ys" by (meson split_list)
    then have bs: "bs = xs @ cur # ys @ vs" "last (cur # ys) = p"
      using assms(2) by (metis append.assoc append_Cons append_Nil, metis last_appendR last_snoc list.distinct(1))
    have "slob_find b cur s = Some (last (cur # ys))"
      by (rule slob_find_ahead) (use ch a assms(3,4) bs in \<open>auto simp: chain_append sorted_wrt_append\<close>)
    then show ?thesis by (simp only: bs(2))
  qed
  show ?thesis
  proof (cases "slobfree s \<in> set (us @ [p])")
    case True
    then show ?thesis by (rule ahead)
  next
    case False
    then obtain xs ys where vs: "vs = xs @ slobfree s # ys" using f assms(2) by (auto dest: split_list)
    have "b < slobfree s" using assms(4) ch(2) assms(2) vs by (cases xs) (auto simp: sorted_wrt_append)
    moreover have "arena < b" using a [of p] assms(2,3) by simp
    ultimately have "slob_find b (slobfree s) s = slob_find b arena s"
      using ch assms(2) vs by (intro slob_find_wrap [of s _ ys]) (auto simp: chain_append sorted_wrt_append)
    also have "arena \<in> set (us @ [p])" using assms(1,2) by (cases us) (auto simp: slob_inv_def)
    from ahead [OF this] have "slob_find b arena s = Some p" .
    finally show ?thesis .
  qed
qed


subsection \<open>Freeing\<close>

text \<open>The two halves of the insertion of \<open>slob_free\<close> behind \<open>cur\<close>.\<close>

definition join_next :: "nat \<Rightarrow> nat \<Rightarrow> slobst \<Rightarrow> slobst" where
  "join_next b cur s =
     (if b + units s b = snext s cur
      then let s = set_units b (units s b + units s (snext s cur)) s
           in set_snext b (snext s (snext s cur)) s
      else set_snext b (snext s cur) s)"

definition join_prev :: "nat \<Rightarrow> nat \<Rightarrow> slobst \<Rightarrow> slobst" where
  "join_prev b cur s =
     (if cur + units s cur = b
      then set_snext cur (snext s b) (set_units cur (units s cur + units s b) s)
      else set_snext cur b s)"

lemma slob_free_joins:
  "slob_free (Some b) sz s = do {
     let s = (if sz \<noteq> 0 then set_units b (SLOB_UNITS sz) s else s);
     cur \<leftarrow> slob_find b (slobfree s) s;
     Some ((join_prev b cur (join_next b cur s))\<lparr>slobfree := cur\<rparr>)
   }"
  by (simp add: slob_free_def join_next_def join_prev_def Let_def)

lemma set_simps [simp]:
  "units (set_units b n s) = (units s)(b := n)" "snext (set_units b n s) = snext s"
  "snext (set_snext b n s) = (snext s)(b := n)" "units (set_snext b n s) = units s"
  "slobfree (set_units b n s) = slobfree s" "slobfree (set_snext b n s) = slobfree s"
  "vm (set_units b n s) = vm s" "vm (set_snext b n s) = vm s"
  by (simp_all add: set_units_def set_snext_def)

text \<open>The block \<open>b\<close> before \<open>vs\<close>, joined to the first block of \<open>vs\<close> when it touches it.\<close>

lemma join_next_list:
  assumes "chain (snext s) (us @ p # vs) z" and "gaps (units s) (us @ p # vs)" and "0 < units s b"
    and "p + units s p \<le> b" and "\<And>v. v \<in> set vs \<Longrightarrow> b + units s b \<le> v" and "z \<le> p"
  shows "\<exists>ws. chain (snext (join_next b p s)) (b # ws) z \<and> gaps (units (join_next b p s)) (b # ws) \<and>
    set ws \<subseteq> set vs \<and> (\<forall>a. a \<noteq> b \<longrightarrow> units (join_next b p s) a = units s a \<and> snext (join_next b p s) a = snext s a) \<and>
    area (join_next b p s) (b # ws) = {b ..< b + units s b} \<union> area s vs"
proof -
  have c: "snext s p = hd (vs @ [z])" "chain (snext s) vs z" "gaps (units s) vs" "0 < units s p"
    using assms(1,2) by (simp_all add: chain_append gaps_append)
  have nb: "b \<notin> set vs" using assms(3,5) by fastforce
  show ?thesis
  proof (cases "b + units s b = snext s p")
    case True
    then obtain v ws where vs: "vs = v # ws" using c(1) assms(3,4,6) by (cases vs) auto
    have v: "snext s p = v" "b + units s b = v" "snext s v = hd (ws @ [z])" "b < v" using c(1,2) True vs assms(3) by auto
    define s' where "s' = join_next b p s"
    have s': "units s' = (units s)(b := units s b + units s v)" "snext s' = (snext s)(b := hd (ws @ [z]))"
      using v by (simp_all add: s'_def join_next_def Let_def)
    have "chain (snext s') ws z \<longleftrightarrow> chain (snext s) ws z" by (rule chain_cong) (use nb vs s' in auto)
    moreover have "gaps (units s') ws \<longleftrightarrow> gaps (units s) ws" by (rule gaps_cong) (use nb vs s' in auto)
    moreover have "b + (units s b + units s v) < c" if "c \<in> set ws" for c using c(3) vs v(2) that by auto
    ultimately have "chain (snext s') (b # ws) z" "gaps (units s') (b # ws)"
      using c vs assms(3) s' by auto
    moreover have "area s' (b # ws) = {b ..< b + units s b} \<union> area s vs"
    proof -
      have "area s' ws = area s ws" by (rule area_cong) (use nb vs s' in auto)
      moreover have "{b ..< b + (units s b + units s v)} = {b ..< b + units s b} \<union> {v ..< v + units s v}"
        using v(2) by auto
      ultimately show ?thesis using vs s' by (auto simp: area_def)
    qed
    ultimately show ?thesis using vs s' unfolding s'_def by (intro exI [of _ ws]) auto
  next
    case False
    define s' where "s' = join_next b p s"
    have s': "units s' = units s" "snext s' = (snext s)(b := hd (vs @ [z]))"
      using False c(1) by (simp_all add: s'_def join_next_def)
    have "chain (snext s') vs z \<longleftrightarrow> chain (snext s) vs z" by (rule chain_cong) (use nb s' in auto)
    moreover have "b + units s b < v" if "v \<in> set vs" for v
    proof (cases vs)
      case (Cons w ws)
      then have "b + units s b < w" using False c(1) assms(5) [of w] by auto
      then show ?thesis using that Cons c(3) by fastforce
    qed (use that in simp)
    ultimately have "chain (snext s') (b # vs) z" "gaps (units s') (b # vs)" using c assms(3) s' by auto
    moreover have "area s' (b # vs) = {b ..< b + units s b} \<union> area s vs" by (simp add: area_def s')
    ultimately show ?thesis using s' unfolding s'_def by (intro exI [of _ vs]) auto
  qed
qed

text \<open>The whole insertion.\<close>

lemma slob_insert_list:
  assumes "slob_inv s bs" and "bs = us @ p # vs" and "0 < units s b" and "arena + 1 < b"
    and "p + units s p \<le> b" and "\<And>v. v \<in> set vs \<Longrightarrow> b + units s b \<le> v"
  shows "\<exists>bs'. slob_inv ((join_prev b p (join_next b p s))\<lparr>slobfree := p\<rparr>) bs' \<and>
    area (join_prev b p (join_next b p s)) bs' = {b ..< b + units s b} \<union> area s bs"
proof -
  have inv: "chain (snext s) (us @ p # vs) arena" "gaps (units s) (us @ p # vs)" "units s arena = 1"
    "hd (us @ [p]) = arena"
    using assms(1,2) by (auto simp: slob_inv_def hd_append split: if_splits)
  have "arena \<le> p"
    using inv(2,4) by (cases us) (auto simp: gaps_append less_imp_le)
  from join_next_list [OF inv(1,2) assms(3,5,6) this] obtain ws where
    ws: "chain (snext (join_next b p s)) (b # ws) arena" "gaps (units (join_next b p s)) (b # ws)" "set ws \<subseteq> set vs"
    "\<And>a. a \<noteq> b \<Longrightarrow> units (join_next b p s) a = units s a \<and> snext (join_next b p s) a = snext s a"
    "area (join_next b p s) (b # ws) = {b ..< b + units s b} \<union> area s vs" by blast
  define t where "t = join_next b p s"
  have g: "0 < units s p" "\<forall>a \<in> set us. a + units s a < p" "gaps (units s) us" "chain (snext s) us p"
    using inv by (auto simp: gaps_append chain_append)
  have pb: "p < b" using g(1) assms(5) by simp
  have nus: "a \<noteq> b \<and> a \<noteq> p" if "a \<in> set us" for a using g(2) pb that by fastforce
  note tw = ws [folded t_def]
  have tp: "units t p = units s p" "units t arena = 1"
    using tw(4) [of p] tw(4) [of arena] pb inv(3) assms(4) by auto
  show ?thesis
  proof (cases "p + units s p = b")
    case True
    define t' where "t' = join_prev b p t"
    have t': "units t' = (units t)(p := units s p + units t b)" "snext t' = (snext t)(p := snext t b)"
      using True tp by (simp_all add: t'_def join_prev_def)
    have ap: "arena \<noteq> p" using True inv(3) assms(4) by auto
    have wsp: "p \<notin> set ws" "b \<notin> set ws" using tw(2) pb by fastforce+
    have "chain (snext t') us p \<longleftrightarrow> chain (snext s) us p" by (rule chain_cong) (use nus tw(4) t' in auto)
    moreover have "chain (snext t') ws arena \<longleftrightarrow> chain (snext t) ws arena" by (rule chain_cong) (use wsp t' in auto)
    moreover have "gaps (units t') us \<longleftrightarrow> gaps (units s) us" by (rule gaps_cong) (use nus tw(4) t' in auto)
    moreover have "gaps (units t') ws \<longleftrightarrow> gaps (units t) ws" by (rule gaps_cong) (use wsp t' in auto)
    moreover have "a + units t' a < p" "a + units t' a < c" if "a \<in> set us" "c \<in> set ws" for a c
      using g(2) that nus [OF that(1)] tw(2) tw(4) [of a] t' pb by fastforce+
    moreover have "a + units t' a < p" if "a \<in> set us" for a
      using g(2) that nus [OF that] tw(4) [of a] t' by auto
    moreover have "p + units t' p < c" if "c \<in> set ws" for c
      using tw(2) that True t' by auto
    ultimately have "slob_inv (t'\<lparr>slobfree := p\<rparr>) (us @ p # ws)"
      using g tw(1,2) tp(2) t' inv(4) ap
      by (auto simp: slob_inv_def chain_append gaps_append hd_append split: if_splits)
    moreover have "area t' (us @ p # ws) = {b ..< b + units s b} \<union> area s bs"
    proof -
      have "area t' us = area s us" by (rule area_cong) (use nus tw(4) t' in auto)
      moreover have "area t' ws = area t ws" by (rule area_cong) (use wsp t' in auto)
      moreover have "{p ..< p + (units s p + units t b)} = {p ..< p + units s p} \<union> {b ..< b + units t b}"
        using True by auto
      ultimately show ?thesis using tw(5) t' assms(2) by (auto simp: area_def)
    qed
    ultimately show ?thesis unfolding t'_def t_def by blast
  next
    case False
    define t' where "t' = join_prev b p t"
    have t': "units t' = units t" "snext t' = (snext t)(p := b)"
      using False tp by (simp_all add: t'_def join_prev_def)
    have wsp: "p \<notin> set (b # ws)" using tw(2) pb by fastforce
    have "chain (snext t') us p \<longleftrightarrow> chain (snext s) us p" by (rule chain_cong) (use nus tw(4) t' in auto)
    moreover have "chain (snext t') (b # ws) arena \<longleftrightarrow> chain (snext t) (b # ws) arena"
      by (rule chain_cong) (use wsp t' in auto)
    moreover have "gaps (units t') us \<longleftrightarrow> gaps (units s) us" by (rule gaps_cong) (use nus tw(4) t' in auto)
    moreover have "p + units s p < c" if "c \<in> set (b # ws)" for c
      using False assms(5) tw(2) that by fastforce
    moreover have up: "a + units t a < p" if "a \<in> set us" for a
      using g(2) that nus [OF that] tw(4) [of a] by auto
    moreover have "a + units t a < c" if "a \<in> set us" "c \<in> set (b # ws)" for a c
      using up [OF that(1)] that(2) tw(2) pb by fastforce
    ultimately have "slob_inv (t'\<lparr>slobfree := p\<rparr>) (us @ p # b # ws)"
      using g tw(1,2) tp t' inv(4) pb
      by (auto simp: slob_inv_def chain_append gaps_append hd_append split: if_splits)
    moreover have "area t' (us @ p # b # ws) = {b ..< b + units s b} \<union> area s bs"
    proof -
      have "area t' us = area s us" by (rule area_cong) (use nus tw(4) t' in auto)
      then show ?thesis using tw(5) t' tp assms(2) by (auto simp: area_def)
    qed
    ultimately show ?thesis unfolding t'_def t_def by blast
  qed
qed


lemma gaps_pos: "gaps u bs \<Longrightarrow> a \<in> set bs \<Longrightarrow> 0 < u a"
  by (induction bs) auto

lemma slob_inv_arena: "slob_inv s bs \<Longrightarrow> c \<in> set bs \<Longrightarrow> arena \<le> c"
  by (cases bs) (auto simp: slob_inv_def less_imp_le)

lemma slob_inv_set_units:
  assumes "slob_inv s bs" and "b \<notin> set bs"
  shows "slob_inv (set_units b k s) bs \<and> area (set_units b k s) bs = area s bs"
proof -
  have "gaps (units (set_units b k s)) bs \<longleftrightarrow> gaps (units s) bs" by (rule gaps_cong) (use assms(2) in auto)
  moreover have "area (set_units b k s) bs = area s bs" by (rule area_cong) (use assms(2) in auto)
  moreover have "arena \<noteq> b" using assms by (auto simp: slob_inv_def dest: hd_in_set)
  ultimately show ?thesis using assms(1) by (simp add: slob_inv_def)
qed

lemma split_at:
  assumes "sorted_wrt (<) (bs :: nat list)" and "bs \<noteq> []" and "hd bs < b" and "b \<notin> set bs"
  shows "\<exists>us p vs. bs = us @ p # vs \<and> p < b \<and> (\<forall>v \<in> set vs. b < v)"
  using assms
proof (induction bs)
  case (Cons a bs)
  show ?case
  proof (cases "bs \<noteq> [] \<and> hd bs < b")
    case True
    then obtain us p vs where "bs = us @ p # vs" "p < b" "\<forall>v \<in> set vs. b < v" using Cons by auto
    then show ?thesis by (intro exI [of _ "a # us"]) auto
  next
    case False
    then have "\<forall>v \<in> set bs. b < v"
    proof (cases bs)
      case bs: (Cons x xs)
      then have "b \<le> x" "b \<noteq> x" using False Cons.prems(4) by auto
      then have "b < x" by simp
      then show ?thesis using bs Cons.prems(1) by fastforce
    qed simp
    then show ?thesis using Cons.prems(3) by (intro exI [of _ "[]"]) auto
  qed
qed simp

lemma slob_free_inv:
  assumes "slob_inv s bs" and "k = (if sz \<noteq> 0 then SLOB_UNITS sz else units s b)" and "0 < k"
    and "arena + 1 < b" and "{b ..< b + k} \<inter> area s bs = {}"
  shows "\<exists>s' bs'. slob_free (Some b) sz s = Some s' \<and> slob_inv s' bs' \<and> area s' bs' = {b ..< b + k} \<union> area s bs"
proof -
  define t where "t = (if sz \<noteq> 0 then set_units b (SLOB_UNITS sz) s else s)"
  have pos: "0 < units s a" if "a \<in> set bs" for a
    using gaps_pos that assms(1) unfolding slob_inv_def by blast
  then have nb: "b \<notin> set bs" using assms(3,5) by (fastforce simp: area_def)
  have t: "slob_inv t bs" "area t bs = area s bs" "units t b = k"
    using slob_inv_set_units [OF assms(1) nb] assms(1,2) by (auto simp: t_def)
  have g: "gaps (units t) bs" "bs \<noteq> []" "hd bs = arena" using t(1) by (auto simp: slob_inv_def)
  obtain us p vs where bs: "bs = us @ p # vs" "p < b" "\<forall>v \<in> set vs. b < v"
    using split_at [OF gaps_strict [OF g(1)] g(2), of b] g(3) assms(4) nb by auto
  have "p + units t p \<le> b"
  proof (rule ccontr)
    assume "\<not> ?thesis"
    then have "b \<in> area t bs" using bs by (auto simp: area_def)
    moreover have "b \<in> {b ..< b + k}" using assms(3) by simp
    ultimately show False using t(2) assms(5) by blast
  qed
  moreover have "b + k \<le> v" if "v \<in> set vs" for v
  proof (rule ccontr)
    assume "\<not> ?thesis"
    moreover have "v \<in> area s bs" using that bs(1) pos [of v] by (force simp: area_def)
    moreover have "b < v" using bs(3) that by blast
    ultimately have "v \<in> {b ..< b + k} \<inter> area s bs" by simp
    then show False using assms(5) by blast
  qed
  ultimately obtain bs' where bs': "slob_inv ((join_prev b p (join_next b p t))\<lparr>slobfree := p\<rparr>) bs'"
    "area (join_prev b p (join_next b p t)) bs' = {b ..< b + k} \<union> area s bs"
    using slob_insert_list [OF t(1) bs(1), of b] assms(3,4) t(2,3) by auto
  have "slob_find b (slobfree t) t = Some p"
    by (rule slob_find_pos [OF t(1) bs(1,2)]) (use bs(3) in \<open>cases vs; auto\<close>)
  then have "slob_free (Some b) sz s = Some ((join_prev b p (join_next b p t))\<lparr>slobfree := p\<rparr>)"
    unfolding slob_free_joins Let_def t_def [symmetric] by simp
  with bs' show ?thesis by (auto simp: area_def)
qed

subsection \<open>Allocating\<close>

text \<open>What is taken is cut from a free block; \<open>p\<close> is the block before it.\<close>

lemma slob_take_inv:
  assumes "slob_inv s bs" and "p \<in> set bs" and "snext s p = c" and "n \<le> units s c" and "1 < n"
  shows "\<exists>s' bs'. slob_take n 0 0 p c s = (c, s') \<and> slob_inv s' bs' \<and> {c ..< c + n} \<subseteq> area s bs \<and>
    area s' bs' = area s bs - {c ..< c + n} \<and> units s' c = n \<and> arena + 1 < c"
proof -
  have inv: "chain (snext s) bs arena" "gaps (units s) bs" "units s arena = 1" "hd bs = arena"
    using assms(1) by (auto simp: slob_inv_def)
  obtain us ws where p: "bs = us @ p # ws" using assms(2) by (auto dest: split_list)
  have "c = hd (ws @ [arena])" using inv(1) p assms(3) by (simp add: chain_append)
  moreover have "c \<noteq> arena" using inv(3) assms(4,5) by auto
  ultimately obtain vs where bs: "bs = us @ p # c # vs" using p by (cases ws) auto
  have g: "gaps (units s) us" "gaps (units s) vs" "0 < units s p" "0 < units s c" "p + units s p < c"
    "\<forall>a \<in> set us. a + units s a < p" "\<forall>v \<in> set vs. c + units s c < v" "\<forall>a \<in> set us. a + units s a < c"
    "\<forall>v \<in> set vs. p + units s p < v" "\<forall>a \<in> set us. \<forall>v \<in> set vs. a + units s a < v"
    "chain (snext s) us p" "snext s c = hd (vs @ [arena])" "chain (snext s) vs arena"
    using inv(1,2) bs by (auto simp: gaps_append chain_append)
  have d: "a \<noteq> p \<and> a \<noteq> c \<and> a < c" if "a \<in> set us" for a using g(5,6) that by fastforce
  have e: "c + n \<noteq> v \<and> v \<noteq> p \<and> v \<noteq> c \<and> c < v" if "v \<in> set vs" for v using g(5,7) assms(4,5) that by fastforce
  have "arena \<le> p" using slob_inv_arena [OF assms(1)] bs by simp
  then have c: "arena + 1 < c" using g(3,5) by simp
  have far: "p \<noteq> c" "arena \<noteq> c + n" "p < c" using g(3,5) \<open>arena \<le> p\<close> by auto
  have sub: "{c ..< c + n} \<subseteq> area s bs" using bs assms(4) by (force simp: area_def)
  have disj: "{c ..< c + n} \<inter> area s (us @ p # vs) = {}"
  proof -
    have "x \<notin> {c ..< c + n}" if "a \<in> set us \<or> a = p" "x < a + units s a" for x a
      using that g(5,8) by fastforce
    moreover have "x \<notin> {c ..< c + n}" if "v \<in> set vs" "v \<le> x" for x v
      using that g(7) assms(4) by fastforce
    ultimately show ?thesis by (fastforce simp: area_def)
  qed
  show ?thesis
  proof (cases "units s c = n")
    case True
    define s' where "s' = (set_snext p (snext s c) s)\<lparr>slobfree := p\<rparr>"
    have "slob_take n 0 0 p c s = (c, s')" using True by (simp add: slob_take_def s'_def)
    moreover have "chain (snext s') us p \<longleftrightarrow> chain (snext s) us p" "chain (snext s') vs arena \<longleftrightarrow> chain (snext s) vs arena"
      by (rule chain_cong; use d e in \<open>auto simp: s'_def\<close>)+
    then have "slob_inv s' (us @ p # vs)"
      using g inv(3,4) bs by (auto simp: slob_inv_def chain_append gaps_append hd_append s'_def split: if_splits)
    moreover have "area s' (us @ p # vs) = area s bs - {c ..< c + n}"
    proof -
      have "area s bs = area s (us @ p # vs) \<union> {c ..< c + n}" using bs True by (auto simp: area_def)
      moreover have "area s' (us @ p # vs) = area s (us @ p # vs)" by (rule area_cong) (simp add: s'_def)
      ultimately show ?thesis using disj by blast
    qed
    ultimately show ?thesis using sub True c by (auto simp: s'_def)
  next
    case False
    define s' where "s' = (set_units c n (set_snext (c + n) (snext s c) (set_units (c + n) (units s c - n)
      (set_snext p (c + n) s))))\<lparr>slobfree := p\<rparr>"
    have n: "c \<noteq> c + n" "n < units s c" using assms(4,5) False by auto
    have f: "units s' = (units s)(c + n := units s c - n, c := n)" "snext s' = (snext s)(p := c + n, c + n := snext s c)"
      by (simp_all add: s'_def)
    have take: "slob_take n 0 0 p c s = (c, s')"
      using False n far(1) by (simp add: slob_take_def s'_def Let_def)
    have "chain (snext s') us p \<longleftrightarrow> chain (snext s) us p" "chain (snext s') vs arena \<longleftrightarrow> chain (snext s) vs arena"
      by (rule chain_cong; use d e far in \<open>force simp: f\<close>)+
    moreover have gv: "gaps (units s') us \<longleftrightarrow> gaps (units s) us" "gaps (units s') vs \<longleftrightarrow> gaps (units s) vs"
      by (rule gaps_cong; use d e in \<open>force simp: f\<close>)+
    moreover have same: "units s' a = units s a" if "a \<in> set us \<or> a = p \<or> a \<in> set vs \<or> a = arena" for a
      using that d [of a] e [of a] far c by (auto simp: f)
    moreover have "units s' (c + n) = units s c - n" "snext s' (c + n) = hd (vs @ [arena])" "snext s' p = c + n"
      using n far g(12) by (auto simp: f)
    ultimately have ch: "chain (snext s') (us @ p # (c + n) # vs) arena" "units s' arena = 1"
      using g inv(3) by (simp_all add: chain_append)
    have "gaps (units s') ((c + n) # vs)" using gv(2) g(2,7) n by (simp add: f)
    moreover have "gaps (units s') (us @ [p])" using gv(1) g same by (simp add: gaps_append)
    moreover have "a + units s' a < v" if "a \<in> set (us @ [p])" "v \<in> set ((c + n) # vs)" for a v
    proof -
      have "a + units s a < c" using that(1) g(5,8) by auto
      moreover have "c \<le> v" using that(2) e by fastforce
      ultimately show ?thesis using same [of a] that(1) by auto
    qed
    ultimately have "gaps (units s') ((us @ [p]) @ (c + n) # vs)" unfolding gaps_append by blast
    then have "slob_inv s' (us @ p # (c + n) # vs)"
      using ch inv(4) bs by (auto simp: slob_inv_def hd_append s'_def split: if_splits)
    moreover have "area s' (us @ p # (c + n) # vs) = area s bs - {c ..< c + n}"
    proof -
      have "area s' (us @ p # vs) = area s (us @ p # vs)" by (rule area_cong) (use same in auto)
      moreover have "area s bs = area s (us @ p # vs) \<union> {c ..< c + n} \<union> {c + n ..< c + units s c}"
        using bs n by (auto simp: area_def)
      moreover have "area s' (us @ p # (c + n) # vs) = area s' (us @ p # vs) \<union> {c + n ..< c + units s c}"
        using n by (auto simp: area_def f)
      ultimately show ?thesis using disj by auto
    qed
    ultimately show ?thesis using take sub c f by auto
  qed
qed


lemma slob_alloc_loop_fits:
  assumes "chain (snext s) (prev # qs) (slobfree s)" and "slobfree s \<notin> set qs"
    and "\<exists>c \<in> set (qs @ [slobfree s]). n \<le> units s c"
  shows "\<exists>p c. p \<in> set (prev # qs) \<and> snext s p = c \<and> n \<le> units s c \<and>
    slob_alloc_loop sz n 0 prev (hd (qs @ [slobfree s])) s =
      Some (let (b, s') = slob_take n 0 0 p c s in (Some b, s'))"
  using assms
proof (induction qs arbitrary: prev)
  case Nil
  then show ?case by (subst slob_alloc_loop.simps) (auto simp: Let_def split: prod.splits)
next
  case (Cons q qs)
  show ?case
  proof (cases "n \<le> units s q")
    case True
    then show ?thesis using Cons.prems(1)
      by (intro exI [of _ prev] exI [of _ q], subst slob_alloc_loop.simps) (auto simp: Let_def split: prod.splits)
  next
    case False
    then obtain p c where pc: "p \<in> set (q # qs)" "snext s p = c" "n \<le> units s c"
      "slob_alloc_loop sz n 0 q (hd (qs @ [slobfree s])) s = Some (let (b, s') = slob_take n 0 0 p c s in (Some b, s'))"
      using Cons.IH [of q] Cons.prems by auto
    moreover have "slob_alloc_loop sz n 0 prev q s = slob_alloc_loop sz n 0 q (hd (qs @ [slobfree s])) s"
      using False Cons.prems by (subst slob_alloc_loop.simps) (auto simp: Let_def split: prod.splits)
    ultimately show ?thesis by (intro exI [of _ p] exI [of _ c]) auto
  qed
qed

lemma slob_alloc_inv:
  assumes "slob_inv s bs" and "sz + SLOB_UNIT < PGSIZE" and "1 < SLOB_UNITS sz"
    and "\<exists>c \<in> set bs. SLOB_UNITS sz \<le> units s c"
  shows "\<exists>c s' bs'. slob_alloc sz 0 s = Some (Some c, s') \<and> slob_inv s' bs' \<and>
    {c ..< c + SLOB_UNITS sz} \<subseteq> area s bs \<and> area s' bs' = area s bs - {c ..< c + SLOB_UNITS sz} \<and>
    units s' c = SLOB_UNITS sz \<and> arena + 1 < c"
proof -
  obtain us vs where bs: "bs = us @ slobfree s # vs"
    using assms(1) by (meson slob_inv_def split_list)
  have inv: "chain (snext s) bs arena" "distinct bs" "hd bs = arena"
    using assms(1) gaps_distinct by (auto simp: slob_inv_def)
  have ring: "chain (snext s) (slobfree s # vs @ us) (slobfree s)"
    using inv bs by (cases us) (auto simp: chain_append hd_append split: if_splits)
  have "\<exists>c \<in> set ((vs @ us) @ [slobfree s]). SLOB_UNITS sz \<le> units s c" using assms(4) bs by auto
  from slob_alloc_loop_fits [OF ring _ this, of sz] obtain p c where pc:
    "p \<in> set bs" "snext s p = c" "SLOB_UNITS sz \<le> units s c"
    "slob_alloc sz 0 s = Some (let (b, s') = slob_take (SLOB_UNITS sz) 0 0 p c s in (Some b, s'))"
    using inv(2) bs ring assms(2) by (auto simp: slob_alloc_def)
  with slob_take_inv [OF assms(1) pc(1,2,3) assms(3)] show ?thesis by (auto split: prod.splits)
qed

subsection \<open>The order of a big block\<close>

lemma find_order_power: "r < 2 ^ k \<Longrightarrow> find_order (4096 * 2 ^ k + r) = k"
proof (induction k arbitrary: r)
  case 0
  then show ?case by (subst find_order.simps) simp
next
  case (Suc k)
  have half: "(4096 * 2 ^ Suc k + r) div 2 = 4096 * 2 ^ k + r div 2" by simp
  have "r div 2 < 2 ^ k" using Suc.prems by auto
  then have "find_order ((4096 * 2 ^ Suc k + r) div 2) = k" unfolding half by (rule Suc.IH)
  moreover have "(1 :: nat) \<le> 2 ^ k" by simp
  then have "(4096 :: nat) * 2 ^ Suc k + r > 4096" unfolding power_Suc by linarith
  ultimately show ?case by (subst find_order.simps) simp
qed

lemma slob_get_free_pages_frame:
  assumes "slob_get_free_pages k s = Some (pg, s')"
  shows "big s' = big s" "bigblocks s' = bigblocks s"
  using assms by (auto simp: slob_get_free_pages_def bind_eq_Some_conv)

subsection \<open>Properties\<close>


text \<open>One page of 256 units, just freed into the arena.\<close>

definition slob_page :: slobst where
  "slob_page = (set_snext arena 0x21000 (set_snext 0x21000 arena (set_units 0x21000 256 (slob_start pt0))))"

lemma slob_page_inv: "slob_inv slob_page [arena, 0x21000]" "area slob_page [arena, 0x21000] = {arena} \<union> {0x21000 ..< 0x21100}"
  by (auto simp: slob_inv_def slob_page_def slob_start_def arena_def area_def)


text \<open>C21. \<open>slob_free\<close> of a block that is not free puts it back in the order of addresses, joined to the
  free blocks it touches on either side: the free memory grows by exactly that block and the list is
  well formed; so freeing what \<open>slob_alloc\<close> just returned restores the free memory.\<close>

theorem slob_free_gives_back:
  assumes "slob_inv s bs" and "k = (if sz \<noteq> 0 then SLOB_UNITS sz else units s b)" and "0 < k"
    and "arena + 1 < b" and "{b ..< b + k} \<inter> area s bs = {}"
  shows "\<exists>s' bs'. slob_free (Some b) sz s = Some s' \<and> slob_inv s' bs' \<and> area s' bs' = {b ..< b + k} \<union> area s bs"
  by (rule slob_free_inv [OF assms])

theorem slob_free_gives_back_witness:
  "\<exists>c s' s'' bs. slob_alloc 100 0 slob_page = Some (Some c, s') \<and> slob_free (Some c) 0 s' = Some s'' \<and>
    slob_inv s'' bs \<and> area s'' bs = area slob_page [arena, 0x21000]"
proof -
  have n: "SLOB_UNITS 100 = 7" by (simp add: SLOB_UNITS_def SLOB_UNIT_def)
  have "\<exists>c \<in> set [arena, 0x21000]. SLOB_UNITS 100 \<le> units slob_page c"
    unfolding n by (simp add: slob_page_def slob_start_def arena_def)
  moreover have "100 + SLOB_UNIT < PGSIZE" "1 < SLOB_UNITS 100" by (simp_all add: n SLOB_UNIT_def PGSIZE_def)
  ultimately obtain c s' bs' where c: "slob_alloc 100 0 slob_page = Some (Some c, s')" "slob_inv s' bs'"
    "{c ..< c + 7} \<subseteq> area slob_page [arena, 0x21000]"
    "area s' bs' = area slob_page [arena, 0x21000] - {c ..< c + 7}" "units s' c = 7" "arena + 1 < c"
    using slob_alloc_inv [OF slob_page_inv(1), of 100] unfolding n by blast
  have "\<exists>s'' bs''. slob_free (Some c) 0 s' = Some s'' \<and> slob_inv s'' bs'' \<and> area s'' bs'' = {c ..< c + 7} \<union> area s' bs'"
    by (rule slob_free_gives_back [OF c(2)]) (use c(4-6) in auto)
  with c show ?thesis by blast
qed

text \<open>\<open>kmalloc\<close> panics for the sizes 4064 to 4079: they pass its test for small blocks, but with the
  header they no longer pass the assertion of \<open>slob_alloc\<close>.\<close>

theorem kmalloc_panics:
  assumes "4064 \<le> sz" and "sz < 4080"
  shows "kmalloc sz s = None"
  using assms by (simp add: kmalloc_def slob_alloc_def SLOB_UNIT_def PGSIZE_def)

theorem kmalloc_panics_witness: "kmalloc 4070 slob_page = None"
  by (rule kmalloc_panics) simp_all



definition slob_two_pages :: slobst where
  "slob_two_pages = slob_page\<lparr>vm := pt0\<lparr>pmem :=
     \<lparr>pages = (\<lambda>_. \<lparr>ref = 0, flags = 0, property = 0, pra_vaddr = 0\<rparr>)(0 := \<lparr>ref = 0, flags = 2, property = 2, pra_vaddr = 0\<rparr>),
      free_links = \<lparr>prv = id(FreeHead := PageLink 0, PageLink 0 := FreeHead),
        nxt = id(FreeHead := PageLink 0, PageLink 0 := FreeHead)\<rparr>, nr_free = 2\<rparr>\<rparr>\<rparr>"


end
