(* ===== verification/Bitmap.thy ===== *)
theory Bitmap
  imports Kmalloc
begin

text \<open>
  The free-block bitmap of the file system (kern/fs/sfs/bitmap.c): a set bit is a free block. The
  structure and its words are two blocks of \<open>kmalloc\<close>, whose addresses the record keeps; the words
  themselves are the map \<open>bwords\<close>. The invariant \<open>bitmap_inv\<close> says that no bit from \<open>nbits\<close> on is
  ever set; under it the bitmap is a set of indices (\<open>free_bits\<close>), from which \<open>bitmap_alloc\<close> takes the
  least and to which \<open>bitmap_free\<close> returns one.
\<close>

subsection \<open>The code\<close>

record bitmap =
  bm_self :: nat
  bm_map :: nat
  nbits :: nat
  nwords :: nat
  bwords :: "nat \<Rightarrow> 32 word"

definition WORD_BITS :: nat where "WORD_BITS = 32"

definition set_word :: "nat \<Rightarrow> 32 word \<Rightarrow> bitmap \<Rightarrow> bitmap" where
  "set_word ix w b = b\<lparr>bwords := (bwords b)(ix := w)\<rparr>"

text \<open>\<open>for (; overbits < WORD_BITS; overbits ++) map[ix] ^= (1 << overbits)\<close>, \<open>k\<close> rounds to go.\<close>

fun clear_over :: "nat \<Rightarrow> nat \<Rightarrow> 32 word \<Rightarrow> 32 word" where
  "clear_over 0 overbits w = w"
| "clear_over (Suc k) overbits w = clear_over k (overbits + 1) (xor w (push_bit overbits 1))"

text \<open>\<open>bitmap_create\<close> once both blocks are there.\<close>

definition bitmap_fill :: "nat \<Rightarrow> nat \<Rightarrow> nat \<Rightarrow> bitmap option" where
  "bitmap_fill self m n = do {
     let nw = (n + WORD_BITS - 1) div WORD_BITS;
     let bm = \<lparr>bm_self = self, bm_map = m, nbits = n, nwords = nw, bwords = (\<lambda>_. - 1)\<rparr>;
     if n \<noteq> nw * WORD_BITS then do {
       let ix = nw - 1;
       let overbits = n - ix * WORD_BITS;
       kassert (n div WORD_BITS = ix);
       kassert (overbits > 0 \<and> overbits < WORD_BITS);
       Some (set_word ix (clear_over (WORD_BITS - overbits) overbits (bwords bm ix)) bm)
     } else Some bm
   }"

definition bitmap_create :: "nat \<Rightarrow> slobst \<Rightarrow> (bitmap option \<times> slobst) option" where
  "bitmap_create n s = do {
     kassert (n \<noteq> 0);
     (b, s) \<leftarrow> kmalloc 16 s;
     (case b of
        None \<Rightarrow> Some (None, s)
      | Some b \<Rightarrow> do {
          (m, s) \<leftarrow> kmalloc (4 * ((n + WORD_BITS - 1) div WORD_BITS)) s;
          (case m of
             None \<Rightarrow> do { s \<leftarrow> kfree (Some b) s; Some (None, s) }
           | Some m \<Rightarrow> do { bm \<leftarrow> bitmap_fill b m n; Some (Some bm, s) })
        })
   }"

text \<open>The inner loop of \<open>bitmap_alloc\<close>; no set bit is the failed \<open>assert(0)\<close>.\<close>

fun alloc_offset :: "nat \<Rightarrow> nat \<Rightarrow> 32 word \<Rightarrow> nat option" where
  "alloc_offset 0 offset w = None"
| "alloc_offset (Suc k) offset w =
     (if and w (push_bit offset 1) \<noteq> 0 then Some offset else alloc_offset k (offset + 1) w)"

text \<open>The outer loop, \<open>k\<close> words to go: the error code, the index stored and the bitmap.\<close>

fun alloc_words :: "nat \<Rightarrow> nat \<Rightarrow> bitmap \<Rightarrow> (int \<times> nat option \<times> bitmap) option" where
  "alloc_words 0 ix b = Some (- E_NO_MEM, None, b)"
| "alloc_words (Suc k) ix b =
     (if bwords b ix \<noteq> 0 then do {
        offset \<leftarrow> alloc_offset WORD_BITS 0 (bwords b ix);
        Some (0, Some (to_u32 (ix * WORD_BITS + offset)), set_word ix (xor (bwords b ix) (push_bit offset 1)) b)
      }
      else alloc_words k (ix + 1) b)"

definition bitmap_alloc :: "bitmap \<Rightarrow> (int \<times> nat option \<times> bitmap) option" where
  "bitmap_alloc b = alloc_words (nwords b) 0 b"

text \<open>\<open>bitmap_translate\<close>: the number of the word and the mask.\<close>

definition bitmap_translate :: "bitmap \<Rightarrow> nat \<Rightarrow> (nat \<times> 32 word) option" where
  "bitmap_translate b i = do {
     kassert (i < nbits b);
     Some (i div WORD_BITS, push_bit (i mod WORD_BITS) 1)
   }"

definition bitmap_test :: "bitmap \<Rightarrow> nat \<Rightarrow> bool option" where
  "bitmap_test b i = do { (ix, m) \<leftarrow> bitmap_translate b i; Some (and (bwords b ix) m \<noteq> 0) }"

definition bitmap_free :: "nat \<Rightarrow> bitmap \<Rightarrow> bitmap option" where
  "bitmap_free i b = do {
     (ix, m) \<leftarrow> bitmap_translate b i;
     kassert (and (bwords b ix) m = 0);
     Some (set_word ix (or (bwords b ix) m) b)
   }"

definition bitmap_destroy :: "bitmap \<Rightarrow> slobst \<Rightarrow> slobst option" where
  "bitmap_destroy b s = do { s \<leftarrow> kfree (Some (bm_map b)) s; kfree (Some (bm_self b)) s }"

definition bitmap_getdata :: "bitmap \<Rightarrow> nat \<times> nat" where
  "bitmap_getdata b = (bm_map b, 4 * nwords b)"

subsection \<open>The bitmap as a set of indices\<close>

definition free_bits :: "bitmap \<Rightarrow> nat set" where
  "free_bits b = {i. i < nbits b \<and> bit (bwords b (i div 32)) (i mod 32)}"

definition bitmap_inv :: "bitmap \<Rightarrow> bool" where
  "bitmap_inv b \<longleftrightarrow> nbits b \<le> 32 * nwords b \<and> 32 * nwords b < 2 ^ 32 \<and>
     (\<forall>ix < nwords b. \<forall>j < 32. nbits b \<le> 32 * ix + j \<longrightarrow> \<not> bit (bwords b ix) j)"

lemma and_bit_iff: "i < 32 \<Longrightarrow> and (w :: 32 word) (push_bit i 1) \<noteq> 0 \<longleftrightarrow> bit w i"
proof -
  assume i: "i < 32"
  have "and w (push_bit i 1) = 0 \<longleftrightarrow> \<not> bit w i"
  proof
    assume "and w (push_bit i 1) = 0"
    then have "\<not> bit (and w (push_bit i 1)) i" by simp
    then show "\<not> bit w i" using i by (simp add: bit_simps)
  next
    assume "\<not> bit w i"
    then show "and w (push_bit i 1) = 0" by (intro bit_word_eqI) (auto simp: bit_simps)
  qed
  then show ?thesis by blast
qed

lemma alloc_offset_least:
  assumes "j < 32" and "bit w j" and "\<And>i. i < j \<Longrightarrow> \<not> bit w i" and "o0 \<le> j" and "j < o0 + k" and "o0 + k \<le> 32"
  shows "alloc_offset k o0 w = Some j"
  using assms(4-6)
proof (induction k arbitrary: o0)
  case (Suc k)
  show ?case
  proof (cases "o0 = j")
    case True
    then show ?thesis using assms(1,2) and_bit_iff [of j w] by simp
  next
    case False
    then have "\<not> bit w o0" "o0 < 32" using assms(3) Suc.prems by auto
    moreover have "alloc_offset k (o0 + 1) w = Some j" using Suc False by simp
    ultimately show ?thesis using and_bit_iff [of o0 w] by simp
  qed
qed simp

lemma word_nonzero_least:
  assumes "(w :: 32 word) \<noteq> 0"
  shows "\<exists>j < 32. bit w j \<and> (\<forall>i < j. \<not> bit w i)"
proof -
  have "\<exists>j. bit w j" using assms bit_eqI [of w 0] by auto
  then obtain j where "bit w j" "\<forall>i < j. \<not> bit w i" using exists_least_iff [of "bit w"] by blast
  moreover have "j < 32" using bit_imp_le_length [OF calculation(1)] by simp
  ultimately show ?thesis by blast
qed

lemma free_bits_index:
  assumes "bitmap_inv b" and "ix < nwords b" and "j < 32"
  shows "ix * 32 + j \<in> free_bits b \<longleftrightarrow> bit (bwords b ix) j"
proof -
  have "ix * 32 + j < nbits b" if "bit (bwords b ix) j"
  proof (rule ccontr)
    assume "\<not> ?thesis"
    then have "nbits b \<le> 32 * ix + j" by simp
    then show False using assms that by (simp add: bitmap_inv_def)
  qed
  then show ?thesis using assms(3) by (auto simp: free_bits_def)
qed

lemma free_bits_set_word:
  assumes "bitmap_inv b" and "j < 32" and "ix * 32 + j < nbits b" and "\<And>i. i < 32 \<Longrightarrow> i \<noteq> j \<Longrightarrow> bit w i = bit (bwords b ix) i"
  shows "free_bits (set_word ix w b) = (if bit w j then insert (ix * 32 + j) (free_bits b) else free_bits b - {ix * 32 + j})"
    and "bitmap_inv (set_word ix w b)"
proof -
  have mem: "i \<in> free_bits (set_word ix w b) \<longleftrightarrow> (if i = ix * 32 + j then bit w j else i \<in> free_bits b)" for i
  proof (cases "i div 32 = ix \<and> i mod 32 = j")
    case True
    then have "i = ix * 32 + j" by (metis div_mult_mod_eq)
    then show ?thesis using assms(2,3) by (simp add: free_bits_def set_word_def)
  next
    case False
    then have ne: "i \<noteq> ix * 32 + j" using assms(2) by auto
    show ?thesis
    proof (cases "i div 32 = ix")
      case True
      then have "bit w (i mod 32) = bit (bwords b ix) (i mod 32)" using False assms(4) by simp
      then show ?thesis using ne True by (simp add: free_bits_def set_word_def)
    qed (use ne in \<open>simp add: free_bits_def set_word_def\<close>)
  qed
  show "free_bits (set_word ix w b) = (if bit w j then insert (ix * 32 + j) (free_bits b) else free_bits b - {ix * 32 + j})"
    unfolding set_eq_iff mem by simp
  have "\<not> bit w i" if "i < 32" "nbits b \<le> 32 * ix + i" "ix < nwords b" for i
  proof -
    have "i \<noteq> j" using that(2) assms(3) by auto
    then show ?thesis using that assms(1) assms(4) [of i] by (simp add: bitmap_inv_def)
  qed
  then show "bitmap_inv (set_word ix w b)"
    using assms(1) by (simp add: bitmap_inv_def set_word_def)
qed

lemma alloc_words_least:
  assumes "bitmap_inv b" and "ix + k = nwords b" and "\<And>i. i < ix \<Longrightarrow> bwords b i = 0"
  shows "if free_bits b = {} then alloc_words k ix b = Some (- E_NO_MEM, None, b)
    else \<exists>b'. alloc_words k ix b = Some (0, Some (LEAST i. i \<in> free_bits b), b') \<and> bitmap_inv b' \<and> nbits b' = nbits b \<and>
      free_bits b' = free_bits b - {LEAST i. i \<in> free_bits b}"
  using assms(2,3)
proof (induction k arbitrary: ix)
  case 0
  have "i \<notin> free_bits b" for i
  proof -
    have "i < nbits b \<Longrightarrow> i div 32 < nwords b" using assms(1) by (auto simp: bitmap_inv_def)
    then show ?thesis using 0 by (auto simp: free_bits_def)
  qed
  then show ?case by auto
next
  case (Suc k)
  show ?case
  proof (cases "bwords b ix = 0")
    case True
    have "bwords b i = 0" if "i < Suc ix" for i using that Suc.prems(2) True by (auto simp: less_Suc_eq)
    with Suc.IH [of "Suc ix"] Suc.prems(1) True show ?thesis by simp
  next
    case False
    then obtain j where j: "j < 32" "bit (bwords b ix) j" "\<And>i. i < j \<Longrightarrow> \<not> bit (bwords b ix) i"
      using word_nonzero_least by blast
    have ix: "ix < nwords b" using Suc.prems(1) by simp
    have off: "alloc_offset WORD_BITS 0 (bwords b ix) = Some j"
      unfolding WORD_BITS_def by (rule alloc_offset_least [OF j]) (use j in auto)
    have mem: "ix * 32 + j \<in> free_bits b" using free_bits_index [OF assms(1) ix j(1)] j(2) by simp
    have least: "(LEAST i. i \<in> free_bits b) = ix * 32 + j"
    proof (rule Least_equality [of "\<lambda>i. i \<in> free_bits b", OF mem])
      fix i assume i: "i \<in> free_bits b"
      show "ix * 32 + j \<le> i"
      proof (rule ccontr)
        assume "\<not> ?thesis"
        then have "i < ix * 32 + j" by simp
        then have "i div 32 \<le> (ix * 32 + j) div 32" by (intro div_le_mono) simp
        then have "i div 32 < ix \<or> i div 32 = ix" using j(1) by auto
        moreover have "i mod 32 < j" if "i div 32 = ix"
          using div_mult_mod_eq [of i 32] \<open>i < ix * 32 + j\<close> that by simp
        ultimately show False using i Suc.prems(2) j(3) by (auto simp: free_bits_def)
      qed
    qed
    have bound: "ix * 32 + j < nbits b" using mem by (simp add: free_bits_def)
    have u: "to_u32 (ix * WORD_BITS + j) = ix * 32 + j"
      using bound assms(1) by (auto simp: WORD_BITS_def bitmap_inv_def intro!: to_u32_id)
    have bits: "bit (xor (bwords b ix) (push_bit j 1)) i = bit (bwords b ix) i" if "i < 32" "i \<noteq> j" for i
      using that by (auto simp: bit_simps)
    have "\<not> bit (xor (bwords b ix) (push_bit j 1)) j" using j(1,2) by (simp add: bit_simps)
    with free_bits_set_word [OF assms(1) j(1) bound bits] mem off u False least show ?thesis
      by (auto simp: set_word_def)
  qed
qed


lemma bitmap_free_adds:
  assumes "bitmap_inv b" and "i < nbits b"
  shows "if i \<in> free_bits b then bitmap_free i b = None
    else \<exists>b'. bitmap_free i b = Some b' \<and> bitmap_inv b' \<and> nbits b' = nbits b \<and> free_bits b' = insert i (free_bits b)"
proof -
  have m: "i mod 32 < 32" by simp
  have bit: "i \<in> free_bits b \<longleftrightarrow> bit (bwords b (i div 32)) (i mod 32)" using assms(2) by (simp add: free_bits_def)
  note mask = and_bit_iff [OF m, of "bwords b (i div 32)"]
  show ?thesis
  proof (cases "i \<in> free_bits b")
    case True
    then show ?thesis using mask bit assms(2) by (simp add: bitmap_free_def bitmap_translate_def WORD_BITS_def)
  next
    case False
    define w where "w = or (bwords b (i div 32)) (push_bit (i mod 32) 1)"
    have "bit w (i mod 32)" by (simp add: w_def bit_simps)
    moreover have "bit w j = bit (bwords b (i div 32)) j" if "j < 32" "j \<noteq> i mod 32" for j
      using that by (auto simp: w_def bit_simps)
    moreover have "i div 32 * 32 + i mod 32 = i" by simp
    ultimately have "free_bits (set_word (i div 32) w b) = insert i (free_bits b)" "bitmap_inv (set_word (i div 32) w b)"
      using free_bits_set_word [OF assms(1) m, of "i div 32" w] assms(2) by simp_all
    moreover have "bitmap_free i b = Some (set_word (i div 32) w b)"
      using False mask bit assms(2) by (simp add: bitmap_free_def bitmap_translate_def WORD_BITS_def w_def)
    ultimately show ?thesis using False by (simp add: set_word_def)
  qed
qed

text \<open>The contract of the file system's free map: a pool of indices.\<close>

locale index_pool =
  fixes inv :: "'b \<Rightarrow> bool"
    and avail :: "'b \<Rightarrow> nat set"
    and limit :: "'b \<Rightarrow> nat"
    and take_index :: "'b \<Rightarrow> (int \<times> nat option \<times> 'b) option"
    and give_index :: "nat \<Rightarrow> 'b \<Rightarrow> 'b option"
  assumes avail_limit: "inv b \<Longrightarrow> i \<in> avail b \<Longrightarrow> i < limit b"
    and take_empty: "inv b \<Longrightarrow> avail b = {} \<Longrightarrow> take_index b = Some (- E_NO_MEM, None, b)"
    and take_least: "inv b \<Longrightarrow> avail b \<noteq> {} \<Longrightarrow> \<exists>b'. take_index b = Some (0, Some (LEAST i. i \<in> avail b), b') \<and>
      inv b' \<and> limit b' = limit b \<and> avail b' = avail b - {LEAST i. i \<in> avail b}"
    and give_law: "inv b \<Longrightarrow> i < limit b \<Longrightarrow> i \<notin> avail b \<Longrightarrow> \<exists>b'. give_index i b = Some b' \<and>
      inv b' \<and> limit b' = limit b \<and> avail b' = insert i (avail b)"
begin

lemma take_member: "inv b \<Longrightarrow> avail b \<noteq> {} \<Longrightarrow> (LEAST i. i \<in> avail b) \<in> avail b"
  using LeastI_ex [of "\<lambda>i. i \<in> avail b"] by blast

lemma take_give:
  assumes "inv b" and "avail b \<noteq> {}"
  shows "\<exists>b' b''. take_index b = Some (0, Some (LEAST i. i \<in> avail b), b') \<and>
    give_index (LEAST i. i \<in> avail b) b' = Some b'' \<and> inv b'' \<and> avail b'' = avail b"
proof -
  let ?i = "LEAST i. i \<in> avail b"
  obtain b' where b': "take_index b = Some (0, Some ?i, b')" "inv b'" "limit b' = limit b" "avail b' = avail b - {?i}"
    using take_least [OF assms] by blast
  have i: "?i \<in> avail b" by (rule take_member [OF assms])
  then have "?i < limit b'" using avail_limit [OF assms(1)] b'(3) by simp
  from give_law [OF b'(2) this] b' i show ?thesis by (auto simp: insert_absorb)
qed

end

interpretation pool: index_pool bitmap_inv free_bits nbits bitmap_alloc bitmap_free
proof
  fix b assume b: "bitmap_inv b"
  note a = alloc_words_least [OF b, of 0 "nwords b", folded bitmap_alloc_def]
  show "free_bits b = {} \<Longrightarrow> bitmap_alloc b = Some (- E_NO_MEM, None, b)" using a by simp
  show "free_bits b \<noteq> {} \<Longrightarrow> \<exists>b'. bitmap_alloc b = Some (0, Some (LEAST i. i \<in> free_bits b), b') \<and>
      bitmap_inv b' \<and> nbits b' = nbits b \<and> free_bits b' = free_bits b - {LEAST i. i \<in> free_bits b}" using a by auto
  show "i \<in> free_bits b \<Longrightarrow> i < nbits b" for i by (simp add: free_bits_def)
  show "i < nbits b \<Longrightarrow> i \<notin> free_bits b \<Longrightarrow> \<exists>b'. bitmap_free i b = Some b' \<and>
      bitmap_inv b' \<and> nbits b' = nbits b \<and> free_bits b' = insert i (free_bits b)" for i
    using bitmap_free_adds [OF b, of i] by auto
qed

subsection \<open>A new bitmap\<close>

lemma clear_over_bit:
  assumes "o0 + k \<le> 32"
  shows "bit (clear_over k o0 (w :: 32 word)) i \<longleftrightarrow> (if o0 \<le> i \<and> i < o0 + k then \<not> bit w i else bit w i)"
  using assms
proof (induction k arbitrary: o0 w)
  case (Suc k)
  have "bit (xor w (push_bit o0 1)) i \<longleftrightarrow> (if i = o0 then \<not> bit w i else bit w i)"
    using Suc.prems by (auto simp: bit_simps)
  then show ?case using Suc.IH [of "o0 + 1" "xor w (push_bit o0 1)"] Suc.prems by auto
qed simp

lemma bitmap_fill_all_free:
  assumes "bitmap_fill self m n = Some b" and "n \<noteq> 0" and "n \<le> 2 ^ 32 - 64"
  shows "bitmap_inv b \<and> nbits b = n \<and> free_bits b = {..< n}"
proof -
  define nw where "nw = (n + 31) div 32"
  note n = assms(2)
  then have n31: "n + 31 = (n - 1) + 32" by simp
  define d where "d = (n - 1) div 32"
  have q: "nw = d + 1" unfolding nw_def n31 d_def by (simp only: div_add_self2)
  have "32 * d \<le> n - 1" "n - 1 < 32 * d + 32"
    using div_mult_mod_eq [of "n - 1" 32] mod_less_divisor [of 32 "n - 1"] unfolding d_def by linarith+
  then have nw: "32 * (nw - 1) < n" "n \<le> 32 * nw" "0 < nw" "32 * nw < 2 ^ 32"
    using n assms(3) unfolding q by simp_all
  define ws where "ws = (\<lambda>ix. if n \<noteq> nw * 32 \<and> ix = nw - 1 then clear_over (32 - (n - (nw - 1) * 32)) (n - (nw - 1) * 32) (- 1 :: 32 word) else - 1)"
  have b: "nbits b = n" "nwords b = nw" "bwords b = ws"
  proof -
    have w: "(n + WORD_BITS - 1) div WORD_BITS = nw" by (simp add: nw_def WORD_BITS_def)
    define bm where "bm = \<lparr>bm_self = self, bm_map = m, nbits = n, nwords = nw, bwords = (\<lambda>_. - 1 :: 32 word)\<rparr>"
    have "b = (if n \<noteq> nw * 32
      then set_word (nw - 1) (clear_over (32 - (n - (nw - 1) * 32)) (n - (nw - 1) * 32) (- 1)) bm else bm)"
      using assms(1) unfolding bitmap_fill_def Let_def w unfolding WORD_BITS_def
      by (simp add: bm_def split: if_splits)
    then show "nbits b = n" "nwords b = nw" "bwords b = ws"
      by (simp_all add: set_word_def bm_def ws_def fun_eq_iff)
  qed
  have ws: "bit (ws ix) j \<longleftrightarrow> 32 * ix + j < n" if "ix < nw" "j < 32" for ix j
  proof (cases "n \<noteq> nw * 32 \<and> ix = nw - 1")
    case True
    have "n - (nw - 1) * 32 + (32 - (n - (nw - 1) * 32)) \<le> 32" using nw True by auto
    from clear_over_bit [OF this, of "- 1" j] show ?thesis
      using True that nw by (auto simp: ws_def bit_simps)
  next
    case False
    have "32 * ix + j < n"
    proof (cases "ix = nw - 1")
      case True
      then show ?thesis using False nw that by auto
    next
      case other: False
      then show ?thesis using nw(1) that by linarith
    qed
    then show ?thesis using False that by (auto simp: ws_def)
  qed
  have "bitmap_inv b" using nw ws by (auto simp: bitmap_inv_def b)
  moreover have "i \<in> free_bits b \<longleftrightarrow> i < n" for i
  proof -
    have "i < n \<Longrightarrow> i div 32 < nw" using nw(2) by auto
    then show ?thesis using ws [of "i div 32" "i mod 32"] by (auto simp: free_bits_def b)
  qed
  ultimately show ?thesis using b by auto
qed

lemma bitmap_create_all_free:
  assumes "bitmap_create n s = Some (Some b, s')" and "n \<le> 2 ^ 32 - 64"
  shows "bitmap_inv b \<and> nbits b = n \<and> free_bits b = {..< n}"
proof -
  obtain self m where "bitmap_fill self m n = Some b" "n \<noteq> 0"
    using assms(1) by (auto simp: bitmap_create_def bind_eq_Some_conv split: option.splits if_splits)
  then show ?thesis using bitmap_fill_all_free assms(2) by blast
qed

subsection \<open>Properties\<close>

text \<open>C23. The bitmap is a pool of free indices: \<open>bitmap_alloc\<close> takes the least one, and fails with
  \<open>-E_NO_MEM\<close> exactly when there is none; \<open>bitmap_free\<close> of what it returned restores the pool, and of an
  index that is free it panics.\<close>

theorem bitmap_alloc_free:
  assumes "bitmap_inv b"
  shows "(free_bits b = {} \<longrightarrow> bitmap_alloc b = Some (- E_NO_MEM, None, b)) \<and>
    (free_bits b \<noteq> {} \<longrightarrow> (\<exists>i b' b''. bitmap_alloc b = Some (0, Some i, b') \<and> i = (LEAST i. i \<in> free_bits b) \<and>
      bitmap_free i b' = Some b'' \<and> bitmap_inv b'' \<and> free_bits b'' = free_bits b)) \<and>
    (\<forall>i \<in> free_bits b. bitmap_free i b = None)"
proof (intro conjI impI ballI)
  show "free_bits b = {} \<Longrightarrow> bitmap_alloc b = Some (- E_NO_MEM, None, b)" by (rule pool.take_empty [OF assms])
  show "free_bits b \<noteq> {} \<Longrightarrow> \<exists>i b' b''. bitmap_alloc b = Some (0, Some i, b') \<and> i = (LEAST i. i \<in> free_bits b) \<and>
      bitmap_free i b' = Some b'' \<and> bitmap_inv b'' \<and> free_bits b'' = free_bits b"
    using pool.take_give [OF assms] by blast
  show "bitmap_free i b = None" if "i \<in> free_bits b" for i
    using bitmap_free_adds [OF assms, of i] that by (auto simp: free_bits_def)
qed

definition bitmap_40 :: bitmap where
  "bitmap_40 = \<lparr>bm_self = 1, bm_map = 2, nbits = 40, nwords = 2, bwords = (\<lambda>_. 0)(1 := push_bit 4 1)\<rparr>"

lemma bit_16: "bit (16 :: int) j \<longleftrightarrow> j = 4"
proof -
  have "(16 :: int) = push_bit 4 1" by simp
  then show ?thesis by (simp only: bit_push_bit_iff bit_1_iff) auto
qed

theorem bitmap_alloc_free_witness: "\<exists>b'. bitmap_alloc bitmap_40 = Some (0, Some 36, b') \<and> bitmap_free 36 bitmap_40 = None"
proof -
  have inv: "bitmap_inv bitmap_40" by (auto simp: bitmap_inv_def bitmap_40_def bit_16)
  have "i \<in> free_bits bitmap_40 \<longleftrightarrow> i = 36" for i
  proof
    assume "i \<in> free_bits bitmap_40"
    then have "i div 32 = 1" "i mod 32 = 4" by (auto simp: free_bits_def bitmap_40_def bit_16 split: if_splits)
    then show "i = 36" using div_mult_mod_eq [of i 32] by simp
  qed (simp add: free_bits_def bitmap_40_def bit_16)
  then have "free_bits bitmap_40 = {36}" by auto
  moreover have "(LEAST i. i = (36 :: nat)) = 36" by (rule Least_equality) auto
  ultimately show ?thesis using bitmap_alloc_free [OF inv] by auto
qed

end
