(* ===== verification/Iobuf.thy ===== *)
theory Iobuf
  imports CString Printf
begin

text \<open>
  The I/O buffer of the file system (kern/fs/iobuf.c) and the little-endian fields of the structures
  that are read from and written to disk. A buffer is a window of the kernel's byte memory; the
  transfers are the \<open>memmove\<close> and \<open>memset\<close> of theory CString. The last lemma is what the device drivers
  rely on: a transfer never moves more than the buffer has left, and the four fields stay consistent
  (\<open>iobuf_ok\<close>: the used and the remaining part make up the length).
\<close>

subsection \<open>Fields in memory\<close>

definition ld16 :: "bytes \<Rightarrow> nat \<Rightarrow> nat" where
  "ld16 m a = unat (m a) + 256 * unat (m (a + 1))"

definition ld32 :: "bytes \<Rightarrow> nat \<Rightarrow> nat" where
  "ld32 m a = ld16 m a + 65536 * ld16 m (a + 2)"

definition st16 :: "nat \<Rightarrow> nat \<Rightarrow> bytes \<Rightarrow> bytes" where
  "st16 a v m = m(a := of_nat v, a + 1 := of_nat (v div 256))"

definition st32 :: "nat \<Rightarrow> nat \<Rightarrow> bytes \<Rightarrow> bytes" where
  "st32 a v m = st16 (a + 2) (v div 65536) (st16 a v m)"

lemma unat_byte: "unat (of_nat v :: byte) = v mod 256"
  by (simp add: unat_of_nat)

lemma unat_byte_less: "unat (b :: byte) < 256"
  using unsigned_less [of b] by simp

lemma ld16_less: "ld16 m a < 65536"
  using unat_byte_less [of "m a"] unat_byte_less [of "m (a + 1)"] by (simp add: ld16_def)

lemma ld32_less: "ld32 m a < 4294967296"
  using ld16_less [of m a] ld16_less [of m "a + 2"] by (simp add: ld32_def)

lemma ld16_st16: "ld16 (st16 a v m) a = v mod 65536"
proof -
  have "v mod 65536 = v mod 256 + 256 * (v div 256 mod 256)"
    using mod_mult2_eq [of v 256 256] by simp
  then show ?thesis by (simp add: ld16_def st16_def unat_byte)
qed

lemma ld16_st16_other: "a + 2 \<le> b \<or> b + 2 \<le> a \<Longrightarrow> ld16 (st16 a v m) b = ld16 m b"
  by (auto simp: ld16_def st16_def)

lemma ld32_st32: "ld32 (st32 a v m) a = v mod 4294967296"
proof -
  have "v mod 4294967296 = v mod 65536 + 65536 * (v div 65536 mod 65536)"
    using mod_mult2_eq [of v 65536 65536] by simp
  then show ?thesis by (simp add: ld32_def st32_def ld16_st16 ld16_st16_other)
qed

lemma st32_outside: "i < a \<or> a + 4 \<le> i \<Longrightarrow> st32 a v m i = m i"
  by (auto simp: st32_def st16_def)

lemma ld32_frame: "(\<And>i. a \<le> i \<Longrightarrow> i < a + 4 \<Longrightarrow> m' i = m i) \<Longrightarrow> ld32 m' a = ld32 m a"
  by (simp add: ld32_def ld16_def)

lemma ld32_region: "region m a 4 = region m' b 4 \<Longrightarrow> ld32 m a = ld32 m' b"
proof -
  assume r: "region m a 4 = region m' b 4"
  then have e: "m (a + i) = m' (b + i)" if "i < 4" for i
    using that by (simp add: region_eq_iff)
  have "ld16 m a = ld16 m' b" using e [of 0] e [of 1] by (simp add: ld16_def)
  moreover have "ld16 m (a + 2) = ld16 m' (b + 2)" using e [of 2] e [of 3]
    unfolding ld16_def add.assoc by simp
  ultimately show ?thesis by (simp add: ld32_def)
qed

subsection \<open>The buffer\<close>

record iobuf =
  io_base :: nat
  io_offset :: int
  io_len :: nat
  io_resid :: nat

definition iobuf_used :: "iobuf \<Rightarrow> nat" where
  "iobuf_used iob = nat ((int (io_len iob) - int (io_resid iob)) mod 2 ^ 64)"

definition iobuf_init :: "nat \<Rightarrow> nat \<Rightarrow> int \<Rightarrow> iobuf" where
  "iobuf_init base len offset = \<lparr>io_base = base, io_offset = offset, io_len = len, io_resid = len\<rparr>"

definition iobuf_skip :: "nat \<Rightarrow> iobuf \<Rightarrow> iobuf option" where
  "iobuf_skip n iob = do {
     kassert (io_resid iob \<ge> n);
     Some (iob\<lparr>io_base := io_base iob + n, io_offset := to_i64 (io_offset iob + int n), io_resid := io_resid iob - n\<rparr>)
   }"

text \<open>\<open>m2b\<close>: from \<open>data\<close> into the buffer. The result is the error code, the value stored through
  \<open>copiedp\<close>, the buffer and the memory.\<close>

definition iobuf_move :: "nat \<Rightarrow> nat \<Rightarrow> bool \<Rightarrow> iobuf \<Rightarrow> bytes \<Rightarrow> (int \<times> nat \<times> iobuf \<times> bytes) option" where
  "iobuf_move data len m2b iob m =
     (let alen = (if io_resid iob > len then len else io_resid iob) in do {
        (iob, m) \<leftarrow> (if alen > 0 then
          let (src, dst) = (if m2b then (data, io_base iob) else (io_base iob, data)) in do {
            iob \<leftarrow> iobuf_skip alen iob;
            Some (iob, memmove m dst src alen)
          } else Some (iob, m));
        Some (if len - alen = 0 then 0 else - E_NO_MEM, alen, iob, m)
      })"

definition iobuf_move_zeros :: "nat \<Rightarrow> iobuf \<Rightarrow> bytes \<Rightarrow> (int \<times> nat \<times> iobuf \<times> bytes) option" where
  "iobuf_move_zeros len iob m =
     (let alen = (if io_resid iob > len then len else io_resid iob) in do {
        (iob, m) \<leftarrow> (if alen > 0 then do {
            let m = memset m (io_base iob) 0 alen;
            iob \<leftarrow> iobuf_skip alen iob;
            Some (iob, m)
          } else Some (iob, m));
        Some (if len - alen = 0 then 0 else - E_NO_MEM, alen, iob, m)
      })"

subsection \<open>Transfers\<close>

definition iobuf_ok :: "iobuf \<Rightarrow> bool" where
  "iobuf_ok iob \<longleftrightarrow> io_resid iob \<le> io_len iob \<and> io_len iob < 2 ^ 64"

lemma iobuf_used_ok: "iobuf_ok iob \<Longrightarrow> iobuf_used iob = io_len iob - io_resid iob"
  by (simp add: iobuf_ok_def iobuf_used_def nat_diff_distrib)

lemma iobuf_init_ok [simp]: "len < 2 ^ 64 \<Longrightarrow> iobuf_ok (iobuf_init base len offset)"
  by (simp add: iobuf_ok_def iobuf_init_def)

lemma iobuf_skip_ok:
  "iobuf_ok iob \<Longrightarrow> n \<le> io_resid iob \<Longrightarrow>
   \<exists>iob'. iobuf_skip n iob = Some iob' \<and> iobuf_ok iob' \<and> iobuf_used iob' = iobuf_used iob + n \<and>
     io_base iob' = io_base iob + n \<and> io_resid iob' = io_resid iob - n \<and> io_len iob' = io_len iob"
  by (auto simp: iobuf_skip_def iobuf_used_def iobuf_ok_def nat_diff_distrib)

text \<open>\<open>iobuf_move\<close> into the buffer returns: it moves \<open>min len resid\<close> bytes to the front of what is left of
  the buffer, reports that number, and returns an error exactly when the data did not fit; the bytes
  behind the end of the buffer are never written, and the used part grows by what was moved.\<close>

theorem iobuf_move_bounded:
  assumes "iobuf_ok iob"
  shows "\<exists>iob' m'. iobuf_move data len True iob m =
      Some (if len \<le> io_resid iob then 0 else - E_NO_MEM, min len (io_resid iob), iob', m') \<and>
    iobuf_ok iob' \<and> io_len iob' = io_len iob \<and> iobuf_used iob' = iobuf_used iob + min len (io_resid iob) \<and>
    io_base iob' + io_resid iob' = io_base iob + io_resid iob \<and>
    region m' (io_base iob) (min len (io_resid iob)) = region m data (min len (io_resid iob)) \<and>
    (\<forall>i. i < io_base iob \<or> io_base iob + min len (io_resid iob) \<le> i \<longrightarrow> m' i = m i)"
proof -
  define alen where "alen = min len (io_resid iob)"
  have a: "(if io_resid iob > len then len else io_resid iob) = alen" by (simp add: alen_def)
  have err: "(if len - alen = 0 then 0 else - E_NO_MEM) = (if len \<le> io_resid iob then 0 else - E_NO_MEM)"
    by (simp add: alen_def)
  obtain iob' where iob': "iobuf_skip alen iob = Some iob'" "iobuf_ok iob'"
    "iobuf_used iob' = iobuf_used iob + alen" "io_base iob' = io_base iob + alen"
    "io_resid iob' = io_resid iob - alen" "io_len iob' = io_len iob"
    using iobuf_skip_ok [OF assms, of alen] by (auto simp: alen_def)
  have mv: "iobuf_move data len True iob m =
      (if alen > 0 then Some (if len \<le> io_resid iob then 0 else - E_NO_MEM, alen, iob', memmove m (io_base iob) data alen)
       else Some (if len \<le> io_resid iob then 0 else - E_NO_MEM, alen, iob, m))"
    unfolding iobuf_move_def Let_def a err by (simp add: iob'(1))
  show ?thesis
  proof (cases "alen > 0")
    case True
    moreover have "alen \<le> io_resid iob" by (simp add: alen_def)
    ultimately show ?thesis using mv iob'
      by (auto simp: alen_def [symmetric] region_eq_iff memmove_at)
  next
    case False
    then show ?thesis using mv assms by (simp add: alen_def [symmetric])
  qed
qed

theorem iobuf_move_bounded_witness:
  "\<exists>iob' m'. iobuf_move 500 9 True (iobuf_init 100 4 0) (\<lambda>i. of_nat i) = Some (- E_NO_MEM, 4, iob', m') \<and>
     region m' 100 4 = region (\<lambda>i. of_nat i) 500 4 \<and> m' 104 = 104"
  using iobuf_move_bounded [of "iobuf_init 100 4 0" 500 9 "\<lambda>i. of_nat i"]
  by (auto simp: iobuf_init_def iobuf_ok_def)

end
