(* ===== verification/Fs_State.thy ===== *)
theory Fs_State
  imports Bitmap Iobuf
begin

text \<open>
  The state of the file system: inodes, mounted file systems, the list of named devices, the table of
  open files of a process, and the devices. A structure is found by the address \<open>kmalloc\<close> gave it;
  buffers, path strings, the super block and the on-disk inodes are bytes of \<open>kmem\<close>, since they are
  copied to and from the disk. The heap is the SLOB allocator of theory Kmalloc.

  The functions are run by one process here. A semaphore of the file system is its value: \<open>down\<close> on
  zero sleeps, and nobody is there to wake the process, so it does not return (\<open>None\<close>).
\<close>

subsection \<open>Structures\<close>

text \<open>The four function pointers of a \<open>struct device\<close> are those of one driver.\<close>

datatype driver = Stdin | Stdout | Disk0

record device =
  d_blocks :: nat
  d_blocksize :: nat
  d_driver :: driver

record sfs_inode =
  din :: nat
  ino :: nat
  dirty :: bool
  reclaim_count :: int
  sin_sem :: int

datatype inode_type = Device_info | Sfs_inode_info

text \<open>\<open>in_ops\<close>: the three tables of operations.\<close>

datatype inode_ops = Dev_node_ops | Sfs_node_dirops | Sfs_node_fileops

record inode =
  device_info :: device
  sfs_inode_info :: sfs_inode
  in_type :: inode_type
  ref_count :: int
  open_count :: int
  in_fs :: "nat option"
  in_ops :: "inode_ops option"

record sfs_fs =
  sfs_dev :: nat
  freemap :: bitmap
  super_dirty :: bool
  sfs_buffer :: nat
  fs_sem :: int
  io_sem :: int
  mutex_sem :: int
  hash_list :: nat

datatype fnode = InodeList nat | HashList nat nat | InodeLink nat | SinHashLink nat | VdevList | VdevLink nat

record vfs_dev =
  devname :: nat
  devnode :: "nat option"
  vdev_fs :: "nat option"
  mountable :: bool

datatype fd_status = FD_NONE | FD_INIT | FD_OPENED | FD_CLOSED

record kfile =
  status :: fd_status
  readable :: bool
  writable :: bool
  fd :: int
  pos :: int
  node :: "nat option"
  fopen_count :: int

record files_struct =
  pwd :: "nat option"
  fd_array :: "nat \<Rightarrow> kfile"
  files_count :: int
  files_sem :: int

record ide_device =
  valid :: bool
  ide_size :: nat
  iobase :: nat

text \<open>What ends the sleep of a reader of the keyboard: a character from the interrupt handler, or \<open>kill\<close>.\<close>

datatype kbd_event = Key byte | Killed

record fsst =
  inodes :: "nat \<Rightarrow> inode"
  fss :: "nat \<Rightarrow> sfs_fs"
  vdevs :: "nat \<Rightarrow> vfs_dev"
  flinks :: "fnode links"
  vdev_list_sem :: int
  bootfs_node :: "nat option"
  bootfs_sem :: int
  filesp :: "nat option"
  files :: "nat \<Rightarrow> files_struct"
  kmem :: bytes
  heap :: slobst
  ide_devices :: "nat \<Rightarrow> ide_device"
  disk0_buffer :: nat
  disk0_sem :: int
  stdin_buffer :: "nat \<Rightarrow> byte"
  p_rpos :: int
  p_wpos :: int
  kbd_events :: "kbd_event list"
  console :: "byte list"

definition sizeof_inode :: nat where "sizeof_inode = 120"
definition sizeof_fs :: nat where "sizeof_fs = 216"
definition sizeof_vfs_dev :: nat where "sizeof_vfs_dev = 48"
definition sizeof_disk_inode :: nat where "sizeof_disk_inode = 64"
definition sizeof_disk_entry :: nat where "sizeof_disk_entry = 260"

definition upd_inode :: "nat \<Rightarrow> (inode \<Rightarrow> inode) \<Rightarrow> fsst \<Rightarrow> fsst" where
  "upd_inode n f s = s\<lparr>inodes := (inodes s)(n := f (inodes s n))\<rparr>"

definition upd_sin :: "nat \<Rightarrow> (sfs_inode \<Rightarrow> sfs_inode) \<Rightarrow> fsst \<Rightarrow> fsst" where
  "upd_sin n f s = upd_inode n (\<lambda>i. i\<lparr>sfs_inode_info := f (sfs_inode_info i)\<rparr>) s"

definition upd_fs :: "nat \<Rightarrow> (sfs_fs \<Rightarrow> sfs_fs) \<Rightarrow> fsst \<Rightarrow> fsst" where
  "upd_fs n f s = s\<lparr>fss := (fss s)(n := f (fss s n))\<rparr>"

definition upd_flinks :: "(fnode links \<Rightarrow> fnode links) \<Rightarrow> fsst \<Rightarrow> fsst" where
  "upd_flinks f s = s\<lparr>flinks := f (flinks s)\<rparr>"

definition upd_kmem :: "(bytes \<Rightarrow> bytes) \<Rightarrow> fsst \<Rightarrow> fsst" where
  "upd_kmem f s = s\<lparr>kmem := f (kmem s)\<rparr>"

definition sem_down :: "int \<Rightarrow> int option" where
  "sem_down v = (if v > 0 then Some (v - 1) else None)"

definition sem_up :: "int \<Rightarrow> int" where
  "sem_up v = v + 1"

text \<open>\<open>kmalloc\<close> and \<open>kfree\<close> on byte addresses: \<open>KVA\<close> is the kernel address of the first page of RAM, above all user
  addresses.\<close>

definition KVA :: nat where "KVA = 0xFFFFFFFFC0000000"

definition kalloc :: "nat \<Rightarrow> fsst \<Rightarrow> (nat option \<times> fsst) option" where
  "kalloc sz s = do { (r, h) \<leftarrow> kmalloc sz (heap s); Some (map_option (\<lambda>b. KVA + SLOB_UNIT * b) r, s\<lparr>heap := h\<rparr>) }"

definition kdealloc :: "nat \<Rightarrow> fsst \<Rightarrow> fsst option" where
  "kdealloc a s = do { h \<leftarrow> kfree (Some ((a - KVA) div SLOB_UNIT)) (heap s); Some (s\<lparr>heap := h\<rparr>) }"

lemma upd_inode_simps [simp]:
  "inodes (upd_inode n f s) = (inodes s)(n := f (inodes s n))"
  "fss (upd_inode n f s) = fss s" "vdevs (upd_inode n f s) = vdevs s" "flinks (upd_inode n f s) = flinks s"
  "bootfs_node (upd_inode n f s) = bootfs_node s" "filesp (upd_inode n f s) = filesp s"
  "files (upd_inode n f s) = files s" "kmem (upd_inode n f s) = kmem s" "heap (upd_inode n f s) = heap s"
  "ide_devices (upd_inode n f s) = ide_devices s" "disk0_buffer (upd_inode n f s) = disk0_buffer s"
  "disk0_sem (upd_inode n f s) = disk0_sem s" "console (upd_inode n f s) = console s"
  by (simp_all add: upd_inode_def)

lemma upd_fs_simps [simp]:
  "fss (upd_fs n f s) = (fss s)(n := f (fss s n))"
  "inodes (upd_fs n f s) = inodes s" "vdevs (upd_fs n f s) = vdevs s" "flinks (upd_fs n f s) = flinks s"
  "bootfs_node (upd_fs n f s) = bootfs_node s" "filesp (upd_fs n f s) = filesp s"
  "files (upd_fs n f s) = files s" "kmem (upd_fs n f s) = kmem s" "heap (upd_fs n f s) = heap s"
  "ide_devices (upd_fs n f s) = ide_devices s" "disk0_buffer (upd_fs n f s) = disk0_buffer s"
  "disk0_sem (upd_fs n f s) = disk0_sem s" "console (upd_fs n f s) = console s"
  by (simp_all add: upd_fs_def)

lemma upd_kmem_simps [simp]:
  "kmem (upd_kmem g s) = g (kmem s)"
  "inodes (upd_kmem g s) = inodes s" "fss (upd_kmem g s) = fss s" "vdevs (upd_kmem g s) = vdevs s"
  "flinks (upd_kmem g s) = flinks s" "bootfs_node (upd_kmem g s) = bootfs_node s"
  "filesp (upd_kmem g s) = filesp s" "files (upd_kmem g s) = files s" "heap (upd_kmem g s) = heap s"
  "ide_devices (upd_kmem g s) = ide_devices s" "disk0_buffer (upd_kmem g s) = disk0_buffer s"
  "disk0_sem (upd_kmem g s) = disk0_sem s" "console (upd_kmem g s) = console s"
  by (simp_all add: upd_kmem_def)

lemma sem_down_1 [simp]: "sem_down 1 = Some 0" "sem_down 0 = None" "sem_up 0 = 1"
  by (simp_all add: sem_down_def sem_up_def)

subsection \<open>Inodes (kern/fs/vfs/inode.c)\<close>

definition MAX_INODE_COUNT :: int where "MAX_INODE_COUNT = 0x10000"

definition alloc_inode :: "inode_type \<Rightarrow> fsst \<Rightarrow> (nat option \<times> fsst) option" where
  "alloc_inode ty s = do {
     (n, s) \<leftarrow> kalloc sizeof_inode s;
     (case n of
        None \<Rightarrow> Some (None, s)
      | Some n \<Rightarrow> Some (Some n, upd_inode n (\<lambda>i. i\<lparr>in_type := ty\<rparr>) s))
   }"

definition inode_ref_inc :: "nat \<Rightarrow> fsst \<Rightarrow> int \<times> fsst" where
  "inode_ref_inc n s =
     (let s = upd_inode n (\<lambda>i. i\<lparr>ref_count := ref_count i + 1\<rparr>) s in (ref_count (inodes s n), s))"

definition inode_open_inc :: "nat \<Rightarrow> fsst \<Rightarrow> int \<times> fsst" where
  "inode_open_inc n s =
     (let s = upd_inode n (\<lambda>i. i\<lparr>open_count := open_count i + 1\<rparr>) s in (open_count (inodes s n), s))"

definition inode_init :: "nat \<Rightarrow> inode_ops option \<Rightarrow> nat option \<Rightarrow> fsst \<Rightarrow> fsst" where
  "inode_init n ops fs s =
     (let s = upd_inode n (\<lambda>i. i\<lparr>ref_count := 0, open_count := 0, in_ops := ops, in_fs := fs\<rparr>) s
      in snd (inode_ref_inc n s))"

definition inode_kill :: "nat \<Rightarrow> fsst \<Rightarrow> fsst option" where
  "inode_kill n s = do {
     kassert (ref_count (inodes s n) = 0);
     kassert (open_count (inodes s n) = 0);
     kdealloc n s
   }"

definition inode_check :: "nat \<Rightarrow> fsst \<Rightarrow> unit option" where
  "inode_check n s = do {
     kassert (in_ops (inodes s n) \<noteq> None);
     kassert (ref_count (inodes s n) \<ge> open_count (inodes s n) \<and> open_count (inodes s n) \<ge> 0);
     kassert (ref_count (inodes s n) < MAX_INODE_COUNT \<and> open_count (inodes s n) < MAX_INODE_COUNT)
   }"

text \<open>The checks of \<open>__vop_op\<close>, then the table of the inode; each \<open>vop_\<close> below calls the table's function,
  and a missing one is the failed assertion of the macro.\<close>

definition vop_op :: "nat option \<Rightarrow> fsst \<Rightarrow> (nat \<times> inode_ops) option" where
  "vop_op n s = do {
     n \<leftarrow> n;
     ops \<leftarrow> in_ops (inodes s n);
     _ \<leftarrow> inode_check n s;
     Some (n, ops)
   }"

text \<open>\<open>vop_info\<close>: the member of the union, after the check of its tag.\<close>

definition device_of :: "nat \<Rightarrow> fsst \<Rightarrow> device option" where
  "device_of n s = do { kassert (in_type (inodes s n) = Device_info); Some (device_info (inodes s n)) }"

definition sfs_inode_of :: "nat \<Rightarrow> fsst \<Rightarrow> sfs_inode option" where
  "sfs_inode_of n s = do { kassert (in_type (inodes s n) = Sfs_inode_info); Some (sfs_inode_info (inodes s n)) }"

definition inode_live :: "nat \<Rightarrow> fsst \<Rightarrow> bool" where
  "inode_live n s \<longleftrightarrow> in_ops (inodes s n) \<noteq> None \<and> 0 \<le> open_count (inodes s n) \<and>
     open_count (inodes s n) \<le> ref_count (inodes s n) \<and> ref_count (inodes s n) < MAX_INODE_COUNT"

lemma vop_op_live: "vop_op (Some n) s = (if inode_live n s then Some (n, the (in_ops (inodes s n))) else None)"
  by (auto simp: vop_op_def inode_check_def inode_live_def kassert_def split: bind_splits)

end
