(* ===== verification/Devices.thy ===== *)
theory Devices
  imports Fs_State
begin

text \<open>
  The devices of the file system: the RAM disks behind kern/driver/ide.c and ramdisk.c, and the three
  device inodes of kern/fs/devs (disk0, stdin, stdout) with the table \<open>dev_node_ops\<close>. A RAM disk is the
  part of \<open>kmem\<close> at its \<open>iobase\<close>. The key lemma says what a transfer of one block of disk0 does to the
  memory; the lemmas on stdin describe its ring buffer as a queue. Messages on the console other than
  the bytes written to stdout are left out.
\<close>

subsection \<open>RAM disks (kern/driver/ramdisk.c, kern/driver/ide.c)\<close>

definition SECTSIZE :: nat where "SECTSIZE = 512"
definition SWAP_DEV_NO :: nat where "SWAP_DEV_NO = 1"
definition DISK0_DEV_NO :: nat where "DISK0_DEV_NO = 2"
definition MAX_IDE :: nat where "MAX_IDE = 4"
definition MAX_NSECS :: nat where "MAX_NSECS = 128"
definition MAX_DISK_NSECS :: nat where "MAX_DISK_NSECS = 0x10000000"

definition VALID_IDE :: "nat \<Rightarrow> fsst \<Rightarrow> bool" where
  "VALID_IDE ideno s \<longleftrightarrow> ideno < MAX_IDE \<and> valid (ide_devices s ideno)"

definition sub64 :: "nat \<Rightarrow> nat \<Rightarrow> nat" where
  "sub64 a b = nat ((int a - int b) mod 2 ^ 64)"

definition ramdisk_read :: "ide_device \<Rightarrow> nat \<Rightarrow> nat \<Rightarrow> nat \<Rightarrow> bytes \<Rightarrow> int \<times> bytes" where
  "ramdisk_read dev secno dst nsecs m =
     (let nsecs = min nsecs (sub64 (ide_size dev) secno)
      in (0, memcpy m dst (iobase dev + secno * SECTSIZE) (nsecs * SECTSIZE)))"

definition ramdisk_write :: "ide_device \<Rightarrow> nat \<Rightarrow> nat \<Rightarrow> nat \<Rightarrow> bytes \<Rightarrow> int \<times> bytes" where
  "ramdisk_write dev secno src nsecs m =
     (let nsecs = min nsecs (sub64 (ide_size dev) secno)
      in (0, memcpy m (iobase dev + secno * SECTSIZE) src (nsecs * SECTSIZE)))"

definition check_initrd :: "nat \<Rightarrow> nat \<Rightarrow> bool" where
  "check_initrd b e \<longleftrightarrow> b \<noteq> e"

text \<open>\<open>img\<close>: the linker's start and end of the two disk images.\<close>

definition ramdisk_init :: "(nat \<Rightarrow> nat \<times> nat) \<Rightarrow> nat \<Rightarrow> fsst \<Rightarrow> fsst option" where
  "ramdisk_init img devno s = do {
     kassert (devno = SWAP_DEV_NO \<or> devno = DISK0_DEV_NO);
     let (b, e) = img devno;
     Some (s\<lparr>ide_devices := (ide_devices s)(devno :=
       (if check_initrd b e then \<lparr>valid = True, ide_size = to_u32 (sub64 e b) div SECTSIZE, iobase = b\<rparr>
        else \<lparr>valid = False, ide_size = 0, iobase = 0\<rparr>))\<rparr>)
   }"

definition ide_init :: "(nat \<Rightarrow> nat \<times> nat) \<Rightarrow> fsst \<Rightarrow> fsst option" where
  "ide_init img s = do {
     let s = s\<lparr>ide_devices := (\<lambda>i. if i < MAX_IDE then (ide_devices s i)\<lparr>valid := False\<rparr> else ide_devices s i)\<rparr>;
     s \<leftarrow> ramdisk_init img SWAP_DEV_NO s;
     kassert (VALID_IDE SWAP_DEV_NO s);
     s \<leftarrow> ramdisk_init img DISK0_DEV_NO s;
     kassert (VALID_IDE DISK0_DEV_NO s);
     Some s
   }"

definition ide_device_size :: "nat \<Rightarrow> fsst \<Rightarrow> nat" where
  "ide_device_size ideno s = (if VALID_IDE ideno s then ide_size (ide_devices s ideno) else 0)"

definition ide_read_secs :: "nat \<Rightarrow> nat \<Rightarrow> nat \<Rightarrow> nat \<Rightarrow> fsst \<Rightarrow> (int \<times> fsst) option" where
  "ide_read_secs ideno secno dst nsecs s = do {
     kassert (nsecs \<le> MAX_NSECS \<and> VALID_IDE ideno s);
     kassert (secno < MAX_DISK_NSECS \<and> secno + nsecs \<le> MAX_DISK_NSECS);
     let (r, m) = ramdisk_read (ide_devices s ideno) secno dst nsecs (kmem s);
     Some (r, upd_kmem (\<lambda>_. m) s)
   }"

definition ide_write_secs :: "nat \<Rightarrow> nat \<Rightarrow> nat \<Rightarrow> nat \<Rightarrow> fsst \<Rightarrow> (int \<times> fsst) option" where
  "ide_write_secs ideno secno src nsecs s = do {
     kassert (nsecs \<le> MAX_NSECS \<and> VALID_IDE ideno s);
     kassert (secno < MAX_DISK_NSECS \<and> secno + nsecs \<le> MAX_DISK_NSECS);
     let (r, m) = ramdisk_write (ide_devices s ideno) secno src nsecs (kmem s);
     Some (r, upd_kmem (\<lambda>_. m) s)
   }"

subsection \<open>disk0 (kern/fs/devs/dev_disk0.c)\<close>

definition DISK0_BLKSIZE :: nat where "DISK0_BLKSIZE = 4096"
definition DISK0_BUFSIZE :: nat where "DISK0_BUFSIZE = 4 * DISK0_BLKSIZE"
definition DISK0_BLK_NSECT :: nat where "DISK0_BLK_NSECT = DISK0_BLKSIZE div SECTSIZE"

definition lock_disk0 :: "fsst \<Rightarrow> fsst option" where
  "lock_disk0 s = do { v \<leftarrow> sem_down (disk0_sem s); Some (s\<lparr>disk0_sem := v\<rparr>) }"

definition unlock_disk0 :: "fsst \<Rightarrow> fsst" where
  "unlock_disk0 s = s\<lparr>disk0_sem := sem_up (disk0_sem s)\<rparr>"

definition disk0_read_blks_nolock :: "nat \<Rightarrow> nat \<Rightarrow> fsst \<Rightarrow> fsst option" where
  "disk0_read_blks_nolock blkno nblks s = do {
     let sectno = to_u32 (blkno * DISK0_BLK_NSECT);
     let nsecs = to_u32 (nblks * DISK0_BLK_NSECT);
     (ret, s) \<leftarrow> ide_read_secs DISK0_DEV_NO sectno (disk0_buffer s) nsecs s;
     kassert (ret = 0);
     Some s
   }"

definition disk0_write_blks_nolock :: "nat \<Rightarrow> nat \<Rightarrow> fsst \<Rightarrow> fsst option" where
  "disk0_write_blks_nolock blkno nblks s = do {
     let sectno = to_u32 (blkno * DISK0_BLK_NSECT);
     let nsecs = to_u32 (nblks * DISK0_BLK_NSECT);
     (ret, s) \<leftarrow> ide_write_secs DISK0_DEV_NO sectno (disk0_buffer s) nsecs s;
     kassert (ret = 0);
     Some s
   }"

text \<open>One round of the loop of \<open>disk0_io\<close>: the number of bytes moved and of blocks.\<close>

definition disk0_step :: "bool \<Rightarrow> nat \<Rightarrow> nat \<Rightarrow> iobuf \<Rightarrow> fsst \<Rightarrow> (nat \<times> nat \<times> iobuf \<times> fsst) option" where
  "disk0_step wr blkno resid iob s =
     (if wr then do {
        (_, copied, iob, m) \<leftarrow> iobuf_move (disk0_buffer s) DISK0_BUFSIZE False iob (kmem s);
        let s = upd_kmem (\<lambda>_. m) s;
        kassert (copied \<noteq> 0 \<and> copied \<le> resid \<and> copied mod DISK0_BLKSIZE = 0);
        let nblks = to_u32 (copied div DISK0_BLKSIZE);
        s \<leftarrow> disk0_write_blks_nolock blkno nblks s;
        Some (copied, nblks, iob, s)
      }
      else do {
        let alen = (if DISK0_BUFSIZE > resid then resid else DISK0_BUFSIZE);
        let nblks = to_u32 (alen div DISK0_BLKSIZE);
        s \<leftarrow> disk0_read_blks_nolock blkno nblks s;
        (_, copied, iob, m) \<leftarrow> iobuf_move (disk0_buffer s) alen True iob (kmem s);
        kassert (copied = alen \<and> copied mod DISK0_BLKSIZE = 0);
        Some (copied, nblks, iob, upd_kmem (\<lambda>_. m) s)
      })"

partial_function (option) disk0_loop :: "bool \<Rightarrow> nat \<Rightarrow> nat \<Rightarrow> iobuf \<Rightarrow> fsst \<Rightarrow> (iobuf \<times> fsst) option" where
  "disk0_loop wr blkno resid iob s =
     (if resid \<noteq> 0 then do {
        r \<leftarrow> disk0_step wr blkno resid iob s;
        (case r of (copied, nblks, iob, s) \<Rightarrow>
           disk0_loop wr (add_u32 blkno nblks) (resid - copied) iob s)
      }
      else Some (iob, s))"

declare disk0_loop.simps [code]

definition disk0_io :: "device \<Rightarrow> iobuf \<Rightarrow> bool \<Rightarrow> fsst \<Rightarrow> (int \<times> iobuf \<times> fsst) option" where
  "disk0_io dev iob wr s =
     (let offset = io_offset iob;
          resid = io_resid iob;
          blkno = nat (offset div int DISK0_BLKSIZE mod 2 ^ 32);
          nblks = to_u32 (resid div DISK0_BLKSIZE) in
      if offset mod int DISK0_BLKSIZE \<noteq> 0 \<or> resid mod DISK0_BLKSIZE \<noteq> 0 then Some (- E_INVAL, iob, s)
      else if add_u32 blkno nblks > d_blocks dev then Some (- E_INVAL, iob, s)
      else if nblks = 0 then Some (0, iob, s)
      else do {
        s \<leftarrow> lock_disk0 s;
        (iob, s) \<leftarrow> disk0_loop wr blkno resid iob s;
        Some (0, iob, unlock_disk0 s)
      })"

definition disk0_device_init :: "nat \<Rightarrow> fsst \<Rightarrow> fsst option" where
  "disk0_device_init n s = do {
     kassert (VALID_IDE DISK0_DEV_NO s);
     let s = upd_inode n (\<lambda>i. i\<lparr>device_info := \<lparr>d_blocks = ide_device_size DISK0_DEV_NO s div DISK0_BLK_NSECT,
               d_blocksize = DISK0_BLKSIZE, d_driver = Disk0\<rparr>\<rparr>) s;
     let s = s\<lparr>disk0_sem := 1\<rparr>;
     (b, s) \<leftarrow> kalloc DISK0_BUFSIZE s;
     b \<leftarrow> b;
     Some (s\<lparr>disk0_buffer := b\<rparr>)
   }"

subsection \<open>stdin (kern/fs/devs/dev_stdin.c)\<close>

definition STDIN_BUFSIZE :: int where "STDIN_BUFSIZE = 4096"

text \<open>The interrupt handler's half; waking the reader is part of the reader's loop below.\<close>

definition dev_stdin_write :: "byte \<Rightarrow> fsst \<Rightarrow> fsst" where
  "dev_stdin_write c s =
     (if c \<noteq> 0 then
        let s = s\<lparr>stdin_buffer := (stdin_buffer s)(nat (p_wpos s mod STDIN_BUFSIZE) := c)\<rparr>
        in (if p_wpos s - p_rpos s < STDIN_BUFSIZE then s\<lparr>p_wpos := p_wpos s + 1\<rparr> else s)
      else s)"

text \<open>The loop of \<open>dev_stdin_read\<close>. With nothing to read the process sleeps; a character other than zero wakes
  it with \<open>WT_KBD\<close>, and it looks again; \<open>kill\<close> wakes it with other flags. Without a further event it sleeps
  for ever.\<close>

partial_function (option) stdin_read_loop :: "nat \<Rightarrow> nat \<Rightarrow> nat \<Rightarrow> fsst \<Rightarrow> (nat \<times> fsst) option" where
  "stdin_read_loop bp ret len s =
     (if ret < len then
        if p_rpos s < p_wpos s then
          stdin_read_loop (bp + 1) (ret + 1) len
            ((upd_kmem (\<lambda>m. m(bp := stdin_buffer s (nat (p_rpos s mod STDIN_BUFSIZE)))) s)\<lparr>p_rpos := p_rpos s + 1\<rparr>)
        else (case kbd_events s of
            [] \<Rightarrow> None
          | Key c # es \<Rightarrow> stdin_read_loop bp ret len (dev_stdin_write c (s\<lparr>kbd_events := es\<rparr>))
          | Killed # es \<Rightarrow> Some (ret, s\<lparr>kbd_events := es\<rparr>))
      else Some (ret, s))"

declare stdin_read_loop.simps [code]

definition dev_stdin_read :: "nat \<Rightarrow> nat \<Rightarrow> fsst \<Rightarrow> (int \<times> fsst) option" where
  "dev_stdin_read bp len s = do { (n, s) \<leftarrow> stdin_read_loop bp 0 len s; Some (int n, s) }"

definition stdin_io :: "iobuf \<Rightarrow> bool \<Rightarrow> fsst \<Rightarrow> (int \<times> iobuf \<times> fsst) option" where
  "stdin_io iob wr s =
     (if \<not> wr then do {
        (ret, s) \<leftarrow> dev_stdin_read (io_base iob) (io_resid iob) s;
        Some (ret, if ret > 0 then iob\<lparr>io_resid := io_resid iob - nat ret\<rparr> else iob, s)
      }
      else Some (- E_INVAL, iob, s))"

definition stdin_device_init :: "nat \<Rightarrow> fsst \<Rightarrow> fsst" where
  "stdin_device_init n s =
     (upd_inode n (\<lambda>i. i\<lparr>device_info := \<lparr>d_blocks = 0, d_blocksize = 1, d_driver = Stdin\<rparr>\<rparr>) s)\<lparr>p_rpos := 0, p_wpos := 0\<rparr>"

subsection \<open>stdout (kern/fs/devs/dev_stdout.c)\<close>

fun stdout_loop :: "nat \<Rightarrow> nat \<Rightarrow> bytes \<Rightarrow> byte list \<Rightarrow> byte list" where
  "stdout_loop data 0 m out = out"
| "stdout_loop data (Suc resid) m out = stdout_loop (data + 1) resid m (out @ [m data])"

definition stdout_io :: "iobuf \<Rightarrow> bool \<Rightarrow> fsst \<Rightarrow> (int \<times> iobuf \<times> fsst) option" where
  "stdout_io iob wr s =
     (if wr then
        Some (0, iob\<lparr>io_resid := 0\<rparr>, s\<lparr>console := stdout_loop (io_base iob) (io_resid iob) (kmem s) (console s)\<rparr>)
      else Some (- E_INVAL, iob, s))"

definition stdout_device_init :: "nat \<Rightarrow> fsst \<Rightarrow> fsst" where
  "stdout_device_init n s =
     upd_inode n (\<lambda>i. i\<lparr>device_info := \<lparr>d_blocks = 0, d_blocksize = 1, d_driver = Stdout\<rparr>\<rparr>) s"

subsection \<open>Device inodes (kern/fs/devs/dev.c)\<close>

definition O_RDONLY :: "32 word" where "O_RDONLY = 0"
definition O_WRONLY :: "32 word" where "O_WRONLY = 1"
definition O_RDWR :: "32 word" where "O_RDWR = 2"
definition O_CREAT :: "32 word" where "O_CREAT = 4"
definition O_EXCL :: "32 word" where "O_EXCL = 8"
definition O_TRUNC :: "32 word" where "O_TRUNC = 16"
definition O_APPEND :: "32 word" where "O_APPEND = 32"
definition O_ACCMODE :: "32 word" where "O_ACCMODE = 3"

definition S_IFMT :: "32 word" where "S_IFMT = 0x7000"
definition S_IFREG :: "32 word" where "S_IFREG = 0x1000"
definition S_IFDIR :: "32 word" where "S_IFDIR = 0x2000"
definition S_IFLNK :: "32 word" where "S_IFLNK = 0x3000"
definition S_IFCHR :: "32 word" where "S_IFCHR = 0x4000"
definition S_IFBLK :: "32 word" where "S_IFBLK = 0x5000"

record stat =
  st_mode :: "32 word"
  st_nlinks :: nat
  st_blocks :: nat
  st_size :: nat

definition stat0 :: stat where
  "stat0 = \<lparr>st_mode = 0, st_nlinks = 0, st_blocks = 0, st_size = 0\<rparr>"

text \<open>The function pointers of a device, by its driver.\<close>

definition dop_open :: "device \<Rightarrow> 32 word \<Rightarrow> int" where
  "dop_open dev open_flags =
     (case d_driver dev of
        Stdin \<Rightarrow> if open_flags \<noteq> O_RDONLY then - E_INVAL else 0
      | Stdout \<Rightarrow> if open_flags \<noteq> O_WRONLY then - E_INVAL else 0
      | Disk0 \<Rightarrow> 0)"

definition dop_close :: "device \<Rightarrow> int" where
  "dop_close dev = (case d_driver dev of Stdin \<Rightarrow> 0 | Stdout \<Rightarrow> 0 | Disk0 \<Rightarrow> 0)"

definition dop_io :: "device \<Rightarrow> iobuf \<Rightarrow> bool \<Rightarrow> fsst \<Rightarrow> (int \<times> iobuf \<times> fsst) option" where
  "dop_io dev iob wr s =
     (case d_driver dev of Stdin \<Rightarrow> stdin_io iob wr s | Stdout \<Rightarrow> stdout_io iob wr s | Disk0 \<Rightarrow> disk0_io dev iob wr s)"

definition dop_ioctl :: "device \<Rightarrow> int" where
  "dop_ioctl dev = (case d_driver dev of Stdin \<Rightarrow> - E_INVAL | Stdout \<Rightarrow> - E_INVAL | Disk0 \<Rightarrow> - E_UNIMP)"

definition dev_open :: "nat \<Rightarrow> 32 word \<Rightarrow> fsst \<Rightarrow> int option" where
  "dev_open n open_flags s =
     (if and open_flags (or O_CREAT (or O_TRUNC (or O_EXCL O_APPEND))) \<noteq> 0 then Some (- E_INVAL)
      else do { dev \<leftarrow> device_of n s; Some (dop_open dev open_flags) })"

definition dev_close :: "nat \<Rightarrow> fsst \<Rightarrow> int option" where
  "dev_close n s = do { dev \<leftarrow> device_of n s; Some (dop_close dev) }"

definition dev_read :: "nat \<Rightarrow> iobuf \<Rightarrow> fsst \<Rightarrow> (int \<times> iobuf \<times> fsst) option" where
  "dev_read n iob s = do { dev \<leftarrow> device_of n s; dop_io dev iob False s }"

definition dev_write :: "nat \<Rightarrow> iobuf \<Rightarrow> fsst \<Rightarrow> (int \<times> iobuf \<times> fsst) option" where
  "dev_write n iob s = do { dev \<leftarrow> device_of n s; dop_io dev iob True s }"

definition dev_ioctl :: "nat \<Rightarrow> fsst \<Rightarrow> int option" where
  "dev_ioctl n s = do { dev \<leftarrow> device_of n s; Some (dop_ioctl dev) }"

definition dev_gettype :: "nat \<Rightarrow> fsst \<Rightarrow> (int \<times> 32 word) option" where
  "dev_gettype n s = do { dev \<leftarrow> device_of n s; Some (0, if d_blocks dev > 0 then S_IFBLK else S_IFCHR) }"

text \<open>\<open>vop_gettype\<close> on the node runs the checks again and comes back to \<open>dev_gettype\<close>.\<close>

definition dev_fstat :: "nat \<Rightarrow> fsst \<Rightarrow> (int \<times> stat) option" where
  "dev_fstat n s = do {
     (ret, type) \<leftarrow> dev_gettype n s;
     if ret \<noteq> 0 then Some (ret, stat0) else do {
       dev \<leftarrow> device_of n s;
       Some (0, \<lparr>st_mode = type, st_nlinks = 1, st_blocks = d_blocks dev,
                 st_size = d_blocks dev * d_blocksize dev mod 2 ^ 64\<rparr>)
     }
   }"

definition dev_tryseek :: "nat \<Rightarrow> int \<Rightarrow> fsst \<Rightarrow> int option" where
  "dev_tryseek n p s = do {
     dev \<leftarrow> device_of n s;
     Some (if d_blocks dev > 0 \<and> nat (p mod 2 ^ 64) mod d_blocksize dev = 0 \<and>
             p \<ge> 0 \<and> nat (p mod 2 ^ 64) < d_blocks dev * d_blocksize dev mod 2 ^ 64
           then 0 else - E_INVAL)
   }"

definition dev_lookup :: "nat \<Rightarrow> nat \<Rightarrow> fsst \<Rightarrow> int \<times> nat option \<times> fsst" where
  "dev_lookup n pathp s =
     (if kmem s pathp \<noteq> 0 then (- E_NOENT, None, s)
      else let (_, s) = inode_ref_inc n s in (0, Some n, s))"

definition dev_create_inode :: "fsst \<Rightarrow> (nat option \<times> fsst) option" where
  "dev_create_inode s = do {
     (n, s) \<leftarrow> alloc_inode Device_info s;
     (case n of
        None \<Rightarrow> Some (None, s)
      | Some n \<Rightarrow> Some (Some n, inode_init n (Some Dev_node_ops) None s))
   }"

subsection \<open>One block of disk0\<close>

text \<open>disk0 is set up: the lock is free and the buffer does not overlap the disk.\<close>

definition disk0_ok :: "device \<Rightarrow> fsst \<Rightarrow> bool" where
  "disk0_ok dev s \<longleftrightarrow> d_driver dev = Disk0 \<and> VALID_IDE DISK0_DEV_NO s \<and>
     ide_size (ide_devices s DISK0_DEV_NO) \<le> MAX_DISK_NSECS \<and>
     8 * d_blocks dev \<le> ide_size (ide_devices s DISK0_DEV_NO) \<and>
     (disk0_buffer s + DISK0_BUFSIZE \<le> iobase (ide_devices s DISK0_DEV_NO) \<or>
      iobase (ide_devices s DISK0_DEV_NO) + 4096 * d_blocks dev \<le> disk0_buffer s)"

definition disk0_ready :: "device \<Rightarrow> fsst \<Rightarrow> bool" where
  "disk0_ready dev s \<longleftrightarrow> disk0_ok dev s \<and> disk0_sem s = 1"

lemma disk0_ok_frame [simp]:
  "disk0_ok dev (upd_kmem f s) = disk0_ok dev s" "disk0_ok dev (s\<lparr>disk0_sem := v\<rparr>) = disk0_ok dev s"
  by (simp_all add: disk0_ok_def VALID_IDE_def)

definition disk0_block :: "fsst \<Rightarrow> nat \<Rightarrow> nat" where
  "disk0_block s b = iobase (ide_devices s DISK0_DEV_NO) + 4096 * b"

lemma sub64_id [simp]: "b \<le> a \<Longrightarrow> a < 2 ^ 64 \<Longrightarrow> sub64 a b = a - b"
  by (simp add: sub64_def nat_diff_distrib)

lemma ready_facts:
  assumes "disk0_ok dev s" and "b < d_blocks dev"
  shows "to_u32 (b * DISK0_BLK_NSECT) = 8 * b" "8 * b + 8 \<le> ide_size (ide_devices s DISK0_DEV_NO)"
    "ide_size (ide_devices s DISK0_DEV_NO) \<le> MAX_DISK_NSECS"
    "sub64 (ide_size (ide_devices s DISK0_DEV_NO)) (8 * b) = ide_size (ide_devices s DISK0_DEV_NO) - 8 * b"
    "b < 2 ^ 26" "add_u32 b 1 \<le> d_blocks dev"
  using assms by (auto simp: disk0_ok_def DISK0_BLK_NSECT_def DISK0_BLKSIZE_def SECTSIZE_def MAX_DISK_NSECS_def)

lemma ide_read_block:
  assumes "disk0_ok dev s" and "b < d_blocks dev"
  shows "disk0_read_blks_nolock b 1 s =
    Some (upd_kmem (\<lambda>m. memcpy m (disk0_buffer s) (disk0_block s b) 4096) s)"
proof -
  note f = ready_facts [OF assms]
  have "min 8 (ide_size (ide_devices s DISK0_DEV_NO) - 8 * b) = 8" using f(2) by simp
  moreover have "VALID_IDE DISK0_DEV_NO s" using assms(1) by (simp add: disk0_ok_def)
  moreover have "to_u32 (1 * DISK0_BLK_NSECT) = 8" by (simp add: DISK0_BLK_NSECT_def DISK0_BLKSIZE_def SECTSIZE_def)
  ultimately show ?thesis using f(2,3)
    unfolding disk0_read_blks_nolock_def Let_def f(1) ide_read_secs_def ramdisk_read_def f(4)
    by (simp add: MAX_NSECS_def SECTSIZE_def disk0_block_def upd_kmem_def mult.commute [of _ 512])
qed

lemma ide_write_block:
  assumes "disk0_ok dev s" and "b < d_blocks dev"
  shows "disk0_write_blks_nolock b 1 s =
    Some (upd_kmem (\<lambda>m. memcpy m (disk0_block s b) (disk0_buffer s) 4096) s)"
proof -
  note f = ready_facts [OF assms]
  have "min 8 (ide_size (ide_devices s DISK0_DEV_NO) - 8 * b) = 8" using f(2) by simp
  moreover have "VALID_IDE DISK0_DEV_NO s" using assms(1) by (simp add: disk0_ok_def)
  moreover have "to_u32 (1 * DISK0_BLK_NSECT) = 8" by (simp add: DISK0_BLK_NSECT_def DISK0_BLKSIZE_def SECTSIZE_def)
  ultimately show ?thesis using f(2,3)
    unfolding disk0_write_blks_nolock_def Let_def f(1) ide_write_secs_def ramdisk_write_def f(4)
    by (simp add: MAX_NSECS_def SECTSIZE_def disk0_block_def upd_kmem_def mult.commute [of _ 512])
qed

text \<open>What a transfer of one block leaves in memory.\<close>

definition block_written :: "nat \<Rightarrow> nat \<Rightarrow> nat \<Rightarrow> bytes \<Rightarrow> bytes" where
  "block_written a tmp src m =
     (\<lambda>i. if a \<le> i \<and> i < a + 4096 then m (src + (i - a))
          else if tmp \<le> i \<and> i < tmp + 4096 then m (src + (i - tmp)) else m i)"

lemma memcpy_at: "d + n \<le> s \<or> s + n \<le> d \<Longrightarrow> memcpy m d s n i = (if d \<le> i \<and> i < d + n then m (s + (i - d)) else m i)"
  unfolding memcpy_def by (rule copy_up_at) auto

lemma disk0_io_block_guards:
  assumes "disk0_ready dev s" and "b < d_blocks dev"
  shows "disk0_io dev (iobuf_init bp 4096 (4096 * int b)) wr s = do {
     (iob, s) \<leftarrow> disk0_loop wr b 4096 (iobuf_init bp 4096 (4096 * int b)) (s\<lparr>disk0_sem := 0\<rparr>);
     Some (0, iob, unlock_disk0 s) }"
proof -
  have ok: "disk0_ok dev s" and sem: "disk0_sem s = 1" using assms(1) by (auto simp: disk0_ready_def)
  note f = ready_facts [OF ok assms(2)]
  have "nat (int b mod 4294967296) = b" using f(5) by (simp add: nat_mod_as_int)
  moreover have "(4096 * int b) mod 4096 = 0" by simp
  ultimately show ?thesis using f(6) sem
    by (simp add: disk0_io_def iobuf_init_def DISK0_BLKSIZE_def lock_disk0_def Let_def)
qed

lemma disk0_block_frame [simp]:
  "disk0_block (upd_kmem f s) = disk0_block s" "disk0_block (s\<lparr>disk0_sem := v\<rparr>) = disk0_block s"
  by (simp_all add: disk0_block_def fun_eq_iff)

lemma disk0_loop_once:
  assumes "disk0_step wr b 4096 iob s = Some (4096, 1, iob', s')"
  shows "disk0_loop wr b 4096 iob s = Some (iob', s')"
  by (subst disk0_loop.simps) (simp add: assms, subst disk0_loop.simps, simp)

lemma disk0_apart:
  assumes "disk0_ok dev s" and "b < d_blocks dev"
  shows "disk0_buffer s + 4096 \<le> disk0_block s b \<or> disk0_block s b + 4096 \<le> disk0_buffer s"
  using assms by (auto simp: disk0_ok_def disk0_block_def DISK0_BUFSIZE_def DISK0_BLKSIZE_def)

lemma disk0_write_block:
  assumes "disk0_ready dev s" and "b < d_blocks dev"
  shows "\<exists>iob'. disk0_io dev (iobuf_init bp 4096 (4096 * int b)) True s =
     Some (0, iob', upd_kmem (block_written (disk0_block s b) (disk0_buffer s) bp) s)"
proof -
  let ?iob = "iobuf_init bp 4096 (4096 * int b)"
  define s0 where "s0 = s\<lparr>disk0_sem := 0\<rparr>"
  define iob' where "iob' = ?iob\<lparr>io_base := bp + 4096, io_offset := to_i64 (4096 * int b + 4096), io_resid := 0\<rparr>"
  define s1 where "s1 = upd_kmem (\<lambda>m. memmove m (disk0_buffer s) bp 4096) s0"
  have ok: "disk0_ok dev s" "disk0_ok dev s1" and sem: "disk0_sem s = 1"
    using assms(1) by (auto simp: disk0_ready_def s1_def s0_def)
  have mv: "iobuf_move (disk0_buffer s0) DISK0_BUFSIZE False ?iob (kmem s0) =
      Some (- E_NO_MEM, 4096, iob', memmove (kmem s) (disk0_buffer s) bp 4096)"
    by (simp add: iobuf_move_def iobuf_init_def iobuf_skip_def DISK0_BUFSIZE_def DISK0_BLKSIZE_def s0_def iob'_def)
  have s1: "upd_kmem (\<lambda>_. memmove (kmem s) (disk0_buffer s) bp 4096) s0 = s1"
    by (simp add: s1_def s0_def upd_kmem_def)
  have one: "to_u32 (4096 div DISK0_BLKSIZE) = 1" by (simp add: DISK0_BLKSIZE_def)
  have "disk0_step True b 4096 ?iob s0 = Some (4096, 1, iob',
      upd_kmem (\<lambda>m. memcpy m (disk0_block s1 b) (disk0_buffer s1) 4096) s1)"
    unfolding disk0_step_def mv
    using ide_write_block [OF ok(2) assms(2)] by (simp add: Let_def s1 one) (simp add: DISK0_BLKSIZE_def)
  then have "disk0_loop True b 4096 ?iob s0 =
      Some (iob', upd_kmem (\<lambda>m. memcpy m (disk0_block s1 b) (disk0_buffer s1) 4096) s1)"
    by (rule disk0_loop_once)
  then have "disk0_io dev ?iob True s =
      Some (0, iob', unlock_disk0 (upd_kmem (\<lambda>m. memcpy m (disk0_block s1 b) (disk0_buffer s1) 4096) s1))"
    unfolding disk0_io_block_guards [OF assms] s0_def [symmetric] by simp
  moreover have "memcpy (kmem s1) (disk0_block s1 b) (disk0_buffer s1) 4096 =
      block_written (disk0_block s b) (disk0_buffer s) bp (kmem s)"
    using disk0_apart [OF ok(1) assms(2)]
    by (auto simp: fun_eq_iff block_written_def memcpy_at memmove_at s1_def s0_def)
  then have "unlock_disk0 (upd_kmem (\<lambda>m. memcpy m (disk0_block s1 b) (disk0_buffer s1) 4096) s1) =
      upd_kmem (block_written (disk0_block s b) (disk0_buffer s) bp) s"
    using sem by (simp add: s1_def s0_def upd_kmem_def unlock_disk0_def)
  ultimately show ?thesis by (intro exI [of _ iob']) simp
qed

lemma disk0_read_block:
  assumes "disk0_ready dev s" and "b < d_blocks dev"
  shows "\<exists>iob'. disk0_io dev (iobuf_init bp 4096 (4096 * int b)) False s =
     Some (0, iob', upd_kmem (block_written bp (disk0_buffer s) (disk0_block s b)) s)"
proof -
  let ?iob = "iobuf_init bp 4096 (4096 * int b)"
  define s0 where "s0 = s\<lparr>disk0_sem := 0\<rparr>"
  define iob' where "iob' = ?iob\<lparr>io_base := bp + 4096, io_offset := to_i64 (4096 * int b + 4096), io_resid := 0\<rparr>"
  define s1 where "s1 = upd_kmem (\<lambda>m. memcpy m (disk0_buffer s) (disk0_block s b) 4096) s0"
  have ok: "disk0_ok dev s" "disk0_ok dev s0" and sem: "disk0_sem s = 1"
    using assms(1) by (auto simp: disk0_ready_def s0_def)
  have mv: "iobuf_move (disk0_buffer s1) 4096 True ?iob (kmem s1) =
      Some (0, 4096, iob', memmove (kmem s1) bp (disk0_buffer s1) 4096)"
    by (simp add: iobuf_move_def iobuf_init_def iobuf_skip_def iob'_def)
  have one: "to_u32 (4096 div DISK0_BLKSIZE) = 1" by (simp add: DISK0_BLKSIZE_def)
  have alen: "(if DISK0_BUFSIZE > 4096 then 4096 else DISK0_BUFSIZE) = 4096"
    by (simp add: DISK0_BUFSIZE_def DISK0_BLKSIZE_def)
  have "disk0_read_blks_nolock b 1 s0 = Some s1"
    using ide_read_block [OF ok(2) assms(2)] by (simp add: s1_def s0_def)
  then have "disk0_step False b 4096 ?iob s0 = Some (4096, 1, iob',
      upd_kmem (\<lambda>_. memmove (kmem s1) bp (disk0_buffer s1) 4096) s1)"
    unfolding disk0_step_def Let_def alen one by (simp add: mv) (simp add: DISK0_BLKSIZE_def)
  then have "disk0_loop False b 4096 ?iob s0 =
      Some (iob', upd_kmem (\<lambda>_. memmove (kmem s1) bp (disk0_buffer s1) 4096) s1)"
    by (rule disk0_loop_once)
  then have "disk0_io dev ?iob False s =
      Some (0, iob', unlock_disk0 (upd_kmem (\<lambda>_. memmove (kmem s1) bp (disk0_buffer s1) 4096) s1))"
    unfolding disk0_io_block_guards [OF assms] s0_def [symmetric] by simp
  moreover have "memmove (kmem s1) bp (disk0_buffer s1) 4096 =
      block_written bp (disk0_buffer s) (disk0_block s b) (kmem s)"
    using disk0_apart [OF ok(1) assms(2)]
    by (auto simp: fun_eq_iff block_written_def memcpy_at memmove_at s1_def s0_def)
  then have "unlock_disk0 (upd_kmem (\<lambda>_. memmove (kmem s1) bp (disk0_buffer s1) 4096) s1) =
      upd_kmem (block_written bp (disk0_buffer s) (disk0_block s b)) s"
    using sem by (simp add: s1_def s0_def upd_kmem_def unlock_disk0_def)
  ultimately show ?thesis by (intro exI [of _ iob']) simp
qed


subsection \<open>stdin as a queue\<close>

definition stdin_inv :: "fsst \<Rightarrow> bool" where
  "stdin_inv s \<longleftrightarrow> 0 \<le> p_rpos s \<and> p_rpos s \<le> p_wpos s \<and> p_wpos s \<le> p_rpos s + STDIN_BUFSIZE"

definition stdin_queue :: "fsst \<Rightarrow> byte list" where
  "stdin_queue s = map (\<lambda>k. stdin_buffer s (nat ((p_rpos s + int k) mod STDIN_BUFSIZE))) [0 ..< nat (p_wpos s - p_rpos s)]"

lemma length_stdin_queue: "length (stdin_queue s) = nat (p_wpos s - p_rpos s)"
  by (simp add: stdin_queue_def)

text \<open>The place of the \<open>k\<close>-th character.\<close>

definition stdin_slot :: "fsst \<Rightarrow> nat \<Rightarrow> nat" where
  "stdin_slot s k = nat ((p_rpos s + int k) mod STDIN_BUFSIZE)"

lemma stdin_queue_slots: "stdin_queue s = map (\<lambda>k. stdin_buffer s (stdin_slot s k)) [0 ..< nat (p_wpos s - p_rpos s)]"
  by (simp add: stdin_queue_def stdin_slot_def)

lemma stdin_slot_eq:
  assumes "k < 4096" and "j < 4096"
  shows "stdin_slot s k = stdin_slot s j \<longleftrightarrow> k = j"
proof
  assume "stdin_slot s k = stdin_slot s j"
  then have "(p_rpos s + int k) mod 4096 = (p_rpos s + int j) mod 4096"
    by (simp add: stdin_slot_def STDIN_BUFSIZE_def nat_eq_iff)
  then have "(int k - int j) mod 4096 = 0" by (simp add: mod_eq_dvd_iff algebra_simps)
  then obtain m where m: "int k - int j = 4096 * m" by (auto simp: dvd_eq_mod_eq_0 [symmetric])
  have "4096 * m < 4096 * 1" "4096 * (- 1) < 4096 * m" using m assms by linarith+
  then have "m = 0" by linarith
  with m show "k = j" by simp
qed simp

lemma stdin_write_cases:
  assumes "c \<noteq> 0" and "p_rpos s \<le> p_wpos s"
  shows "dev_stdin_write c s =
    (let s' = s\<lparr>stdin_buffer := (stdin_buffer s)(stdin_slot s (nat (p_wpos s - p_rpos s)) := c)\<rparr>
     in if nat (p_wpos s - p_rpos s) < 4096 then s'\<lparr>p_wpos := p_wpos s + 1\<rparr> else s')"
  using assms by (simp add: dev_stdin_write_def stdin_slot_def STDIN_BUFSIZE_def Let_def)

text \<open>A character behind a queue with room.\<close>

lemma stdin_write_room:
  assumes "stdin_inv s" and "c \<noteq> 0" and "length (stdin_queue s) < 4096"
  shows "stdin_queue (dev_stdin_write c s) = stdin_queue s @ [c]" and "stdin_inv (dev_stdin_write c s)"
proof -
  define n where "n = nat (p_wpos s - p_rpos s)"
  have n: "n < 4096" using assms(3) by (simp add: length_stdin_queue n_def)
  have le: "p_rpos s \<le> p_wpos s" using assms(1) by (simp add: stdin_inv_def)
  have t: "dev_stdin_write c s = s\<lparr>stdin_buffer := (stdin_buffer s)(stdin_slot s n := c), p_wpos := p_wpos s + 1\<rparr>"
    using stdin_write_cases [OF assms(2) le] n by (simp add: n_def Let_def)
  have slots: "stdin_slot (s\<lparr>stdin_buffer := b, p_wpos := w\<rparr>) = stdin_slot s" for b w
    by (simp add: stdin_slot_def fun_eq_iff)
  have "nat (p_wpos s + 1 - p_rpos s) = Suc n" using le unfolding n_def by linarith
  moreover have "stdin_slot s k = stdin_slot s n \<longleftrightarrow> False" if "k \<in> set [0 ..< n]" for k
    using stdin_slot_eq [of k n s] that n by auto
  ultimately show "stdin_queue (dev_stdin_write c s) = stdin_queue s @ [c]"
    unfolding t stdin_queue_slots slots fsst.simps n_def [symmetric] by (auto intro!: map_cong)
  show "stdin_inv (dev_stdin_write c s)"
    using assms(1) n le unfolding t n_def by (simp add: stdin_inv_def STDIN_BUFSIZE_def)
qed

text \<open>A character behind a full queue takes the place of the oldest.\<close>

lemma stdin_write_full:
  assumes "stdin_inv s" and "c \<noteq> 0" and "length (stdin_queue s) = 4096"
  shows "stdin_queue (dev_stdin_write c s) = c # tl (stdin_queue s)" and "stdin_inv (dev_stdin_write c s)"
proof -
  define n where "n = nat (p_wpos s - p_rpos s)"
  have n: "n = 4096" using assms(3) by (simp add: length_stdin_queue n_def)
  have le: "p_rpos s \<le> p_wpos s" using assms(1) by (simp add: stdin_inv_def)
  then have "p_wpos s = p_rpos s + 4096" using n by (simp add: n_def)
  then have "stdin_slot s n = stdin_slot s 0" by (simp add: stdin_slot_def STDIN_BUFSIZE_def n)
  then have t: "dev_stdin_write c s = s\<lparr>stdin_buffer := (stdin_buffer s)(stdin_slot s 0 := c)\<rparr>"
    using stdin_write_cases [OF assms(2) le] n by (simp add: n_def Let_def)
  have slots: "stdin_slot (s\<lparr>stdin_buffer := b\<rparr>) = stdin_slot s" for b
    by (simp add: stdin_slot_def fun_eq_iff)
  have "0 < n" by (simp add: n)
  then have u: "[0 ..< n] = 0 # [1 ..< n]" by (simp only: upt_conv_Cons One_nat_def)
  have "stdin_slot s k = stdin_slot s 0 \<longleftrightarrow> False" if "k \<in> set [1 ..< n]" for k
    using stdin_slot_eq [of k 0 s] that n by auto
  then have "map (\<lambda>k. ((stdin_buffer s)(stdin_slot s 0 := c)) (stdin_slot s k)) [1 ..< n] =
      map (\<lambda>k. stdin_buffer s (stdin_slot s k)) [1 ..< n]"
    by (intro map_cong) auto
  then show "stdin_queue (dev_stdin_write c s) = c # tl (stdin_queue s)"
    by (simp add: t stdin_queue_slots slots n_def [symmetric] u del: upt_Suc)
  show "stdin_inv (dev_stdin_write c s)" using assms(1) unfolding t by (simp add: stdin_inv_def)
qed

lemma stdin_read_loop_queue:
  assumes "stdin_inv s" and "k \<le> length (stdin_queue s)"
  shows "\<exists>s'. stdin_read_loop bp ret (ret + k) s = Some (ret + k, s') \<and> stdin_inv s' \<and>
    stdin_queue s' = drop k (stdin_queue s) \<and> region (kmem s') bp k = take k (stdin_queue s) \<and>
    (\<forall>i. i < bp \<or> bp + k \<le> i \<longrightarrow> kmem s' i = kmem s i)"
  using assms
proof (induction k arbitrary: bp ret s)
  case 0
  then show ?case by (subst stdin_read_loop.simps) simp
next
  case (Suc k)
  define s1 where "s1 = (upd_kmem (\<lambda>m. m(bp := stdin_buffer s (nat (p_rpos s mod STDIN_BUFSIZE)))) s)\<lparr>p_rpos := p_rpos s + 1\<rparr>"
  have lt: "p_rpos s < p_wpos s" using Suc.prems by (simp add: length_stdin_queue)
  then have "nat (p_wpos s - p_rpos s) = Suc (nat (p_wpos s - (p_rpos s + 1)))" by simp
  then have q: "stdin_queue s = stdin_buffer s (nat (p_rpos s mod STDIN_BUFSIZE)) # stdin_queue s1"
    by (simp add: stdin_queue_def s1_def upd_kmem_def upt_conv_Cons map_Suc_upt [symmetric] algebra_simps del: upt_Suc)
  have "stdin_inv s1" using Suc.prems(1) lt by (simp add: stdin_inv_def s1_def upd_kmem_def)
  moreover have "k \<le> length (stdin_queue s1)" using Suc.prems(2) q by simp
  ultimately obtain s' where s': "stdin_read_loop (bp + 1) (ret + 1) (ret + 1 + k) s1 = Some (ret + 1 + k, s')" "stdin_inv s'"
    "stdin_queue s' = drop k (stdin_queue s1)" "region (kmem s') (bp + 1) k = take k (stdin_queue s1)"
    "\<forall>i. i < bp + 1 \<or> bp + 1 + k \<le> i \<longrightarrow> kmem s' i = kmem s1 i"
    using Suc.IH by blast
  have "stdin_read_loop bp ret (ret + Suc k) s = Some (ret + Suc k, s')"
    using lt s'(1) by (subst stdin_read_loop.simps) (simp add: s1_def)
  then show ?case using s'(2-5) q
    by (auto simp: region_Suc s1_def)
qed


subsection \<open>Properties\<close>

lemma memcpy_region: "d + n \<le> s \<or> s + n \<le> d \<Longrightarrow> region (memcpy m d s n) d n = region m s n"
  by (simp add: region_eq_iff memcpy_at)

lemma block_written_region: "region (block_written a tmp src m) a 4096 = region m src 4096"
  by (simp add: region_eq_iff block_written_def)

lemma block_written_other:
  assumes "disk0_ready dev s" and "b < d_blocks dev" and "c < d_blocks dev" and "c \<noteq> b"
  shows "region (block_written (disk0_block s b) (disk0_buffer s) src m) (disk0_block s c) 4096 =
    region m (disk0_block s c) 4096"
proof -
  have "disk0_buffer s + 4096 \<le> disk0_block s c \<or> disk0_block s c + 4096 \<le> disk0_buffer s"
    using assms by (intro disk0_apart) (auto simp: disk0_ready_def)
  moreover have "disk0_block s b + 4096 \<le> disk0_block s c \<or> disk0_block s c + 4096 \<le> disk0_block s b"
    using assms(4) by (auto simp: disk0_block_def)
  ultimately show ?thesis by (auto simp: region_eq_iff block_written_def)
qed

text \<open>C22. A block written to disk0 reads back: with the device set up and the block inside it, \<open>disk0_io\<close>
  succeeds both ways, the buffer read into then holds the bytes that were written, and no other block of
  the disk has changed.\<close>

theorem disk0_write_read:
  assumes "disk0_ready dev s" and "b < d_blocks dev"
  shows "\<exists>iob s1 iob' s2.
    disk0_io dev (iobuf_init bp 4096 (4096 * int b)) True s = Some (0, iob, s1) \<and>
    disk0_io dev (iobuf_init bq 4096 (4096 * int b)) False s1 = Some (0, iob', s2) \<and>
    region (kmem s2) bq 4096 = region (kmem s) bp 4096 \<and>
    (\<forall>c < d_blocks dev. c \<noteq> b \<longrightarrow> region (kmem s1) (disk0_block s c) 4096 = region (kmem s) (disk0_block s c) 4096)"
proof -
  define s1 where "s1 = upd_kmem (block_written (disk0_block s b) (disk0_buffer s) bp) s"
  obtain iob where w: "disk0_io dev (iobuf_init bp 4096 (4096 * int b)) True s = Some (0, iob, s1)"
    using disk0_write_block [OF assms] by (auto simp: s1_def)
  have "disk0_ready dev s1" using assms(1) by (simp add: disk0_ready_def s1_def)
  from disk0_read_block [OF this assms(2)] obtain iob' where
    r: "disk0_io dev (iobuf_init bq 4096 (4096 * int b)) False s1 =
      Some (0, iob', upd_kmem (block_written bq (disk0_buffer s1) (disk0_block s1 b)) s1)" by blast
  have "region (kmem s1) (disk0_block s b) 4096 = region (kmem s) bp 4096"
    by (simp add: s1_def block_written_region)
  moreover have "disk0_block s1 b = disk0_block s b" by (simp add: s1_def)
  ultimately have "region (kmem (upd_kmem (block_written bq (disk0_buffer s1) (disk0_block s1 b)) s1)) bq 4096 =
      region (kmem s) bp 4096"
    by (simp add: block_written_region)
  moreover have "region (kmem s1) (disk0_block s c) 4096 = region (kmem s) (disk0_block s c) 4096"
    if "c < d_blocks dev" "c \<noteq> b" for c
    using block_written_other [OF assms that] by (simp add: s1_def)
  ultimately show ?thesis using w r by blast
qed

text \<open>A machine with a disk of two blocks, for the witnesses.\<close>

definition inode0 :: inode where
  "inode0 = \<lparr>device_info = \<lparr>d_blocks = 0, d_blocksize = 0, d_driver = Stdin\<rparr>,
     sfs_inode_info = \<lparr>din = 0, ino = 0, dirty = False, reclaim_count = 0, sin_sem = 1\<rparr>,
     in_type = Device_info, ref_count = 0, open_count = 0, in_fs = None, in_ops = None\<rparr>"

definition bitmap0 :: bitmap where
  "bitmap0 = \<lparr>bm_self = 0, bm_map = 0, nbits = 0, nwords = 0, bwords = (\<lambda>_. 0)\<rparr>"

definition file0 :: kfile where
  "file0 = \<lparr>status = FD_NONE, readable = False, writable = False, fd = 0, pos = 0, node = None, fopen_count = 0\<rparr>"

definition fs0 :: fsst where
  "fs0 = \<lparr>inodes = (\<lambda>_. inode0),
     fss = (\<lambda>_. \<lparr>sfs_dev = 0, freemap = bitmap0, super_dirty = False, sfs_buffer = 0, fs_sem = 1, io_sem = 1,
       mutex_sem = 1, hash_list = 0\<rparr>),
     vdevs = (\<lambda>_. \<lparr>devname = 0, devnode = None, vdev_fs = None, mountable = False\<rparr>),
     flinks = \<lparr>prv = id, nxt = id\<rparr>, vdev_list_sem = 1, bootfs_node = None, bootfs_sem = 1, filesp = None,
     files = (\<lambda>_. \<lparr>pwd = None, fd_array = (\<lambda>i. file0\<lparr>fd := int i\<rparr>), files_count = 0, files_sem = 1\<rparr>),
     kmem = (\<lambda>_. 0), heap = slob_start pt0,
     ide_devices = (\<lambda>_. \<lparr>valid = True, ide_size = 16, iobase = 0x100000\<rparr>),
     disk0_buffer = 0x40000, disk0_sem = 1, stdin_buffer = (\<lambda>_. 0), p_rpos = 0, p_wpos = 0,
     kbd_events = [], console = []\<rparr>"

definition disk0_dev :: device where
  "disk0_dev = \<lparr>d_blocks = 2, d_blocksize = 4096, d_driver = Disk0\<rparr>"

lemma fs0_ready: "disk0_ready disk0_dev fs0"
  by (simp add: disk0_ready_def disk0_ok_def disk0_dev_def fs0_def VALID_IDE_def DISK0_DEV_NO_def MAX_IDE_def
      MAX_DISK_NSECS_def DISK0_BUFSIZE_def DISK0_BLKSIZE_def)

theorem disk0_write_read_witness:
  "\<exists>iob s1 iob' s2. disk0_io disk0_dev (iobuf_init 0x200 4096 (4096 * int 1)) True fs0 = Some (0, iob, s1) \<and>
    disk0_io disk0_dev (iobuf_init 0x3000 4096 (4096 * int 1)) False s1 = Some (0, iob', s2) \<and>
    region (kmem s2) 0x3000 4096 = region (kmem fs0) 0x200 4096"
  using disk0_write_read [OF fs0_ready, of 1 "0x200" "0x3000"] by (auto simp: disk0_dev_def)

text \<open>C39. The keyboard buffer is a queue of at most 4096 characters: the interrupt handler appends a character
  while there is room; once the buffer is full, the new character replaces the oldest one, which the
  reader then gets first.\<close>

theorem stdin_write_queue:
  assumes "stdin_inv s" and "c \<noteq> 0"
  shows "stdin_inv (dev_stdin_write c s) \<and> stdin_queue (dev_stdin_write c s) =
    (if length (stdin_queue s) < 4096 then stdin_queue s @ [c] else c # tl (stdin_queue s))"
proof (cases "length (stdin_queue s) < 4096")
  case True
  then show ?thesis using stdin_write_room [OF assms] by simp
next
  case False
  moreover have "length (stdin_queue s) \<le> 4096"
    using assms(1) unfolding length_stdin_queue stdin_inv_def STDIN_BUFSIZE_def by linarith
  ultimately show ?thesis using stdin_write_full [OF assms] by simp
qed

lemma fs0_stdin: "stdin_inv fs0" "stdin_queue fs0 = []"
  by (simp_all add: stdin_inv_def stdin_queue_def fs0_def STDIN_BUFSIZE_def)

theorem stdin_write_queue_witness: "stdin_queue (dev_stdin_write 97 fs0) = [97]"
  using stdin_write_queue [OF fs0_stdin(1), of 97] by (simp add: fs0_stdin(2))

text \<open>\<open>dev_stdin_read\<close> with enough typed characters returns at once: it stores the oldest ones in order,
  removes them from the queue and writes nothing behind the request.\<close>

theorem stdin_read_queue:
  assumes "stdin_inv s" and "len \<le> length (stdin_queue s)"
  shows "\<exists>s'. dev_stdin_read bp len s = Some (int len, s') \<and> stdin_inv s' \<and>
    stdin_queue s' = drop len (stdin_queue s) \<and> region (kmem s') bp len = take len (stdin_queue s) \<and>
    (\<forall>i. i < bp \<or> bp + len \<le> i \<longrightarrow> kmem s' i = kmem s i)"
  using stdin_read_loop_queue [OF assms, of bp 0] by (auto simp: dev_stdin_read_def)

theorem stdin_read_queue_witness:
  "\<exists>s'. dev_stdin_read 0x300 1 (dev_stdin_write 97 fs0) = Some (1, s') \<and> kmem s' 0x300 = 97 \<and> stdin_queue s' = []"
proof -
  have q: "stdin_queue (dev_stdin_write 97 fs0) = [97]" "stdin_inv (dev_stdin_write 97 fs0)"
    using stdin_write_room [OF fs0_stdin(1), of 97] by (simp_all add: fs0_stdin(2))
  show ?thesis using stdin_read_queue [OF q(2), of 1 "0x300"]
    by (auto simp: q(1) region_Suc)
qed

end
