(* ===== verification/Sfs_Io.thy ===== *)
theory Sfs_Io
  imports Devices
begin

text \<open>
  Block input and output of the simple file system (kern/fs/sfs/sfs_io.c, sfs_lock.c). A file system is
  found by the address \<open>f\<close> of its structure; the copy of the super block is the first member, the bytes of
  \<open>kmem\<close> from \<open>f\<close> on. The words of the free map live in the record of theory Bitmap; \<open>spill_map\<close> and
  \<open>load_map\<close> are the memory the record stands for, when it is read or written by the disk. The properties:
  a partial write of a block reads back and leaves the rest of the disk alone.
\<close>

definition SFS_BLKSIZE :: nat where "SFS_BLKSIZE = 4096"
definition SFS_BLKN_SUPER :: nat where "SFS_BLKN_SUPER = 0"
definition SFS_BLKN_ROOT :: nat where "SFS_BLKN_ROOT = 1"
definition SFS_BLKN_FREEMAP :: nat where "SFS_BLKN_FREEMAP = 2"
definition SFS_BLKBITS :: nat where "SFS_BLKBITS = SFS_BLKSIZE * 8"
definition sizeof_super :: nat where "sizeof_super = 44"

definition super_magic :: "nat \<Rightarrow> fsst \<Rightarrow> nat" where "super_magic f s = ld32 (kmem s) f"
definition super_blocks :: "nat \<Rightarrow> fsst \<Rightarrow> nat" where "super_blocks f s = ld32 (kmem s) (f + 4)"
definition unused_blocks :: "nat \<Rightarrow> fsst \<Rightarrow> nat" where "unused_blocks f s = ld32 (kmem s) (f + 8)"

definition set_unused_blocks :: "nat \<Rightarrow> nat \<Rightarrow> fsst \<Rightarrow> fsst" where
  "set_unused_blocks f v s = upd_kmem (st32 (f + 8) (to_u32 v)) s"

definition ROUNDUP_DIV :: "nat \<Rightarrow> nat \<Rightarrow> nat" where
  "ROUNDUP_DIV a n = (a + n - 1) div n"

definition sfs_freemap_bits :: "nat \<Rightarrow> nat" where
  "sfs_freemap_bits blocks = to_u32 (ROUNDUP blocks SFS_BLKBITS)"

definition sfs_freemap_blocks :: "nat \<Rightarrow> nat" where
  "sfs_freemap_blocks blocks = ROUNDUP_DIV blocks SFS_BLKBITS"

subsection \<open>Locks (kern/fs/sfs/sfs_lock.c)\<close>

definition lock_sfs_fs :: "nat \<Rightarrow> fsst \<Rightarrow> fsst option" where
  "lock_sfs_fs f s = do { v \<leftarrow> sem_down (fs_sem (fss s f)); Some (upd_fs f (\<lambda>x. x\<lparr>fs_sem := v\<rparr>) s) }"

definition unlock_sfs_fs :: "nat \<Rightarrow> fsst \<Rightarrow> fsst" where
  "unlock_sfs_fs f s = upd_fs f (\<lambda>x. x\<lparr>fs_sem := sem_up (fs_sem x)\<rparr>) s"

definition lock_sfs_io :: "nat \<Rightarrow> fsst \<Rightarrow> fsst option" where
  "lock_sfs_io f s = do { v \<leftarrow> sem_down (io_sem (fss s f)); Some (upd_fs f (\<lambda>x. x\<lparr>io_sem := v\<rparr>) s) }"

definition unlock_sfs_io :: "nat \<Rightarrow> fsst \<Rightarrow> fsst" where
  "unlock_sfs_io f s = upd_fs f (\<lambda>x. x\<lparr>io_sem := sem_up (io_sem x)\<rparr>) s"

subsection \<open>Blocks\<close>

definition sfs_rwblock_nolock :: "nat \<Rightarrow> nat \<Rightarrow> nat \<Rightarrow> bool \<Rightarrow> bool \<Rightarrow> fsst \<Rightarrow> (int \<times> fsst) option" where
  "sfs_rwblock_nolock f bp blkno wr check s = do {
     kassert ((blkno \<noteq> 0 \<or> \<not> check) \<and> blkno < super_blocks f s);
     let iob = iobuf_init bp SFS_BLKSIZE (int (to_u32 (blkno * SFS_BLKSIZE)));
     (ret, iob, s) \<leftarrow> dop_io (device_info (inodes s (sfs_dev (fss s f)))) iob wr s;
     Some (ret, s)
   }"

fun sfs_rwblock_loop :: "nat \<Rightarrow> nat \<Rightarrow> nat \<Rightarrow> nat \<Rightarrow> bool \<Rightarrow> fsst \<Rightarrow> (int \<times> fsst) option" where
  "sfs_rwblock_loop f bp blkno 0 wr s = Some (0, s)"
| "sfs_rwblock_loop f bp blkno (Suc nblks) wr s = do {
     (ret, s) \<leftarrow> sfs_rwblock_nolock f bp blkno wr True s;
     if ret \<noteq> 0 then Some (ret, s)
     else sfs_rwblock_loop f (bp + SFS_BLKSIZE) (add_u32 blkno 1) nblks wr s
   }"

definition sfs_rwblock :: "nat \<Rightarrow> nat \<Rightarrow> nat \<Rightarrow> nat \<Rightarrow> bool \<Rightarrow> fsst \<Rightarrow> (int \<times> fsst) option" where
  "sfs_rwblock f bp blkno nblks wr s = do {
     s \<leftarrow> lock_sfs_io f s;
     (ret, s) \<leftarrow> sfs_rwblock_loop f bp blkno nblks wr s;
     Some (ret, unlock_sfs_io f s)
   }"

definition sfs_rblock :: "nat \<Rightarrow> nat \<Rightarrow> nat \<Rightarrow> nat \<Rightarrow> fsst \<Rightarrow> (int \<times> fsst) option" where
  "sfs_rblock f bp blkno nblks s = sfs_rwblock f bp blkno nblks False s"

definition sfs_wblock :: "nat \<Rightarrow> nat \<Rightarrow> nat \<Rightarrow> nat \<Rightarrow> fsst \<Rightarrow> (int \<times> fsst) option" where
  "sfs_wblock f bp blkno nblks s = sfs_rwblock f bp blkno nblks True s"

subsection \<open>Parts of a block\<close>

definition sfs_rbuf :: "nat \<Rightarrow> nat \<Rightarrow> nat \<Rightarrow> nat \<Rightarrow> nat \<Rightarrow> fsst \<Rightarrow> (int \<times> fsst) option" where
  "sfs_rbuf f bp len blkno offset s = do {
     kassert (offset < SFS_BLKSIZE \<and> offset + len \<le> SFS_BLKSIZE);
     s \<leftarrow> lock_sfs_io f s;
     (ret, s) \<leftarrow> sfs_rwblock_nolock f (sfs_buffer (fss s f)) blkno False True s;
     let s = (if ret = 0 then upd_kmem (\<lambda>m. memcpy m bp (sfs_buffer (fss s f) + offset) len) s else s);
     Some (ret, unlock_sfs_io f s)
   }"

definition sfs_wbuf :: "nat \<Rightarrow> nat \<Rightarrow> nat \<Rightarrow> nat \<Rightarrow> nat \<Rightarrow> fsst \<Rightarrow> (int \<times> fsst) option" where
  "sfs_wbuf f bp len blkno offset s = do {
     kassert (offset < SFS_BLKSIZE \<and> offset + len \<le> SFS_BLKSIZE);
     s \<leftarrow> lock_sfs_io f s;
     (ret, s) \<leftarrow> sfs_rwblock_nolock f (sfs_buffer (fss s f)) blkno False True s;
     (ret, s) \<leftarrow> (if ret = 0 then do {
         let s = upd_kmem (\<lambda>m. memcpy m (sfs_buffer (fss s f) + offset) bp len) s;
         sfs_rwblock_nolock f (sfs_buffer (fss s f)) blkno True True s
       } else Some (ret, s));
     Some (ret, unlock_sfs_io f s)
   }"

definition sfs_sync_super :: "nat \<Rightarrow> fsst \<Rightarrow> (int \<times> fsst) option" where
  "sfs_sync_super f s = do {
     s \<leftarrow> lock_sfs_io f s;
     let s = upd_kmem (\<lambda>m. memset m (sfs_buffer (fss s f)) 0 SFS_BLKSIZE) s;
     let s = upd_kmem (\<lambda>m. memcpy m (sfs_buffer (fss s f)) f sizeof_super) s;
     (ret, s) \<leftarrow> sfs_rwblock_nolock f (sfs_buffer (fss s f)) SFS_BLKN_SUPER True False s;
     Some (ret, unlock_sfs_io f s)
   }"

text \<open>The memory at \<open>bitmap_getdata\<close>: the words of the map, little-endian.\<close>

definition map_addr :: "bitmap \<Rightarrow> nat" where
  "map_addr b = KVA + SLOB_UNIT * fst (bitmap_getdata b)"

definition spill_map :: "bitmap \<Rightarrow> bytes \<Rightarrow> bytes" where
  "spill_map b m = (\<lambda>i. if map_addr b \<le> i \<and> i < map_addr b + snd (bitmap_getdata b)
     then ucast (drop_bit (8 * ((i - map_addr b) mod 4)) (bwords b ((i - map_addr b) div 4))) else m i)"

definition load_map :: "bytes \<Rightarrow> bitmap \<Rightarrow> bitmap" where
  "load_map m b = b\<lparr>bwords := (\<lambda>ix. if ix < nwords b then of_nat (ld32 m (map_addr b + 4 * ix)) else bwords b ix)\<rparr>"

definition sfs_sync_freemap :: "nat \<Rightarrow> fsst \<Rightarrow> (int \<times> fsst) option" where
  "sfs_sync_freemap f s =
     (let nblks = sfs_freemap_blocks (super_blocks f s)
      in sfs_wblock f (map_addr (freemap (fss s f))) SFS_BLKN_FREEMAP nblks
           (upd_kmem (spill_map (freemap (fss s f))) s))"

fun sfs_clear_loop :: "nat \<Rightarrow> nat \<Rightarrow> nat \<Rightarrow> fsst \<Rightarrow> (int \<times> fsst) option" where
  "sfs_clear_loop f blkno 0 s = Some (0, s)"
| "sfs_clear_loop f blkno (Suc nblks) s = do {
     (ret, s) \<leftarrow> sfs_rwblock_nolock f (sfs_buffer (fss s f)) blkno True True s;
     if ret \<noteq> 0 then Some (ret, s) else sfs_clear_loop f (add_u32 blkno 1) nblks s
   }"

text \<open>\<open>ret\<close> is not initialised in the code, so a call for no block has no defined result.\<close>

definition sfs_clear_block :: "nat \<Rightarrow> nat \<Rightarrow> nat \<Rightarrow> fsst \<Rightarrow> (int \<times> fsst) option" where
  "sfs_clear_block f blkno nblks s = do {
     kassert (nblks \<noteq> 0);
     s \<leftarrow> lock_sfs_io f s;
     let s = upd_kmem (\<lambda>m. memset m (sfs_buffer (fss s f)) 0 SFS_BLKSIZE) s;
     (ret, s) \<leftarrow> sfs_clear_loop f blkno nblks s;
     Some (ret, unlock_sfs_io f s)
   }"

subsection \<open>A mounted file system on disk0\<close>

definition apart :: "nat \<Rightarrow> nat \<Rightarrow> nat \<Rightarrow> nat \<Rightarrow> bool" where
  "apart a n b k \<longleftrightarrow> a + n \<le> b \<or> b + k \<le> a"

definition sfs_device :: "nat \<Rightarrow> fsst \<Rightarrow> device" where
  "sfs_device f s = device_info (inodes s (sfs_dev (fss s f)))"

text \<open>The buffers of the file system, of disk0, the super block and the disk itself do not overlap, and no
  offset on the disk exceeds 32 bits.\<close>

definition sfs_layout :: "nat \<Rightarrow> fsst \<Rightarrow> bool" where
  "sfs_layout f s \<longleftrightarrow> disk0_ready (sfs_device f s) s \<and> super_blocks f s \<le> d_blocks (sfs_device f s) \<and>
     d_blocks (sfs_device f s) \<le> 1048576 \<and>
     apart (sfs_buffer (fss s f)) 4096 (disk0_buffer s) 4096 \<and>
     apart (sfs_buffer (fss s f)) 4096 (disk0_block s 0) (4096 * d_blocks (sfs_device f s)) \<and>
     apart f 44 (disk0_buffer s) 4096 \<and> apart f 44 (sfs_buffer (fss s f)) 4096 \<and>
     apart f 44 (disk0_block s 0) (4096 * d_blocks (sfs_device f s))"

definition sfs_ready :: "nat \<Rightarrow> fsst \<Rightarrow> bool" where
  "sfs_ready f s \<longleftrightarrow> sfs_layout f s \<and> io_sem (fss s f) = 1"

lemma apart_mono: "apart a n b k \<Longrightarrow> b \<le> b' \<Longrightarrow> b' + k' \<le> b + k \<Longrightarrow> apart a n b' k'"
  by (auto simp: apart_def)

lemma disk0_ready_fs [simp]:
  "disk0_ready dev (upd_fs f g s) = disk0_ready dev s" "disk0_ready dev (upd_kmem h s) = disk0_ready dev s"
  by (simp_all add: disk0_ready_def disk0_ok_def VALID_IDE_def)

lemma disk0_block_fs [simp]: "disk0_block (upd_fs f g s) = disk0_block s"
  by (simp add: disk0_block_def fun_eq_iff)

lemma block_in_disk: "b < d_blocks dev \<Longrightarrow> apart a n (disk0_block s 0) (4096 * d_blocks dev) \<Longrightarrow> apart a n (disk0_block s b) 4096"
  by (erule apart_mono) (auto simp: disk0_block_def)

lemma sfs_read_block:
  assumes "sfs_layout f s" and "b < super_blocks f s" and "b \<noteq> 0 \<or> \<not> check"
  shows "sfs_rwblock_nolock f bp b False check s =
    Some (0, upd_kmem (block_written bp (disk0_buffer s) (disk0_block s b)) s)"
proof -
  have r: "disk0_ready (sfs_device f s) s" and b: "b < d_blocks (sfs_device f s)" "b < 1048576"
    using assms(1,2) by (auto simp: sfs_layout_def)
  have o: "int (to_u32 (b * SFS_BLKSIZE)) = 4096 * int b" using b(2) by (simp add: SFS_BLKSIZE_def)
  have "d_driver (sfs_device f s) = Disk0" using r by (simp add: disk0_ready_def disk0_ok_def)
  then show ?thesis
    using disk0_read_block [OF r b(1), of bp] assms(2,3)
    unfolding sfs_rwblock_nolock_def o by (auto simp: dop_io_def sfs_device_def SFS_BLKSIZE_def)
qed

lemma sfs_write_block:
  assumes "sfs_layout f s" and "b < super_blocks f s" and "b \<noteq> 0 \<or> \<not> check"
  shows "sfs_rwblock_nolock f bp b True check s =
    Some (0, upd_kmem (block_written (disk0_block s b) (disk0_buffer s) bp) s)"
proof -
  have r: "disk0_ready (sfs_device f s) s" and b: "b < d_blocks (sfs_device f s)" "b < 1048576"
    using assms(1,2) by (auto simp: sfs_layout_def)
  have o: "int (to_u32 (b * SFS_BLKSIZE)) = 4096 * int b" using b(2) by (simp add: SFS_BLKSIZE_def)
  have "d_driver (sfs_device f s) = Disk0" using r by (simp add: disk0_ready_def disk0_ok_def)
  then show ?thesis
    using disk0_write_block [OF r b(1), of bp] assms(2,3)
    unfolding sfs_rwblock_nolock_def o by (auto simp: dop_io_def sfs_device_def SFS_BLKSIZE_def)
qed

text \<open>A change of memory outside the super block keeps the layout.\<close>

lemma sfs_layout_kmem:
  assumes "sfs_layout f s" and "\<And>i. f \<le> i \<Longrightarrow> i < f + 44 \<Longrightarrow> g (kmem s) i = kmem s i"
  shows "sfs_layout f (upd_kmem g s)" and "super_blocks f (upd_kmem g s) = super_blocks f s"
proof -
  show sb: "super_blocks f (upd_kmem g s) = super_blocks f s"
    unfolding super_blocks_def upd_kmem_simps by (rule ld32_frame) (rule assms(2), auto)
  show "sfs_layout f (upd_kmem g s)"
    using assms(1) unfolding sfs_layout_def sb by (simp add: sfs_device_def)
qed

lemma sfs_layout_fs [simp]:
  "sfs_layout f (upd_fs f (\<lambda>x. x\<lparr>io_sem := v\<rparr>) s) = sfs_layout f s"
  "super_blocks f (upd_fs g h s) = super_blocks f s"
  by (simp_all add: sfs_layout_def sfs_device_def super_blocks_def)

lemma io_lock:
  assumes "io_sem (fss s f) = 1"
  shows "lock_sfs_io f s = Some (upd_fs f (\<lambda>x. x\<lparr>io_sem := 0\<rparr>) s)"
    and "unlock_sfs_io f (upd_kmem g (upd_fs f (\<lambda>x. x\<lparr>io_sem := 0\<rparr>) s)) = upd_kmem g s"
proof -
  show "lock_sfs_io f s = Some (upd_fs f (\<lambda>x. x\<lparr>io_sem := 0\<rparr>) s)" using assms by (simp add: lock_sfs_io_def)
  have "(fss s)(f := fss s f\<lparr>io_sem := 1\<rparr>) = fss s" using assms by (intro ext) simp
  then show "unlock_sfs_io f (upd_kmem g (upd_fs f (\<lambda>x. x\<lparr>io_sem := 0\<rparr>) s)) = upd_kmem g s"
    by (simp add: unlock_sfs_io_def upd_fs_def upd_kmem_def)
qed

lemma upd_kmem_comp: "upd_kmem g (upd_kmem h s) = upd_kmem (g \<circ> h) s"
  by (simp add: upd_kmem_def)

lemma sfs_rbuf_effect:
  assumes "sfs_ready f s" and "0 < b" and "b < super_blocks f s" and "offset < 4096" and "offset + len \<le> 4096"
    and "apart bp len (sfs_buffer (fss s f)) 4096"
  shows "\<exists>g. sfs_rbuf f bp len b offset s = Some (0, upd_kmem g s) \<and>
    region (g (kmem s)) bp len = region (kmem s) (disk0_block s b + offset) len \<and>
    (\<forall>i. \<not> (bp \<le> i \<and> i < bp + len) \<and> \<not> (sfs_buffer (fss s f) \<le> i \<and> i < sfs_buffer (fss s f) + 4096) \<and>
      \<not> (disk0_buffer s \<le> i \<and> i < disk0_buffer s + 4096) \<longrightarrow> g (kmem s) i = kmem s i)"
proof -
  define B where "B = sfs_buffer (fss s f)"
  define s0 where "s0 = upd_fs f (\<lambda>x. x\<lparr>io_sem := 0\<rparr>) s"
  define g1 where "g1 = block_written B (disk0_buffer s) (disk0_block s b)"
  define g2 where "g2 = (\<lambda>m. memcpy m bp (B + offset) len)"
  have lay: "sfs_layout f s0" and io: "io_sem (fss s f) = 1"
    using assms(1) by (simp_all add: s0_def sfs_ready_def)
  have "sfs_rwblock_nolock f B b False True s0 = Some (0, upd_kmem g1 s0)"
    using sfs_read_block [OF lay, of b True B] assms(2,3) by (simp add: s0_def g1_def)
  then have "sfs_rbuf f bp len b offset s = Some (0, unlock_sfs_io f (upd_kmem g2 (upd_kmem g1 s0)))"
    using assms(4,5) io_lock(1) [OF io]
    by (simp add: sfs_rbuf_def SFS_BLKSIZE_def s0_def [symmetric] Let_def) (simp add: s0_def B_def g2_def)
  then have eq: "sfs_rbuf f bp len b offset s = Some (0, upd_kmem (g2 \<circ> g1) s)"
    unfolding upd_kmem_comp s0_def io_lock(2) [OF io] .
  have ap: "bp + len \<le> B + offset \<or> B + offset + len \<le> bp"
    using assms(4-6) by (auto simp: apart_def B_def)
  have "region ((g2 \<circ> g1) (kmem s)) bp len = region (g1 (kmem s)) (B + offset) len"
    using memcpy_region [OF ap] by (simp add: g2_def)
  also have "\<dots> = region (kmem s) (disk0_block s b + offset) len"
    using assms(5) by (auto simp: region_eq_iff g1_def block_written_def add.assoc)
  finally have "region ((g2 \<circ> g1) (kmem s)) bp len = region (kmem s) (disk0_block s b + offset) len" .
  moreover note eq
  moreover have "(g2 \<circ> g1) (kmem s) i = kmem s i"
    if "\<not> (bp \<le> i \<and> i < bp + len)" "\<not> (B \<le> i \<and> i < B + 4096)" "\<not> (disk0_buffer s \<le> i \<and> i < disk0_buffer s + 4096)" for i
    using that ap by (auto simp: g2_def g1_def memcpy_at block_written_def)
  ultimately show ?thesis unfolding B_def by blast
qed

lemma sfs_wbuf_effect:
  assumes "sfs_ready f s" and "0 < b" and "b < super_blocks f s" and "offset < 4096" and "offset + len \<le> 4096"
    and "apart bp len (sfs_buffer (fss s f)) 4096" and "apart bp len (disk0_buffer s) 4096"
  shows "\<exists>g. sfs_wbuf f bp len b offset s = Some (0, upd_kmem g s) \<and>
    region (g (kmem s)) (disk0_block s b + offset) len = region (kmem s) bp len \<and>
    (\<forall>i. \<not> (disk0_block s b + offset \<le> i \<and> i < disk0_block s b + offset + len) \<and>
      \<not> (sfs_buffer (fss s f) \<le> i \<and> i < sfs_buffer (fss s f) + 4096) \<and>
      \<not> (disk0_buffer s \<le> i \<and> i < disk0_buffer s + 4096) \<longrightarrow> g (kmem s) i = kmem s i)"
proof -
  define B where "B = sfs_buffer (fss s f)"
  define T where "T = disk0_buffer s"
  define D where "D = disk0_block s b"
  define s0 where "s0 = upd_fs f (\<lambda>x. x\<lparr>io_sem := 0\<rparr>) s"
  define g1 where "g1 = block_written B T D"
  define g2 where "g2 = (\<lambda>m. memcpy m (B + offset) bp len)"
  define g3 where "g3 = block_written D T B"
  have lay: "sfs_layout f s0" and io: "io_sem (fss s f) = 1"
    using assms(1) by (simp_all add: s0_def sfs_ready_def)
  have sb: "super_blocks f s0 = super_blocks f s" by (simp add: s0_def)
  have dlt: "b < d_blocks (sfs_device f s0)" using lay assms(3) unfolding sfs_layout_def sb by simp
  have apBT: "apart B 4096 T 4096" "apart f 44 T 4096" "apart f 44 B 4096"
    using lay by (simp_all add: sfs_layout_def B_def T_def s0_def)
  have apD: "apart B 4096 D 4096" "apart f 44 D 4096"
    using lay block_in_disk [OF dlt, of B 4096 s] block_in_disk [OF dlt, of f 44 s]
    by (simp_all add: sfs_layout_def B_def D_def s0_def)
  have apT: "apart T 4096 D 4096"
    using disk0_apart [of "sfs_device f s0" s0 b] lay dlt
    by (auto simp: sfs_layout_def disk0_ready_def apart_def T_def D_def s0_def)
  have r1: "sfs_rwblock_nolock f B b False True s0 = Some (0, upd_kmem g1 s0)"
    using sfs_read_block [OF lay, of b True B] assms(2,3) by (simp add: s0_def g1_def T_def D_def)
  have ap: "B + offset + len \<le> bp \<or> bp + len \<le> B + offset"
    using assms(4-6) by (auto simp: apart_def B_def)
  have "\<not> (B \<le> i \<and> i < B + 4096)" "\<not> (T \<le> i \<and> i < T + 4096)" if "f \<le> i" "i < f + 44" for i
    using that apBT(2,3) by (auto simp: apart_def)
  moreover have g2: "g2 m i = m i" if "\<not> (B \<le> i \<and> i < B + 4096)" for m i
    using that ap assms(5) unfolding g2_def by (subst memcpy_at) auto
  moreover have g1: "g1 m i = m i" if "\<not> (B \<le> i \<and> i < B + 4096)" "\<not> (T \<le> i \<and> i < T + 4096)" for m i
    using that by (auto simp: g1_def block_written_def)
  ultimately have keep: "(g2 \<circ> g1) m i = m i" if "f \<le> i" "i < f + 44" for m i
    using that by simp
  note lay2 = sfs_layout_kmem [OF lay, of "g2 \<circ> g1", OF keep]
  have r2: "sfs_rwblock_nolock f B b True True (upd_kmem (g2 \<circ> g1) s0) = Some (0, upd_kmem (g3 \<circ> (g2 \<circ> g1)) s0)"
    using sfs_write_block [OF lay2(1), of b True B] assms(2,3) lay2(2)
    by (simp add: s0_def g3_def T_def D_def upd_kmem_comp)
  have "sfs_wbuf f bp len b offset s = Some (0, unlock_sfs_io f (upd_kmem (g3 \<circ> (g2 \<circ> g1)) s0))"
    using assms(4,5) io_lock(1) [OF io] r1 r2
    by (simp add: sfs_wbuf_def SFS_BLKSIZE_def s0_def [symmetric] Let_def)
       (simp add: s0_def B_def g2_def upd_kmem_comp)
  then have eq: "sfs_wbuf f bp len b offset s = Some (0, upd_kmem (g3 \<circ> (g2 \<circ> g1)) s)"
    unfolding s0_def io_lock(2) [OF io] .
  have in_D: "(g3 \<circ> (g2 \<circ> g1)) m i = g2 (g1 m) (B + (i - D))" if "D \<le> i" "i < D + 4096" for m i
    using that by (simp add: g3_def block_written_def)
  have g2_at: "g2 m (B + k) = (if offset \<le> k \<and> k < offset + len then m (bp + (k - offset)) else m (B + k))" for m k
    using ap unfolding g2_def by (subst memcpy_at) auto
  have g1_bp: "g1 m (bp + k) = m (bp + k)" if "k < len" for m k
    using that assms(6,7) by (intro g1) (auto simp: apart_def B_def T_def)
  have g1_B: "g1 m (B + k) = m (D + k)" if "k < 4096" for m k
    using that by (simp add: g1_def block_written_def)
  have "region ((g3 \<circ> (g2 \<circ> g1)) (kmem s)) (D + offset) len = region (kmem s) bp len"
    unfolding region_eq_iff
  proof (intro allI impI)
    fix i assume i: "i < len"
    have "(g3 \<circ> (g2 \<circ> g1)) (kmem s) (D + offset + i) = g2 (g1 (kmem s)) (B + (offset + i))"
      using in_D [of "D + offset + i" "kmem s"] i assms(5) by (simp add: add.assoc)
    then show "(g3 \<circ> (g2 \<circ> g1)) (kmem s) (D + offset + i) = kmem s (bp + i)"
      using i by (simp add: g2_at g1_bp)
  qed
  moreover have "(g3 \<circ> (g2 \<circ> g1)) (kmem s) i = kmem s i"
    if "\<not> (D + offset \<le> i \<and> i < D + offset + len)" "\<not> (B \<le> i \<and> i < B + 4096)" "\<not> (T \<le> i \<and> i < T + 4096)" for i
  proof (cases "D \<le> i \<and> i < D + 4096")
    case True
    then have "(g3 \<circ> (g2 \<circ> g1)) (kmem s) i = g2 (g1 (kmem s)) (B + (i - D))" by (intro in_D) auto
    also have "\<dots> = g1 (kmem s) (B + (i - D))" using that(1) True by (subst g2_at) auto
    also have "\<dots> = kmem s i" using True by (subst g1_B) auto
    finally show ?thesis .
  next
    case False
    then have "(g3 \<circ> (g2 \<circ> g1)) (kmem s) i = g2 (g1 (kmem s)) i"
      using that(3) by (auto simp: g3_def block_written_def)
    then show ?thesis using g2 [OF that(2)] g1 [OF that(2,3)] by simp
  qed
  ultimately show ?thesis using eq unfolding B_def T_def D_def by blast
qed

lemma sfs_ready_kmem:
  assumes "sfs_ready f s" and "b < super_blocks f s" and "offset + len \<le> 4096"
    and "\<forall>i. \<not> (disk0_block s b + offset \<le> i \<and> i < disk0_block s b + offset + len) \<and>
      \<not> (sfs_buffer (fss s f) \<le> i \<and> i < sfs_buffer (fss s f) + 4096) \<and>
      \<not> (disk0_buffer s \<le> i \<and> i < disk0_buffer s + 4096) \<longrightarrow> g (kmem s) i = kmem s i"
  shows "sfs_ready f (upd_kmem g s)" and "super_blocks f (upd_kmem g s) = super_blocks f s"
proof -
  have lay: "sfs_layout f s" using assms(1) by (simp add: sfs_ready_def)
  then have "b < d_blocks (sfs_device f s)" using assms(2) by (simp add: sfs_layout_def)
  then have "apart f 44 (disk0_block s b) 4096"
    using lay by (intro block_in_disk) (auto simp: sfs_layout_def)
  moreover have "apart f 44 (disk0_buffer s) 4096" "apart f 44 (sfs_buffer (fss s f)) 4096"
    using lay by (simp_all add: sfs_layout_def)
  ultimately have "g (kmem s) i = kmem s i" if "f \<le> i" "i < f + 44" for i
    using that assms(3,4) by (auto simp: apart_def)
  note sfs_layout_kmem [where g = g, OF lay this]
  then show "sfs_ready f (upd_kmem g s)" "super_blocks f (upd_kmem g s) = super_blocks f s"
    using assms(1) by (simp_all add: sfs_ready_def)
qed

subsection \<open>Properties\<close>

text \<open>C18. Part of a block written with \<open>sfs_wbuf\<close> reads back with \<open>sfs_rbuf\<close>: on a mounted file system both
  succeed for a block of the file system and a range inside it, the bytes come back, and no other byte of
  the disk has changed.\<close>

theorem sfs_wbuf_rbuf:
  assumes "sfs_ready f s" and "0 < b" and "b < super_blocks f s" and "offset < 4096" and "offset + len \<le> 4096"
    and "apart bp len (sfs_buffer (fss s f)) 4096" and "apart bp len (disk0_buffer s) 4096"
    and "apart bq len (sfs_buffer (fss s f)) 4096"
  shows "\<exists>s1 s2. sfs_wbuf f bp len b offset s = Some (0, s1) \<and> sfs_rbuf f bq len b offset s1 = Some (0, s2) \<and>
    region (kmem s2) bq len = region (kmem s) bp len \<and>
    (\<forall>i. apart i 1 (sfs_buffer (fss s f)) 4096 \<and> apart i 1 (disk0_buffer s) 4096 \<and>
      apart i 1 (disk0_block s b + offset) len \<longrightarrow> kmem s1 i = kmem s i)"
proof -
  obtain g where g: "sfs_wbuf f bp len b offset s = Some (0, upd_kmem g s)"
    "region (g (kmem s)) (disk0_block s b + offset) len = region (kmem s) bp len"
    "\<forall>i. \<not> (disk0_block s b + offset \<le> i \<and> i < disk0_block s b + offset + len) \<and>
      \<not> (sfs_buffer (fss s f) \<le> i \<and> i < sfs_buffer (fss s f) + 4096) \<and>
      \<not> (disk0_buffer s \<le> i \<and> i < disk0_buffer s + 4096) \<longrightarrow> g (kmem s) i = kmem s i"
    using sfs_wbuf_effect [OF assms(1-7)] by blast
  note r = sfs_ready_kmem [where g = g, OF assms(1,3,5) g(3)]
  obtain h where h: "sfs_rbuf f bq len b offset (upd_kmem g s) = Some (0, upd_kmem h (upd_kmem g s))"
    "region (h (g (kmem s))) bq len = region (g (kmem s)) (disk0_block s b + offset) len"
    using sfs_rbuf_effect [OF r(1) assms(2) _ assms(4,5), of bq] assms(3,8) r(2) by auto
  have "kmem (upd_kmem g s) i = kmem s i" if "apart i 1 (sfs_buffer (fss s f)) 4096"
      "apart i 1 (disk0_buffer s) 4096" "apart i 1 (disk0_block s b + offset) len" for i
    using that g(3) by (auto simp: apart_def)
  then show ?thesis using g h by (intro exI [of _ "upd_kmem g s"] exI [of _ "upd_kmem h (upd_kmem g s)"]) simp
qed

definition sfs0 :: fsst where
  "sfs0 = fs0\<lparr>kmem := (\<lambda>_. 0)(0x504 := 2, 0x600 := 7),
     inodes := (inodes fs0)(0x700 := inode0\<lparr>device_info := disk0_dev\<rparr>),
     fss := (fss fs0)(0x500 := \<lparr>sfs_dev = 0x700, freemap = bitmap0, super_dirty = False, sfs_buffer = 0x50000,
       fs_sem = 1, io_sem = 1, mutex_sem = 1, hash_list = 0\<rparr>)\<rparr>"

lemma sfs0_ready: "sfs_ready 0x500 sfs0" "super_blocks 0x500 sfs0 = 2" "sfs_buffer (fss sfs0 0x500) = 0x50000"
  "disk0_buffer sfs0 = 0x40000" "disk0_block sfs0 b = 0x100000 + 4096 * b"
proof -
  show sb: "super_blocks 0x500 sfs0 = 2" by (simp add: super_blocks_def sfs0_def ld32_def ld16_def)
  have dev: "sfs_device 0x500 sfs0 = disk0_dev" by (simp add: sfs_device_def sfs0_def)
  show "sfs_ready 0x500 sfs0" using fs0_ready
    unfolding sfs_ready_def sfs_layout_def sb dev
    by (simp add: apart_def sfs0_def fs0_def disk0_dev_def disk0_block_def disk0_ready_def disk0_ok_def VALID_IDE_def)
qed (simp_all add: sfs0_def fs0_def disk0_block_def)

theorem sfs_wbuf_rbuf_witness:
  "\<exists>s1 s2. sfs_wbuf 0x500 0x600 8 1 100 sfs0 = Some (0, s1) \<and> sfs_rbuf 0x500 0x800 8 1 100 s1 = Some (0, s2) \<and>
    region (kmem s2) 0x800 8 = region (kmem sfs0) 0x600 8"
  using sfs_wbuf_rbuf [OF sfs0_ready(1), of 1 100 8 "0x600" "0x800"]
  by (auto simp: sfs0_ready apart_def)

end
