(* ===== verification/Sfs_Inode.thy ===== *)
theory Sfs_Inode
  imports Sfs_Io
begin

text \<open>
  The inodes of the simple file system (kern/fs/sfs/sfs_inode.c). An inode in memory is the node of theory
  Fs_State with an \<open>sfs_inode\<close> in it; the inode on disk is read into the bytes at \<open>din\<close>, and its fields are
  read and written there. Locals whose address the code hands to \<open>sfs_rbuf\<close> and \<open>sfs_wbuf\<close> live at
  \<open>kstack_ino\<close>, the string literal \<open>".."\<close> at \<open>dotdot\<close>. An operation returns its error code, the values it
  stores through its pointer arguments, and the state.
\<close>

definition SFS_NDIRECT :: nat where "SFS_NDIRECT = 12"
definition SFS_BLK_NENTRY :: nat where "SFS_BLK_NENTRY = SFS_BLKSIZE div 4"
definition SFS_MAX_FNAME_LEN :: nat where "SFS_MAX_FNAME_LEN = 255"
definition SFS_MAX_FILE_SIZE :: int where "SFS_MAX_FILE_SIZE = 1024 * 1024 * 128"
definition SFS_TYPE_FILE :: nat where "SFS_TYPE_FILE = 1"
definition SFS_TYPE_DIR :: nat where "SFS_TYPE_DIR = 2"
definition SFS_TYPE_LINK :: nat where "SFS_TYPE_LINK = 3"
definition SFS_HLIST_SHIFT :: nat where "SFS_HLIST_SHIFT = 10"
definition SFS_HLIST_SIZE :: nat where "SFS_HLIST_SIZE = 1024"
definition sfs_dentry_size :: nat where "sfs_dentry_size = 256"
definition kstack_ino :: nat where "kstack_ino = 0x80"
definition dotdot :: nat where "dotdot = 0x90"

text \<open>The fields of \<open>struct sfs_disk_inode\<close>.\<close>

definition din_size :: "nat \<Rightarrow> fsst \<Rightarrow> nat" where "din_size d s = ld32 (kmem s) d"
definition din_type :: "nat \<Rightarrow> fsst \<Rightarrow> nat" where "din_type d s = ld16 (kmem s) (d + 4)"
definition din_nlinks :: "nat \<Rightarrow> fsst \<Rightarrow> nat" where "din_nlinks d s = ld16 (kmem s) (d + 6)"
definition din_blocks :: "nat \<Rightarrow> fsst \<Rightarrow> nat" where "din_blocks d s = ld32 (kmem s) (d + 8)"
definition din_direct :: "nat \<Rightarrow> nat \<Rightarrow> fsst \<Rightarrow> nat" where "din_direct d i s = ld32 (kmem s) (d + 12 + 4 * i)"
definition din_indirect :: "nat \<Rightarrow> fsst \<Rightarrow> nat" where "din_indirect d s = ld32 (kmem s) (d + 60)"

definition set_din_size :: "nat \<Rightarrow> nat \<Rightarrow> fsst \<Rightarrow> fsst" where
  "set_din_size d v s = upd_kmem (st32 d (to_u32 v)) s"
definition set_din_blocks :: "nat \<Rightarrow> nat \<Rightarrow> fsst \<Rightarrow> fsst" where
  "set_din_blocks d v s = upd_kmem (st32 (d + 8) (to_u32 v)) s"
definition set_din_direct :: "nat \<Rightarrow> nat \<Rightarrow> nat \<Rightarrow> fsst \<Rightarrow> fsst" where
  "set_din_direct d i v s = upd_kmem (st32 (d + 12 + 4 * i) (to_u32 v)) s"
definition set_din_indirect :: "nat \<Rightarrow> nat \<Rightarrow> fsst \<Rightarrow> fsst" where
  "set_din_indirect d v s = upd_kmem (st32 (d + 60) (to_u32 v)) s"

text \<open>The \<open>sfs_inode\<close> of a node; its address in the code is the node's address.\<close>

abbreviation sin :: "nat \<Rightarrow> fsst \<Rightarrow> sfs_inode" where
  "sin n s \<equiv> sfs_inode_info (inodes s n)"

definition mark_dirty :: "nat \<Rightarrow> fsst \<Rightarrow> fsst" where
  "mark_dirty n s = upd_sin n (\<lambda>i. i\<lparr>dirty := True\<rparr>) s"

definition lock_sin :: "nat \<Rightarrow> fsst \<Rightarrow> fsst option" where
  "lock_sin n s = do { v \<leftarrow> sem_down (sin_sem (sin n s)); Some (upd_sin n (\<lambda>i. i\<lparr>sin_sem := v\<rparr>) s) }"

definition unlock_sin :: "nat \<Rightarrow> fsst \<Rightarrow> fsst" where
  "unlock_sin n s = upd_sin n (\<lambda>i. i\<lparr>sin_sem := sem_up (sin_sem i)\<rparr>) s"

subsection \<open>The inodes in memory\<close>

definition sfs_get_ops :: "nat \<Rightarrow> inode_ops option" where
  "sfs_get_ops type =
     (if type = SFS_TYPE_DIR then Some Sfs_node_dirops
      else if type = SFS_TYPE_FILE then Some Sfs_node_fileops else None)"

definition sin_hashfn :: "nat \<Rightarrow> nat" where
  "sin_hashfn x =
     unat (drop_bit (32 - SFS_HLIST_SHIFT) (ucast (ucast (of_nat x :: 32 word) * (0x9e370001 :: 64 word)) :: 32 word))"

definition sfs_hash_list :: "nat \<Rightarrow> nat \<Rightarrow> fnode" where
  "sfs_hash_list f i = HashList f (sin_hashfn i)"

definition sfs_set_links :: "nat \<Rightarrow> nat \<Rightarrow> fsst \<Rightarrow> fsst" where
  "sfs_set_links f n s =
     (let s = upd_flinks (list_add (InodeList f) (InodeLink n)) s
      in upd_flinks (list_add (sfs_hash_list f (ino (sin n s))) (SinHashLink n)) s)"

definition sfs_remove_links :: "nat \<Rightarrow> fsst \<Rightarrow> fsst" where
  "sfs_remove_links n s =
     (let s = upd_flinks (list_del (InodeLink n)) s in upd_flinks (list_del (SinHashLink n)) s)"

subsection \<open>Blocks in use\<close>

definition sfs_block_inuse :: "nat \<Rightarrow> nat \<Rightarrow> fsst \<Rightarrow> bool option" where
  "sfs_block_inuse f i s = do {
     kassert (i \<noteq> 0 \<and> i < super_blocks f s);
     t \<leftarrow> bitmap_test (freemap (fss s f)) i;
     Some (\<not> t)
   }"

definition assert_inuse :: "nat \<Rightarrow> nat \<Rightarrow> fsst \<Rightarrow> unit option" where
  "assert_inuse f i s = do { b \<leftarrow> sfs_block_inuse f i s; kassert b }"

definition sfs_block_alloc :: "nat \<Rightarrow> fsst \<Rightarrow> (int \<times> nat \<times> fsst) option" where
  "sfs_block_alloc f s = do {
     (ret, i, b) \<leftarrow> bitmap_alloc (freemap (fss s f));
     if ret \<noteq> 0 then Some (ret, 0, s) else do {
       i \<leftarrow> i;
       let s = upd_fs f (\<lambda>x. x\<lparr>freemap := b\<rparr>) s;
       kassert (unused_blocks f s > 0);
       let s = upd_fs f (\<lambda>x. x\<lparr>super_dirty := True\<rparr>) (set_unused_blocks f (unused_blocks f s - 1) s);
       _ \<leftarrow> assert_inuse f i s;
       (ret, s) \<leftarrow> sfs_clear_block f i 1 s;
       Some (ret, i, s)
     }
   }"

definition sfs_block_free :: "nat \<Rightarrow> nat \<Rightarrow> fsst \<Rightarrow> fsst option" where
  "sfs_block_free f i s = do {
     _ \<leftarrow> assert_inuse f i s;
     b \<leftarrow> bitmap_free i (freemap (fss s f));
     let s = upd_fs f (\<lambda>x. x\<lparr>freemap := b\<rparr>) s;
     Some (upd_fs f (\<lambda>x. x\<lparr>super_dirty := True\<rparr>) (set_unused_blocks f (unused_blocks f s + 1) s))
   }"

subsection \<open>Loading an inode\<close>

definition sfs_create_inode :: "nat \<Rightarrow> nat \<Rightarrow> nat \<Rightarrow> fsst \<Rightarrow> (int \<times> nat option \<times> fsst) option" where
  "sfs_create_inode f d i s = do {
     (n, s) \<leftarrow> alloc_inode Sfs_inode_info s;
     (case n of
        None \<Rightarrow> Some (- E_NO_MEM, None, s)
      | Some n \<Rightarrow> do {
          ops \<leftarrow> sfs_get_ops (din_type d s);
          let s = inode_init n (Some ops) (Some f) s;
          let s = upd_sin n (\<lambda>_. \<lparr>din = d, ino = i, dirty = False, reclaim_count = 1, sin_sem = 1\<rparr>) s;
          Some (0, Some n, s)
        })
   }"

text \<open>The walk over the hash chain from \<open>le\<close>.\<close>

partial_function (option) lookup_sfs_loop :: "nat \<Rightarrow> nat \<Rightarrow> fnode \<Rightarrow> fsst \<Rightarrow> (nat option \<times> fsst) option" where
  "lookup_sfs_loop f i le s =
     (let le = list_next le (flinks s) in
      if le = sfs_hash_list f i then Some (None, s)
      else (case le of
          SinHashLink n \<Rightarrow>
            if ino (sin n s) = i then
              let (c, s) = inode_ref_inc n s
              in Some (Some n, if c = 1 then upd_sin n (\<lambda>x. x\<lparr>reclaim_count := reclaim_count x + 1\<rparr>) s else s)
            else lookup_sfs_loop f i le s
        | _ \<Rightarrow> None))"

declare lookup_sfs_loop.simps [code]

definition lookup_sfs_nolock :: "nat \<Rightarrow> nat \<Rightarrow> fsst \<Rightarrow> (nat option \<times> fsst) option" where
  "lookup_sfs_nolock f i s = lookup_sfs_loop f i (sfs_hash_list f i) s"

definition sfs_load_inode :: "nat \<Rightarrow> nat \<Rightarrow> fsst \<Rightarrow> (int \<times> nat option \<times> fsst) option" where
  "sfs_load_inode f i s = do {
     s \<leftarrow> lock_sfs_fs f s;
     (n, s) \<leftarrow> lookup_sfs_nolock f i s;
     (case n of
        Some n \<Rightarrow> Some (0, Some n, unlock_sfs_fs f s)
      | None \<Rightarrow> do {
          (d, s) \<leftarrow> kalloc sizeof_disk_inode s;
          (case d of
             None \<Rightarrow> Some (- E_NO_MEM, None, unlock_sfs_fs f s)
           | Some d \<Rightarrow> do {
               _ \<leftarrow> assert_inuse f i s;
               (ret, s) \<leftarrow> sfs_rbuf f d sizeof_disk_inode i 0 s;
               if ret \<noteq> 0 then do { s \<leftarrow> kdealloc d s; Some (ret, None, unlock_sfs_fs f s) } else do {
                 kassert (din_nlinks d s \<noteq> 0);
                 (ret, n, s) \<leftarrow> sfs_create_inode f d i s;
                 if ret \<noteq> 0 then do { s \<leftarrow> kdealloc d s; Some (ret, None, unlock_sfs_fs f s) } else do {
                   n \<leftarrow> n;
                   Some (0, Some n, unlock_sfs_fs f (sfs_set_links f n s))
                 }
               }
             })
        })
   }"

subsection \<open>The blocks of a file\<close>

definition sfs_rbuf32 :: "nat \<Rightarrow> nat \<Rightarrow> nat \<Rightarrow> fsst \<Rightarrow> (int \<times> nat \<times> fsst) option" where
  "sfs_rbuf32 f blkno offset s = do {
     (ret, s) \<leftarrow> sfs_rbuf f kstack_ino 4 blkno offset s;
     Some (ret, ld32 (kmem s) kstack_ino, s)
   }"

definition sfs_wbuf32 :: "nat \<Rightarrow> nat \<Rightarrow> nat \<Rightarrow> nat \<Rightarrow> fsst \<Rightarrow> (int \<times> fsst) option" where
  "sfs_wbuf32 f v blkno offset s = sfs_wbuf f kstack_ino 4 blkno offset (upd_kmem (st32 kstack_ino v) s)"

text \<open>\<open>failed_cleanup\<close>: the entry block is given back when it was allocated here.\<close>

definition bmap_cleanup :: "nat \<Rightarrow> nat \<Rightarrow> nat \<Rightarrow> int \<Rightarrow> fsst \<Rightarrow> (int \<times> nat \<times> nat \<times> fsst) option" where
  "bmap_cleanup f entp ent ret s = do {
     s \<leftarrow> (if ent \<noteq> entp then sfs_block_free f ent s else Some s);
     Some (ret, entp, 0, s)
   }"

text \<open>A new data block for the entry at \<open>offset\<close> of the entry block \<open>ent\<close>.\<close>

definition bmap_new_entry :: "nat \<Rightarrow> nat \<Rightarrow> nat \<Rightarrow> nat \<Rightarrow> fsst \<Rightarrow> (int \<times> nat \<times> nat \<times> fsst) option" where
  "bmap_new_entry f entp ent offset s = do {
     (ret, i, s) \<leftarrow> sfs_block_alloc f s;
     if ret \<noteq> 0 then bmap_cleanup f entp ent ret s else do {
       (ret, s) \<leftarrow> sfs_wbuf32 f i ent offset s;
       if ret \<noteq> 0 then do { s \<leftarrow> sfs_block_free f i s; bmap_cleanup f entp ent ret s }
       else Some (0, ent, i, s)
     }
   }"

text \<open>The result: the error code, the entry block, the data block (zero: none) and the state.\<close>

definition sfs_bmap_get_sub_nolock :: "nat \<Rightarrow> nat \<Rightarrow> nat \<Rightarrow> bool \<Rightarrow> fsst \<Rightarrow> (int \<times> nat \<times> nat \<times> fsst) option" where
  "sfs_bmap_get_sub_nolock f entp index create s = do {
     kassert (index < SFS_BLK_NENTRY);
     let offset = index * 4;
     if entp \<noteq> 0 then do {
       (ret, i, s) \<leftarrow> sfs_rbuf32 f entp offset s;
       if ret \<noteq> 0 then Some (ret, entp, 0, s)
       else if i \<noteq> 0 \<or> \<not> create then Some (0, entp, i, s)
       else bmap_new_entry f entp entp offset s
     }
     else if \<not> create then Some (0, entp, 0, s)
     else do {
       (ret, ent, s) \<leftarrow> sfs_block_alloc f s;
       if ret \<noteq> 0 then Some (ret, entp, 0, s) else bmap_new_entry f entp ent offset s
     }
   }"

definition sfs_bmap_get_nolock :: "nat \<Rightarrow> nat \<Rightarrow> nat \<Rightarrow> bool \<Rightarrow> fsst \<Rightarrow> (int \<times> nat \<times> fsst) option" where
  "sfs_bmap_get_nolock f n index create s = do {
     let d = din (sin n s);
     (ret, i, s) \<leftarrow>
       (if index < SFS_NDIRECT then
          let i = din_direct d index s in
          if i = 0 \<and> create then do {
            (ret, i, s) \<leftarrow> sfs_block_alloc f s;
            if ret \<noteq> 0 then Some (ret, 0, s)
            else Some (0, i, mark_dirty n (set_din_direct d index i s))
          } else Some (0, i, s)
        else do {
          let index = index - SFS_NDIRECT;
          kassert (index < SFS_BLK_NENTRY);
          (ret, ent, i, s) \<leftarrow> sfs_bmap_get_sub_nolock f (din_indirect d s) index create s;
          if ret \<noteq> 0 then Some (ret, 0, s)
          else if ent \<noteq> din_indirect d s then do {
            kassert (din_indirect d s = 0);
            Some (0, i, mark_dirty n (set_din_indirect d ent s))
          } else Some (0, i, s)
        });
     if ret \<noteq> 0 then Some (ret, 0, s) else do {
       _ \<leftarrow> (if i = 0 then Some () else assert_inuse f i s);
       Some (0, i, s)
     }
   }"

definition sfs_bmap_free_sub_nolock :: "nat \<Rightarrow> nat \<Rightarrow> nat \<Rightarrow> fsst \<Rightarrow> (int \<times> fsst) option" where
  "sfs_bmap_free_sub_nolock f ent index s = do {
     _ \<leftarrow> assert_inuse f ent s;
     kassert (index < SFS_BLK_NENTRY);
     let offset = index * 4;
     (ret, i, s) \<leftarrow> sfs_rbuf32 f ent offset s;
     if ret \<noteq> 0 then Some (ret, s)
     else if i \<noteq> 0 then do {
       (ret, s) \<leftarrow> sfs_wbuf32 f 0 ent offset s;
       if ret \<noteq> 0 then Some (ret, s) else do { s \<leftarrow> sfs_block_free f i s; Some (0, s) }
     }
     else Some (0, s)
   }"

definition sfs_bmap_free_nolock :: "nat \<Rightarrow> nat \<Rightarrow> nat \<Rightarrow> fsst \<Rightarrow> (int \<times> fsst) option" where
  "sfs_bmap_free_nolock f n index s = do {
     let d = din (sin n s);
     if index < SFS_NDIRECT then
       let i = din_direct d index s in
       if i \<noteq> 0 then do {
         s \<leftarrow> sfs_block_free f i s;
         Some (0, mark_dirty n (set_din_direct d index 0 s))
       } else Some (0, s)
     else let index = index - SFS_NDIRECT in
       if index < SFS_BLK_NENTRY then
         if din_indirect d s \<noteq> 0 then sfs_bmap_free_sub_nolock f (din_indirect d s) index s else Some (0, s)
       else Some (0, s)
   }"

definition sfs_bmap_load_nolock :: "nat \<Rightarrow> nat \<Rightarrow> nat \<Rightarrow> fsst \<Rightarrow> (int \<times> nat \<times> fsst) option" where
  "sfs_bmap_load_nolock f n index s = do {
     let d = din (sin n s);
     kassert (index \<le> din_blocks d s);
     let create = (index = din_blocks d s);
     (ret, i, s) \<leftarrow> sfs_bmap_get_nolock f n index create s;
     if ret \<noteq> 0 then Some (ret, 0, s) else do {
       _ \<leftarrow> assert_inuse f i s;
       Some (0, i, if create then set_din_blocks d (din_blocks d s + 1) s else s)
     }
   }"

definition sfs_bmap_truncate_nolock :: "nat \<Rightarrow> nat \<Rightarrow> fsst \<Rightarrow> (int \<times> fsst) option" where
  "sfs_bmap_truncate_nolock f n s = do {
     let d = din (sin n s);
     kassert (din_blocks d s \<noteq> 0);
     (ret, s) \<leftarrow> sfs_bmap_free_nolock f n (din_blocks d s - 1) s;
     if ret \<noteq> 0 then Some (ret, s)
     else Some (0, mark_dirty n (set_din_blocks d (din_blocks d s - 1) s))
   }"

subsection \<open>Size and storage\<close>

definition sfs_fsync :: "nat \<Rightarrow> fsst \<Rightarrow> (int \<times> fsst) option" where
  "sfs_fsync n s = do {
     f \<leftarrow> in_fs (inodes s n);
     _ \<leftarrow> sfs_inode_of n s;
     if dirty (sin n s) then do {
       s \<leftarrow> lock_sin n s;
       (ret, s) \<leftarrow> (if dirty (sin n s) then do {
           let s = upd_sin n (\<lambda>i. i\<lparr>dirty := False\<rparr>) s;
           (ret, s) \<leftarrow> sfs_wbuf f (din (sin n s)) sizeof_disk_inode (ino (sin n s)) 0 s;
           Some (ret, if ret \<noteq> 0 then mark_dirty n s else s)
         } else Some (0, s));
       Some (ret, unlock_sin n s)
     } else Some (0, s)
   }"

text \<open>The two loops of \<open>sfs_truncfile\<close>, \<open>k\<close> blocks to go.\<close>

fun trunc_enlarge :: "nat \<Rightarrow> nat \<Rightarrow> nat \<Rightarrow> nat \<Rightarrow> fsst \<Rightarrow> (int \<times> fsst) option" where
  "trunc_enlarge f n nblks 0 s = Some (0, s)"
| "trunc_enlarge f n nblks (Suc k) s = do {
     (ret, i, s) \<leftarrow> sfs_bmap_load_nolock f n nblks s;
     if ret \<noteq> 0 then Some (ret, s) else trunc_enlarge f n (nblks + 1) k s
   }"

fun trunc_reduce :: "nat \<Rightarrow> nat \<Rightarrow> nat \<Rightarrow> fsst \<Rightarrow> (int \<times> fsst) option" where
  "trunc_reduce f n 0 s = Some (0, s)"
| "trunc_reduce f n (Suc k) s = do {
     (ret, s) \<leftarrow> sfs_bmap_truncate_nolock f n s;
     if ret \<noteq> 0 then Some (ret, s) else trunc_reduce f n k s
   }"

definition sfs_truncfile :: "nat \<Rightarrow> int \<Rightarrow> fsst \<Rightarrow> (int \<times> fsst) option" where
  "sfs_truncfile n len s =
     (if len < 0 \<or> len > SFS_MAX_FILE_SIZE then Some (- E_INVAL, s) else do {
        f \<leftarrow> in_fs (inodes s n);
        _ \<leftarrow> sfs_inode_of n s;
        let d = din (sin n s);
        let tblks = to_u32 (ROUNDUP_DIV (nat len) SFS_BLKSIZE);
        if int (din_size d s) = len then do { kassert (tblks = din_blocks d s); Some (0, s) } else do {
          s \<leftarrow> lock_sin n s;
          let nblks = din_blocks d s;
          (ret, s) \<leftarrow> (if nblks < tblks then trunc_enlarge f n nblks (tblks - nblks) s
                      else if tblks < nblks then trunc_reduce f n (nblks - tblks) s
                      else Some (0, s));
          if ret \<noteq> 0 then Some (ret, unlock_sin n s) else do {
            kassert (din_blocks d s = tblks);
            Some (0, unlock_sin n (mark_dirty n (set_din_size d (nat len) s)))
          }
        }
      })"

subsection \<open>Releasing a node\<close>

text \<open>\<open>vop_fsync\<close> and \<open>vop_truncate\<close> on a node of the file system: both tables have the first, the table of
  directories has no second.\<close>

definition vop_fsync :: "nat option \<Rightarrow> fsst \<Rightarrow> (int \<times> fsst) option" where
  "vop_fsync nd s = do {
     (n, ops) \<leftarrow> vop_op nd s;
     (case ops of Dev_node_ops \<Rightarrow> None | _ \<Rightarrow> sfs_fsync n s)
   }"

definition vop_truncate :: "nat option \<Rightarrow> int \<Rightarrow> fsst \<Rightarrow> (int \<times> fsst) option" where
  "vop_truncate nd len s = do {
     (n, ops) \<leftarrow> vop_op nd s;
     (case ops of Sfs_node_fileops \<Rightarrow> sfs_truncfile n len s | _ \<Rightarrow> None)
   }"

definition sfs_reclaim :: "nat \<Rightarrow> fsst \<Rightarrow> (int \<times> fsst) option" where
  "sfs_reclaim n s = do {
     f \<leftarrow> in_fs (inodes s n);
     _ \<leftarrow> sfs_inode_of n s;
     s \<leftarrow> lock_sfs_fs f s;
     kassert (reclaim_count (sin n s) > 0);
     let s = upd_sin n (\<lambda>i. i\<lparr>reclaim_count := reclaim_count i - 1\<rparr>) s;
     if reclaim_count (sin n s) \<noteq> 0 \<or> ref_count (inodes s n) \<noteq> 0 then Some (- E_BUSY, unlock_sfs_fs f s)
     else do {
       (ret, s) \<leftarrow> (if din_nlinks (din (sin n s)) s = 0 then vop_truncate (Some n) 0 s else Some (0, s));
       if ret \<noteq> 0 then Some (ret, unlock_sfs_fs f s) else do {
         (ret, s) \<leftarrow> (if dirty (sin n s) then vop_fsync (Some n) s else Some (0, s));
         if ret \<noteq> 0 then Some (ret, unlock_sfs_fs f s) else do {
           let s = unlock_sfs_fs f (sfs_remove_links n s);
           s \<leftarrow> (if din_nlinks (din (sin n s)) s = 0 then do {
               s \<leftarrow> sfs_block_free f (ino (sin n s)) s;
               let ent = din_indirect (din (sin n s)) s;
               if ent \<noteq> 0 then sfs_block_free f ent s else Some s
             } else Some s);
           s \<leftarrow> kdealloc (din (sin n s)) s;
           s \<leftarrow> inode_kill n s;
           Some (0, s)
         }
       }
     }
   }"

definition vop_reclaim :: "nat option \<Rightarrow> fsst \<Rightarrow> (int \<times> fsst) option" where
  "vop_reclaim nd s = do {
     (n, ops) \<leftarrow> vop_op nd s;
     (case ops of Dev_node_ops \<Rightarrow> None | _ \<Rightarrow> sfs_reclaim n s)
   }"

text \<open>\<open>inode_ref_dec\<close> of inode.c; a failed reclaim is only reported on the console.\<close>

definition inode_ref_dec :: "nat \<Rightarrow> fsst \<Rightarrow> (int \<times> fsst) option" where
  "inode_ref_dec n s = do {
     kassert (ref_count (inodes s n) > 0);
     let s = upd_inode n (\<lambda>i. i\<lparr>ref_count := ref_count i - 1\<rparr>) s;
     let c = ref_count (inodes s n);
     if c = 0 then do { (ret, s) \<leftarrow> vop_reclaim (Some n) s; Some (c, s) } else Some (c, s)
   }"

definition vop_ref_dec :: "nat \<Rightarrow> fsst \<Rightarrow> fsst option" where
  "vop_ref_dec n s = map_option snd (inode_ref_dec n s)"

definition sfs_close :: "nat \<Rightarrow> fsst \<Rightarrow> (int \<times> fsst) option" where
  "sfs_close n s = vop_fsync (Some n) s"

definition vop_close :: "nat option \<Rightarrow> fsst \<Rightarrow> (int \<times> fsst) option" where
  "vop_close nd s = do {
     (n, ops) \<leftarrow> vop_op nd s;
     (case ops of Dev_node_ops \<Rightarrow> do { r \<leftarrow> dev_close n s; Some (r, s) } | _ \<Rightarrow> sfs_close n s)
   }"

definition inode_open_dec :: "nat \<Rightarrow> fsst \<Rightarrow> (int \<times> fsst) option" where
  "inode_open_dec n s = do {
     kassert (open_count (inodes s n) > 0);
     let s = upd_inode n (\<lambda>i. i\<lparr>open_count := open_count i - 1\<rparr>) s;
     let c = open_count (inodes s n);
     if c = 0 then do { (ret, s) \<leftarrow> vop_close (Some n) s; Some (c, s) } else Some (c, s)
   }"

subsection \<open>Directories\<close>

definition sfs_dirent_read_nolock :: "nat \<Rightarrow> nat \<Rightarrow> int \<Rightarrow> nat \<Rightarrow> fsst \<Rightarrow> (int \<times> fsst) option" where
  "sfs_dirent_read_nolock f n slot entry s = do {
     kassert (din_type (din (sin n s)) s = SFS_TYPE_DIR \<and> slot \<ge> 0 \<and> nat slot < din_blocks (din (sin n s)) s);
     (ret, i, s) \<leftarrow> sfs_bmap_load_nolock f n (nat slot) s;
     if ret \<noteq> 0 then Some (ret, s) else do {
       _ \<leftarrow> assert_inuse f i s;
       (ret, s) \<leftarrow> sfs_rbuf f entry sizeof_disk_entry i 0 s;
       if ret \<noteq> 0 then Some (ret, s)
       else Some (0, upd_kmem (\<lambda>m. m(entry + 4 + SFS_MAX_FNAME_LEN := 0)) s)
     }
   }"

definition entry_ino :: "nat \<Rightarrow> fsst \<Rightarrow> nat" where "entry_ino entry s = ld32 (kmem s) entry"

text \<open>The search loop, \<open>k\<close> slots to go: the error code, the entry's inode number and slot, the last empty slot.\<close>

fun dirent_search_loop ::
    "nat \<Rightarrow> nat \<Rightarrow> nat \<Rightarrow> nat \<Rightarrow> nat \<Rightarrow> nat \<Rightarrow> nat \<Rightarrow> fsst \<Rightarrow> (int \<times> nat \<times> nat \<times> nat \<times> fsst) option" where
  "dirent_search_loop f n name entry 0 i slot0 s = Some (- E_NOENT, 0, 0, slot0, s)"
| "dirent_search_loop f n name entry (Suc k) i slot0 s = do {
     (ret, s) \<leftarrow> sfs_dirent_read_nolock f n (int i) entry s;
     if ret \<noteq> 0 then Some (ret, 0, 0, slot0, s)
     else if entry_ino entry s = 0 then dirent_search_loop f n name entry k (i + 1) i s
     else do {
       c \<leftarrow> strcmp (kmem s) name (entry + 4);
       if c = 0 then Some (0, entry_ino entry s, i, slot0, s)
       else dirent_search_loop f n name entry k (i + 1) slot0 s
     }
   }"

definition sfs_dirent_search_nolock :: "nat \<Rightarrow> nat \<Rightarrow> nat \<Rightarrow> fsst \<Rightarrow> (int \<times> nat \<times> nat \<times> nat \<times> fsst) option" where
  "sfs_dirent_search_nolock f n name s = do {
     l \<leftarrow> strlen (kmem s) name;
     kassert (l \<le> SFS_MAX_FNAME_LEN);
     (e, s) \<leftarrow> kalloc sizeof_disk_entry s;
     (case e of
        None \<Rightarrow> Some (- E_NO_MEM, 0, 0, 0, s)
      | Some entry \<Rightarrow> do {
          let nslots = din_blocks (din (sin n s)) s;
          (ret, i, slot, slot0, s) \<leftarrow> dirent_search_loop f n name entry nslots 0 nslots s;
          s \<leftarrow> kdealloc entry s;
          Some (ret, i, slot, slot0, s)
        })
   }"

fun dirent_findino_loop :: "nat \<Rightarrow> nat \<Rightarrow> nat \<Rightarrow> nat \<Rightarrow> nat \<Rightarrow> nat \<Rightarrow> fsst \<Rightarrow> (int \<times> fsst) option" where
  "dirent_findino_loop f n i entry 0 j s = Some (- E_NOENT, s)"
| "dirent_findino_loop f n i entry (Suc k) j s = do {
     (ret, s) \<leftarrow> sfs_dirent_read_nolock f n (int j) entry s;
     if ret \<noteq> 0 then Some (ret, s)
     else if entry_ino entry s = i then Some (0, s)
     else dirent_findino_loop f n i entry k (j + 1) s
   }"

definition sfs_dirent_findino_nolock :: "nat \<Rightarrow> nat \<Rightarrow> nat \<Rightarrow> nat \<Rightarrow> fsst \<Rightarrow> (int \<times> fsst) option" where
  "sfs_dirent_findino_nolock f n i entry s = dirent_findino_loop f n i entry (din_blocks (din (sin n s)) s) 0 s"

definition sfs_lookup_once :: "nat \<Rightarrow> nat \<Rightarrow> nat \<Rightarrow> fsst \<Rightarrow> (int \<times> nat option \<times> fsst) option" where
  "sfs_lookup_once f n name s = do {
     s \<leftarrow> lock_sin n s;
     (ret, i, slot, slot0, s) \<leftarrow> sfs_dirent_search_nolock f n name s;
     let s = unlock_sin n s;
     if ret = 0 then sfs_load_inode f i s else Some (ret, None, s)
   }"

definition sfs_opendir :: "32 word \<Rightarrow> int" where
  "sfs_opendir open_flags =
     (if and open_flags O_ACCMODE \<noteq> O_RDONLY then - E_ISDIR
      else if and open_flags O_APPEND \<noteq> 0 then - E_ISDIR else 0)"

definition sfs_lookup :: "nat \<Rightarrow> nat \<Rightarrow> fsst \<Rightarrow> (int \<times> nat option \<times> fsst) option" where
  "sfs_lookup n pathp s = do {
     f \<leftarrow> in_fs (inodes s n);
     kassert (kmem s pathp \<noteq> 0 \<and> kmem s pathp \<noteq> 47);
     let (_, s) = inode_ref_inc n s;
     _ \<leftarrow> sfs_inode_of n s;
     if din_type (din (sin n s)) s \<noteq> SFS_TYPE_DIR then do { s \<leftarrow> vop_ref_dec n s; Some (- E_NOTDIR, None, s) }
     else do {
       (ret, sub, s) \<leftarrow> sfs_lookup_once f n pathp s;
       s \<leftarrow> vop_ref_dec n s;
       Some (ret, if ret \<noteq> 0 then None else sub, s)
     }
   }"

subsection \<open>Reading and writing\<close>

text \<open>\<open>sfs_io_nolock\<close> as it stands: the block transfers are not written (LAB8 exercise 1), so the transferred
  length \<open>alen\<close> stays zero; the checks and the update of the size are there.\<close>

definition sfs_io_nolock :: "nat \<Rightarrow> nat \<Rightarrow> nat \<Rightarrow> int \<Rightarrow> nat \<Rightarrow> bool \<Rightarrow> fsst \<Rightarrow> (int \<times> nat \<times> fsst) option" where
  "sfs_io_nolock f n bp offset alen wr s = do {
     let d = din (sin n s);
     kassert (din_type d s \<noteq> SFS_TYPE_DIR);
     let endpos = to_i64 (offset + int alen);
     if offset < 0 \<or> offset \<ge> SFS_MAX_FILE_SIZE \<or> offset > endpos then Some (- E_INVAL, 0, s)
     else if offset = endpos then Some (0, 0, s)
     else if \<not> wr \<and> offset \<ge> int (din_size d s) then Some (0, 0, s)
     else let alen = 0 in
       Some (0, alen,
         if offset + int alen > int (din_size d s) then mark_dirty n (set_din_size d (nat offset + alen) s) else s)
   }"

definition sfs_io :: "nat \<Rightarrow> iobuf \<Rightarrow> bool \<Rightarrow> fsst \<Rightarrow> (int \<times> iobuf \<times> fsst) option" where
  "sfs_io n iob wr s = do {
     f \<leftarrow> in_fs (inodes s n);
     _ \<leftarrow> sfs_inode_of n s;
     s \<leftarrow> lock_sin n s;
     (ret, alen, s) \<leftarrow> sfs_io_nolock f n (io_base iob) (io_offset iob) (io_resid iob) wr s;
     iob \<leftarrow> (if alen \<noteq> 0 then iobuf_skip alen iob else Some iob);
     Some (ret, iob, unlock_sin n s)
   }"

definition sfs_read :: "nat \<Rightarrow> iobuf \<Rightarrow> fsst \<Rightarrow> (int \<times> iobuf \<times> fsst) option" where
  "sfs_read n iob s = sfs_io n iob False s"

definition sfs_write :: "nat \<Rightarrow> iobuf \<Rightarrow> fsst \<Rightarrow> (int \<times> iobuf \<times> fsst) option" where
  "sfs_write n iob s = sfs_io n iob True s"

subsection \<open>Information\<close>

definition sfs_gettype :: "nat \<Rightarrow> fsst \<Rightarrow> (int \<times> 32 word) option" where
  "sfs_gettype n s = do {
     _ \<leftarrow> sfs_inode_of n s;
     let type = din_type (din (sin n s)) s;
     if type = SFS_TYPE_DIR then Some (0, S_IFDIR)
     else if type = SFS_TYPE_FILE then Some (0, S_IFREG)
     else if type = SFS_TYPE_LINK then Some (0, S_IFLNK)
     else None
   }"

definition vop_gettype :: "nat option \<Rightarrow> fsst \<Rightarrow> (int \<times> 32 word) option" where
  "vop_gettype nd s = do {
     (n, ops) \<leftarrow> vop_op nd s;
     (case ops of Dev_node_ops \<Rightarrow> dev_gettype n s | _ \<Rightarrow> sfs_gettype n s)
   }"

definition sfs_fstat :: "nat \<Rightarrow> fsst \<Rightarrow> (int \<times> stat) option" where
  "sfs_fstat n s = do {
     (ret, type) \<leftarrow> vop_gettype (Some n) s;
     if ret \<noteq> 0 then Some (ret, stat0) else do {
       _ \<leftarrow> sfs_inode_of n s;
       let d = din (sin n s);
       Some (0, \<lparr>st_mode = type, st_nlinks = din_nlinks d s, st_blocks = din_blocks d s, st_size = din_size d s\<rparr>)
     }
   }"

definition sfs_tryseek :: "nat \<Rightarrow> int \<Rightarrow> fsst \<Rightarrow> (int \<times> fsst) option" where
  "sfs_tryseek n p s =
     (if p < 0 \<or> p \<ge> SFS_MAX_FILE_SIZE then Some (- E_INVAL, s) else do {
        _ \<leftarrow> sfs_inode_of n s;
        if p > int (din_size (din (sin n s)) s) then vop_truncate (Some n) p s else Some (0, s)
      })"

text \<open>The loop of \<open>sfs_getdirentry_sub_nolock\<close>: the \<open>slot\<close>-th entry in use, from slot \<open>i\<close> on.\<close>

fun getdirentry_loop :: "nat \<Rightarrow> nat \<Rightarrow> int \<Rightarrow> nat \<Rightarrow> nat \<Rightarrow> nat \<Rightarrow> fsst \<Rightarrow> (int \<times> fsst) option" where
  "getdirentry_loop f n slot entry 0 i s = Some (- E_NOENT, s)"
| "getdirentry_loop f n slot entry (Suc k) i s = do {
     (ret, s) \<leftarrow> sfs_dirent_read_nolock f n (int i) entry s;
     if ret \<noteq> 0 then Some (ret, s)
     else if entry_ino entry s \<noteq> 0 then
       (if slot = 0 then Some (0, s) else getdirentry_loop f n (slot - 1) entry k (i + 1) s)
     else getdirentry_loop f n slot entry k (i + 1) s
   }"

definition sfs_getdirentry_sub_nolock :: "nat \<Rightarrow> nat \<Rightarrow> int \<Rightarrow> nat \<Rightarrow> fsst \<Rightarrow> (int \<times> fsst) option" where
  "sfs_getdirentry_sub_nolock f n slot entry s =
     getdirentry_loop f n slot entry (din_blocks (din (sin n s)) s) 0 s"

definition sfs_getdirentry :: "nat \<Rightarrow> iobuf \<Rightarrow> fsst \<Rightarrow> (int \<times> iobuf \<times> fsst) option" where
  "sfs_getdirentry n iob s = do {
     (e, s) \<leftarrow> kalloc sizeof_disk_entry s;
     (case e of
        None \<Rightarrow> Some (- E_NO_MEM, iob, s)
      | Some entry \<Rightarrow> do {
          f \<leftarrow> in_fs (inodes s n);
          _ \<leftarrow> sfs_inode_of n s;
          let offset = io_offset iob;
          if offset < 0 \<or> offset mod int sfs_dentry_size \<noteq> 0 then do { s \<leftarrow> kdealloc entry s; Some (- E_INVAL, iob, s) }
          else do {
            let slot = to_i32 (offset div int sfs_dentry_size);
            if nat (slot mod 2 ^ 32) > din_blocks (din (sin n s)) s then do { s \<leftarrow> kdealloc entry s; Some (- E_NOENT, iob, s) }
            else do {
              s \<leftarrow> lock_sin n s;
              (ret, s) \<leftarrow> sfs_getdirentry_sub_nolock f n slot entry s;
              let s = unlock_sin n s;
              if ret \<noteq> 0 then do { s \<leftarrow> kdealloc entry s; Some (ret, iob, s) }
              else do {
                (ret, copied, iob, m) \<leftarrow> iobuf_move (entry + 4) sfs_dentry_size True iob (kmem s);
                s \<leftarrow> kdealloc entry (upd_kmem (\<lambda>_. m) s);
                Some (ret, iob, s)
              }
            }
          }
        })
   }"

text \<open>The loop of \<open>sfs_namefile\<close>, from the directory \<open>n\<close> to the root: the error code, where the path starts and
  how much room is left.\<close>

partial_function (option) namefile_loop ::
    "nat \<Rightarrow> nat \<Rightarrow> nat \<Rightarrow> nat \<Rightarrow> nat \<Rightarrow> fsst \<Rightarrow> (int \<times> nat \<times> nat \<times> fsst) option" where
  "namefile_loop f n ptr resid entry s = do {
     r \<leftarrow> sfs_lookup_once f n dotdot s;
     (case r of (ret, parent, s) \<Rightarrow>
       if ret \<noteq> 0 then do { s \<leftarrow> vop_ref_dec n s; Some (ret, ptr, resid, s) } else do {
         p \<leftarrow> parent;
         let i = ino (sin n s);
         s \<leftarrow> vop_ref_dec n s;
         if n = p then do { s \<leftarrow> vop_ref_dec n s; Some (0, ptr, resid, s) } else do {
           x \<leftarrow> sfs_inode_of p s;
           kassert (i \<noteq> ino (sin p s) \<and> din_type (din (sin p s)) s = SFS_TYPE_DIR);
           s \<leftarrow> lock_sin p s;
           r \<leftarrow> sfs_dirent_findino_nolock f p i entry s;
           (case r of (ret, s) \<Rightarrow> do {
             let s = unlock_sin p s;
             if ret \<noteq> 0 then do { s \<leftarrow> vop_ref_dec p s; Some (ret, ptr, resid, s) } else do {
               l \<leftarrow> strlen (kmem s) (entry + 4);
               let alen = l + 1;
               if alen > resid then do { s \<leftarrow> vop_ref_dec p s; Some (- E_NO_MEM, ptr, resid, s) }
               else let ptr = ptr - alen;
                        s = upd_kmem (\<lambda>m. (memcpy m ptr (entry + 4) (alen - 1))(ptr + alen - 1 := 47)) s
                    in namefile_loop f p ptr (resid - alen) entry s
             }
           })
         }
       })
   }"

declare namefile_loop.simps [code]

definition sfs_namefile :: "nat \<Rightarrow> iobuf \<Rightarrow> fsst \<Rightarrow> (int \<times> iobuf \<times> fsst) option" where
  "sfs_namefile n iob s =
     (if io_resid iob \<le> 2 then Some (- E_NO_MEM, iob, s) else do {
        (e, s) \<leftarrow> kalloc sizeof_disk_entry s;
        (case e of
           None \<Rightarrow> Some (- E_NO_MEM, iob, s)
         | Some entry \<Rightarrow> do {
             f \<leftarrow> in_fs (inodes s n);
             _ \<leftarrow> sfs_inode_of n s;
             let (_, s) = inode_ref_inc n s;
             (ret, ptr, resid, s) \<leftarrow> namefile_loop f n (io_base iob + io_resid iob) (io_resid iob - 2) entry s;
             if ret \<noteq> 0 then do { s \<leftarrow> kdealloc entry s; Some (ret, iob, s) } else do {
               let alen = io_resid iob - resid - 2;
               let p = io_base iob + 1;
               let s = upd_kmem (\<lambda>m. (memmove m p ptr alen)(p - 1 := 47, p + alen := 0)) s;
               iob \<leftarrow> iobuf_skip alen iob;
               s \<leftarrow> kdealloc entry s;
               Some (0, iob, s)
             }
           })
      })"

end
