(* ===== verification/Sfs_Fs.thy ===== *)
theory Sfs_Fs
  imports Sfs_Inode
begin

text \<open>
  Mounting, synchronising and unmounting the simple file system (kern/fs/sfs/sfs_fs.c). The function
  pointers \<open>sfs_do_mount\<close> stores in the \<open>struct fs\<close> are the functions here; \<open>struct sfs_fs\<close> is its first member
  and has the same address.
\<close>

definition SFS_MAGIC :: nat where "SFS_MAGIC = 0x2f8dbe2a"
definition SFS_MAX_INFO_LEN :: nat where "SFS_MAX_INFO_LEN = 31"

definition alloc_fs :: "fsst \<Rightarrow> (nat option \<times> fsst) option" where
  "alloc_fs s = kalloc sizeof_fs s"

text \<open>The walk over the list of inodes from \<open>le\<close>.\<close>

partial_function (option) sfs_sync_loop :: "nat \<Rightarrow> fnode \<Rightarrow> fsst \<Rightarrow> fsst option" where
  "sfs_sync_loop f le s =
     (let le = list_next le (flinks s) in
      if le = InodeList f then Some s
      else (case le of
          InodeLink n \<Rightarrow> do { r \<leftarrow> vop_fsync (Some n) s; sfs_sync_loop f le (snd r) }
        | _ \<Rightarrow> None))"

declare sfs_sync_loop.simps [code]

definition sfs_sync :: "nat \<Rightarrow> fsst \<Rightarrow> (int \<times> fsst) option" where
  "sfs_sync f s = do {
     s \<leftarrow> lock_sfs_fs f s;
     s \<leftarrow> sfs_sync_loop f (InodeList f) s;
     let s = unlock_sfs_fs f s;
     if super_dirty (fss s f) then do {
       let s = upd_fs f (\<lambda>x. x\<lparr>super_dirty := False\<rparr>) s;
       (ret, s) \<leftarrow> sfs_sync_super f s;
       if ret \<noteq> 0 then Some (ret, upd_fs f (\<lambda>x. x\<lparr>super_dirty := True\<rparr>) s) else do {
         (ret, s) \<leftarrow> sfs_sync_freemap f s;
         if ret \<noteq> 0 then Some (ret, upd_fs f (\<lambda>x. x\<lparr>super_dirty := True\<rparr>) s) else Some (0, s)
       }
     } else Some (0, s)
   }"

definition sfs_get_root :: "nat \<Rightarrow> fsst \<Rightarrow> (nat \<times> fsst) option" where
  "sfs_get_root f s = do {
     (ret, n, s) \<leftarrow> sfs_load_inode f SFS_BLKN_ROOT s;
     kassert (ret = 0);
     n \<leftarrow> n;
     Some (n, s)
   }"

definition sfs_unmount :: "nat \<Rightarrow> fsst \<Rightarrow> (int \<times> fsst) option" where
  "sfs_unmount f s =
     (if \<not> list_empty (InodeList f) (flinks s) then Some (- E_BUSY, s) else do {
        kassert (\<not> super_dirty (fss s f));
        h \<leftarrow> bitmap_destroy (freemap (fss s f)) (heap s);
        let s = s\<lparr>heap := h\<rparr>;
        s \<leftarrow> kdealloc (sfs_buffer (fss s f)) s;
        s \<leftarrow> kdealloc (hash_list (fss s f)) s;
        s \<leftarrow> kdealloc f s;
        Some (0, s)
      })"

text \<open>The loop of \<open>sfs_cleanup\<close>, \<open>k\<close> tries to go; what it prints is left out.\<close>

fun sfs_cleanup_loop :: "nat \<Rightarrow> nat \<Rightarrow> fsst \<Rightarrow> fsst option" where
  "sfs_cleanup_loop f 0 s = Some s"
| "sfs_cleanup_loop f (Suc k) s = do {
     (ret, s) \<leftarrow> sfs_sync f s;
     if ret = 0 then Some s else sfs_cleanup_loop f k s
   }"

definition sfs_cleanup :: "nat \<Rightarrow> fsst \<Rightarrow> fsst option" where
  "sfs_cleanup f s = sfs_cleanup_loop f 32 s"

definition sfs_init_read :: "nat \<Rightarrow> nat \<Rightarrow> nat \<Rightarrow> fsst \<Rightarrow> (int \<times> fsst) option" where
  "sfs_init_read dv blkno bp s = do {
     let iob = iobuf_init bp SFS_BLKSIZE (int (to_u32 (blkno * SFS_BLKSIZE)));
     (ret, iob, s) \<leftarrow> dop_io (device_info (inodes s dv)) iob False s;
     Some (ret, s)
   }"

fun sfs_init_freemap_loop :: "nat \<Rightarrow> nat \<Rightarrow> nat \<Rightarrow> nat \<Rightarrow> fsst \<Rightarrow> (int \<times> fsst) option" where
  "sfs_init_freemap_loop dv data blkno 0 s = Some (0, s)"
| "sfs_init_freemap_loop dv data blkno (Suc nblks) s = do {
     (ret, s) \<leftarrow> sfs_init_read dv blkno data s;
     if ret \<noteq> 0 then Some (ret, s) else sfs_init_freemap_loop dv (data + SFS_BLKSIZE) (add_u32 blkno 1) nblks s
   }"

definition sfs_init_freemap :: "nat \<Rightarrow> bitmap \<Rightarrow> nat \<Rightarrow> nat \<Rightarrow> fsst \<Rightarrow> (int \<times> bitmap \<times> fsst) option" where
  "sfs_init_freemap dv fm blkno nblks s = do {
     kassert (snd (bitmap_getdata fm) = nblks * SFS_BLKSIZE);
     (ret, s) \<leftarrow> sfs_init_freemap_loop dv (map_addr fm) blkno nblks (upd_kmem (spill_map fm) s);
     Some (ret, load_map (kmem s) fm, s)
   }"

text \<open>The loops of \<open>sfs_do_mount\<close>: the hash chains, and the count of the free blocks.\<close>

fun init_hash_lists :: "nat \<Rightarrow> nat \<Rightarrow> fsst \<Rightarrow> fsst" where
  "init_hash_lists f 0 s = s"
| "init_hash_lists f (Suc i) s = upd_flinks (list_init (HashList f i)) (init_hash_lists f i s)"

fun count_free :: "bitmap \<Rightarrow> nat \<Rightarrow> nat \<Rightarrow> nat \<Rightarrow> nat option" where
  "count_free fm 0 i unused = Some unused"
| "count_free fm (Suc k) i unused = do {
     t \<leftarrow> bitmap_test fm i;
     count_free fm k (i + 1) (if t then unused + 1 else unused)
   }"

text \<open>The part of \<open>sfs_do_mount\<close> after the super block was read; \<open>bp\<close> is the buffer that holds it.\<close>

definition mount_freemap :: "nat \<Rightarrow> nat \<Rightarrow> nat \<Rightarrow> nat \<Rightarrow> fsst \<Rightarrow> (int \<times> nat option \<times> fsst) option" where
  "mount_freemap dv f bp hl s = do {
     let nbits = sfs_freemap_bits (ld32 (kmem s) (bp + 4));
     (fm, h) \<leftarrow> bitmap_create nbits (heap s);
     let s = s\<lparr>heap := h\<rparr>;
     (case fm of
        None \<Rightarrow> do { s \<leftarrow> kdealloc hl s; s \<leftarrow> kdealloc bp s; s \<leftarrow> kdealloc f s; Some (- E_NO_MEM, None, s) }
      | Some fm \<Rightarrow> do {
          let nblks = sfs_freemap_blocks (ld32 (kmem s) (bp + 4));
          (ret, fm, s) \<leftarrow> sfs_init_freemap dv fm SFS_BLKN_FREEMAP nblks s;
          let s = upd_fs f (\<lambda>x. x\<lparr>freemap := fm\<rparr>) s;
          if ret \<noteq> 0 then do {
            h \<leftarrow> bitmap_destroy fm (heap s);
            s \<leftarrow> kdealloc hl (s\<lparr>heap := h\<rparr>); s \<leftarrow> kdealloc bp s; s \<leftarrow> kdealloc f s;
            Some (ret, None, s)
          } else do {
            unused \<leftarrow> count_free fm nbits 0 0;
            kassert (to_u32 unused = unused_blocks f s);
            let s = upd_fs f (\<lambda>x. x\<lparr>super_dirty := False, fs_sem := 1, io_sem := 1, mutex_sem := 1\<rparr>) s;
            Some (0, Some f, upd_flinks (list_init (InodeList f)) s)
          }
        })
   }"

definition sfs_do_mount :: "nat \<Rightarrow> fsst \<Rightarrow> (int \<times> nat option \<times> fsst) option" where
  "sfs_do_mount dv s =
     (let dev = device_info (inodes s dv) in
      if d_blocksize dev \<noteq> SFS_BLKSIZE then Some (- E_NA_DEV, None, s) else do {
        (f, s) \<leftarrow> alloc_fs s;
        (case f of
           None \<Rightarrow> Some (- E_NO_MEM, None, s)
         | Some f \<Rightarrow> do {
             let s = upd_fs f (\<lambda>x. x\<lparr>sfs_dev := dv\<rparr>) s;
             (b, s) \<leftarrow> kalloc SFS_BLKSIZE s;
             (case b of
                None \<Rightarrow> do { s \<leftarrow> kdealloc f s; Some (- E_NO_MEM, None, s) }
              | Some bp \<Rightarrow> do {
                  let s = upd_fs f (\<lambda>x. x\<lparr>sfs_buffer := bp\<rparr>) s;
                  (ret, s) \<leftarrow> sfs_init_read dv SFS_BLKN_SUPER bp s;
                  if ret \<noteq> 0 then do { s \<leftarrow> kdealloc bp s; s \<leftarrow> kdealloc f s; Some (ret, None, s) }
                  else if ld32 (kmem s) bp \<noteq> SFS_MAGIC \<or> ld32 (kmem s) (bp + 4) > d_blocks dev
                  then do { s \<leftarrow> kdealloc bp s; s \<leftarrow> kdealloc f s; Some (- E_INVAL, None, s) }
                  else do {
                    let s = upd_kmem (\<lambda>m. m(bp + 12 + SFS_MAX_INFO_LEN := 0)) s;
                    let s = upd_kmem (\<lambda>m. memcpy m f bp sizeof_super) s;
                    (hl, s) \<leftarrow> kalloc (16 * SFS_HLIST_SIZE) s;
                    (case hl of
                       None \<Rightarrow> do { s \<leftarrow> kdealloc bp s; s \<leftarrow> kdealloc f s; Some (- E_NO_MEM, None, s) }
                     | Some hl \<Rightarrow>
                         mount_freemap dv f bp hl
                           (init_hash_lists f SFS_HLIST_SIZE (upd_fs f (\<lambda>x. x\<lparr>hash_list := hl\<rparr>) s)))
                  }
                })
           })
      })"

end
