(* ===== verification/Sfs_Facts.thy ===== *)
theory Sfs_Facts
  imports Sfs_Inode
begin

text \<open>
  The proofs about the simple file system. Input and output leave the nodes alone (\<open>same_nodes\<close>); the free
  map and the counter of the super block agree (\<open>sfs_inv\<close>) and stay so; a file has a largest block; the
  nodes in memory form a table with one node per inode number (\<open>inode_table\<close>).
\<close>

subsection \<open>What input and output leave alone\<close>

text \<open>Two states that differ at most in the memory, the devices and the locks of file systems.\<close>

definition same_nodes :: "fsst \<Rightarrow> fsst \<Rightarrow> bool" where
  "same_nodes s s' \<longleftrightarrow> inodes s' = inodes s \<and> flinks s' = flinks s \<and> files s' = files s \<and> filesp s' = filesp s \<and>
     bootfs_node s' = bootfs_node s \<and> vdevs s' = vdevs s"

lemma same_nodes_refl [simp]: "same_nodes s s"
  by (simp add: same_nodes_def)

lemma same_nodes_trans [trans]: "same_nodes s s' \<Longrightarrow> same_nodes s' s'' \<Longrightarrow> same_nodes s s''"
  by (simp add: same_nodes_def)

lemma same_nodes_upd [simp]:
  "same_nodes s (upd_kmem g s') = same_nodes s s'" "same_nodes s (upd_fs f h s') = same_nodes s s'"
  "same_nodes s (s'\<lparr>disk0_sem := v\<rparr>) = same_nodes s s'" "same_nodes s (s'\<lparr>heap := hp\<rparr>) = same_nodes s s'"
  "same_nodes s (s'\<lparr>console := c\<rparr>) = same_nodes s s'" "same_nodes s (s'\<lparr>p_rpos := r\<rparr>) = same_nodes s s'"
  "same_nodes s (s'\<lparr>p_wpos := r\<rparr>) = same_nodes s s'" "same_nodes s (s'\<lparr>stdin_buffer := bb\<rparr>) = same_nodes s s'"
  "same_nodes s (s'\<lparr>kbd_events := es\<rparr>) = same_nodes s s'"
  by (simp_all add: same_nodes_def)

lemma same_nodes_upd_left [simp]:
  "same_nodes (upd_kmem g s) s' = same_nodes s s'"
  "same_nodes (upd_fs f h s) s' = same_nodes s s'"
  "same_nodes (s\<lparr>disk0_sem := v\<rparr>) s' = same_nodes s s'"
  "same_nodes (s\<lparr>heap := hp\<rparr>) s' = same_nodes s s'"
  "same_nodes (s\<lparr>console := c\<rparr>) s' = same_nodes s s'"
  "same_nodes (s\<lparr>p_rpos := r\<rparr>) s' = same_nodes s s'"
  "same_nodes (s\<lparr>p_wpos := r\<rparr>) s' = same_nodes s s'"
  "same_nodes (s\<lparr>stdin_buffer := bb\<rparr>) s' = same_nodes s s'"
  "same_nodes (s\<lparr>kbd_events := es\<rparr>) s' = same_nodes s s'"
  by (simp_all add: same_nodes_def)

lemma dev_stdin_write_same [simp]: "same_nodes s (dev_stdin_write c s') = same_nodes s s'"
  by (simp add: dev_stdin_write_def Let_def)

lemma stdin_loop_same:
  assumes "stdin_read_loop bp ret len s = Some y"
  shows "same_nodes s (snd y)"
proof (rule stdin_read_loop.raw_induct [where P = "\<lambda>_ _ _ s y. same_nodes s (snd y)", OF _ assms])
  fix loop :: "nat \<Rightarrow> nat \<Rightarrow> nat \<Rightarrow> fsst \<Rightarrow> (nat \<times> fsst) option" and bp ret len s y
  assume ih: "\<And>bp ret len s y. loop bp ret len s = Some y \<Longrightarrow> same_nodes s (snd y)"
  have step: "same_nodes s (snd y)" if "loop bp ret len s1 = Some y" "same_nodes s s1" for bp ret s1
    using ih [OF that(1)] that(2) by (rule same_nodes_trans [rotated])
  assume eq: "(if ret < len
      then if p_rpos s < p_wpos s
           then loop (bp + 1) (ret + 1) len
             ((upd_kmem (\<lambda>m. m(bp := stdin_buffer s (nat (p_rpos s mod STDIN_BUFSIZE)))) s)\<lparr>p_rpos := p_rpos s + 1\<rparr>)
           else case kbd_events s of [] \<Rightarrow> None
                | Key c # es \<Rightarrow> loop bp ret len (dev_stdin_write c (s\<lparr>kbd_events := es\<rparr>))
                | Killed # es \<Rightarrow> Some (ret, s\<lparr>kbd_events := es\<rparr>)
      else Some (ret, s)) = Some y"
  show "same_nodes s (snd y)"
  proof (cases "ret < len \<and> \<not> p_rpos s < p_wpos s")
    case True
    then show ?thesis using eq by (auto split: list.splits kbd_event.splits intro: step)
  next
    case False
    then show ?thesis using eq by (auto split: if_splits intro: step)
  qed
qed

lemma ide_write_same: "disk0_write_blks_nolock b k s = Some s' \<Longrightarrow> same_nodes s s'"
  by (auto simp: disk0_write_blks_nolock_def ide_write_secs_def Let_def bind_eq_Some_conv split: prod.splits if_splits)

lemma ide_read_same: "disk0_read_blks_nolock b k s = Some s' \<Longrightarrow> same_nodes s s'"
  by (auto simp: disk0_read_blks_nolock_def ide_read_secs_def Let_def bind_eq_Some_conv split: prod.splits if_splits)

lemma disk0_step_same:
  assumes "disk0_step wr b r iob s = Some (c, n, iob', s')"
  shows "same_nodes s s'"
proof (cases wr)
  case True
  then obtain m where "disk0_write_blks_nolock b n (upd_kmem (\<lambda>_. m) s) = Some s'"
    using assms by (auto simp: disk0_step_def Let_def bind_eq_Some_conv split: prod.splits if_splits)
  from ide_write_same [OF this] show ?thesis by (simp add: same_nodes_def)
next
  case False
  then obtain s1 m where "disk0_read_blks_nolock b n s = Some s1" "s' = upd_kmem (\<lambda>_. m) s1"
    using assms by (auto simp: disk0_step_def Let_def bind_eq_Some_conv split: prod.splits if_splits)
  then show ?thesis by (simp add: ide_read_same)
qed

lemma disk0_loop_same:
  assumes "disk0_loop wr b r iob s = Some y"
  shows "same_nodes s (snd y)"
proof (rule disk0_loop.raw_induct [where P = "\<lambda>_ _ _ _ s y. same_nodes s (snd y)", OF _ assms])
  fix loop :: "bool \<Rightarrow> nat \<Rightarrow> nat \<Rightarrow> iobuf \<Rightarrow> fsst \<Rightarrow> (iobuf \<times> fsst) option" and wr b r iob s y
  assume ih: "\<And>wr b r iob s y. loop wr b r iob s = Some y \<Longrightarrow> same_nodes s (snd y)"
  assume eq: "(if r \<noteq> 0 then disk0_step wr b r iob s \<bind>
      (\<lambda>x. case x of (copied, nblks, iob, s) \<Rightarrow> loop wr (add_u32 b nblks) (r - copied) iob s) else Some (iob, s)) = Some y"
  show "same_nodes s (snd y)"
  proof (cases "r = 0")
    case False
    then obtain c n iob' s' where st: "disk0_step wr b r iob s = Some (c, n, iob', s')" "loop wr (add_u32 b n) (r - c) iob' s' = Some y"
      using eq by (auto simp: bind_eq_Some_conv split: prod.splits)
    show ?thesis using disk0_step_same [OF st(1)] ih [OF st(2)] by (rule same_nodes_trans)
  qed (use eq in auto)
qed

lemma unlock_disk0_same [simp]: "same_nodes s (unlock_disk0 s') = same_nodes s s'"
  by (simp add: unlock_disk0_def)

lemma disk0_io_same: "disk0_io dev iob wr s = Some (r, iob', s') \<Longrightarrow> same_nodes s s'"
  by (auto simp: disk0_io_def Let_def lock_disk0_def bind_eq_Some_conv dest: disk0_loop_same split: if_splits)

lemma dop_io_same:
  assumes "dop_io dev iob wr s = Some (r, iob', s')"
  shows "same_nodes s s'"
proof (cases "d_driver dev")
  case Stdin
  then have "s' = s \<or> (\<exists>n. stdin_read_loop (io_base iob) 0 (io_resid iob) s = Some (n, s'))"
    using assms by (auto simp: dop_io_def stdin_io_def dev_stdin_read_def bind_eq_Some_conv split: if_splits)
  then show ?thesis using stdin_loop_same by fastforce
next
  case Stdout
  then show ?thesis using assms by (auto simp: dop_io_def stdout_io_def split: if_splits)
next
  case Disk0
  then show ?thesis using assms by (auto simp: dop_io_def disk0_io_same)
qed

lemma sfs_rwblock_nolock_same:
  "sfs_rwblock_nolock f bp b wr check s = Some (r, s') \<Longrightarrow> same_nodes s s'"
  by (auto simp: sfs_rwblock_nolock_def Let_def bind_eq_Some_conv dest: dop_io_same split: if_splits)

lemma lock_io_same: "lock_sfs_io f s = Some s' \<Longrightarrow> same_nodes s s'"
  by (auto simp: lock_sfs_io_def bind_eq_Some_conv)

lemma unlock_io_same [simp]: "same_nodes s (unlock_sfs_io f s') = same_nodes s s'"
  by (simp add: unlock_sfs_io_def)

lemma sfs_rbuf_same: "sfs_rbuf f bp len b off s = Some (r, s') \<Longrightarrow> same_nodes s s'"
  unfolding sfs_rbuf_def Let_def
  by (auto simp: bind_eq_Some_conv split: if_splits dest!: lock_io_same sfs_rwblock_nolock_same intro: same_nodes_trans)

lemma sfs_wbuf_same: "sfs_wbuf f bp len b off s = Some (r, s') \<Longrightarrow> same_nodes s s'"
  unfolding sfs_wbuf_def Let_def
  by (auto simp: bind_eq_Some_conv split: if_splits dest!: lock_io_same sfs_rwblock_nolock_same
      intro: same_nodes_trans [OF same_nodes_trans])

lemma kalloc_same: "kalloc n s = Some (a, s') \<Longrightarrow> same_nodes s s'"
  by (auto simp: kalloc_def bind_eq_Some_conv)

lemma kdealloc_same: "kdealloc a s = Some s' \<Longrightarrow> same_nodes s s'"
  by (auto simp: kdealloc_def bind_eq_Some_conv)

subsection \<open>Accounting of blocks\<close>

text \<open>The free map has a bit for every block, only blocks of the file system other than the super block are
  free, and the super block counts them.\<close>

definition sfs_count :: "nat \<Rightarrow> fsst \<Rightarrow> bool" where
  "sfs_count f s \<longleftrightarrow> bitmap_inv (freemap (fss s f)) \<and> super_blocks f s \<le> nbits (freemap (fss s f)) \<and>
     free_bits (freemap (fss s f)) \<subseteq> {1 ..< super_blocks f s} \<and>
     unused_blocks f s = card (free_bits (freemap (fss s f)))"

definition sfs_inv :: "nat \<Rightarrow> fsst \<Rightarrow> bool" where
  "sfs_inv f s \<longleftrightarrow> sfs_ready f s \<and> sfs_count f s"

text \<open>A change of other fields of the file system.\<close>

definition set_freemap :: "nat \<Rightarrow> bitmap \<Rightarrow> nat \<Rightarrow> fsst \<Rightarrow> fsst" where
  "set_freemap f b v s = upd_fs f (\<lambda>x. x\<lparr>super_dirty := True\<rparr>) (set_unused_blocks f v (upd_fs f (\<lambda>x. x\<lparr>freemap := b\<rparr>) s))"

lemma super_blocks_st32: "super_blocks f (set_unused_blocks f v s) = super_blocks f s"
  by (simp add: super_blocks_def set_unused_blocks_def, rule ld32_frame) (simp add: st32_outside)

lemma set_freemap_fields:
  "super_blocks f (set_freemap f b v s) = super_blocks f s"
  "unused_blocks f (set_freemap f b v s) = to_u32 v"
  "freemap (fss (set_freemap f b v s) f) = b"
  "sfs_buffer (fss (set_freemap f b v s) f) = sfs_buffer (fss s f)"
  "disk0_buffer (set_freemap f b v s) = disk0_buffer s"
  "disk0_block (set_freemap f b v s) = disk0_block s"
  by (simp_all add: set_freemap_def super_blocks_st32)
    (simp_all add: set_unused_blocks_def unused_blocks_def ld32_st32 to_u32_def disk0_block_def fun_eq_iff)

lemma set_freemap_ready: "sfs_ready f s \<Longrightarrow> sfs_ready f (set_freemap f b v s)"
  unfolding sfs_ready_def sfs_layout_def set_freemap_fields sfs_device_def
  by (simp add: set_freemap_def set_unused_blocks_def)

lemma set_freemap_outside:
  "\<not> (f \<le> i \<and> i < f + 44) \<Longrightarrow> kmem (set_freemap f b v s) i = kmem s i"
  by (subst set_freemap_def, simp add: set_unused_blocks_def) (rule st32_outside, auto)

lemma sfs_clear_loop_1:
  "sfs_rwblock_nolock f (sfs_buffer (fss s f)) b True True s = Some (0, s') \<Longrightarrow> sfs_clear_loop f b 1 s = Some (0, s')"
  by (simp add: One_nat_def)

lemma sfs_clear_one:
  assumes "sfs_ready f s" and "0 < b" and "b < super_blocks f s"
  shows "\<exists>g. sfs_clear_block f b 1 s = Some (0, upd_kmem g s) \<and> (\<forall>k < 4096. g (kmem s) (disk0_block s b + k) = 0) \<and>
    (\<forall>i. \<not> (disk0_block s b + 0 \<le> i \<and> i < disk0_block s b + 0 + 4096) \<and>
      \<not> (sfs_buffer (fss s f) \<le> i \<and> i < sfs_buffer (fss s f) + 4096) \<and>
      \<not> (disk0_buffer s \<le> i \<and> i < disk0_buffer s + 4096) \<longrightarrow> g (kmem s) i = kmem s i)"
proof -
  define B where "B = sfs_buffer (fss s f)"
  define s0 where "s0 = upd_fs f (\<lambda>x. x\<lparr>io_sem := 0\<rparr>) s"
  define g1 :: "bytes \<Rightarrow> bytes" where "g1 = (\<lambda>m. memset m B 0 4096)"
  define g2 where "g2 = block_written (disk0_block s b) (disk0_buffer s) B"
  have lay: "sfs_layout f s0" and io: "io_sem (fss s f) = 1"
    using assms(1) by (simp_all add: s0_def sfs_ready_def)
  have "apart f 44 B 4096" using lay by (simp add: sfs_layout_def B_def s0_def)
  then have keep: "g1 (kmem s0) i = kmem s0 i" if "f \<le> i" "i < f + 44" for i
    using that by (auto simp: g1_def memset_at apart_def)
  note lay1 = sfs_layout_kmem [where g = g1, OF lay keep]
  have "sfs_rwblock_nolock f B b True True (upd_kmem g1 s0) = Some (0, upd_kmem (g2 \<circ> g1) s0)"
    using sfs_write_block [OF lay1(1), of b True B] assms(2,3) lay1(2)
    by (simp add: s0_def g2_def upd_kmem_comp)
  then have "sfs_clear_loop f b 1 (upd_kmem g1 s0) = Some (0, upd_kmem (g2 \<circ> g1) s0)"
    by (intro sfs_clear_loop_1) (simp add: s0_def B_def)
  moreover have "upd_kmem (\<lambda>m. memset m (sfs_buffer (fss s0 f)) 0 SFS_BLKSIZE) s0 = upd_kmem g1 s0"
    unfolding g1_def B_def SFS_BLKSIZE_def by (simp add: s0_def)
  ultimately have "sfs_clear_block f b 1 s = Some (0, unlock_sfs_io f (upd_kmem (g2 \<circ> g1) s0))"
    using io_lock(1) [OF io] unfolding sfs_clear_block_def by (simp only: s0_def [symmetric]) (simp del: sfs_clear_loop.simps)
  then have eq: "sfs_clear_block f b 1 s = Some (0, upd_kmem (g2 \<circ> g1) s)"
    unfolding s0_def io_lock(2) [OF io] .
  have "(g2 \<circ> g1) (kmem s) (disk0_block s b + k) = 0" if "k < 4096" for k
    using that by (simp add: g2_def g1_def block_written_def memset_at)
  moreover have "(g2 \<circ> g1) (kmem s) i = kmem s i" if "\<not> (disk0_block s b \<le> i \<and> i < disk0_block s b + 4096)"
      "\<not> (B \<le> i \<and> i < B + 4096)" "\<not> (disk0_buffer s \<le> i \<and> i < disk0_buffer s + 4096)" for i
    using that by (auto simp: g2_def g1_def block_written_def memset_at)
  ultimately show ?thesis using eq unfolding B_def by (intro exI [of _ "g2 \<circ> g1"]) simp
qed

lemma least_free:
  assumes "sfs_count f s" and "free_bits (freemap (fss s f)) \<noteq> {}"
  defines "i \<equiv> LEAST i. i \<in> free_bits (freemap (fss s f))"
  shows "i \<in> free_bits (freemap (fss s f))" "0 < i" "i < super_blocks f s" "i < nbits (freemap (fss s f))"
proof -
  show i: "i \<in> free_bits (freemap (fss s f))"
    unfolding i_def using assms(1,2) by (intro pool.take_member) (auto simp: sfs_count_def)
  then show "0 < i" "i < super_blocks f s" "i < nbits (freemap (fss s f))"
    using assms(1) by (auto simp: sfs_count_def)
qed

lemma unused_small: "unused_blocks f s < 4294967296"
  unfolding unused_blocks_def by (rule ld32_less)

lemma sfs_block_alloc_none:
  assumes "sfs_count f s" and "free_bits (freemap (fss s f)) = {}"
  shows "sfs_block_alloc f s = Some (- E_NO_MEM, 0, s)"
  using assms pool.take_empty [of "freemap (fss s f)"]
  by (simp add: sfs_block_alloc_def sfs_count_def E_NO_MEM_def)

lemma sfs_block_alloc_some:
  assumes "sfs_inv f s" and "free_bits (freemap (fss s f)) \<noteq> {}"
  defines "i \<equiv> LEAST i. i \<in> free_bits (freemap (fss s f))"
  shows "\<exists>b g. let s1 = set_freemap f b (unused_blocks f s - 1) s in
    sfs_block_alloc f s = Some (0, i, upd_kmem g s1) \<and> sfs_inv f (upd_kmem g s1) \<and>
    super_blocks f (upd_kmem g s1) = super_blocks f s \<and> free_bits b = free_bits (freemap (fss s f)) - {i} \<and>
    (\<forall>k < 4096. g (kmem s1) (disk0_block s i + k) = 0) \<and>
    (\<forall>j. \<not> (disk0_block s i \<le> j \<and> j < disk0_block s i + 4096) \<and>
      \<not> (sfs_buffer (fss s f) \<le> j \<and> j < sfs_buffer (fss s f) + 4096) \<and>
      \<not> (disk0_buffer s \<le> j \<and> j < disk0_buffer s + 4096) \<longrightarrow> g (kmem s1) j = kmem s1 j)"
proof -
  define fb where "fb = free_bits (freemap (fss s f))"
  have cnt: "sfs_count f s" and rdy: "sfs_ready f s" using assms(1) by (simp_all add: sfs_inv_def)
  note i = least_free [OF cnt assms(2), folded i_def]
  obtain b where b: "bitmap_alloc (freemap (fss s f)) = Some (0, Some i, b)" "bitmap_inv b"
    "nbits b = nbits (freemap (fss s f))" "free_bits b = fb - {i}"
    using pool.take_least [of "freemap (fss s f)"] cnt assms(2) unfolding i_def fb_def sfs_count_def by blast
  define s1 where "s1 = set_freemap f b (unused_blocks f s - 1) s"
  have fin: "finite fb" and u: "unused_blocks f s = card fb"
    using cnt finite_subset [of fb] by (auto simp: sfs_count_def fb_def)
  have pos: "unused_blocks f s > 0" using u fin assms(2) by (simp add: fb_def card_gt_0_iff)
  have rdy1: "sfs_ready f s1" unfolding s1_def by (rule set_freemap_ready [OF rdy])
  have f1: "super_blocks f s1 = super_blocks f s" "unused_blocks f s1 = card (fb - {i})"
    "freemap (fss s1 f) = b" "sfs_buffer (fss s1 f) = sfs_buffer (fss s f)" "disk0_buffer s1 = disk0_buffer s"
    "disk0_block s1 = disk0_block s"
    using set_freemap_fields [of f b "unused_blocks f s - 1" s] u fin i(1) unused_small [of f s]
    by (simp_all add: s1_def fb_def)
  have i': "i \<notin> free_bits b" using b(4) by simp
  have t: "bitmap_test b i = Some False"
  proof -
    have "i < nbits b" using i(4) b(3) by simp
    then show ?thesis using i' and_bit_iff [of "i mod 32" "bwords b (i div 32)"]
      by (simp add: bitmap_test_def bitmap_translate_def WORD_BITS_def free_bits_def)
  qed
  have inuse: "assert_inuse f i s1 = Some ()"
    using i(2,3) t f1(1,3) by (simp add: assert_inuse_def sfs_block_inuse_def kassert_def)
  obtain g where g: "sfs_clear_block f i 1 s1 = Some (0, upd_kmem g s1)" "\<forall>k < 4096. g (kmem s1) (disk0_block s1 i + k) = 0"
    "\<forall>j. \<not> (disk0_block s1 i + 0 \<le> j \<and> j < disk0_block s1 i + 0 + 4096) \<and>
      \<not> (sfs_buffer (fss s1 f) \<le> j \<and> j < sfs_buffer (fss s1 f) + 4096) \<and>
      \<not> (disk0_buffer s1 \<le> j \<and> j < disk0_buffer s1 + 4096) \<longrightarrow> g (kmem s1) j = kmem s1 j"
    using sfs_clear_one [OF rdy1 i(2)] i(3) f1(1) by auto
  have lt: "i < super_blocks f s1" using i(3) f1(1) by simp
  have le: "0 + 4096 \<le> (4096 :: nat)" by simp
  note r2 = sfs_ready_kmem [where g = g, OF rdy1 lt le g(3)]
  have "unused_blocks f (upd_kmem g s1) = unused_blocks f s1"
    unfolding unused_blocks_def upd_kmem_simps
  proof (rule ld32_frame)
    fix j assume j: "f + 8 \<le> j" "j < f + 8 + 4"
    have lay: "sfs_layout f s1" using rdy1 by (simp add: sfs_ready_def)
    then have "i < d_blocks (sfs_device f s1)" using lt by (simp add: sfs_layout_def)
    then have "apart f 44 (disk0_block s1 i) 4096" using lay by (intro block_in_disk) (auto simp: sfs_layout_def)
    moreover have "apart f 44 (disk0_buffer s1) 4096" "apart f 44 (sfs_buffer (fss s1 f)) 4096"
      using lay by (simp_all add: sfs_layout_def)
    ultimately show "g (kmem s1) j = kmem s1 j" using j g(3) by (auto simp: apart_def)
  qed
  then have "sfs_count f (upd_kmem g s1)"
    using cnt r2(2) f1 b by (auto simp: sfs_count_def fb_def)
  then have inv: "sfs_inv f (upd_kmem g s1)" using r2(1) by (simp add: sfs_inv_def)
  have "unused_blocks f (upd_fs f (\<lambda>x. x\<lparr>freemap := b\<rparr>) s) = unused_blocks f s" by (simp add: unused_blocks_def)
  then have "sfs_block_alloc f s = Some (0, i, upd_kmem g s1)"
    using b(1) pos inuse g(1) unfolding sfs_block_alloc_def s1_def set_freemap_def by simp
  then show ?thesis using inv b(4) g(2,3) f1 r2(2)
    by (intro exI [of _ b] exI [of _ g]) (simp only: s1_def [symmetric] fb_def Let_def, simp)
qed

lemma sfs_block_free_used:
  assumes "sfs_inv f s" and "0 < i" and "i < super_blocks f s" and "i \<notin> free_bits (freemap (fss s f))"
  shows "\<exists>b. sfs_block_free f i s = Some (set_freemap f b (unused_blocks f s + 1) s) \<and>
    sfs_inv f (set_freemap f b (unused_blocks f s + 1) s) \<and> free_bits b = insert i (free_bits (freemap (fss s f)))"
proof -
  define fb where "fb = free_bits (freemap (fss s f))"
  have cnt: "sfs_count f s" and rdy: "sfs_ready f s" using assms(1) by (simp_all add: sfs_inv_def)
  have lim: "i < nbits (freemap (fss s f))" using cnt assms(3) by (simp add: sfs_count_def)
  obtain b where b: "bitmap_free i (freemap (fss s f)) = Some b" "bitmap_inv b"
    "nbits b = nbits (freemap (fss s f))" "free_bits b = insert i fb"
    using pool.give_law [of "freemap (fss s f)" i] cnt lim assms(4) unfolding fb_def sfs_count_def by blast
  have t: "bitmap_test (freemap (fss s f)) i = Some False"
    using lim assms(4) and_bit_iff [of "i mod 32" "bwords (freemap (fss s f)) (i div 32)"]
    by (simp add: bitmap_test_def bitmap_translate_def WORD_BITS_def free_bits_def)
  have inuse: "assert_inuse f i s = Some ()"
    using assms(2,3) t by (simp add: assert_inuse_def sfs_block_inuse_def kassert_def)
  have "unused_blocks f (upd_fs f (\<lambda>x. x\<lparr>freemap := b\<rparr>) s) = unused_blocks f s" by (simp add: unused_blocks_def)
  then have eq: "sfs_block_free f i s = Some (set_freemap f b (unused_blocks f s + 1) s)"
    using b(1) inuse by (simp add: sfs_block_free_def set_freemap_def)
  have sub: "fb \<subseteq> {1 ..< super_blocks f s}" and u: "unused_blocks f s = card fb"
    using cnt by (auto simp: sfs_count_def fb_def)
  have fin: "finite fb" using sub by (rule finite_subset) simp
  have "card (insert i fb) = Suc (card fb)" using fin assms(4) by (simp add: fb_def)
  moreover have "card (insert i fb) \<le> card {1 ..< super_blocks f s}"
    using sub assms(2,3) by (intro card_mono) auto
  moreover have "super_blocks f s < 4294967296" unfolding super_blocks_def by (rule ld32_less)
  ultimately have "unused_blocks f s + 1 < 4294967296" using u by simp
  then have "sfs_count f (set_freemap f b (unused_blocks f s + 1) s)"
    using cnt b assms(2-4) sub u fin unfolding sfs_count_def set_freemap_fields by (auto simp: fb_def)
  then show ?thesis using eq b(4) set_freemap_ready [OF rdy] by (auto simp: sfs_inv_def fb_def)
qed

text \<open>C6. The free map and the counter of the super block agree, and \<open>sfs_block_alloc\<close> keeps it so: it takes the
  least free block, which is in use afterwards and all zero on disk, or fails with \<open>-E_NO_MEM\<close> and changes
  nothing when none is free; \<open>sfs_block_free\<close> of that block restores the free blocks and the count.\<close>

theorem sfs_block_alloc_free:
  assumes "sfs_inv f s"
  shows "(free_bits (freemap (fss s f)) = {} \<longrightarrow> sfs_block_alloc f s = Some (- E_NO_MEM, 0, s)) \<and>
    (free_bits (freemap (fss s f)) \<noteq> {} \<longrightarrow> (\<exists>i s' s''. sfs_block_alloc f s = Some (0, i, s') \<and>
      i = (LEAST i. i \<in> free_bits (freemap (fss s f))) \<and> sfs_inv f s' \<and>
      free_bits (freemap (fss s' f)) = free_bits (freemap (fss s f)) - {i} \<and>
      (\<forall>k < 4096. kmem s' (disk0_block s i + k) = 0) \<and>
      sfs_block_free f i s' = Some s'' \<and> sfs_inv f s'' \<and> free_bits (freemap (fss s'' f)) = free_bits (freemap (fss s f)) \<and>
      unused_blocks f s'' = unused_blocks f s))"
proof (intro conjI impI)
  have cnt: "sfs_count f s" using assms by (simp add: sfs_inv_def)
  then show "free_bits (freemap (fss s f)) = {} \<Longrightarrow> sfs_block_alloc f s = Some (- E_NO_MEM, 0, s)"
    by (rule sfs_block_alloc_none)
  assume ne: "free_bits (freemap (fss s f)) \<noteq> {}"
  define i where "i = (LEAST i. i \<in> free_bits (freemap (fss s f)))"
  note i = least_free [OF cnt ne, folded i_def]
  obtain b g where a: "sfs_block_alloc f s = Some (0, i, upd_kmem g (set_freemap f b (unused_blocks f s - 1) s))"
    "sfs_inv f (upd_kmem g (set_freemap f b (unused_blocks f s - 1) s))"
    "super_blocks f (upd_kmem g (set_freemap f b (unused_blocks f s - 1) s)) = super_blocks f s"
    "free_bits b = free_bits (freemap (fss s f)) - {i}"
    "\<forall>k < 4096. g (kmem (set_freemap f b (unused_blocks f s - 1) s)) (disk0_block s i + k) = 0"
    using sfs_block_alloc_some [OF assms ne] unfolding Let_def i_def by blast
  define s' where "s' = upd_kmem g (set_freemap f b (unused_blocks f s - 1) s)"
  have fm: "freemap (fss s' f) = b" by (simp add: s'_def set_freemap_fields)
  have inv': "sfs_inv f s'" and lt: "i < super_blocks f s'" using a(2,3) i(3) by (simp_all add: s'_def)
  have "i \<notin> free_bits (freemap (fss s' f))" by (simp add: fm a(4))
  then obtain b'' where fr: "sfs_block_free f i s' = Some (set_freemap f b'' (unused_blocks f s' + 1) s')"
    "sfs_inv f (set_freemap f b'' (unused_blocks f s' + 1) s')" "free_bits b'' = insert i (free_bits (freemap (fss s' f)))"
    using sfs_block_free_used [OF inv' i(2) lt] by blast
  have bk: "free_bits b'' = free_bits (freemap (fss s f))" using fr(3) i(1) by (auto simp: fm a(4))
  have "unused_blocks f (set_freemap f b'' (unused_blocks f s' + 1) s') = unused_blocks f s"
    using fr(2) cnt bk by (simp add: sfs_inv_def sfs_count_def set_freemap_fields(3))
  moreover have "\<forall>k < 4096. kmem s' (disk0_block s i + k) = 0" using a(5) by (simp add: s'_def)
  ultimately show "\<exists>i s' s''. sfs_block_alloc f s = Some (0, i, s') \<and>
      i = (LEAST i. i \<in> free_bits (freemap (fss s f))) \<and> sfs_inv f s' \<and>
      free_bits (freemap (fss s' f)) = free_bits (freemap (fss s f)) - {i} \<and>
      (\<forall>k < 4096. kmem s' (disk0_block s i + k) = 0) \<and>
      sfs_block_free f i s' = Some s'' \<and> sfs_inv f s'' \<and> free_bits (freemap (fss s'' f)) = free_bits (freemap (fss s f)) \<and>
      unused_blocks f s'' = unused_blocks f s"
    using a(1) [folded s'_def] inv' fr(1,2) bk i_def a(4) [folded fm]
    by - (rule exI [where x = i], rule exI [where x = s'],
      rule exI [where x = "set_freemap f b'' (unused_blocks f s' + 1) s'"], simp only: set_freemap_fields(3) simp_thms)
qed

definition sfs1 :: fsst where
  "sfs1 = set_freemap 0x500 \<lparr>bm_self = 1, bm_map = 2, nbits = 32, nwords = 1, bwords = (\<lambda>_. 2)\<rparr> 1 sfs0"

lemma sfs1_free: "free_bits (freemap (fss sfs1 0x500)) = {1}"
proof -
  have b: "bit (2 :: int) j \<longleftrightarrow> j = 1" for j
  proof -
    have "(2 :: int) = push_bit 1 1" by simp
    then show ?thesis by (simp only: bit_push_bit_iff bit_1_iff) auto
  qed
  have "i \<in> free_bits (freemap (fss sfs1 0x500)) \<longleftrightarrow> i = 1" for i
    by (auto simp: sfs1_def set_freemap_fields free_bits_def b)
  then show ?thesis by auto
qed

lemma sfs1_inv: "sfs_inv 0x500 sfs1"
proof -
  have b: "bit (2 :: int) j \<longleftrightarrow> j = 1" for j
  proof -
    have "(2 :: int) = push_bit 1 1" by simp
    then show ?thesis by (simp only: bit_push_bit_iff bit_1_iff) auto
  qed
  have "bitmap_inv (freemap (fss sfs1 0x500))" "nbits (freemap (fss sfs1 0x500)) = 32"
    by (auto simp: sfs1_def set_freemap_fields bitmap_inv_def)
  moreover have "super_blocks 0x500 sfs1 = 2" "unused_blocks 0x500 sfs1 = 1"
    by (simp_all add: sfs1_def set_freemap_fields sfs0_ready)
  ultimately show ?thesis using sfs0_ready(1)
    by (simp add: sfs_inv_def sfs_count_def sfs1_free) (simp add: sfs1_def set_freemap_ready)
qed

theorem sfs_block_alloc_free_witness:
  "\<exists>s' s''. sfs_block_alloc 0x500 sfs1 = Some (0, 1, s') \<and> free_bits (freemap (fss s' 0x500)) = {} \<and>
    sfs_block_free 0x500 1 s' = Some s'' \<and> free_bits (freemap (fss s'' 0x500)) = {1}"
proof -
  have "(LEAST i. i = (1 :: nat)) = 1" by (rule Least_equality) auto
  then show ?thesis using sfs_block_alloc_free [OF sfs1_inv] by (auto simp: sfs1_free)
qed

subsection \<open>The largest file\<close>

lemma sfs_bmap_load_limit:
  assumes "sfs_bmap_load_nolock f n index s = Some (0, i, s')"
  shows "index < 1036"
proof (rule ccontr)
  assume "\<not> ?thesis"
  then have "\<not> index - 12 < 1024" "\<not> index < 12" by arith+
  then have "sfs_bmap_get_nolock f n index c s = None" for c
    by (simp add: sfs_bmap_get_nolock_def SFS_NDIRECT_def SFS_BLK_NENTRY_def SFS_BLKSIZE_def Let_def)
  then show False using assms by (simp add: sfs_bmap_load_nolock_def Let_def split: if_splits)
qed

lemma trunc_enlarge_limit:
  "trunc_enlarge f n nblks k s = Some (0, s') \<Longrightarrow> nblks \<le> 1036 \<Longrightarrow> nblks + k \<le> 1036"
proof (induction f n nblks k s rule: trunc_enlarge.induct)
  case (2 f n nblks k s)
  then obtain i s1 where l: "sfs_bmap_load_nolock f n nblks s = Some (0, i, s1)" "trunc_enlarge f n (nblks + 1) k s1 = Some (0, s')"
    by (auto simp: bind_eq_Some_conv split: if_splits)
  have "nblks < 1036" by (rule sfs_bmap_load_limit [OF l(1)])
  with "2.IH" [OF l(1) refl] l(2) show ?case by simp
qed simp

lemma lock_sin_fields:
  assumes "lock_sin n s = Some s'"
  shows "kmem s' = kmem s" "din (sin n s') = din (sin n s)" "in_fs (inodes s' n) = in_fs (inodes s n)"
  using assms by (auto simp: lock_sin_def bind_eq_Some_conv upd_sin_def)

lemma tryseek_enlarges:
  assumes "in_ops (inodes s n) = Some Sfs_node_fileops" and "sfs_tryseek n p s = Some (r, s')"
    and "int (din_size (din (sin n s)) s) < p" and "0 < p" and "p < SFS_MAX_FILE_SIZE"
    and "din_blocks (din (sin n s)) s < to_u32 (ROUNDUP_DIV (nat p) SFS_BLKSIZE)"
  shows "\<exists>f s1 s2. lock_sin n s = Some s1 \<and>
    trunc_enlarge f n (din_blocks (din (sin n s)) s)
      (to_u32 (ROUNDUP_DIV (nat p) SFS_BLKSIZE) - din_blocks (din (sin n s)) s) s1 = Some (r, s2)"
proof -
  have "vop_truncate (Some n) p s = Some (r, s')"
    using assms(2-5) by (auto simp: sfs_tryseek_def bind_eq_Some_conv)
  then have "sfs_truncfile n p s = Some (r, s')"
    using assms(1) by (auto simp: vop_truncate_def vop_op_def bind_eq_Some_conv)
  then obtain f s1 s2 where "lock_sin n s = Some s1" and
    "trunc_enlarge f n (din_blocks (din (sin n s)) s1)
      (to_u32 (ROUNDUP_DIV (nat p) SFS_BLKSIZE) - din_blocks (din (sin n s)) s1) s1 = Some (r, s2)"
    using assms(3-6) unfolding sfs_truncfile_def Let_def
    by (auto simp: bind_eq_Some_conv din_blocks_def lock_sin_fields(1) split: if_splits)
  then show ?thesis using lock_sin_fields(1) [of n s s1] by (auto simp: din_blocks_def)
qed

text \<open>C40. A file has at most 1036 blocks (12 direct ones and one indirect block), although its size may be up to
  128 MB: to seek behind the 1036th block never succeeds, and panics when the file already has all of them.\<close>

theorem sfs_tryseek_limit:
  assumes "in_ops (inodes s n) = Some Sfs_node_fileops"
    and "int (din_size (din (sin n s)) s) < p" and "1036 * 4096 < p" and "p < SFS_MAX_FILE_SIZE"
    and "din_blocks (din (sin n s)) s \<le> 1036"
  shows "sfs_tryseek n p s \<noteq> Some (0, s') \<and> (din_blocks (din (sin n s)) s = 1036 \<longrightarrow> sfs_tryseek n p s = None)"
proof -
  define tb where "tb = to_u32 (ROUNDUP_DIV (nat p) SFS_BLKSIZE)"
  have "nat p < 134217728" "4243456 < nat p" using assms(3,4) by (auto simp: SFS_MAX_FILE_SIZE_def)
  then have tb: "1036 < tb" by (simp add: tb_def ROUNDUP_DIV_def SFS_BLKSIZE_def to_u32_def)
  define nb where "nb = din_blocks (din (sin n s)) s"
  have nb: "nb \<le> 1036" using assms(5) by (simp add: nb_def)
  have ex: "\<exists>f s1 s2. trunc_enlarge f n nb (tb - nb) s1 = Some (r, s2)" if "sfs_tryseek n p s = Some (r, s'')" for r s''
    using tryseek_enlarges [OF assms(1) that assms(2) _ assms(4)] assms(3) nb tb by (auto simp: nb_def tb_def)
  show ?thesis
  proof (intro conjI impI)
    show "sfs_tryseek n p s \<noteq> Some (0, s')"
    proof
      assume "sfs_tryseek n p s = Some (0, s')"
      from ex [OF this] obtain f s1 s2 where "trunc_enlarge f n nb (tb - nb) s1 = Some (0, s2)" by blast
      from trunc_enlarge_limit [OF this nb] tb nb show False by simp
    qed
    assume full: "din_blocks (din (sin n s)) s = 1036"
    show "sfs_tryseek n p s = None"
    proof (rule ccontr)
      assume "sfs_tryseek n p s \<noteq> None"
      then obtain r s'' where "sfs_tryseek n p s = Some (r, s'')" by auto
      from ex [OF this] obtain f s1 s2 where t: "trunc_enlarge f n 1036 (tb - 1036) s1 = Some (r, s2)"
        using full by (auto simp: nb_def)
      obtain k where "tb - 1036 = Suc k" using tb by (metis Suc_diff_Suc)
      moreover have "sfs_bmap_load_nolock f n 1036 s1 = None"
        by (simp add: sfs_bmap_load_nolock_def sfs_bmap_get_nolock_def SFS_NDIRECT_def SFS_BLK_NENTRY_def SFS_BLKSIZE_def Let_def)
      ultimately show False using t by simp
    qed
  qed
qed

text \<open>A file of 1036 blocks.\<close>

definition full_file :: fsst where
  "full_file = fs0\<lparr>kmem := (\<lambda>_. 0)(0x902 := 0x20, 0x904 := 1, 0x908 := 0x0c, 0x909 := 4),
     inodes := (inodes fs0)(0xa00 := inode0\<lparr>in_type := Sfs_inode_info, in_ops := Some Sfs_node_fileops,
       in_fs := Some 0x500, ref_count := 1,
       sfs_inode_info := \<lparr>din = 0x900, ino = 5, dirty = False, reclaim_count = 1, sin_sem = 1\<rparr>\<rparr>)\<rparr>"

theorem sfs_tryseek_limit_witness: "sfs_tryseek 0xa00 0x500000 full_file = None"
  using sfs_tryseek_limit [of full_file "0xa00" "0x500000"]
  by (simp add: full_file_def din_size_def din_blocks_def ld32_def ld16_def SFS_MAX_FILE_SIZE_def)

subsection \<open>The table of inodes in memory\<close>

text \<open>The nodes \<open>ns\<close> of a file system, the newest first: they are on the list of all inodes and, by inode number,
  on the hash chains, and no two of them have the same number.\<close>

definition sin_chain :: "nat \<Rightarrow> fsst \<Rightarrow> nat list \<Rightarrow> nat list" where
  "sin_chain h s ns = filter (\<lambda>n. sin_hashfn (ino (sin n s)) = h) ns"

definition inode_table :: "nat \<Rightarrow> fsst \<Rightarrow> nat list \<Rightarrow> bool" where
  "inode_table f s ns \<longleftrightarrow> dlist (flinks s) (InodeList f) (map InodeLink ns) \<and>
     (\<forall>h. dlist (flinks s) (HashList f h) (map SinHashLink (sin_chain h s ns))) \<and>
     distinct (map (\<lambda>n. ino (sin n s)) ns)"

lemma inode_table_cong:
  assumes "flinks s' = flinks s" and "\<And>n. n \<in> set ns \<Longrightarrow> ino (sin n s') = ino (sin n s)"
  shows "inode_table f s' ns \<longleftrightarrow> inode_table f s ns"
proof -
  have "sin_chain h s' ns = sin_chain h s ns" for h
    unfolding sin_chain_def using assms(2) by (intro filter_cong) auto
  moreover have "map (\<lambda>n. ino (sin n s')) ns = map (\<lambda>n. ino (sin n s)) ns" using assms(2) by simp
  ultimately show ?thesis using assms(1) unfolding inode_table_def by (simp only:)
qed

lemma dlist_after_head:
  "dlist h lh (xs @ y # ys) \<Longrightarrow> list_next (last (lh # xs)) h = y"
proof (cases xs rule: rev_cases)
  case Nil
  then show "dlist h lh (xs @ y # ys) \<Longrightarrow> list_next (last (lh # xs)) h = y"
    by (auto simp: list_next_def dest: dlist_first)
next
  case (snoc zs z)
  then show "dlist h lh (xs @ y # ys) \<Longrightarrow> list_next (last (lh # xs)) h = y"
    using dlist_split_links(2) [of h lh zs z "y # ys"] by (simp add: list_next_def)
qed

lemma dlist_after_last: "dlist h lh xs \<Longrightarrow> list_next (last (lh # xs)) h = lh"
proof (cases xs rule: rev_cases)
  case Nil
  then show "dlist h lh xs \<Longrightarrow> list_next (last (lh # xs)) h = lh"
    by (auto simp: list_next_def dest: dlist_first)
next
  case (snoc zs z)
  then show "dlist h lh xs \<Longrightarrow> list_next (last (lh # xs)) h = lh"
    using dlist_split_links(2) [of h lh zs z "[]"] by (simp add: list_next_def)
qed

text \<open>The node of a number, referenced once more.\<close>

definition take_ref :: "nat \<Rightarrow> fsst \<Rightarrow> fsst" where
  "take_ref n s = (let (c, s) = inode_ref_inc n s
     in if c = 1 then upd_sin n (\<lambda>x. x\<lparr>reclaim_count := reclaim_count x + 1\<rparr>) s else s)"

lemma lookup_sfs_loop_finds:
  assumes "dlist (flinks s) (sfs_hash_list f i) (map SinHashLink (us @ vs))" and "le = last (sfs_hash_list f i # map SinHashLink us)"
  shows "lookup_sfs_loop f i le s =
    (case find (\<lambda>n. ino (sin n s) = i) vs of None \<Rightarrow> Some (None, s) | Some n \<Rightarrow> Some (Some n, take_ref n s))"
  using assms
proof (induction vs arbitrary: us le)
  case Nil
  then have "list_next le (flinks s) = sfs_hash_list f i"
    using dlist_after_last [of "flinks s" "sfs_hash_list f i" "map SinHashLink us"] by simp
  then show ?case by (subst lookup_sfs_loop.simps) simp
next
  case (Cons v vs)
  have "list_next le (flinks s) = SinHashLink v"
    using Cons.prems dlist_after_head [of "flinks s" "sfs_hash_list f i" "map SinHashLink us" "SinHashLink v" "map SinHashLink vs"] by simp
  moreover have "lookup_sfs_loop f i (SinHashLink v) s =
      (case find (\<lambda>n. ino (sin n s) = i) vs of None \<Rightarrow> Some (None, s) | Some n \<Rightarrow> Some (Some n, take_ref n s))"
    using Cons.prems(1) by (intro Cons.IH [of "us @ [v]"]) auto
  moreover have "SinHashLink v \<noteq> sfs_hash_list f i" by (simp add: sfs_hash_list_def)
  ultimately show ?case
    by (subst lookup_sfs_loop.simps) (simp add: take_ref_def Let_def split: prod.splits)
qed

lemma find_in_chain:
  assumes "distinct (map (\<lambda>n. ino (sin n s)) ns)"
  shows "find (\<lambda>n. ino (sin n s) = i) (sin_chain (sin_hashfn i) s ns) = find (\<lambda>n. ino (sin n s) = i) ns"
  using assms by (induction ns) (auto simp: sin_chain_def)

lemma lookup_sfs_nolock_finds:
  assumes "inode_table f s ns"
  shows "lookup_sfs_nolock f i s =
    (case find (\<lambda>n. ino (sin n s) = i) ns of None \<Rightarrow> Some (None, s) | Some n \<Rightarrow> Some (Some n, take_ref n s))"
proof -
  have d: "dlist (flinks s) (sfs_hash_list f i) (map SinHashLink ([] @ sin_chain (sin_hashfn i) s ns))"
    using assms by (simp add: inode_table_def sfs_hash_list_def)
  have c: "find (\<lambda>n. ino (sin n s) = i) (sin_chain (sin_hashfn i) s ns) = find (\<lambda>n. ino (sin n s) = i) ns"
    using assms by (intro find_in_chain) (simp add: inode_table_def)
  show ?thesis using lookup_sfs_loop_finds [OF d, of "sfs_hash_list f i"]
    by (simp add: lookup_sfs_nolock_def c)
qed

lemma take_ref_fields:
  "flinks (take_ref n s) = flinks s" "ino (sin m (take_ref n s)) = ino (sin m s)"
  "ref_count (inodes (take_ref n s) n) = ref_count (inodes s n) + 1"
  "in_ops (inodes (take_ref n s) n) = in_ops (inodes s n)"
  by (simp_all add: take_ref_def inode_ref_inc_def Let_def upd_sin_def)

lemma lock_fs_same: "lock_sfs_fs f s = Some s' \<Longrightarrow> same_nodes s s'"
  by (auto simp: lock_sfs_fs_def bind_eq_Some_conv)

lemma unlock_fs_same [simp]: "same_nodes s (unlock_sfs_fs f s') = same_nodes s s'"
  by (simp add: unlock_sfs_fs_def)

lemma same_nodes_table:
  "same_nodes s s' \<Longrightarrow> inode_table f s' ns = inode_table f s ns" "same_nodes s s' \<Longrightarrow> sin n s' = sin n s"
  by (simp_all add: same_nodes_def inode_table_def sin_chain_def)

lemma sfs_set_links_table:
  assumes "inode_table f s ns" and "n \<notin> set ns" and "\<forall>m \<in> set ns. ino (sin m s) \<noteq> ino (sin n s)"
  shows "inode_table f (sfs_set_links f n s) (n # ns)"
proof -
  define h1 where "h1 = list_add (InodeList f) (InodeLink n) (flinks s)"
  define hn where "hn = sin_hashfn (ino (sin n s))"
  define h2 where "h2 = list_add (HashList f hn) (SinHashLink n) h1"
  have l: "flinks (sfs_set_links f n s) = h2" "ino (sin m (sfs_set_links f n s)) = ino (sin m s)" for m
    by (simp_all add: sfs_set_links_def upd_flinks_def h2_def h1_def hn_def sfs_hash_list_def Let_def)
  have il: "dlist (flinks s) (InodeList f) (map InodeLink ns)"
    and hl: "\<And>h. dlist (flinks s) (HashList f h) (map SinHashLink (sin_chain h s ns))"
    using assms(1) by (auto simp: inode_table_def)
  have n1: "nxt (flinks s) (InodeList f) = hd (map InodeLink ns @ [InodeList f])" by (rule dlist_first [OF il])
  have in1: "nxt (flinks s) (InodeList f) \<in> range InodeLink \<union> range InodeList"
    unfolding n1 by (cases ns) auto
  have i1: "dlist h1 (InodeList f) (map InodeLink (n # ns))"
    using dlist_add_after [of "flinks s" "InodeList f" "[]" "map InodeLink ns" "InodeLink n" "InodeList f"] il assms(2)
    by (auto simp: h1_def list_add_def)
  have c1: "dlist h1 (HashList f h) (map SinHashLink (sin_chain h s ns))" for h
    unfolding h1_def list_add_def list_add_after_def
    using in1 by (intro dlist_add_between_other [OF hl]) auto
  have i2: "dlist h2 (InodeList f) (map InodeLink (n # ns))"
  proof -
    have "nxt h1 (HashList f hn) = hd (map SinHashLink (sin_chain hn s ns) @ [HashList f hn])" by (rule dlist_first [OF c1])
    then have "nxt h1 (HashList f hn) \<in> range SinHashLink \<union> range (HashList f)"
      by (cases "sin_chain hn s ns") auto
    then show ?thesis unfolding h2_def list_add_def list_add_after_def
      by (intro dlist_add_between_other [OF i1]) auto
  qed
  have chn: "sin_chain hn s (n # ns) = n # sin_chain hn s ns" "h \<noteq> hn \<Longrightarrow> sin_chain h s (n # ns) = sin_chain h s ns" for h
    by (auto simp: sin_chain_def hn_def)
  have c2: "dlist h2 (HashList f h) (map SinHashLink (sin_chain h s (n # ns)))" for h
  proof (cases "h = hn")
    case True
    have "n \<notin> set (sin_chain hn s ns)" using assms(2) by (simp add: sin_chain_def)
    then show ?thesis
      using dlist_add_after [of h1 "HashList f hn" "[]" "map SinHashLink (sin_chain hn s ns)" "SinHashLink n" "HashList f hn"] c1 True
      unfolding True chn(1) by (auto simp: h2_def list_add_def)
  next
    case False
    have "nxt h1 (HashList f hn) = hd (map SinHashLink (sin_chain hn s ns) @ [HashList f hn])" by (rule dlist_first [OF c1])
    then have nx: "nxt h1 (HashList f hn) \<in> SinHashLink ` set (sin_chain hn s ns) \<union> {HashList f hn}"
      by (cases "sin_chain hn s ns") auto
    have dis: "set (sin_chain hn s ns) \<inter> set (sin_chain h s ns) = {}" "n \<notin> set (sin_chain h s ns)"
      using False assms(2) by (auto simp: sin_chain_def)
    show ?thesis unfolding chn(2) [OF False] h2_def list_add_def list_add_after_def
      using nx dis False by (intro dlist_add_between_other [OF c1]) auto
  qed
  have ch: "sin_chain h (sfs_set_links f n s) (n # ns) = sin_chain h s (n # ns)" for h
    by (simp add: sin_chain_def l(2))
  have "distinct (map (\<lambda>m. ino (sin m s)) (n # ns))"
    using assms(1,3) by (auto simp: inode_table_def)
  then show ?thesis using i2 c2 unfolding inode_table_def ch l by simp
qed

lemma sfs_create_inode_new:
  assumes "sfs_create_inode f d i s = Some (0, Some n, s')"
  shows "flinks s' = flinks s" "m \<noteq> n \<Longrightarrow> inodes s' m = inodes s m" "ino (sin n s') = i"
    "ref_count (inodes s' n) = 1" "in_fs (inodes s' n) = Some f" "in_type (inodes s' n) = Sfs_inode_info"
proof -
  obtain s1 ops where s1: "kalloc sizeof_inode s = Some (Some n, s1)" and
    s': "s' = upd_sin n (\<lambda>_. \<lparr>din = d, ino = i, dirty = False, reclaim_count = 1, sin_sem = 1\<rparr>)
      (inode_init n (Some ops) (Some f) (upd_inode n (\<lambda>i. i\<lparr>in_type := Sfs_inode_info\<rparr>) s1))"
    using assms by (auto simp: sfs_create_inode_def alloc_inode_def bind_eq_Some_conv E_NO_MEM_def Let_def split: option.splits)
  have "same_nodes s s1" by (rule kalloc_same [OF s1])
  then show "flinks s' = flinks s" "m \<noteq> n \<Longrightarrow> inodes s' m = inodes s m" "ino (sin n s') = i"
    "ref_count (inodes s' n) = 1" "in_fs (inodes s' n) = Some f" "in_type (inodes s' n) = Sfs_inode_info"
    by (simp_all add: s' same_nodes_def upd_sin_def inode_init_def inode_ref_inc_def Let_def)
qed

text \<open>The steps of \<open>sfs_load_inode\<close> for a number that is not in the table.\<close>

lemma sfs_load_inode_new:
  assumes "inode_table f s ns" and "sfs_load_inode f i s = Some (0, Some n, s')" and "\<forall>m \<in> set ns. ino (sin m s) \<noteq> i"
    and "n \<notin> set ns"
  shows "ino (sin n s') = i \<and> ref_count (inodes s' n) = 1 \<and> inode_table f s' (n # ns)"
proof -
  obtain s1 where s1: "lock_sfs_fs f s = Some s1" using assms(2) by (auto simp: sfs_load_inode_def bind_eq_Some_conv)
  have sm1: "same_nodes s s1" by (rule lock_fs_same [OF s1])
  have t1: "inode_table f s1 ns" using assms(1) sm1 by (simp add: same_nodes_table)
  have none: "find (\<lambda>n. ino (sin n s1) = i) ns = None"
    using assms(3) same_nodes_table(2) [OF sm1] by (simp add: find_None_iff)
  obtain d s2 s3 s4 where s2: "kalloc sizeof_disk_inode s1 = Some (Some d, s2)"
    and s3: "sfs_rbuf f d sizeof_disk_inode i 0 s2 = Some (0, s3)"
    and s4: "sfs_create_inode f d i s3 = Some (0, Some n, s4)" and s': "s' = unlock_sfs_fs f (sfs_set_links f n s4)"
    using assms(2) s1 lookup_sfs_nolock_finds [OF t1, of i] none
    by (auto simp: sfs_load_inode_def bind_eq_Some_conv E_NO_MEM_def split: option.splits if_splits)
  have sm3: "same_nodes s s3" using sm1 kalloc_same [OF s2] sfs_rbuf_same [OF s3] same_nodes_trans by blast
  note c = sfs_create_inode_new [OF s4]
  have sin4: "sin m s4 = sin m s" if "m \<noteq> n" for m using c(2) [OF that] sm3 by (simp add: same_nodes_def)
  have "inode_table f s4 ns"
  proof (subst inode_table_cong)
    show "flinks s4 = flinks s" using c(1) sm3 by (simp add: same_nodes_def)
    show "ino (sin m s4) = ino (sin m s)" if "m \<in> set ns" for m
    proof -
      have "m \<noteq> n" using that assms(4) by blast
      then show ?thesis by (simp add: sin4)
    qed
  qed (rule assms(1))
  moreover have "\<forall>m \<in> set ns. ino (sin m s4) \<noteq> ino (sin n s4)" using assms(3,4) sin4 c(3) by metis
  ultimately have "inode_table f (sfs_set_links f n s4) (n # ns)" using assms(4) by (intro sfs_set_links_table)
  then have "inode_table f s' (n # ns)" unfolding s' by (subst same_nodes_table(1) [of "sfs_set_links f n s4"]) auto
  then show ?thesis using c(3,4) by (simp add: s' unlock_sfs_fs_def sfs_set_links_def upd_flinks_def Let_def)
qed

text \<open>C7. \<open>sfs_load_inode\<close> keeps at most one node in memory per inode number: when the table of the file system has a
  node of that number, the call returns that node with one more reference; otherwise the node it returns is
  new, has one reference, and is entered into the list and the hash chain, at an address the table did not
  use before.\<close>

theorem sfs_load_inode_table:
  assumes "inode_table f s ns" and "sfs_load_inode f i s = Some (0, Some n, s')"
  shows "(n \<in> set ns \<and> ino (sin n s) = i \<longrightarrow> ref_count (inodes s' n) = ref_count (inodes s n) + 1 \<and> inode_table f s' ns) \<and>
    (n \<notin> set ns \<longrightarrow> (\<forall>m \<in> set ns. ino (sin m s) \<noteq> i) \<and> ino (sin n s') = i \<and> ref_count (inodes s' n) = 1 \<and>
      inode_table f s' (n # ns)) \<and>
    ((\<exists>m \<in> set ns. ino (sin m s) = i) \<longrightarrow> n \<in> set ns \<and> ino (sin n s) = i)"
proof -
  obtain s1 where s1: "lock_sfs_fs f s = Some s1" using assms(2) by (auto simp: sfs_load_inode_def bind_eq_Some_conv)
  have sm1: "same_nodes s s1" by (rule lock_fs_same [OF s1])
  have t1: "inode_table f s1 ns" using assms(1) sm1 by (simp add: same_nodes_table)
  have sin1: "sin m s1 = sin m s" "inodes s1 = inodes s" for m using sm1 by (simp_all add: same_nodes_def)
  note lk = lookup_sfs_nolock_finds [OF t1, of i]
  show ?thesis
  proof (cases "find (\<lambda>n. ino (sin n s1) = i) ns")
    case (Some m)
    then have m: "m \<in> set ns" "ino (sin m s) = i" by (auto simp: find_Some_iff sin1)
    have "n = m" and s': "s' = unlock_sfs_fs f (take_ref m s1)"
      using assms(2) s1 lk Some by (auto simp: sfs_load_inode_def)
    have "inode_table f (take_ref m s1) ns" using t1 by (subst inode_table_cong) (auto simp: take_ref_fields)
    then have "inode_table f s' ns" unfolding s' by (subst same_nodes_table(1) [of "take_ref m s1"]) auto
    moreover have "ref_count (inodes s' m) = ref_count (inodes s m) + 1"
      by (simp add: s' unlock_sfs_fs_def take_ref_fields sin1)
    ultimately show ?thesis using m \<open>n = m\<close> by simp
  next
    case None
    then have new: "\<forall>m \<in> set ns. ino (sin m s) \<noteq> i" by (auto simp: find_None_iff sin1)
    show ?thesis
    proof (cases "n \<in> set ns")
      case False
      then show ?thesis using new sfs_load_inode_new [OF assms new False] by auto
    qed (use new in auto)
  qed
qed

text \<open>A file system with the node of its root in memory.\<close>

definition root_node :: inode where
  "root_node = inode0\<lparr>in_type := Sfs_inode_info, in_ops := Some Sfs_node_dirops, in_fs := Some 0x500, ref_count := 1,
     sfs_inode_info := \<lparr>din = 0x900, ino = 1, dirty = False, reclaim_count = 1, sin_sem = 1\<rparr>\<rparr>"

definition sfs_root :: fsst where
  "sfs_root = sfs_set_links 0x500 0xa00 (upd_inode 0xa00 (\<lambda>_. root_node) sfs1)"

lemma sfs_root_table: "inode_table 0x500 sfs_root [0xa00]"
  unfolding sfs_root_def
  by (rule sfs_set_links_table)
     (auto simp: inode_table_def sin_chain_def sfs1_def set_freemap_def set_unused_blocks_def sfs0_def fs0_def dlist_def)

theorem sfs_load_inode_table_witness:
  "\<exists>s'. sfs_load_inode 0x500 1 sfs_root = Some (0, Some 0xa00, s') \<and> ref_count (inodes s' 0xa00) = 2"
proof -
  have sem: "fs_sem (fss sfs_root 0x500) = 1"
    by (simp add: sfs_root_def sfs_set_links_def upd_flinks_def Let_def sfs1_def set_freemap_def set_unused_blocks_def sfs0_def)
  have node: "inodes sfs_root 0xa00 = root_node" by (simp add: sfs_root_def sfs_set_links_def upd_flinks_def Let_def)
  define s1 where "s1 = upd_fs 0x500 (\<lambda>x. x\<lparr>fs_sem := 0\<rparr>) sfs_root"
  have l: "lock_sfs_fs 0x500 sfs_root = Some s1" using sem by (simp add: lock_sfs_fs_def s1_def)
  have "inode_table 0x500 s1 [0xa00]" using sfs_root_table by (simp add: same_nodes_table [OF lock_fs_same [OF l]])
  from lookup_sfs_nolock_finds [OF this, of 1] have "\<exists>s'. sfs_load_inode 0x500 1 sfs_root = Some (0, Some 0xa00, s')"
    using l node by (simp add: sfs_load_inode_def s1_def root_node_def)
  then obtain s' where s': "sfs_load_inode 0x500 1 sfs_root = Some (0, Some 0xa00, s')" by blast
  from sfs_load_inode_table [OF sfs_root_table this] node have "ref_count (inodes s' 0xa00) = 2" by (simp add: root_node_def)
  with s' show ?thesis by blast
qed

end
