(* ===== verification/Vfs.thy ===== *)
theory Vfs
  imports Sfs_Fs
begin

text \<open>
  The virtual file system (kern/fs/vfs) over the three tables of operations: the dispatch of the \<open>vop_\<close>
  macros, the named devices (vfsdev.c), the boot file system (vfs.c), path lookup (vfslookup.c), the current
  directory (vfspath.c) and opening a file (vfsfile.c), and the initialisation of devices and file system.
  An operation that a table does not have is the failed assertion of the macro, \<open>None\<close>. The only type of
  file system is the simple one, so the function pointers of a \<open>struct fs\<close> are those of theory Sfs_Fs.
  String literals lie at the addresses \<open>lit_stdin\<close> and so on.
\<close>

subsection \<open>Operations of an inode (kern/fs/vfs/inode.h)\<close>

definition vop_open :: "nat option \<Rightarrow> 32 word \<Rightarrow> fsst \<Rightarrow> int option" where
  "vop_open nd open_flags s = do {
     (n, ops) \<leftarrow> vop_op nd s;
     (case ops of Dev_node_ops \<Rightarrow> dev_open n open_flags s | Sfs_node_dirops \<Rightarrow> Some (sfs_opendir open_flags)
      | Sfs_node_fileops \<Rightarrow> Some 0)
   }"

definition vop_read :: "nat option \<Rightarrow> iobuf \<Rightarrow> fsst \<Rightarrow> (int \<times> iobuf \<times> fsst) option" where
  "vop_read nd iob s = do {
     (n, ops) \<leftarrow> vop_op nd s;
     (case ops of Dev_node_ops \<Rightarrow> dev_read n iob s | Sfs_node_dirops \<Rightarrow> None | Sfs_node_fileops \<Rightarrow> sfs_read n iob s)
   }"

definition vop_write :: "nat option \<Rightarrow> iobuf \<Rightarrow> fsst \<Rightarrow> (int \<times> iobuf \<times> fsst) option" where
  "vop_write nd iob s = do {
     (n, ops) \<leftarrow> vop_op nd s;
     (case ops of Dev_node_ops \<Rightarrow> dev_write n iob s | Sfs_node_dirops \<Rightarrow> None | Sfs_node_fileops \<Rightarrow> sfs_write n iob s)
   }"

definition vop_fstat :: "nat option \<Rightarrow> fsst \<Rightarrow> (int \<times> stat) option" where
  "vop_fstat nd s = do {
     (n, ops) \<leftarrow> vop_op nd s;
     (case ops of Dev_node_ops \<Rightarrow> dev_fstat n s | _ \<Rightarrow> sfs_fstat n s)
   }"

definition vop_namefile :: "nat option \<Rightarrow> iobuf \<Rightarrow> fsst \<Rightarrow> (int \<times> iobuf \<times> fsst) option" where
  "vop_namefile nd iob s = do {
     (n, ops) \<leftarrow> vop_op nd s;
     (case ops of Sfs_node_dirops \<Rightarrow> sfs_namefile n iob s | _ \<Rightarrow> None)
   }"

definition vop_getdirentry :: "nat option \<Rightarrow> iobuf \<Rightarrow> fsst \<Rightarrow> (int \<times> iobuf \<times> fsst) option" where
  "vop_getdirentry nd iob s = do {
     (n, ops) \<leftarrow> vop_op nd s;
     (case ops of Sfs_node_dirops \<Rightarrow> sfs_getdirentry n iob s | _ \<Rightarrow> None)
   }"

definition vop_tryseek :: "nat option \<Rightarrow> int \<Rightarrow> fsst \<Rightarrow> (int \<times> fsst) option" where
  "vop_tryseek nd p s = do {
     (n, ops) \<leftarrow> vop_op nd s;
     (case ops of Dev_node_ops \<Rightarrow> do { r \<leftarrow> dev_tryseek n p s; Some (r, s) } | Sfs_node_dirops \<Rightarrow> None
      | Sfs_node_fileops \<Rightarrow> sfs_tryseek n p s)
   }"

text \<open>No table has a \<open>vop_create\<close>.\<close>

definition vop_create :: "nat option \<Rightarrow> nat \<Rightarrow> bool \<Rightarrow> fsst \<Rightarrow> (int \<times> nat option \<times> fsst) option" where
  "vop_create nd name excl s = do {
     (n, ops) \<leftarrow> vop_op nd s;
     (case ops of Dev_node_ops \<Rightarrow> None | Sfs_node_dirops \<Rightarrow> None | Sfs_node_fileops \<Rightarrow> None)
   }"

definition vop_lookup :: "nat option \<Rightarrow> nat \<Rightarrow> fsst \<Rightarrow> (int \<times> nat option \<times> fsst) option" where
  "vop_lookup nd pathp s = do {
     (n, ops) \<leftarrow> vop_op nd s;
     (case ops of Dev_node_ops \<Rightarrow> Some (dev_lookup n pathp s) | Sfs_node_dirops \<Rightarrow> sfs_lookup n pathp s
      | Sfs_node_fileops \<Rightarrow> None)
   }"

definition vop_ref_inc :: "nat \<Rightarrow> fsst \<Rightarrow> fsst" where
  "vop_ref_inc n s = snd (inode_ref_inc n s)"

definition vop_open_inc :: "nat \<Rightarrow> fsst \<Rightarrow> fsst" where
  "vop_open_inc n s = snd (inode_open_inc n s)"

definition vop_open_dec :: "nat \<Rightarrow> fsst \<Rightarrow> fsst option" where
  "vop_open_dec n s = map_option snd (inode_open_dec n s)"

subsection \<open>Named devices (kern/fs/vfs/vfsdev.c)\<close>

definition FS_MAX_DNAME_LEN :: nat where "FS_MAX_DNAME_LEN = 31"

definition lock_vdev_list :: "fsst \<Rightarrow> fsst option" where
  "lock_vdev_list s = do { v \<leftarrow> sem_down (vdev_list_sem s); Some (s\<lparr>vdev_list_sem := v\<rparr>) }"

definition unlock_vdev_list :: "fsst \<Rightarrow> fsst" where
  "unlock_vdev_list s = s\<lparr>vdev_list_sem := sem_up (vdev_list_sem s)\<rparr>"

definition vfs_devlist_init :: "fsst \<Rightarrow> fsst" where
  "vfs_devlist_init s = (upd_flinks (list_init VdevList) s)\<lparr>vdev_list_sem := 1\<rparr>"

text \<open>The loop the functions of the file share: the first device behind \<open>le\<close> with \<open>p\<close>, \<open>None\<close> at the end.\<close>

partial_function (option) vdev_find :: "(nat \<Rightarrow> bool option) \<Rightarrow> fnode links \<Rightarrow> fnode \<Rightarrow> nat option option" where
  "vdev_find p h le =
     (let le = list_next le h in
      if le = VdevList then Some None
      else (case le of
          VdevLink v \<Rightarrow> do { b \<leftarrow> p v; if b then Some (Some v) else vdev_find p h le }
        | _ \<Rightarrow> None))"

declare vdev_find.simps [code]

definition same_name :: "nat \<Rightarrow> fsst \<Rightarrow> nat \<Rightarrow> bool option" where
  "same_name name s v = do { c \<leftarrow> strcmp (kmem s) name (devname (vdevs s v)); Some (c = 0) }"

partial_function (option) vfs_cleanup_loop :: "fnode \<Rightarrow> fsst \<Rightarrow> fsst option" where
  "vfs_cleanup_loop le s =
     (let le = list_next le (flinks s) in
      if le = VdevList then Some s
      else (case le of
          VdevLink v \<Rightarrow> do {
            s \<leftarrow> (case vdev_fs (vdevs s v) of Some f \<Rightarrow> sfs_cleanup f s | None \<Rightarrow> Some s);
            vfs_cleanup_loop le s
          }
        | _ \<Rightarrow> None))"

declare vfs_cleanup_loop.simps [code]

definition vfs_cleanup :: "fsst \<Rightarrow> fsst option" where
  "vfs_cleanup s =
     (if \<not> list_empty VdevList (flinks s) then do {
        s \<leftarrow> lock_vdev_list s;
        s \<leftarrow> vfs_cleanup_loop VdevList s;
        Some (unlock_vdev_list s)
      } else Some s)"

definition vfs_get_root :: "nat \<Rightarrow> fsst \<Rightarrow> (int \<times> nat option \<times> fsst) option" where
  "vfs_get_root name s =
     (if \<not> list_empty VdevList (flinks s) then do {
        s \<leftarrow> lock_vdev_list s;
        v \<leftarrow> vdev_find (same_name name s) (flinks s) VdevList;
        (ret, nd, s) \<leftarrow> (case v of
            None \<Rightarrow> Some (- E_NO_DEV, None, s)
          | Some v \<Rightarrow>
              (case vdev_fs (vdevs s v) of
                 Some f \<Rightarrow> do { (n, s) \<leftarrow> sfs_get_root f s; Some (0, Some n, s) }
               | None \<Rightarrow>
                   if \<not> mountable (vdevs s v) then do {
                     n \<leftarrow> devnode (vdevs s v);
                     Some (0, Some n, vop_ref_inc n s)
                   } else Some (- E_NA_DEV, None, s)));
        Some (ret, nd, unlock_vdev_list s)
      } else Some (- E_NO_DEV, None, s))"

definition vfs_get_devname :: "nat \<Rightarrow> fsst \<Rightarrow> nat option option" where
  "vfs_get_devname f s = do {
     v \<leftarrow> vdev_find (\<lambda>v. Some (vdev_fs (vdevs s v) = Some f)) (flinks s) VdevList;
     Some (map_option (\<lambda>v. devname (vdevs s v)) v)
   }"

text \<open>True when no device has the name.\<close>

definition check_devname_conflict :: "nat \<Rightarrow> fsst \<Rightarrow> bool option" where
  "check_devname_conflict name s = do {
     v \<leftarrow> vdev_find (\<lambda>v. do { c \<leftarrow> strcmp (kmem s) (devname (vdevs s v)) name; Some (c = 0) }) (flinks s) VdevList;
     Some (v = None)
   }"

text \<open>\<open>strdup\<close> of kern/libs/string.c.\<close>

definition strdup :: "nat \<Rightarrow> fsst \<Rightarrow> (nat option \<times> fsst) option" where
  "strdup src s = do {
     len \<leftarrow> strlen (kmem s) src;
     (d, s) \<leftarrow> kalloc (len + 1) s;
     (case d of
        None \<Rightarrow> Some (None, s)
      | Some d \<Rightarrow> Some (Some d, upd_kmem (\<lambda>m. (memcpy m d src len)(d + len := 0)) s))
   }"

definition upd_vdev :: "nat \<Rightarrow> (vfs_dev \<Rightarrow> vfs_dev) \<Rightarrow> fsst \<Rightarrow> fsst" where
  "upd_vdev v g s = s\<lparr>vdevs := (vdevs s)(v := g (vdevs s v))\<rparr>"

definition vfs_do_add :: "nat \<Rightarrow> nat option \<Rightarrow> nat option \<Rightarrow> bool \<Rightarrow> fsst \<Rightarrow> (int \<times> fsst) option" where
  "vfs_do_add name nd f mount s = do {
     kassert (case nd of None \<Rightarrow> \<not> mount | Some n \<Rightarrow> in_type (inodes s n) = Device_info);
     l \<leftarrow> strlen (kmem s) name;
     if l > FS_MAX_DNAME_LEN then Some (- E_TOO_BIG, s) else do {
       (d, s) \<leftarrow> strdup name s;
       (case d of
          None \<Rightarrow> Some (- E_NO_MEM, s)
        | Some d \<Rightarrow> do {
            (v, s) \<leftarrow> kalloc sizeof_vfs_dev s;
            (case v of
               None \<Rightarrow> do { s \<leftarrow> kdealloc d s; Some (- E_NO_MEM, s) }
             | Some v \<Rightarrow> do {
                 s \<leftarrow> lock_vdev_list s;
                 ok \<leftarrow> check_devname_conflict d s;
                 if \<not> ok then do {
                   s \<leftarrow> kdealloc v (unlock_vdev_list s);
                   s \<leftarrow> kdealloc d s;
                   Some (- E_EXISTS, s)
                 } else do {
                   let s = upd_vdev v (\<lambda>_. \<lparr>devname = d, devnode = nd, vdev_fs = f, mountable = mount\<rparr>) s;
                   Some (0, unlock_vdev_list (upd_flinks (list_add VdevList (VdevLink v)) s))
                 }
               })
          })
     }
   }"

definition vfs_add_fs :: "nat \<Rightarrow> nat option \<Rightarrow> fsst \<Rightarrow> (int \<times> fsst) option" where
  "vfs_add_fs name f s = vfs_do_add name None f False s"

definition vfs_add_dev :: "nat \<Rightarrow> nat option \<Rightarrow> bool \<Rightarrow> fsst \<Rightarrow> (int \<times> fsst) option" where
  "vfs_add_dev name nd mount s = vfs_do_add name nd None mount s"

definition find_mount :: "nat \<Rightarrow> fsst \<Rightarrow> (int \<times> nat) option" where
  "find_mount name s = do {
     v \<leftarrow> vdev_find (\<lambda>v. if mountable (vdevs s v) then do {
              c \<leftarrow> strcmp (kmem s) (devname (vdevs s v)) name; Some (c = 0) } else Some False) (flinks s) VdevList;
     Some (case v of None \<Rightarrow> (- E_NO_DEV, 0) | Some v \<Rightarrow> (0, v))
   }"

definition vfs_mount ::
    "nat \<Rightarrow> (nat \<Rightarrow> fsst \<Rightarrow> (int \<times> nat option \<times> fsst) option) \<Rightarrow> fsst \<Rightarrow> (int \<times> fsst) option" where
  "vfs_mount name mountfunc s = do {
     s \<leftarrow> lock_vdev_list s;
     (ret, v) \<leftarrow> find_mount name s;
     if ret \<noteq> 0 then Some (ret, unlock_vdev_list s)
     else if vdev_fs (vdevs s v) \<noteq> None then Some (- E_BUSY, unlock_vdev_list s)
     else do {
       kassert (mountable (vdevs s v));
       n \<leftarrow> devnode (vdevs s v);
       _ \<leftarrow> device_of n s;
       (ret, f, s) \<leftarrow> mountfunc n s;
       if ret = 0 then do {
         kassert (f \<noteq> None);
         Some (0, unlock_vdev_list (upd_vdev v (\<lambda>d. d\<lparr>vdev_fs := f\<rparr>) s))
       } else Some (ret, unlock_vdev_list s)
     }
   }"

text \<open>\<open>fsop_sync\<close>, then \<open>fsop_unmount\<close>; the device has no file system afterwards when both succeed.\<close>

definition sync_and_unmount :: "nat \<Rightarrow> nat \<Rightarrow> fsst \<Rightarrow> (int \<times> fsst) option" where
  "sync_and_unmount v f s = do {
     (ret, s) \<leftarrow> sfs_sync f s;
     if ret \<noteq> 0 then Some (ret, s) else do {
       (ret, s) \<leftarrow> sfs_unmount f s;
       Some (ret, if ret = 0 then upd_vdev v (\<lambda>d. d\<lparr>vdev_fs := None\<rparr>) s else s)
     }
   }"

definition vfs_unmount :: "nat \<Rightarrow> fsst \<Rightarrow> (int \<times> fsst) option" where
  "vfs_unmount name s = do {
     s \<leftarrow> lock_vdev_list s;
     (ret, v) \<leftarrow> find_mount name s;
     if ret \<noteq> 0 then Some (ret, unlock_vdev_list s)
     else (case vdev_fs (vdevs s v) of
         None \<Rightarrow> Some (- E_INVAL, unlock_vdev_list s)
       | Some f \<Rightarrow> do {
           kassert (mountable (vdevs s v));
           (ret, s) \<leftarrow> sync_and_unmount v f s;
           Some (ret, unlock_vdev_list s)
         })
   }"

partial_function (option) vfs_unmount_loop :: "fnode \<Rightarrow> fsst \<Rightarrow> fsst option" where
  "vfs_unmount_loop le s =
     (let le = list_next le (flinks s) in
      if le = VdevList then Some s
      else (case le of
          VdevLink v \<Rightarrow>
            (case vdev_fs (vdevs s v) of
               Some f \<Rightarrow>
                 if mountable (vdevs s v) then do { r \<leftarrow> sync_and_unmount v f s; vfs_unmount_loop le (snd r) }
                 else vfs_unmount_loop le s
             | None \<Rightarrow> vfs_unmount_loop le s)
        | _ \<Rightarrow> None))"

declare vfs_unmount_loop.simps [code]

definition vfs_unmount_all :: "fsst \<Rightarrow> (int \<times> fsst) option" where
  "vfs_unmount_all s =
     (if \<not> list_empty VdevList (flinks s) then do {
        s \<leftarrow> lock_vdev_list s;
        s \<leftarrow> vfs_unmount_loop VdevList s;
        Some (0, unlock_vdev_list s)
      } else Some (0, s))"

end
