(* ===== verification/Vfs_Path.thy ===== *)
theory Vfs_Path
  imports Vfs
begin

text \<open>
  Paths and the current directory: the boot file system (kern/fs/vfs/vfs.c), path lookup (vfslookup.c), the
  current directory of the process (vfspath.c), opening and closing a file (vfsfile.c), and the
  initialisation of devices and file system (fs.c, sfs.c, kern/fs/devs). A path is the address of its
  bytes; \<open>get_device\<close> overwrites the colon of a device name with the end of the string, as the code does.
\<close>

subsection \<open>The current directory (kern/fs/vfs/vfspath.c)\<close>

definition S_ISDIR :: "32 word \<Rightarrow> bool" where
  "S_ISDIR mode \<longleftrightarrow> and mode S_IFMT = S_IFDIR"

definition upd_files :: "nat \<Rightarrow> (files_struct \<Rightarrow> files_struct) \<Rightarrow> fsst \<Rightarrow> fsst" where
  "upd_files p g s = s\<lparr>files := (files s)(p := g (files s p))\<rparr>"

text \<open>\<open>current->filesp\<close>, which has to be there.\<close>

definition get_cwd_nolock :: "fsst \<Rightarrow> nat option option" where
  "get_cwd_nolock s = do { p \<leftarrow> filesp s; Some (pwd (files s p)) }"

definition set_cwd_nolock :: "nat option \<Rightarrow> fsst \<Rightarrow> fsst option" where
  "set_cwd_nolock d s = do { p \<leftarrow> filesp s; Some (upd_files p (\<lambda>x. x\<lparr>pwd := d\<rparr>) s) }"

definition lock_files :: "nat \<Rightarrow> fsst \<Rightarrow> fsst option" where
  "lock_files p s = do { v \<leftarrow> sem_down (files_sem (files s p)); Some (upd_files p (\<lambda>x. x\<lparr>files_sem := v\<rparr>) s) }"

definition unlock_files :: "nat \<Rightarrow> fsst \<Rightarrow> fsst" where
  "unlock_files p s = upd_files p (\<lambda>x. x\<lparr>files_sem := sem_up (files_sem x)\<rparr>) s"

definition lock_cfs :: "fsst \<Rightarrow> fsst option" where
  "lock_cfs s = do { p \<leftarrow> filesp s; lock_files p s }"

definition unlock_cfs :: "fsst \<Rightarrow> fsst option" where
  "unlock_cfs s = do { p \<leftarrow> filesp s; Some (unlock_files p s) }"

definition vfs_get_curdir :: "fsst \<Rightarrow> (int \<times> nat option \<times> fsst) option" where
  "vfs_get_curdir s = do {
     d \<leftarrow> get_cwd_nolock s;
     Some (case d of Some n \<Rightarrow> (0, Some n, vop_ref_inc n s) | None \<Rightarrow> (- E_NOENT, None, s))
   }"

definition vfs_set_curdir :: "nat option \<Rightarrow> fsst \<Rightarrow> (int \<times> fsst) option" where
  "vfs_set_curdir dir s = do {
     s \<leftarrow> lock_cfs s;
     old \<leftarrow> get_cwd_nolock s;
     (ret, s) \<leftarrow> (if old \<noteq> dir then do {
         (ret, s) \<leftarrow> (case dir of
             None \<Rightarrow> Some (0, s)
           | Some d \<Rightarrow> do {
               (ret, type) \<leftarrow> vop_gettype (Some d) s;
               if ret \<noteq> 0 then Some (ret, s)
               else if \<not> S_ISDIR type then Some (- E_NOTDIR, s)
               else Some (0, vop_ref_inc d s)
             });
         if ret \<noteq> 0 then Some (ret, s) else do {
           s \<leftarrow> set_cwd_nolock dir s;
           s \<leftarrow> (case old of Some od \<Rightarrow> vop_ref_dec od s | None \<Rightarrow> Some s);
           Some (0, s)
         }
       } else Some (0, s));
     s \<leftarrow> unlock_cfs s;
     Some (ret, s)
   }"

subsection \<open>The boot file system (kern/fs/vfs/vfs.c)\<close>

definition vfs_init :: "fsst \<Rightarrow> fsst" where
  "vfs_init s = vfs_devlist_init (s\<lparr>bootfs_sem := 1\<rparr>)"

definition lock_bootfs :: "fsst \<Rightarrow> fsst option" where
  "lock_bootfs s = do { v \<leftarrow> sem_down (bootfs_sem s); Some (s\<lparr>bootfs_sem := v\<rparr>) }"

definition unlock_bootfs :: "fsst \<Rightarrow> fsst" where
  "unlock_bootfs s = s\<lparr>bootfs_sem := sem_up (bootfs_sem s)\<rparr>"

definition change_bootfs :: "nat option \<Rightarrow> fsst \<Rightarrow> fsst option" where
  "change_bootfs nd s = do {
     s \<leftarrow> lock_bootfs s;
     let old = bootfs_node s;
     let s = unlock_bootfs (s\<lparr>bootfs_node := nd\<rparr>);
     (case old of Some od \<Rightarrow> vop_ref_dec od s | None \<Rightarrow> Some s)
   }"

definition vfs_get_bootfs :: "fsst \<Rightarrow> (int \<times> nat option \<times> fsst) option" where
  "vfs_get_bootfs s =
     (case bootfs_node s of
        None \<Rightarrow> Some (- E_NOENT, None, s)
      | Some n \<Rightarrow> do { s \<leftarrow> lock_bootfs s; Some (0, Some n, unlock_bootfs (vop_ref_inc n s)) })"

subsection \<open>Path lookup (kern/fs/vfs/vfslookup.c)\<close>

text \<open>The first loop of \<open>get_device\<close> from offset \<open>i\<close>: the positions of the slash and of the colon, -1 for none.\<close>

partial_function (option) path_scan :: "bytes \<Rightarrow> nat \<Rightarrow> nat \<Rightarrow> (int \<times> int) option" where
  "path_scan m pathp i =
     (if m (pathp + i) = 0 then Some (-1, -1)
      else if m (pathp + i) = 58 then Some (-1, int i)
      else if m (pathp + i) = 47 then Some (int i, -1)
      else path_scan m pathp (i + 1))"

text \<open>\<open>while (*(++ path) == '/')\<close>: the address after the slashes.\<close>

partial_function (option) skip_slashes :: "bytes \<Rightarrow> nat \<Rightarrow> nat option" where
  "skip_slashes m a = (if m (a + 1) = 47 then skip_slashes m (a + 1) else Some (a + 1))"

declare path_scan.simps [code] skip_slashes.simps [code]

definition get_device :: "nat \<Rightarrow> fsst \<Rightarrow> (int \<times> nat \<times> nat option \<times> fsst) option" where
  "get_device pathp s = do {
     (slash, colon) \<leftarrow> path_scan (kmem s) pathp 0;
     if colon < 0 \<and> slash \<noteq> 0 then do {
       (ret, nd, s) \<leftarrow> vfs_get_curdir s;
       Some (ret, pathp, nd, s)
     } else if colon > 0 then do {
       let s = upd_kmem (\<lambda>m. m(pathp + nat colon := 0)) s;
       sub \<leftarrow> skip_slashes (kmem s) (pathp + nat colon);
       (ret, nd, s) \<leftarrow> vfs_get_root pathp s;
       Some (ret, sub, nd, s)
     } else do {
       (ret, nd, s) \<leftarrow>
         (if kmem s pathp = 47 then vfs_get_bootfs s
          else do {
            kassert (kmem s pathp = 58);
            (ret, nd, s) \<leftarrow> vfs_get_curdir s;
            if ret \<noteq> 0 then Some (ret, None, s) else do {
              n \<leftarrow> nd;
              f \<leftarrow> in_fs (inodes s n);
              (root, s) \<leftarrow> sfs_get_root f s;
              s \<leftarrow> vop_ref_dec n s;
              Some (0, Some root, s)
            }
          });
       if ret \<noteq> 0 then Some (ret, pathp, None, s) else do {
         sub \<leftarrow> skip_slashes (kmem s) pathp;
         Some (0, sub, nd, s)
       }
     }
   }"

definition vfs_lookup :: "nat \<Rightarrow> fsst \<Rightarrow> (int \<times> nat option \<times> fsst) option" where
  "vfs_lookup pathp s = do {
     (ret, sub, nd, s) \<leftarrow> get_device pathp s;
     if ret \<noteq> 0 then Some (ret, None, s)
     else if kmem s sub \<noteq> 0 then do {
       (ret, res, s) \<leftarrow> vop_lookup nd sub s;
       n \<leftarrow> nd;
       s \<leftarrow> vop_ref_dec n s;
       Some (ret, res, s)
     } else Some (0, nd, s)
   }"

definition vfs_lookup_parent :: "nat \<Rightarrow> fsst \<Rightarrow> (int \<times> nat option \<times> nat \<times> fsst) option" where
  "vfs_lookup_parent pathp s = do {
     (ret, sub, nd, s) \<leftarrow> get_device pathp s;
     if ret \<noteq> 0 then Some (ret, None, 0, s) else Some (0, nd, sub, s)
   }"

subsection \<open>Changing and naming the current directory\<close>

definition vfs_chdir :: "nat \<Rightarrow> fsst \<Rightarrow> (int \<times> fsst) option" where
  "vfs_chdir pathp s = do {
     (ret, nd, s) \<leftarrow> vfs_lookup pathp s;
     if ret = 0 then do {
       (ret, s) \<leftarrow> vfs_set_curdir nd s;
       n \<leftarrow> nd;
       s \<leftarrow> vop_ref_dec n s;
       Some (ret, s)
     } else Some (ret, s)
   }"

definition kstack_colon :: nat where "kstack_colon = 0xa0"

definition vfs_getcwd :: "iobuf \<Rightarrow> fsst \<Rightarrow> (int \<times> iobuf \<times> fsst) option" where
  "vfs_getcwd iob s = do {
     (ret, nd, s) \<leftarrow> vfs_get_curdir s;
     if ret \<noteq> 0 then Some (ret, iob, s) else do {
       n \<leftarrow> nd;
       f \<leftarrow> in_fs (inodes s n);
       d \<leftarrow> vfs_get_devname f s;
       d \<leftarrow> d;
       l \<leftarrow> strlen (kmem s) d;
       (ret, _, iob, m) \<leftarrow> iobuf_move d l True iob (kmem s);
       let s = upd_kmem (\<lambda>_. m) s;
       (ret, iob, s) \<leftarrow> (if ret \<noteq> 0 then Some (ret, iob, s) else do {
           let s = upd_kmem (\<lambda>m. m(kstack_colon := 58)) s;
           (ret, _, iob, m) \<leftarrow> iobuf_move kstack_colon 1 True iob (kmem s);
           let s = upd_kmem (\<lambda>_. m) s;
           if ret \<noteq> 0 then Some (ret, iob, s) else vop_namefile nd iob s
         });
       s \<leftarrow> vop_ref_dec n s;
       Some (ret, iob, s)
     }
   }"

definition vfs_set_bootfs :: "nat option \<Rightarrow> fsst \<Rightarrow> (int \<times> fsst) option" where
  "vfs_set_bootfs fsname s =
     (case fsname of
        None \<Rightarrow> do { s \<leftarrow> change_bootfs None s; Some (0, s) }
      | Some name \<Rightarrow> do {
          p \<leftarrow> strchr (kmem s) name 58;
          (case p of
             None \<Rightarrow> Some (- E_INVAL, s)
           | Some p \<Rightarrow>
               if kmem s (p + 1) \<noteq> 0 then Some (- E_INVAL, s) else do {
                 (ret, s) \<leftarrow> vfs_chdir name s;
                 if ret \<noteq> 0 then Some (ret, s) else do {
                   (ret, nd, s) \<leftarrow> vfs_get_curdir s;
                   if ret \<noteq> 0 then Some (ret, s) else do { s \<leftarrow> change_bootfs nd s; Some (0, s) }
                 }
               })
        })"

subsection \<open>Opening and closing (kern/fs/vfs/vfsfile.c)\<close>

text \<open>\<open>node\<close> is not initialised: when \<open>vop_create\<close> fails, its error is dropped and what \<open>node\<close> then holds is
  unknown; the model stops there.\<close>

definition vfs_open :: "nat \<Rightarrow> 32 word \<Rightarrow> fsst \<Rightarrow> (int \<times> nat option \<times> fsst) option" where
  "vfs_open pathp open_flags s =
     (let acc = and open_flags O_ACCMODE;
          can_write = (acc = O_WRONLY \<or> acc = O_RDWR);
          excl = (and open_flags O_EXCL \<noteq> 0);
          create = (and open_flags O_CREAT \<noteq> 0) in
      if acc \<noteq> O_RDONLY \<and> \<not> can_write then Some (- E_INVAL, None, s)
      else if and open_flags O_TRUNC \<noteq> 0 \<and> \<not> can_write then Some (- E_INVAL, None, s)
      else do {
        (ret, nd, s) \<leftarrow> vfs_lookup pathp s;
        (stop, ret, nd, s) \<leftarrow>
          (if ret \<noteq> 0 then
             if ret = - 16 \<and> create then do {
               (ret, dir, name, s) \<leftarrow> vfs_lookup_parent pathp s;
               if ret \<noteq> 0 then Some (True, ret, None, s)
               else do { (ret, nd, s) \<leftarrow> vop_create dir name excl s; Some (False, ret, nd, s) }
             } else Some (True, ret, None, s)
           else if excl \<and> create then Some (True, - E_EXISTS, None, s)
           else Some (False, 0, nd, s));
        if stop then Some (ret, None, s) else do {
          n \<leftarrow> nd;
          ret \<leftarrow> vop_open nd open_flags s;
          if ret \<noteq> 0 then do { s \<leftarrow> vop_ref_dec n s; Some (ret, None, s) } else do {
            let s = vop_open_inc n s;
            (ret, s) \<leftarrow> (if and open_flags O_TRUNC \<noteq> 0 \<or> create then vop_truncate nd 0 s else Some (0, s));
            if ret \<noteq> 0 then do { s \<leftarrow> vop_open_dec n s; s \<leftarrow> vop_ref_dec n s; Some (ret, None, s) }
            else Some (0, Some n, s)
          }
        }
      })"

definition vfs_close :: "nat option \<Rightarrow> fsst \<Rightarrow> (int \<times> fsst) option" where
  "vfs_close nd s = do { n \<leftarrow> nd; s \<leftarrow> vop_open_dec n s; s \<leftarrow> vop_ref_dec n s; Some (0, s) }"

definition vfs_unlink :: int where "vfs_unlink = - E_UNIMP"
definition vfs_rename :: int where "vfs_rename = - E_UNIMP"
definition vfs_link :: int where "vfs_link = - E_UNIMP"

subsection \<open>Initialisation (kern/fs/fs.c, kern/fs/sfs/sfs.c, kern/fs/devs)\<close>

definition lit_stdin :: nat where "lit_stdin = 0xb0"
definition lit_stdout :: nat where "lit_stdout = 0xb8"
definition lit_disk0 :: nat where "lit_disk0 = 0xc0"

definition dev_init_stdin :: "fsst \<Rightarrow> fsst option" where
  "dev_init_stdin s = do {
     (n, s) \<leftarrow> dev_create_inode s;
     n \<leftarrow> n;
     _ \<leftarrow> device_of n s;
     (ret, s) \<leftarrow> vfs_add_dev lit_stdin (Some n) False (stdin_device_init n s);
     kassert (ret = 0);
     Some s
   }"

definition dev_init_stdout :: "fsst \<Rightarrow> fsst option" where
  "dev_init_stdout s = do {
     (n, s) \<leftarrow> dev_create_inode s;
     n \<leftarrow> n;
     _ \<leftarrow> device_of n s;
     (ret, s) \<leftarrow> vfs_add_dev lit_stdout (Some n) False (stdout_device_init n s);
     kassert (ret = 0);
     Some s
   }"

definition dev_init_disk0 :: "fsst \<Rightarrow> fsst option" where
  "dev_init_disk0 s = do {
     (n, s) \<leftarrow> dev_create_inode s;
     n \<leftarrow> n;
     _ \<leftarrow> device_of n s;
     s \<leftarrow> disk0_device_init n s;
     (ret, s) \<leftarrow> vfs_add_dev lit_disk0 (Some n) True s;
     kassert (ret = 0);
     Some s
   }"

definition dev_init :: "fsst \<Rightarrow> fsst option" where
  "dev_init s = do { s \<leftarrow> dev_init_stdin s; s \<leftarrow> dev_init_stdout s; dev_init_disk0 s }"

definition sfs_mount :: "nat \<Rightarrow> fsst \<Rightarrow> (int \<times> fsst) option" where
  "sfs_mount name s = vfs_mount name sfs_do_mount s"

definition sfs_init :: "fsst \<Rightarrow> fsst option" where
  "sfs_init s = do { (ret, s) \<leftarrow> sfs_mount lit_disk0 s; kassert (ret = 0); Some s }"

definition fs_init :: "fsst \<Rightarrow> fsst option" where
  "fs_init s = do { s \<leftarrow> dev_init (vfs_init s); sfs_init s }"

definition fs_cleanup :: "fsst \<Rightarrow> fsst option" where
  "fs_cleanup s = vfs_cleanup s"

end
