(* ===== verification/Files.thy ===== *)
theory Files
  imports Vfs_Path
begin

text \<open>
  The open files of a process (kern/fs/file.c, the table in fs.c) and the system calls on files
  (sysfile.c). A \<open>struct file\<close> is found by the table \<open>p\<close> it belongs to and its index \<open>i\<close>. \<open>mm\<close> is
  \<open>current->mm\<close>; its lock and the reading of its page tables by the hardware are not part of the state: user
  memory is the part of \<open>kmem\<close> that \<open>user_mem_check\<close> of theory Vmm accepts.
\<close>

subsection \<open>The table of open files (kern/fs/file.c)\<close>

definition FILES_STRUCT_NENTRY :: nat where "FILES_STRUCT_NENTRY = (4096 - 48) div 56"
definition NO_FD :: int where "NO_FD = - 0x9527"

definition testfd :: "int \<Rightarrow> bool" where
  "testfd d \<longleftrightarrow> d \<ge> 0 \<and> d < int FILES_STRUCT_NENTRY"

definition the_file :: "nat \<Rightarrow> nat \<Rightarrow> fsst \<Rightarrow> kfile" where
  "the_file p i s = fd_array (files s p) i"

definition upd_file :: "nat \<Rightarrow> nat \<Rightarrow> (kfile \<Rightarrow> kfile) \<Rightarrow> fsst \<Rightarrow> fsst" where
  "upd_file p i g s = upd_files p (\<lambda>x. x\<lparr>fd_array := (fd_array x)(i := g (fd_array x i))\<rparr>) s"

definition get_fd_array :: "fsst \<Rightarrow> nat option" where
  "get_fd_array s = do { p \<leftarrow> filesp s; kassert (files_count (files s p) > 0); Some p }"

definition fd_array_init :: "(nat \<Rightarrow> kfile) \<Rightarrow> nat \<Rightarrow> kfile" where
  "fd_array_init a = fold (\<lambda>i a. a(i := (a i)\<lparr>fopen_count := 0, status := FD_NONE, fd := int i\<rparr>)) [0 ..< FILES_STRUCT_NENTRY] a"

text \<open>The loop of \<open>fd_array_alloc\<close>, \<open>k\<close> entries to go.\<close>

fun fd_find_free :: "(nat \<Rightarrow> kfile) \<Rightarrow> nat \<Rightarrow> nat \<Rightarrow> nat option" where
  "fd_find_free a 0 i = None"
| "fd_find_free a (Suc k) i = (if status (a i) = FD_NONE then Some i else fd_find_free a k (i + 1))"

definition fd_array_alloc :: "int \<Rightarrow> fsst \<Rightarrow> (int \<times> nat \<times> fsst) option" where
  "fd_array_alloc d s = do {
     p \<leftarrow> get_fd_array s;
     let found = (\<lambda>i. do {
       kassert (fopen_count (the_file p i s) = 0);
       Some (0, i, upd_file p i (\<lambda>f. f\<lparr>status := FD_INIT, node := None\<rparr>) s) });
     if d = NO_FD then
       (case fd_find_free (fd_array (files s p)) FILES_STRUCT_NENTRY 0 of
          Some i \<Rightarrow> found i
        | None \<Rightarrow> Some (- E_MAX_OPEN, 0, s))
     else if testfd d then
       (if status (the_file p (nat d) s) = FD_NONE then found (nat d) else Some (- E_BUSY, 0, s))
     else Some (- E_INVAL, 0, s)
   }"

definition fd_array_free :: "nat \<Rightarrow> nat \<Rightarrow> fsst \<Rightarrow> fsst option" where
  "fd_array_free p i s = do {
     kassert (status (the_file p i s) = FD_INIT \<or> status (the_file p i s) = FD_CLOSED);
     kassert (fopen_count (the_file p i s) = 0);
     s \<leftarrow> (if status (the_file p i s) = FD_CLOSED
          then do { (_, s) \<leftarrow> vfs_close (node (the_file p i s)) s; Some s } else Some s);
     Some (upd_file p i (\<lambda>f. f\<lparr>status := FD_NONE\<rparr>) s)
   }"

definition fopen_count_inc :: "nat \<Rightarrow> nat \<Rightarrow> fsst \<Rightarrow> fsst" where
  "fopen_count_inc p i s = upd_file p i (\<lambda>f. f\<lparr>fopen_count := fopen_count f + 1\<rparr>) s"

definition fopen_count_dec :: "nat \<Rightarrow> nat \<Rightarrow> fsst \<Rightarrow> fsst" where
  "fopen_count_dec p i s = upd_file p i (\<lambda>f. f\<lparr>fopen_count := fopen_count f - 1\<rparr>) s"

definition fd_array_acquire :: "nat \<Rightarrow> nat \<Rightarrow> fsst \<Rightarrow> fsst option" where
  "fd_array_acquire p i s = do { kassert (status (the_file p i s) = FD_OPENED); Some (fopen_count_inc p i s) }"

definition fd_array_release :: "nat \<Rightarrow> nat \<Rightarrow> fsst \<Rightarrow> fsst option" where
  "fd_array_release p i s = do {
     kassert (status (the_file p i s) = FD_OPENED \<or> status (the_file p i s) = FD_CLOSED);
     kassert (fopen_count (the_file p i s) > 0);
     let s = fopen_count_dec p i s;
     if fopen_count (the_file p i s) = 0 then fd_array_free p i s else Some s
   }"

definition fd_array_open :: "nat \<Rightarrow> nat \<Rightarrow> fsst \<Rightarrow> fsst option" where
  "fd_array_open p i s = do {
     kassert (status (the_file p i s) = FD_INIT \<and> node (the_file p i s) \<noteq> None);
     Some (fopen_count_inc p i (upd_file p i (\<lambda>f. f\<lparr>status := FD_OPENED\<rparr>) s))
   }"

definition fd_array_close :: "nat \<Rightarrow> nat \<Rightarrow> fsst \<Rightarrow> fsst option" where
  "fd_array_close p i s = do {
     kassert (status (the_file p i s) = FD_OPENED);
     kassert (fopen_count (the_file p i s) > 0);
     let s = fopen_count_dec p i (upd_file p i (\<lambda>f. f\<lparr>status := FD_CLOSED\<rparr>) s);
     if fopen_count (the_file p i s) = 0 then fd_array_free p i s else Some s
   }"

text \<open>\<open>to\<close> is entry \<open>i\<close> of the table \<open>p\<close>, \<open>from\<close> entry \<open>j\<close> of \<open>q\<close>.\<close>

definition fd_array_dup :: "nat \<Rightarrow> nat \<Rightarrow> nat \<Rightarrow> nat \<Rightarrow> fsst \<Rightarrow> fsst option" where
  "fd_array_dup p i q j s = do {
     kassert (status (the_file p i s) = FD_INIT \<and> status (the_file q j s) = FD_OPENED);
     let from = the_file q j s;
     let s = upd_file p i (\<lambda>f. f\<lparr>pos := pos from, readable := readable from, writable := writable from\<rparr>) s;
     n \<leftarrow> node from;
     let s = vop_open_inc n (vop_ref_inc n s);
     fd_array_open p i (upd_file p i (\<lambda>f. f\<lparr>node := Some n\<rparr>) s)
   }"

definition fd2file :: "int \<Rightarrow> fsst \<Rightarrow> (int \<times> nat \<times> nat) option" where
  "fd2file d s =
     (if testfd d then do {
        p \<leftarrow> get_fd_array s;
        Some (if status (the_file p (nat d) s) = FD_OPENED \<and> fd (the_file p (nat d) s) = d
              then (0, p, nat d) else (- E_INVAL, 0, 0))
      } else Some (- E_INVAL, 0, 0))"

definition file_testfd :: "int \<Rightarrow> bool \<Rightarrow> bool \<Rightarrow> fsst \<Rightarrow> bool option" where
  "file_testfd d rd wr s = do {
     (ret, p, i) \<leftarrow> fd2file d s;
     Some (ret = 0 \<and> (rd \<longrightarrow> readable (the_file p i s)) \<and> (wr \<longrightarrow> writable (the_file p i s)))
   }"

subsection \<open>Operations on open files\<close>

definition file_open :: "nat \<Rightarrow> 32 word \<Rightarrow> fsst \<Rightarrow> (int \<times> fsst) option" where
  "file_open pathp open_flags s =
     (let acc = and open_flags O_ACCMODE;
          rd = (acc = O_RDONLY \<or> acc = O_RDWR);
          wr = (acc = O_WRONLY \<or> acc = O_RDWR) in
      if \<not> rd \<and> \<not> wr then Some (- E_INVAL, s) else do {
        (ret, i, s) \<leftarrow> fd_array_alloc NO_FD s;
        if ret \<noteq> 0 then Some (ret, s) else do {
          p \<leftarrow> filesp s;
          (ret, nd, s) \<leftarrow> vfs_open pathp open_flags s;
          if ret \<noteq> 0 then do { s \<leftarrow> fd_array_free p i s; Some (ret, s) } else do {
            let s = upd_file p i (\<lambda>f. f\<lparr>pos := 0\<rparr>) s;
            (ret, s) \<leftarrow>
              (if and open_flags O_APPEND \<noteq> 0 then do {
                 (ret, st) \<leftarrow> vop_fstat nd s;
                 if ret \<noteq> 0 then do { (_, s) \<leftarrow> vfs_close nd s; s \<leftarrow> fd_array_free p i s; Some (ret, s) }
                 else Some (0, upd_file p i (\<lambda>f. f\<lparr>pos := to_i64 (int (st_size st))\<rparr>) s)
               } else Some (0, s));
            if ret \<noteq> 0 then Some (ret, s) else do {
              s \<leftarrow> fd_array_open p i (upd_file p i (\<lambda>f. f\<lparr>node := nd, readable := rd, writable := wr\<rparr>) s);
              Some (fd (the_file p i s), s)
            }
          }
        }
      })"

definition file_close :: "int \<Rightarrow> fsst \<Rightarrow> (int \<times> fsst) option" where
  "file_close d s = do {
     (ret, p, i) \<leftarrow> fd2file d s;
     if ret \<noteq> 0 then Some (ret, s) else do { s \<leftarrow> fd_array_close p i s; Some (0, s) }
   }"

text \<open>\<open>file_read\<close> and \<open>file_write\<close> after the file was found: the transfer, the position, the release.\<close>

definition file_transfer ::
    "(nat option \<Rightarrow> iobuf \<Rightarrow> fsst \<Rightarrow> (int \<times> iobuf \<times> fsst) option) \<Rightarrow> nat \<Rightarrow> nat \<Rightarrow> nat \<Rightarrow> nat \<Rightarrow> fsst \<Rightarrow> (int \<times> nat \<times> fsst) option" where
  "file_transfer vop p i base len s = do {
     s \<leftarrow> fd_array_acquire p i s;
     (ret, iob, s) \<leftarrow> vop (node (the_file p i s)) (iobuf_init base len (pos (the_file p i s))) s;
     let copied = iobuf_used iob;
     let s = (if status (the_file p i s) = FD_OPENED
              then upd_file p i (\<lambda>f. f\<lparr>pos := to_i64 (pos f + int copied)\<rparr>) s else s);
     s \<leftarrow> fd_array_release p i s;
     Some (ret, copied, s)
   }"

text \<open>The second value is what \<open>*copied_store\<close> holds.\<close>

definition file_read :: "int \<Rightarrow> nat \<Rightarrow> nat \<Rightarrow> fsst \<Rightarrow> (int \<times> nat \<times> fsst) option" where
  "file_read d base len s = do {
     (ret, p, i) \<leftarrow> fd2file d s;
     if ret \<noteq> 0 then Some (ret, 0, s)
     else if \<not> readable (the_file p i s) then Some (- E_INVAL, 0, s)
     else file_transfer vop_read p i base len s
   }"

definition file_write :: "int \<Rightarrow> nat \<Rightarrow> nat \<Rightarrow> fsst \<Rightarrow> (int \<times> nat \<times> fsst) option" where
  "file_write d base len s = do {
     (ret, p, i) \<leftarrow> fd2file d s;
     if ret \<noteq> 0 then Some (ret, 0, s)
     else if \<not> writable (the_file p i s) then Some (- E_INVAL, 0, s)
     else file_transfer vop_write p i base len s
   }"

definition file_seek :: "int \<Rightarrow> int \<Rightarrow> int \<Rightarrow> fsst \<Rightarrow> (int \<times> fsst) option" where
  "file_seek d p0 whence s = do {
     (ret, p, i) \<leftarrow> fd2file d s;
     if ret \<noteq> 0 then Some (ret, s) else do {
       s \<leftarrow> fd_array_acquire p i s;
       (ret, p1) \<leftarrow>
         (if whence = 0 then Some (0, p0)
          else if whence = 1 then Some (0, to_i64 (p0 + pos (the_file p i s)))
          else if whence = 2 then do {
            (ret, st) \<leftarrow> vop_fstat (node (the_file p i s)) s;
            Some (ret, if ret = 0 then to_i64 (p0 + int (st_size st)) else p0)
          } else Some (- E_INVAL, p0));
       (ret, s) \<leftarrow> (if ret = 0 then do {
           (ret, s) \<leftarrow> vop_tryseek (node (the_file p i s)) p1 s;
           Some (ret, if ret = 0 then upd_file p i (\<lambda>f. f\<lparr>pos := p1\<rparr>) s else s)
         } else Some (ret, s));
       s \<leftarrow> fd_array_release p i s;
       Some (ret, s)
     }
   }"

definition file_fstat :: "int \<Rightarrow> fsst \<Rightarrow> (int \<times> stat \<times> fsst) option" where
  "file_fstat d s = do {
     (ret, p, i) \<leftarrow> fd2file d s;
     if ret \<noteq> 0 then Some (ret, stat0, s) else do {
       s \<leftarrow> fd_array_acquire p i s;
       (ret, st) \<leftarrow> vop_fstat (node (the_file p i s)) s;
       s \<leftarrow> fd_array_release p i s;
       Some (ret, st, s)
     }
   }"

definition file_fsync :: "int \<Rightarrow> fsst \<Rightarrow> (int \<times> fsst) option" where
  "file_fsync d s = do {
     (ret, p, i) \<leftarrow> fd2file d s;
     if ret \<noteq> 0 then Some (ret, s) else do {
       s \<leftarrow> fd_array_acquire p i s;
       (ret, s) \<leftarrow> vop_fsync (node (the_file p i s)) s;
       s \<leftarrow> fd_array_release p i s;
       Some (ret, s)
     }
   }"

text \<open>\<open>struct dirent\<close>: the offset in eight bytes, then the name.\<close>

definition ld64 :: "bytes \<Rightarrow> nat \<Rightarrow> nat" where
  "ld64 m a = ld32 m a + 2 ^ 32 * ld32 m (a + 4)"

definition st64 :: "nat \<Rightarrow> nat \<Rightarrow> bytes \<Rightarrow> bytes" where
  "st64 a v m = st32 (a + 4) (v div 2 ^ 32) (st32 a v m)"

definition sizeof_dirent :: nat where "sizeof_dirent = 264"

definition file_getdirentry :: "int \<Rightarrow> nat \<Rightarrow> fsst \<Rightarrow> (int \<times> fsst) option" where
  "file_getdirentry d direntp s = do {
     (ret, p, i) \<leftarrow> fd2file d s;
     if ret \<noteq> 0 then Some (ret, s) else do {
       s \<leftarrow> fd_array_acquire p i s;
       let offset = ld64 (kmem s) direntp;
       (ret, iob, s) \<leftarrow> vop_getdirentry (node (the_file p i s)) (iobuf_init (direntp + 8) 256 (to_i64 (int offset))) s;
       let s = (if ret = 0 then upd_kmem (\<lambda>m. st64 direntp ((ld64 m direntp + iobuf_used iob) mod 2 ^ 64) m) s else s);
       s \<leftarrow> fd_array_release p i s;
       Some (ret, s)
     }
   }"

definition file_dup :: "int \<Rightarrow> int \<Rightarrow> fsst \<Rightarrow> (int \<times> fsst) option" where
  "file_dup d1 d2 s = do {
     (ret, p, i) \<leftarrow> fd2file d1 s;
     if ret \<noteq> 0 then Some (ret, s) else do {
       (ret, j, s) \<leftarrow> fd_array_alloc d2 s;
       if ret \<noteq> 0 then Some (ret, s) else do {
         s \<leftarrow> fd_array_dup p j p i s;
         Some (fd (the_file p j s), s)
       }
     }
   }"

subsection \<open>Tables of processes (kern/fs/fs.c)\<close>

definition files_create :: "fsst \<Rightarrow> (nat option \<times> fsst) option" where
  "files_create s = do {
     (p, s) \<leftarrow> kalloc 4096 s;
     (case p of
        None \<Rightarrow> Some (None, s)
      | Some p \<Rightarrow> Some (Some p, upd_files p
          (\<lambda>x. \<lparr>pwd = None, fd_array = fd_array_init (fd_array x), files_count = 0, files_sem = 1\<rparr>) s))
   }"

fun files_destroy_loop :: "nat \<Rightarrow> nat \<Rightarrow> nat \<Rightarrow> fsst \<Rightarrow> fsst option" where
  "files_destroy_loop p 0 i s = Some s"
| "files_destroy_loop p (Suc k) i s = do {
     s \<leftarrow> (if status (the_file p i s) = FD_OPENED then fd_array_close p i s else Some s);
     kassert (status (the_file p i s) = FD_NONE);
     files_destroy_loop p k (i + 1) s
   }"

definition files_destroy :: "nat \<Rightarrow> fsst \<Rightarrow> fsst option" where
  "files_destroy p s = do {
     kassert (files_count (files s p) = 0);
     s \<leftarrow> (case pwd (files s p) of Some n \<Rightarrow> vop_ref_dec n s | None \<Rightarrow> Some s);
     s \<leftarrow> files_destroy_loop p FILES_STRUCT_NENTRY 0 s;
     kdealloc p s
   }"

fun files_closeall_loop :: "nat \<Rightarrow> nat \<Rightarrow> nat \<Rightarrow> fsst \<Rightarrow> fsst option" where
  "files_closeall_loop p 0 i s = Some s"
| "files_closeall_loop p (Suc k) i s = do {
     s \<leftarrow> (if status (the_file p i s) = FD_OPENED then fd_array_close p i s else Some s);
     files_closeall_loop p k (i + 1) s
   }"

definition files_closeall :: "nat \<Rightarrow> fsst \<Rightarrow> fsst option" where
  "files_closeall p s = do {
     kassert (files_count (files s p) > 0);
     files_closeall_loop p (FILES_STRUCT_NENTRY - 2) 2 s
   }"

fun dup_files_loop :: "nat \<Rightarrow> nat \<Rightarrow> nat \<Rightarrow> nat \<Rightarrow> fsst \<Rightarrow> fsst option" where
  "dup_files_loop to from 0 i s = Some s"
| "dup_files_loop to from (Suc k) i s = do {
     s \<leftarrow> (if status (the_file from i s) = FD_OPENED
          then fd_array_dup to i from i (upd_file to i (\<lambda>f. f\<lparr>status := FD_INIT\<rparr>) s) else Some s);
     dup_files_loop to from k (i + 1) s
   }"

definition dup_files :: "nat \<Rightarrow> nat \<Rightarrow> fsst \<Rightarrow> (int \<times> fsst) option" where
  "dup_files to from s = do {
     kassert (files_count (files s to) = 0 \<and> files_count (files s from) > 0);
     let s = upd_files to (\<lambda>x. x\<lparr>pwd := pwd (files s from)\<rparr>) s;
     let s = (case pwd (files s to) of Some n \<Rightarrow> vop_ref_inc n s | None \<Rightarrow> s);
     s \<leftarrow> dup_files_loop to from FILES_STRUCT_NENTRY 0 s;
     Some (0, s)
   }"

end
