(* ===== verification/Sysfile.thy ===== *)
theory Sysfile
  imports Files Vmm
begin

text \<open>
  The system calls on files (kern/fs/sysfile.c): they copy paths and data between user memory and buffers
  of the kernel and call file.c. \<open>mm\<close> is \<open>current->mm\<close>, whose lock is not part of the state.
\<close>

definition IOBUF_SIZE :: nat where "IOBUF_SIZE = 4096"
definition FS_MAX_FPATH_LEN :: nat where "FS_MAX_FPATH_LEN = 4095"

definition set_copied :: "bytes \<times> vmst \<Rightarrow> fsst \<Rightarrow> fsst" where
  "set_copied r s = s\<lparr>kmem := fst r, heap := (heap s)\<lparr>vm := snd r\<rparr>\<rparr>"

definition user_to_kernel :: "nat option \<Rightarrow> nat \<Rightarrow> nat \<Rightarrow> nat \<Rightarrow> bool \<Rightarrow> fsst \<Rightarrow> (bool \<times> fsst) option" where
  "user_to_kernel mm dst src len wr s = do {
     (ok, r) \<leftarrow> copy_from_user mm dst src len wr (kmem s, vm (heap s));
     Some (ok, set_copied r s)
   }"

definition kernel_to_user :: "nat option \<Rightarrow> nat \<Rightarrow> nat \<Rightarrow> nat \<Rightarrow> fsst \<Rightarrow> (bool \<times> fsst) option" where
  "kernel_to_user mm dst src len s = do {
     (ok, r) \<leftarrow> copy_to_user mm dst src len (kmem s, vm (heap s));
     Some (ok, set_copied r s)
   }"

definition copy_path :: "nat option \<Rightarrow> nat \<Rightarrow> fsst \<Rightarrow> (int \<times> nat \<times> fsst) option" where
  "copy_path mm from s = do {
     (b, s) \<leftarrow> kalloc (FS_MAX_FPATH_LEN + 1) s;
     (case b of
        None \<Rightarrow> Some (- E_NO_MEM, 0, s)
      | Some b \<Rightarrow> do {
          (ok, r) \<leftarrow> copy_string mm b from (FS_MAX_FPATH_LEN + 1) (kmem s, vm (heap s));
          let s = set_copied r s;
          if ok then Some (0, b, s) else do { s \<leftarrow> kdealloc b s; Some (- E_INVAL, 0, s) }
        })
   }"

definition sysfile_open :: "nat option \<Rightarrow> nat \<Rightarrow> 32 word \<Rightarrow> fsst \<Rightarrow> (int \<times> fsst) option" where
  "sysfile_open mm upath open_flags s = do {
     (ret, pathp, s) \<leftarrow> copy_path mm upath s;
     if ret \<noteq> 0 then Some (ret, s) else do {
       (ret, s) \<leftarrow> file_open pathp open_flags s;
       s \<leftarrow> kdealloc pathp s;
       Some (ret, s)
     }
   }"

definition sysfile_close :: "int \<Rightarrow> fsst \<Rightarrow> (int \<times> fsst) option" where
  "sysfile_close d s = file_close d s"

text \<open>The loop of \<open>sysfile_read\<close>: the error code, the number of bytes copied and the state.\<close>

partial_function (option) sysfile_read_loop ::
    "nat option \<Rightarrow> int \<Rightarrow> nat \<Rightarrow> nat \<Rightarrow> nat \<Rightarrow> nat \<Rightarrow> fsst \<Rightarrow> (int \<times> nat \<times> fsst) option" where
  "sysfile_read_loop mm d base len buffer copied s =
     (if len \<noteq> 0 then do {
        r \<leftarrow> file_read d buffer (if IOBUF_SIZE > len then len else IOBUF_SIZE) s;
        (case r of (ret, alen, s) \<Rightarrow> do {
          r \<leftarrow> (if alen \<noteq> 0 then do {
              u \<leftarrow> kernel_to_user mm base buffer alen s;
              (case u of (ok, s) \<Rightarrow>
                if ok then do { x \<leftarrow> kassert (len \<ge> alen); Some (ret, base + alen, len - alen, copied + alen, s) }
                else Some (if ret = 0 then - E_INVAL else ret, base, len, copied, s))
            } else Some (ret, base, len, copied, s));
          (case r of (ret, base, len, copied, s) \<Rightarrow>
            if ret \<noteq> 0 \<or> alen = 0 then Some (ret, copied, s)
            else sysfile_read_loop mm d base len buffer copied s)
        })
      } else Some (0, copied, s))"

declare sysfile_read_loop.simps [code]

definition sysfile_read :: "nat option \<Rightarrow> int \<Rightarrow> nat \<Rightarrow> nat \<Rightarrow> fsst \<Rightarrow> (int \<times> fsst) option" where
  "sysfile_read mm d base len s =
     (if len = 0 then Some (0, s) else do {
        ok \<leftarrow> file_testfd d True False s;
        if \<not> ok then Some (- E_INVAL, s) else do {
          (b, s) \<leftarrow> kalloc IOBUF_SIZE s;
          (case b of
             None \<Rightarrow> Some (- E_NO_MEM, s)
           | Some buffer \<Rightarrow> do {
               (ret, copied, s) \<leftarrow> sysfile_read_loop mm d base len buffer 0 s;
               s \<leftarrow> kdealloc buffer s;
               Some (if copied \<noteq> 0 then to_i32 (int copied) else ret, s)
             })
        }
      })"

partial_function (option) sysfile_write_loop ::
    "nat option \<Rightarrow> int \<Rightarrow> nat \<Rightarrow> nat \<Rightarrow> nat \<Rightarrow> nat \<Rightarrow> fsst \<Rightarrow> (int \<times> nat \<times> fsst) option" where
  "sysfile_write_loop mm d base len buffer copied s =
     (if len \<noteq> 0 then do {
        u \<leftarrow> user_to_kernel mm buffer base (if IOBUF_SIZE > len then len else IOBUF_SIZE) False s;
        (case u of (ok, s) \<Rightarrow>
          if \<not> ok then Some (- E_INVAL, copied, s) else do {
            r \<leftarrow> file_write d buffer (if IOBUF_SIZE > len then len else IOBUF_SIZE) s;
            (case r of (ret, alen, s) \<Rightarrow> do {
              x \<leftarrow> kassert (len \<ge> alen);
              if ret \<noteq> 0 \<or> alen = 0 then Some (ret, copied + alen, s)
              else sysfile_write_loop mm d (base + alen) (len - alen) buffer (copied + alen) s
            })
          })
      } else Some (0, copied, s))"

declare sysfile_write_loop.simps [code]

definition sysfile_write :: "nat option \<Rightarrow> int \<Rightarrow> nat \<Rightarrow> nat \<Rightarrow> fsst \<Rightarrow> (int \<times> fsst) option" where
  "sysfile_write mm d base len s =
     (if len = 0 then Some (0, s) else do {
        ok \<leftarrow> file_testfd d False True s;
        if \<not> ok then Some (- E_INVAL, s) else do {
          (b, s) \<leftarrow> kalloc IOBUF_SIZE s;
          (case b of
             None \<Rightarrow> Some (- E_NO_MEM, s)
           | Some buffer \<Rightarrow> do {
               (ret, copied, s) \<leftarrow> sysfile_write_loop mm d base len buffer 0 s;
               s \<leftarrow> kdealloc buffer s;
               Some (if copied \<noteq> 0 then to_i32 (int copied) else ret, s)
             })
        }
      })"

definition sysfile_seek :: "int \<Rightarrow> int \<Rightarrow> int \<Rightarrow> fsst \<Rightarrow> (int \<times> fsst) option" where
  "sysfile_seek d p whence s = file_seek d p whence s"

text \<open>\<open>__local_stat\<close> lies on the kernel stack.\<close>

definition kstack_stat :: nat where "kstack_stat = KVA + 0x100"

definition put_stat :: "nat \<Rightarrow> stat \<Rightarrow> bytes \<Rightarrow> bytes" where
  "put_stat a st m =
     st64 (a + 24) (st_size st) (st64 (a + 16) (st_blocks st) (st64 (a + 8) (st_nlinks st)
       (st32 a (unat (st_mode st)) (memset m a 0 32))))"

definition sysfile_fstat :: "nat option \<Rightarrow> int \<Rightarrow> nat \<Rightarrow> fsst \<Rightarrow> (int \<times> fsst) option" where
  "sysfile_fstat mm d ustat s = do {
     (ret, st, s) \<leftarrow> file_fstat d s;
     if ret \<noteq> 0 then Some (ret, s) else do {
       (ok, s) \<leftarrow> kernel_to_user mm ustat kstack_stat 32 (upd_kmem (put_stat kstack_stat st) s);
       Some (if ok then 0 else - E_INVAL, s)
     }
   }"

definition sysfile_fsync :: "int \<Rightarrow> fsst \<Rightarrow> (int \<times> fsst) option" where
  "sysfile_fsync d s = file_fsync d s"

definition sysfile_chdir :: "nat option \<Rightarrow> nat \<Rightarrow> fsst \<Rightarrow> (int \<times> fsst) option" where
  "sysfile_chdir mm upath s = do {
     (ret, pathp, s) \<leftarrow> copy_path mm upath s;
     if ret \<noteq> 0 then Some (ret, s) else do {
       (ret, s) \<leftarrow> vfs_chdir pathp s;
       s \<leftarrow> kdealloc pathp s;
       Some (ret, s)
     }
   }"

text \<open>\<open>sysfile_link\<close> and \<open>sysfile_rename\<close>: \<open>op\<close> is what the virtual file system answers.\<close>

definition two_paths :: "int \<Rightarrow> nat option \<Rightarrow> nat \<Rightarrow> nat \<Rightarrow> fsst \<Rightarrow> (int \<times> fsst) option" where
  "two_paths op mm upath1 upath2 s = do {
     (ret, old, s) \<leftarrow> copy_path mm upath1 s;
     if ret \<noteq> 0 then Some (ret, s) else do {
       (ret, new, s) \<leftarrow> copy_path mm upath2 s;
       if ret \<noteq> 0 then do { s \<leftarrow> kdealloc old s; Some (ret, s) }
       else do { s \<leftarrow> kdealloc old s; s \<leftarrow> kdealloc new s; Some (op, s) }
     }
   }"

definition sysfile_link :: "nat option \<Rightarrow> nat \<Rightarrow> nat \<Rightarrow> fsst \<Rightarrow> (int \<times> fsst) option" where
  "sysfile_link mm upath1 upath2 s = two_paths vfs_link mm upath1 upath2 s"

definition sysfile_rename :: "nat option \<Rightarrow> nat \<Rightarrow> nat \<Rightarrow> fsst \<Rightarrow> (int \<times> fsst) option" where
  "sysfile_rename mm upath1 upath2 s = two_paths vfs_rename mm upath1 upath2 s"

definition sysfile_unlink :: "nat option \<Rightarrow> nat \<Rightarrow> fsst \<Rightarrow> (int \<times> fsst) option" where
  "sysfile_unlink mm upath s = do {
     (ret, pathp, s) \<leftarrow> copy_path mm upath s;
     if ret \<noteq> 0 then Some (ret, s) else do { s \<leftarrow> kdealloc pathp s; Some (vfs_unlink, s) }
   }"

definition sysfile_getcwd :: "nat option \<Rightarrow> nat \<Rightarrow> nat \<Rightarrow> fsst \<Rightarrow> (int \<times> fsst) option" where
  "sysfile_getcwd mm ubuf len s =
     (if len = 0 then Some (- E_INVAL, s) else do {
        (ok, v) \<leftarrow> user_mem_check mm ubuf len True (vm (heap s));
        let s = set_copied (kmem s, v) s;
        if ok then do { (ret, iob, s) \<leftarrow> vfs_getcwd (iobuf_init ubuf len 0) s; Some (ret, s) }
        else Some (- E_INVAL, s)
      })"

definition sysfile_getdirentry :: "nat option \<Rightarrow> int \<Rightarrow> nat \<Rightarrow> fsst \<Rightarrow> (int \<times> fsst) option" where
  "sysfile_getdirentry mm d udirent s = do {
     (b, s) \<leftarrow> kalloc sizeof_dirent s;
     (case b of
        None \<Rightarrow> Some (- E_NO_MEM, s)
      | Some direntp \<Rightarrow> do {
          (ok, s) \<leftarrow> user_to_kernel mm direntp udirent 8 True s;
          (ret, s) \<leftarrow> (if \<not> ok then Some (- E_INVAL, s) else file_getdirentry d direntp s);
          (ret, s) \<leftarrow> (if ret \<noteq> 0 then Some (ret, s) else do {
              (ok, s) \<leftarrow> kernel_to_user mm udirent direntp sizeof_dirent s;
              Some (if ok then 0 else - E_INVAL, s)
            });
          s \<leftarrow> kdealloc direntp s;
          Some (ret, s)
        })
   }"

definition sysfile_dup :: "int \<Rightarrow> int \<Rightarrow> fsst \<Rightarrow> (int \<times> fsst) option" where
  "sysfile_dup d1 d2 s = file_dup d1 d2 s"

definition sysfile_pipe :: int where "sysfile_pipe = - E_UNIMP"
definition sysfile_mkfifo :: int where "sysfile_mkfifo = - E_UNIMP"

end
