(* ===== verification/Inode_Types.thy ===== *)
theory Inode_Types
  imports Sysfile Sfs_Facts
begin

text \<open>
  The types of inodes. A \<open>struct inode\<close> holds a union, whose tag \<open>in_type\<close> the macro \<open>vop_info\<close> checks, and a table
  of operations, which expects one member of the union. A state is well typed when tag and table of every inode
  it refers to agree; every operation of the file system keeps it so. The first part, which also shows that
  releasing an inode does not touch the tables of open files, serves the facts on open files as well.
\<close>

subsection \<open>Well-typed states\<close>

definition kind :: "inode \<Rightarrow> inode_type \<times> inode_ops option \<times> nat option" where
  "kind i = (in_type i, in_ops i, in_fs i)"

fun kind_ok :: "inode_type \<times> inode_ops option \<times> nat option \<Rightarrow> bool" where
  "kind_ok (ty, None, f) \<longleftrightarrow> False"
| "kind_ok (ty, Some Dev_node_ops, f) \<longleftrightarrow> ty = Device_info"
| "kind_ok (ty, Some Sfs_node_dirops, f) \<longleftrightarrow> ty = Sfs_inode_info \<and> f \<noteq> None"
| "kind_ok (ty, Some Sfs_node_fileops, f) \<longleftrightarrow> ty = Sfs_inode_info \<and> f \<noteq> None"

definition node_typed :: "nat \<Rightarrow> fsst \<Rightarrow> bool" where
  "node_typed n s \<longleftrightarrow> kind_ok (kind (inodes s n))"

text \<open>The inodes a state refers to: from a hash chain, a current directory, an open file, a named device, or as
  boot directory.\<close>

definition node_refs :: "fsst \<Rightarrow> nat set" where
  "node_refs s = {n. \<exists>x. nxt (flinks s) x = SinHashLink n \<or> prv (flinks s) x = SinHashLink n} \<union>
     {n. \<exists>p. pwd (files s p) = Some n} \<union> {n. \<exists>p i. node (the_file p i s) = Some n} \<union>
     {n. \<exists>v. devnode (vdevs s v) = Some n} \<union> {n. bootfs_node s = Some n}"

definition typed_state :: "fsst \<Rightarrow> bool" where
  "typed_state s \<longleftrightarrow> (\<forall>n \<in> node_refs s. node_typed n s)"

definition types_kept :: "fsst \<Rightarrow> fsst \<Rightarrow> bool" where
  "types_kept s s' \<longleftrightarrow> (typed_state s \<longrightarrow> typed_state s' \<and> (\<forall>n. node_typed n s \<longrightarrow> node_typed n s'))"

text \<open>An inode that an operation returns.\<close>

definition typed_result :: "nat option \<Rightarrow> fsst \<Rightarrow> fsst \<Rightarrow> bool" where
  "typed_result nd s s' \<longleftrightarrow> types_kept s s' \<and> (typed_state s \<longrightarrow> (\<forall>n. nd = Some n \<longrightarrow> node_typed n s'))"

lemma types_kept_refl [simp]: "types_kept s s"
  by (simp add: types_kept_def)

lemma types_kept_trans: "types_kept s s' \<Longrightarrow> types_kept s' s'' \<Longrightarrow> types_kept s s''"
  by (simp add: types_kept_def)

lemma kind_simps [simp]:
  "kind (i\<lparr>ref_count := v\<rparr>) = kind i" "kind (i\<lparr>open_count := v\<rparr>) = kind i" "kind (i\<lparr>sfs_inode_info := x\<rparr>) = kind i"
  "kind (i\<lparr>device_info := y\<rparr>) = kind i"
  by (simp_all add: kind_def)

lemma node_typed_cong: "kind (inodes s n) = kind (inodes s' n) \<Longrightarrow> node_typed n s = node_typed n s'"
  by (simp add: node_typed_def)

lemma node_typed_upd [simp]:
  "node_typed n (upd_kmem g s) = node_typed n s" "node_typed n (upd_fs f h s) = node_typed n s"
  "node_typed n (upd_flinks l s) = node_typed n s" "node_typed n (s\<lparr>heap := hp\<rparr>) = node_typed n s"
  "node_typed n (s\<lparr>files := fl\<rparr>) = node_typed n s" "node_typed n (s\<lparr>vdevs := vs\<rparr>) = node_typed n s"
  "node_typed n (s\<lparr>bootfs_node := b\<rparr>) = node_typed n s" "node_typed n (s\<lparr>bootfs_sem := v\<rparr>) = node_typed n s"
  "node_typed n (s\<lparr>vdev_list_sem := v\<rparr>) = node_typed n s" "node_typed n (upd_files p fu s) = node_typed n s"
  "node_typed n (s\<lparr>filesp := fp\<rparr>) = node_typed n s"
  by (simp_all add: node_typed_def upd_flinks_def upd_files_def)

lemma node_typed_upd_inode: "(\<And>i. kind (k i) = kind i) \<Longrightarrow> node_typed n (upd_inode m k s) = node_typed n s"
  by (rule node_typed_cong) simp

lemma node_refs_upd [simp]:
  "node_refs (upd_kmem g s) = node_refs s" "node_refs (upd_fs f h s) = node_refs s" "node_refs (upd_inode n k s) = node_refs s"
  "node_refs (s\<lparr>heap := hp\<rparr>) = node_refs s" "node_refs (s\<lparr>bootfs_sem := v\<rparr>) = node_refs s"
  "node_refs (s\<lparr>vdev_list_sem := v\<rparr>) = node_refs s" "node_refs (s\<lparr>filesp := fp\<rparr>) = node_refs s"
  by (simp_all add: node_refs_def the_file_def)

lemma typed_state_upd [simp]:
  "typed_state (upd_kmem g s) = typed_state s" "typed_state (upd_fs f h s) = typed_state s"
  "typed_state (s\<lparr>heap := hp\<rparr>) = typed_state s" "typed_state (s\<lparr>bootfs_sem := v\<rparr>) = typed_state s"
  "typed_state (s\<lparr>vdev_list_sem := v\<rparr>) = typed_state s" "typed_state (s\<lparr>filesp := fp\<rparr>) = typed_state s"
  by (simp_all add: typed_state_def)

lemma typed_state_upd_inode: "(\<And>i. kind (k i) = kind i) \<Longrightarrow> typed_state (upd_inode m k s) = typed_state s"
  by (simp add: typed_state_def node_typed_upd_inode)

lemma types_kept_upd [simp]:
  "types_kept s (upd_kmem g s') = types_kept s s'" "types_kept s (upd_fs f h s') = types_kept s s'"
  "types_kept s (s'\<lparr>heap := hp\<rparr>) = types_kept s s'" "types_kept s (s'\<lparr>bootfs_sem := v\<rparr>) = types_kept s s'"
  "types_kept s (s'\<lparr>vdev_list_sem := v\<rparr>) = types_kept s s'"
  "types_kept (upd_kmem g s) s' = types_kept s s'" "types_kept (upd_fs f h s) s' = types_kept s s'"
  "types_kept (s\<lparr>heap := hp\<rparr>) s' = types_kept s s'" "types_kept (s\<lparr>bootfs_sem := v\<rparr>) s' = types_kept s s'"
  "types_kept (s\<lparr>vdev_list_sem := v\<rparr>) s' = types_kept s s'"
  by (simp_all add: types_kept_def)

lemma types_kept_upd_inode [simp]:
  "(\<And>i. kind (k i) = kind i) \<Longrightarrow> types_kept s (upd_inode n k s') = types_kept s s'"
  "(\<And>i. kind (k i) = kind i) \<Longrightarrow> types_kept (upd_inode n k s) s' = types_kept s s'"
  by (simp_all add: types_kept_def node_typed_upd_inode typed_state_upd_inode)

lemma same_nodes_types: "same_nodes s s' \<Longrightarrow> types_kept s s'"
  by (simp add: same_nodes_def types_kept_def typed_state_def node_refs_def node_typed_def the_file_def)

text \<open>Taking an entry out of a list adds no reference.\<close>

lemma list_del_refs:
  "nxt (list_del e h) x = y \<Longrightarrow> \<exists>z. nxt h z = y" "prv (list_del e h) x = y \<Longrightarrow> \<exists>z. prv h z = y"
  by (auto simp: list_del_def list_del_between_def Let_def split: if_splits)

lemma sfs_remove_links_types: "types_kept s (sfs_remove_links n s)"
proof -
  have "node_refs (upd_flinks (list_del e) t) \<subseteq> node_refs t" for e t
    unfolding node_refs_def upd_flinks_def by (auto dest!: list_del_refs simp: the_file_def)
  then have "node_refs (sfs_remove_links n s) \<subseteq> node_refs s"
    unfolding sfs_remove_links_def Let_def by (meson subset_trans)
  moreover have "node_typed m (sfs_remove_links n s) = node_typed m s" for m by (simp add: sfs_remove_links_def Let_def)
  ultimately show ?thesis by (auto simp: types_kept_def typed_state_def)
qed

subsection \<open>Releasing an inode\<close>

definition same_files :: "fsst \<Rightarrow> fsst \<Rightarrow> bool" where
  "same_files s s' \<longleftrightarrow> files s' = files s \<and> filesp s' = filesp s \<and> types_kept s s'"

lemma same_files_refl [simp]: "same_files s s"
  by (simp add: same_files_def)

lemma same_files_trans: "same_files s s' \<Longrightarrow> same_files s' s'' \<Longrightarrow> same_files s s''"
  by (auto simp: same_files_def intro: types_kept_trans)

lemma same_nodes_files: "same_nodes s s' \<Longrightarrow> same_files s s'"
  using same_nodes_types by (simp add: same_nodes_def same_files_def)

lemma same_files_upd [simp]:
  "same_files s (upd_kmem g s') = same_files s s'" "same_files s (upd_fs f h s') = same_files s s'"
  "same_files s (s'\<lparr>heap := hp\<rparr>) = same_files s s'" "same_files (upd_kmem g s) s' = same_files s s'"
  "same_files (upd_fs f h s) s' = same_files s s'" "same_files (s\<lparr>heap := hp\<rparr>) s' = same_files s s'"
  by (simp_all add: same_files_def)

lemma same_files_upd_inode [simp]:
  "(\<And>i. kind (k i) = kind i) \<Longrightarrow> same_files s (upd_inode n k s') = same_files s s'"
  "(\<And>i. kind (k i) = kind i) \<Longrightarrow> same_files (upd_inode n k s) s' = same_files s s'"
  by (simp_all add: same_files_def)

lemma same_files_ops [simp]:
  "same_files s (mark_dirty n s') = same_files s s'" "same_files s (upd_sin n g s') = same_files s s'"
  "same_files (mark_dirty n s) s' = same_files s s'" "same_files (upd_sin n g s) s' = same_files s s'"
  "same_files s (set_unused_blocks f v s') = same_files s s'" "same_files (set_unused_blocks f v s) s' = same_files s s'"
  "same_files s (set_din_size d v s') = same_files s s'" "same_files s (set_din_blocks d v s') = same_files s s'"
  "same_files s (set_din_direct d i v s') = same_files s s'" "same_files s (set_din_indirect d v s') = same_files s s'"
  "same_files s (unlock_sin n s') = same_files s s'" "same_files s (unlock_sfs_fs f s') = same_files s s'"
  "same_files s (unlock_sfs_io f s') = same_files s s'" "same_files (unlock_sfs_fs f s) s' = same_files s s'"
  by (simp_all add: mark_dirty_def upd_sin_def set_unused_blocks_def set_din_size_def set_din_blocks_def
      set_din_direct_def set_din_indirect_def unlock_sin_def unlock_sfs_fs_def unlock_sfs_io_def Let_def)

lemma remove_links_files: "same_files s (sfs_remove_links n s)"
  using sfs_remove_links_types by (simp add: same_files_def sfs_remove_links_def upd_flinks_def Let_def)

named_theorems files_frame \<open>operations that keep the tables of open files\<close>

lemma lock_sin_files [files_frame]: "lock_sin n s = Some s' \<Longrightarrow> same_files s s'"
  by (auto simp: lock_sin_def bind_eq_Some_conv)

lemma lock_fs_files [files_frame]: "lock_sfs_fs f s = Some s' \<Longrightarrow> same_files s s'"
  by (auto simp: lock_sfs_fs_def bind_eq_Some_conv)

lemma lock_io_files [files_frame]: "lock_sfs_io f s = Some s' \<Longrightarrow> same_files s s'"
  by (auto simp: lock_sfs_io_def bind_eq_Some_conv)

lemma kdealloc_files [files_frame]: "kdealloc a s = Some s' \<Longrightarrow> same_files s s'"
  by (auto simp: kdealloc_def bind_eq_Some_conv)

lemma rwblock_files [files_frame]: "sfs_rwblock_nolock f bp b wr c s = Some (r, s') \<Longrightarrow> same_files s s'"
  by (rule same_nodes_files [OF sfs_rwblock_nolock_same])

lemma rbuf_files [files_frame]: "sfs_rbuf f bp len b off s = Some (r, s') \<Longrightarrow> same_files s s'"
  by (rule same_nodes_files [OF sfs_rbuf_same])

lemma wbuf_files [files_frame]: "sfs_wbuf f bp len b off s = Some (r, s') \<Longrightarrow> same_files s s'"
  by (rule same_nodes_files [OF sfs_wbuf_same])

lemma rbuf32_files [files_frame]: "sfs_rbuf32 f b off s = Some (r, v, s') \<Longrightarrow> same_files s s'"
  by (auto simp: sfs_rbuf32_def bind_eq_Some_conv dest: files_frame)

lemma wbuf32_files [files_frame]: "sfs_wbuf32 f v b off s = Some (r, s') \<Longrightarrow> same_files s s'"
  by (auto simp: sfs_wbuf32_def dest!: files_frame)

lemma clear_loop_files: "sfs_clear_loop f b k s = Some (r, s') \<Longrightarrow> same_files s s'"
  by (induction f b k s rule: sfs_clear_loop.induct)
     (auto simp: bind_eq_Some_conv split: if_splits dest: files_frame intro: same_files_trans)

lemma clear_block_files [files_frame]: "sfs_clear_block f b k s = Some (r, s') \<Longrightarrow> same_files s s'"
  by (auto simp: sfs_clear_block_def bind_eq_Some_conv Let_def split: if_splits
      dest!: clear_loop_files lock_io_files intro: same_files_trans)

lemma block_alloc_files [files_frame]: "sfs_block_alloc f s = Some (r, i, s') \<Longrightarrow> same_files s s'"
  by (auto simp: sfs_block_alloc_def bind_eq_Some_conv Let_def split: if_splits dest!: clear_block_files)

lemma block_free_files [files_frame]: "sfs_block_free f i s = Some s' \<Longrightarrow> same_files s s'"
  by (auto simp: sfs_block_free_def bind_eq_Some_conv Let_def)

lemma bmap_cleanup_files [files_frame]: "bmap_cleanup f e ent r s = Some (r', x, y, s') \<Longrightarrow> same_files s s'"
  by (auto simp: bmap_cleanup_def bind_eq_Some_conv split: if_splits dest: files_frame)

lemma bmap_new_entry_files [files_frame]: "bmap_new_entry f e ent off s = Some (r, x, y, s') \<Longrightarrow> same_files s s'"
  unfolding bmap_new_entry_def
  by (auto simp: bind_eq_Some_conv split: if_splits dest!: files_frame intro: same_files_trans)

lemma bmap_get_sub_files [files_frame]: "sfs_bmap_get_sub_nolock f e ix c s = Some (r, x, y, s') \<Longrightarrow> same_files s s'"
  unfolding sfs_bmap_get_sub_nolock_def Let_def
  by (auto simp: bind_eq_Some_conv split: if_splits dest!: files_frame intro: same_files_trans)

lemma bmap_get_files [files_frame]: "sfs_bmap_get_nolock f n ix c s = Some (r, i, s') \<Longrightarrow> same_files s s'"
  unfolding sfs_bmap_get_nolock_def Let_def
  by (auto simp: bind_eq_Some_conv split: if_splits dest!: files_frame intro: same_files_trans)

lemma bmap_free_sub_files [files_frame]: "sfs_bmap_free_sub_nolock f e ix s = Some (r, s') \<Longrightarrow> same_files s s'"
  unfolding sfs_bmap_free_sub_nolock_def Let_def
  by (auto simp: bind_eq_Some_conv split: if_splits dest!: files_frame intro: same_files_trans)

lemma bmap_free_files [files_frame]: "sfs_bmap_free_nolock f n ix s = Some (r, s') \<Longrightarrow> same_files s s'"
  unfolding sfs_bmap_free_nolock_def Let_def
  by (auto simp: bind_eq_Some_conv split: if_splits dest!: files_frame intro: same_files_trans)

lemma bmap_load_files [files_frame]: "sfs_bmap_load_nolock f n ix s = Some (r, i, s') \<Longrightarrow> same_files s s'"
  unfolding sfs_bmap_load_nolock_def Let_def
  by (auto simp: bind_eq_Some_conv split: if_splits dest!: files_frame intro: same_files_trans)

lemma bmap_truncate_files [files_frame]: "sfs_bmap_truncate_nolock f n s = Some (r, s') \<Longrightarrow> same_files s s'"
  unfolding sfs_bmap_truncate_nolock_def Let_def
  by (auto simp: bind_eq_Some_conv split: if_splits dest!: files_frame intro: same_files_trans)

lemma enlarge_files [files_frame]: "trunc_enlarge f n b k s = Some (r, s') \<Longrightarrow> same_files s s'"
  by (induction f n b k s rule: trunc_enlarge.induct)
     (auto simp: bind_eq_Some_conv split: if_splits dest: bmap_load_files intro: same_files_trans)

lemma reduce_files [files_frame]: "trunc_reduce f n k s = Some (r, s') \<Longrightarrow> same_files s s'"
  by (induction f n k s rule: trunc_reduce.induct)
     (auto simp: bind_eq_Some_conv split: if_splits dest: bmap_truncate_files intro: same_files_trans)

lemma truncfile_files [files_frame]: "sfs_truncfile n len s = Some (r, s') \<Longrightarrow> same_files s s'"
  unfolding sfs_truncfile_def Let_def
  by (auto simp: bind_eq_Some_conv split: if_splits dest!: files_frame intro: same_files_trans)

lemma fsync_files [files_frame]: "sfs_fsync n s = Some (r, s') \<Longrightarrow> same_files s s'"
  unfolding sfs_fsync_def Let_def
  by (auto simp: bind_eq_Some_conv split: if_splits dest!: files_frame intro: same_files_trans)

lemma vop_fsync_files [files_frame]:
  assumes "vop_fsync nd s = Some (r, s')"
  shows "same_files s s'"
proof -
  obtain n ops where "(case ops of Dev_node_ops \<Rightarrow> None | _ \<Rightarrow> sfs_fsync n s) = Some (r, s')"
    using assms by (auto simp: vop_fsync_def bind_eq_Some_conv)
  then show ?thesis by (cases ops) (auto simp: bind_eq_Some_conv dest: files_frame)
qed

lemma vop_truncate_files [files_frame]:
  assumes "vop_truncate nd l s = Some (r, s')"
  shows "same_files s s'"
proof -
  obtain n ops where "(case ops of Sfs_node_fileops \<Rightarrow> sfs_truncfile n l s | _ \<Rightarrow> None) = Some (r, s')"
    using assms by (auto simp: vop_truncate_def bind_eq_Some_conv)
  then show ?thesis by (cases ops) (auto simp: bind_eq_Some_conv dest: files_frame)
qed

lemma inode_kill_files [files_frame]: "inode_kill n s = Some s' \<Longrightarrow> same_files s s'"
  by (auto simp: inode_kill_def split: if_splits dest: files_frame)

lemma reclaim_files [files_frame]:
  assumes "sfs_reclaim n s = Some (r, s')"
  shows "same_files s s'"
proof -
  define g3 where "g3 f s = do {
      let s = unlock_sfs_fs f (sfs_remove_links n s);
      s \<leftarrow> (if din_nlinks (din (sin n s)) s = 0 then do {
          s \<leftarrow> sfs_block_free f (ino (sin n s)) s;
          let ent = din_indirect (din (sin n s)) s;
          if ent \<noteq> 0 then sfs_block_free f ent s else Some s
        } else Some s);
      s \<leftarrow> kdealloc (din (sin n s)) s;
      s \<leftarrow> inode_kill n s;
      Some (0 :: int, s)
    }" for f s
  define g2 where "g2 f s = do {
      (ret, s) \<leftarrow> (if dirty (sin n s) then vop_fsync (Some n) s else Some (0, s));
      if ret \<noteq> 0 then Some (ret, unlock_sfs_fs f s) else g3 f s
    }" for f s
  define g1 where "g1 f s = do {
      (ret, s) \<leftarrow> (if din_nlinks (din (sin n s)) s = 0 then vop_truncate (Some n) 0 s else Some (0, s));
      if ret \<noteq> 0 then Some (ret, unlock_sfs_fs f s) else g2 f s
    }" for f s
  have eq: "sfs_reclaim n s = do {
      f \<leftarrow> in_fs (inodes s n);
      _ \<leftarrow> sfs_inode_of n s;
      s \<leftarrow> lock_sfs_fs f s;
      kassert (reclaim_count (sin n s) > 0);
      let s = upd_sin n (\<lambda>i. i\<lparr>reclaim_count := reclaim_count i - 1\<rparr>) s;
      if reclaim_count (sin n s) \<noteq> 0 \<or> ref_count (inodes s n) \<noteq> 0 then Some (- E_BUSY, unlock_sfs_fs f s)
      else g1 f s
    }"
    by (simp only: sfs_reclaim_def g1_def g2_def g3_def)
  have g3: "same_files a b" if "g3 f a = Some (r, b)" for f a b r
    using that unfolding g3_def Let_def
    by (auto simp: bind_eq_Some_conv split: if_splits dest!: files_frame) (meson remove_links_files same_files_trans)+
  have g2: "same_files a b" if "g2 f a = Some (r, b)" for f a b r
    using that unfolding g2_def
    by (auto simp: bind_eq_Some_conv split: if_splits dest!: files_frame g3 intro: same_files_trans)
  have g1: "same_files a b" if "g1 f a = Some (r, b)" for f a b r
    using that unfolding g1_def
    by (auto simp: bind_eq_Some_conv split: if_splits dest!: files_frame g2 intro: same_files_trans)
  show ?thesis
    using assms unfolding eq Let_def
    by (auto simp: bind_eq_Some_conv split: if_splits dest!: lock_fs_files g1 intro: same_files_trans)
qed

lemma vop_reclaim_files [files_frame]:
  assumes "vop_reclaim nd s = Some (r, s')"
  shows "same_files s s'"
proof -
  obtain n ops where "(case ops of Dev_node_ops \<Rightarrow> None | _ \<Rightarrow> sfs_reclaim n s) = Some (r, s')"
    using assms by (auto simp: vop_reclaim_def bind_eq_Some_conv)
  then show ?thesis by (cases ops) (auto simp: bind_eq_Some_conv dest: files_frame)
qed

lemma vop_ref_dec_files [files_frame]: "vop_ref_dec n s = Some s' \<Longrightarrow> same_files s s'"
  unfolding vop_ref_dec_def inode_ref_dec_def Let_def
  by (auto simp: bind_eq_Some_conv split: if_splits dest!: files_frame)

lemma vop_close_files [files_frame]:
  assumes "vop_close nd s = Some (r, s')"
  shows "same_files s s'"
proof -
  obtain n ops where "(case ops of Dev_node_ops \<Rightarrow> do { r \<leftarrow> dev_close n s; Some (r, s) } | _ \<Rightarrow> vop_fsync (Some n) s) = Some (r, s')"
    using assms by (auto simp: vop_close_def sfs_close_def bind_eq_Some_conv)
  then show ?thesis by (cases ops) (auto simp: bind_eq_Some_conv dest: files_frame)
qed

lemma vop_open_dec_files [files_frame]: "vop_open_dec n s = Some s' \<Longrightarrow> same_files s s'"
  unfolding vop_open_dec_def inode_open_dec_def Let_def
  by (auto simp: bind_eq_Some_conv split: if_splits dest!: files_frame)

lemma vfs_close_files [files_frame]: "vfs_close nd s = Some (r, s') \<Longrightarrow> same_files s s'"
  unfolding vfs_close_def by (auto simp: bind_eq_Some_conv dest!: files_frame intro: same_files_trans)

subsection \<open>Looking up inodes\<close>

named_theorems types_frame \<open>operations that keep the types of inodes\<close>

lemma same_files_types: "same_files s s' \<Longrightarrow> types_kept s s'"
  by (simp add: same_files_def)

lemmas sfs_types [types_frame] = files_frame [THEN same_files_types]

lemma types_kept_ops [simp]:
  "types_kept s (vop_ref_inc n s') = types_kept s s'" "types_kept s (vop_open_inc n s') = types_kept s s'"
  "types_kept s (mark_dirty n s') = types_kept s s'" "types_kept s (upd_sin n g s') = types_kept s s'"
  "types_kept (vop_ref_inc n s) s' = types_kept s s'" "types_kept (vop_open_inc n s) s' = types_kept s s'"
  "types_kept (mark_dirty n s) s' = types_kept s s'" "types_kept (upd_sin n g s) s' = types_kept s s'"
  "types_kept s (set_din_size d v s') = types_kept s s'" "types_kept s (unlock_sin n s') = types_kept s s'"
  "types_kept s (unlock_sfs_fs f s') = types_kept s s'" "types_kept (unlock_sin n s) s' = types_kept s s'"
  "types_kept (unlock_sfs_fs f s) s' = types_kept s s'"
  by (simp_all add: vop_ref_inc_def vop_open_inc_def inode_ref_inc_def inode_open_inc_def mark_dirty_def upd_sin_def
      set_din_size_def unlock_sin_def unlock_sfs_fs_def Let_def)

lemma node_typed_ops [simp]:
  "node_typed m (vop_ref_inc n s) = node_typed m s" "node_typed m (vop_open_inc n s) = node_typed m s"
  "node_typed m (upd_sin n g s) = node_typed m s" "node_typed m (unlock_sin n s) = node_typed m s"
  "node_typed m (unlock_sfs_fs f s) = node_typed m s"
  by (simp_all add: vop_ref_inc_def vop_open_inc_def inode_ref_inc_def inode_open_inc_def upd_sin_def
      unlock_sin_def unlock_sfs_fs_def Let_def node_typed_upd_inode)

lemma typed_result_ops [simp]:
  "typed_result None s s' = types_kept s s'" "typed_result nd s (unlock_sfs_fs f s') = typed_result nd s s'"
  by (simp_all add: typed_result_def)

lemma typed_result_left [simp]:
  "typed_result nd (unlock_sin n s) s' = typed_result nd s s'" "typed_result nd (unlock_sfs_fs f s) s' = typed_result nd s s'"
  "typed_result nd (upd_kmem g s) s' = typed_result nd s s'" "typed_result nd (vop_ref_inc n s) s' = typed_result nd s s'"
  by (simp_all add: typed_result_def unlock_sin_def upd_sin_def unlock_sfs_fs_def vop_ref_inc_def inode_ref_inc_def
      typed_state_upd_inode Let_def)

lemma typed_result_left_inode [simp]:
  "(\<And>i. kind (k i) = kind i) \<Longrightarrow> typed_result nd (upd_inode n k s) s' = typed_result nd s s'"
  by (simp add: typed_result_def typed_state_upd_inode)

lemma typed_result_trans: "types_kept s s' \<Longrightarrow> typed_result nd s' s'' \<Longrightarrow> typed_result nd s s''"
  by (auto simp: typed_result_def types_kept_def)

lemma typed_result_kept: "typed_result nd s s' \<Longrightarrow> types_kept s' s'' \<Longrightarrow> typed_result nd s s''"
  by (auto simp: typed_result_def types_kept_def)

lemma typed_result_types: "typed_result nd s s' \<Longrightarrow> types_kept s s'"
  by (simp add: typed_result_def)

lemma kalloc_types [types_frame]: "kalloc n s = Some (a, s') \<Longrightarrow> types_kept s s'"
  by (rule same_nodes_types [OF kalloc_same])

lemma chain_node_typed: "typed_state s \<Longrightarrow> list_next le (flinks s) = SinHashLink n \<Longrightarrow> node_typed n s"
  by (auto simp: typed_state_def node_refs_def list_next_def)

lemma lookup_sfs_types:
  assumes "lookup_sfs_loop f i le s = Some y"
  shows "typed_result (fst y) s (snd y)"
proof (rule lookup_sfs_loop.raw_induct [where P = "\<lambda>_ _ _ s y. typed_result (fst y) s (snd y)", OF _ assms])
  fix loop f i le s y
  assume ih: "\<And>f i le s y. loop f i le s = Some y \<Longrightarrow> typed_result (fst y) s (snd y)"
    and step: "(let le = list_next le (flinks s) in
      if le = sfs_hash_list f i then Some (None, s)
      else (case le of
          SinHashLink n \<Rightarrow>
            if ino (sin n s) = i then
              let (c, s) = inode_ref_inc n s
              in Some (Some n, if c = 1 then upd_sin n (\<lambda>x. x\<lparr>reclaim_count := reclaim_count x + 1\<rparr>) s else s)
            else loop f i le s
        | _ \<Rightarrow> None)) = Some y"
  show "typed_result (fst y) s (snd y)"
  proof (cases "list_next le (flinks s) = sfs_hash_list f i")
    case True
    then show ?thesis using step by (auto simp: Let_def)
  next
    case False
    then obtain n where n: "list_next le (flinks s) = SinHashLink n" using step by (auto simp: Let_def split: fnode.splits)
    show ?thesis
    proof (cases "ino (sin n s) = i")
      case True
      then show ?thesis using step n False chain_node_typed [OF _ n]
        by (auto simp: Let_def inode_ref_inc_def typed_result_def upd_sin_def node_typed_upd_inode)
    next
      case False
      then show ?thesis using step n ih by (auto simp: Let_def split: if_splits)
    qed
  qed
qed

lemma create_inode_types:
  assumes "sfs_create_inode f d i s = Some (r, nd, s')"
  shows "typed_result nd s s'"
proof (cases nd)
  case None
  then show ?thesis using assms
    by (auto simp: sfs_create_inode_def alloc_inode_def bind_eq_Some_conv Let_def split: option.splits dest: kalloc_types)
next
  case (Some n)
  then obtain s1 ops where s1: "kalloc sizeof_inode s = Some (Some n, s1)" and ops: "sfs_get_ops (din_type d (upd_inode n (\<lambda>i. i\<lparr>in_type := Sfs_inode_info\<rparr>) s1)) = Some ops"
    and s': "s' = upd_sin n (\<lambda>_. \<lparr>din = d, ino = i, dirty = False, reclaim_count = 1, sin_sem = 1\<rparr>)
      (inode_init n (Some ops) (Some f) (upd_inode n (\<lambda>i. i\<lparr>in_type := Sfs_inode_info\<rparr>) s1))"
    using assms by (auto simp: sfs_create_inode_def alloc_inode_def bind_eq_Some_conv Let_def split: option.splits)
  have new: "node_typed n s'"
    using ops by (auto simp: s' node_typed_def kind_def inode_init_def inode_ref_inc_def upd_sin_def Let_def sfs_get_ops_def split: if_splits)
  have "node_typed m s' = node_typed m s1" if "m \<noteq> n" for m
    using that by (intro node_typed_cong) (simp add: s' inode_init_def inode_ref_inc_def upd_sin_def Let_def)
  moreover have "node_refs s' = node_refs s1" by (simp add: s' inode_init_def inode_ref_inc_def upd_sin_def Let_def)
  ultimately have "types_kept s1 s'" unfolding types_kept_def typed_state_def using new by metis
  then show ?thesis using kalloc_types [OF s1] new Some types_kept_trans by (auto simp: typed_result_def)
qed

lemma list_add_refs:
  "nxt (list_add p e h) x = y \<Longrightarrow> y = e \<or> (\<exists>z. nxt h z = y)" "prv (list_add p e h) x = y \<Longrightarrow> y = e \<or> y = p \<or> (\<exists>z. prv h z = y)"
  by (auto simp: list_add_def list_add_after_def list_add_between_def Let_def split: if_splits)

lemma set_links_types:
  assumes "node_typed n s"
  shows "types_kept s (sfs_set_links f n s)"
proof -
  have "node_refs (upd_flinks (list_add p e) s) \<subseteq> node_refs s \<union> {m. e = SinHashLink m}"
    if "\<forall>m. p \<noteq> SinHashLink m" for p e and s :: fsst
    using that unfolding node_refs_def upd_flinks_def by (auto dest!: list_add_refs simp: the_file_def)
  then have one: "\<forall>m. p \<noteq> SinHashLink m \<Longrightarrow> node_refs (upd_flinks (list_add p e) t) \<subseteq> node_refs t \<union> {m. e = SinHashLink m}" for p e t
    by blast
  have "node_refs (sfs_set_links f n s) \<subseteq> node_refs (upd_flinks (list_add (InodeList f) (InodeLink n)) s) \<union> {n}"
    unfolding sfs_set_links_def Let_def by (rule order_trans [OF one]) (auto simp: sfs_hash_list_def)
  moreover have "node_refs (upd_flinks (list_add (InodeList f) (InodeLink n)) s) \<subseteq> node_refs s"
    by (rule order_trans [OF one]) auto
  ultimately have "node_refs (sfs_set_links f n s) \<subseteq> node_refs s \<union> {n}" by blast
  moreover have "node_typed m (sfs_set_links f n s) = node_typed m s" for m by (simp add: sfs_set_links_def Let_def)
  ultimately show ?thesis using assms by (auto simp: types_kept_def typed_state_def)
qed

text \<open>The part of \<open>sfs_load_inode\<close> that makes a new node.\<close>

lemma new_inode_types:
  assumes "sfs_create_inode f d i s = Some (r1, nd1, s1)" and "nd1 = Some n" and "s' = sfs_set_links f n s1"
  shows "typed_result (Some n) s s'"
proof (cases "typed_state s")
  case True
  have k: "typed_result (Some n) s s1" using create_inode_types [OF assms(1)] assms(2) by simp
  then have "node_typed n s1" using True by (simp add: typed_result_def)
  from set_links_types [OF this] k show ?thesis unfolding assms(3) by (rule typed_result_kept [rotated])
qed (simp add: typed_result_def types_kept_def)

lemma load_inode_types:
  assumes "sfs_load_inode f i s = Some (r, nd, s')"
  shows "typed_result nd s s'"
proof -
  obtain s1 m s2 where s1: "lock_sfs_fs f s = Some s1" and s2: "lookup_sfs_nolock f i s1 = Some (m, s2)"
    using assms by (auto simp: sfs_load_inode_def bind_eq_Some_conv)
  have "typed_result m s1 s2" using lookup_sfs_types s2 by (fastforce simp: lookup_sfs_nolock_def)
  with lock_fs_files [OF s1, THEN same_files_types] have k2: "typed_result m s s2" by (rule typed_result_trans)
  show ?thesis
  proof (cases m)
    case (Some n)
    then show ?thesis using assms s1 s2 k2 by (auto simp: sfs_load_inode_def)
  next
    case None
    then have s2_kept: "types_kept s s2" using k2 by simp
    obtain d s3 where s3: "kalloc sizeof_disk_inode s2 = Some (d, s3)"
      using assms s1 s2 None by (auto simp: sfs_load_inode_def bind_eq_Some_conv)
    have k3: "types_kept s s3" using types_kept_trans [OF s2_kept kalloc_types [OF s3]] .
    show ?thesis
    proof (cases d)
      case None
      then show ?thesis using assms s1 s2 \<open>m = None\<close> s3 k3 by (auto simp: sfs_load_inode_def)
    next
      case (Some dd)
      obtain r4 s4 where s4: "sfs_rbuf f dd sizeof_disk_inode i 0 s3 = Some (r4, s4)"
        using assms s1 s2 None s3 Some by (auto simp: sfs_load_inode_def bind_eq_Some_conv)
      have k4: "types_kept s s4" using types_kept_trans [OF k3 rbuf_files [OF s4, THEN same_files_types]] .
      show ?thesis
      proof (cases "r4 = 0")
        case False
        then show ?thesis using assms s1 s2 None s3 Some s4 k4
          by (auto simp: sfs_load_inode_def bind_eq_Some_conv dest!: kdealloc_files [THEN same_files_types] intro: types_kept_trans)
      next
        case True
        obtain r5 n5 s5 where s5: "sfs_create_inode f dd i s4 = Some (r5, n5, s5)"
          using assms s1 s2 None s3 Some s4 True by (auto simp: sfs_load_inode_def bind_eq_Some_conv split: if_splits)
        have k5: "types_kept s s5" using types_kept_trans [OF k4 typed_result_types [OF create_inode_types [OF s5]]] .
        show ?thesis
        proof (cases "r5 = 0")
          case False
          then show ?thesis using assms s1 s2 None s3 Some s4 True s5 k5
            by (auto simp: sfs_load_inode_def bind_eq_Some_conv split: if_splits dest!: kdealloc_files [THEN same_files_types] intro: types_kept_trans)
        next
          case r5: True
          then obtain n where n: "n5 = Some n" "nd = Some n" "s' = unlock_sfs_fs f (sfs_set_links f n s5)"
            using assms s1 s2 None s3 Some s4 True s5 by (auto simp: sfs_load_inode_def bind_eq_Some_conv split: if_splits)
          show ?thesis using typed_result_trans [OF k4 new_inode_types [OF s5 n(1) refl]] n by simp
        qed
      qed
    qed
  qed
qed

lemma sfs_get_root_types: "sfs_get_root f s = Some (n, s') \<Longrightarrow> typed_result (Some n) s s'"
  by (auto simp: sfs_get_root_def bind_eq_Some_conv split: if_splits dest: load_inode_types)

lemma dirent_read_types [types_frame]: "sfs_dirent_read_nolock f n sl e s = Some (r, s') \<Longrightarrow> types_kept s s'"
  unfolding sfs_dirent_read_nolock_def
  by (auto simp: bind_eq_Some_conv split: if_splits dest!: types_frame intro: types_kept_trans)

lemma dirent_search_loop_types [types_frame]:
  "dirent_search_loop f n name e k i s0 s = Some (r, a, b, c, s') \<Longrightarrow> types_kept s s'"
  by (induction f n name e k i s0 s rule: dirent_search_loop.induct)
     (auto simp: bind_eq_Some_conv split: if_splits dest: dirent_read_types intro: types_kept_trans)

lemma dirent_search_types [types_frame]:
  "sfs_dirent_search_nolock f n name s = Some (r, a, b, c, s') \<Longrightarrow> types_kept s s'"
  unfolding sfs_dirent_search_nolock_def Let_def
  by (auto simp: bind_eq_Some_conv split: if_splits option.splits dest!: types_frame intro: types_kept_trans)

lemma dirent_findino_loop_types: "dirent_findino_loop f n i e k j s = Some (r, s') \<Longrightarrow> types_kept s s'"
  by (induction f n i e k j s rule: dirent_findino_loop.induct)
     (auto simp: bind_eq_Some_conv split: if_splits dest: dirent_read_types intro: types_kept_trans)

lemma dirent_findino_types [types_frame]: "sfs_dirent_findino_nolock f n i e s = Some (r, s') \<Longrightarrow> types_kept s s'"
  by (auto simp: sfs_dirent_findino_nolock_def dest: dirent_findino_loop_types)

lemma lookup_once_types: "sfs_lookup_once f n name s = Some (r, nd, s') \<Longrightarrow> typed_result nd s s'"
  unfolding sfs_lookup_once_def Let_def
  by (auto simp: bind_eq_Some_conv split: if_splits dest!: types_frame load_inode_types
      intro: types_kept_trans typed_result_trans)

lemma sfs_lookup_types: "sfs_lookup n pathp s = Some (r, nd, s') \<Longrightarrow> typed_result nd s s'"
  unfolding sfs_lookup_def Let_def inode_ref_inc_def
  by (auto simp: bind_eq_Some_conv split: if_splits dest!: types_frame lookup_once_types
      intro: types_kept_trans typed_result_kept types_kept_trans [OF typed_result_types])

subsection \<open>Reading, writing, seeking and names\<close>

lemma sfs_io_nolock_types [types_frame]: "sfs_io_nolock f n bp off al wr s = Some (r, a, s') \<Longrightarrow> types_kept s s'"
  unfolding sfs_io_nolock_def Let_def by (auto simp: bind_eq_Some_conv split: if_splits)

lemma sfs_io_types [types_frame]: "sfs_io n iob wr s = Some (r, iob', s') \<Longrightarrow> types_kept s s'"
  unfolding sfs_io_def Let_def
  by (auto simp: bind_eq_Some_conv split: if_splits dest!: types_frame intro: types_kept_trans)

lemma dop_io_types [types_frame]: "dop_io dev iob wr s = Some (r, iob', s') \<Longrightarrow> types_kept s s'"
  by (rule same_nodes_types [OF dop_io_same])

lemma dev_read_types [types_frame]:
  "dev_read n iob s = Some (r, iob', s') \<Longrightarrow> types_kept s s'" "dev_write n iob s = Some (r, iob', s') \<Longrightarrow> types_kept s s'"
  by (auto simp: dev_read_def dev_write_def bind_eq_Some_conv dest: types_frame)

lemma vop_read_types [types_frame]: "vop_read nd iob s = Some (r, iob', s') \<Longrightarrow> types_kept s s'"
  unfolding vop_read_def sfs_read_def
  by (auto simp: bind_eq_Some_conv split: inode_ops.splits dest: types_frame) (metis inode_ops.exhaust)+

lemma vop_write_types [types_frame]: "vop_write nd iob s = Some (r, iob', s') \<Longrightarrow> types_kept s s'"
  unfolding vop_write_def sfs_write_def
  by (auto simp: bind_eq_Some_conv split: inode_ops.splits dest: types_frame) (metis inode_ops.exhaust)+

lemma vop_tryseek_types [types_frame]: "vop_tryseek nd q s = Some (r, s') \<Longrightarrow> types_kept s s'"
  unfolding vop_tryseek_def sfs_tryseek_def
  by (auto simp: bind_eq_Some_conv split: inode_ops.splits if_splits dest: types_frame) (metis inode_ops.exhaust)+

lemma getdirentry_loop_types [types_frame]: "getdirentry_loop f n sl e k i s = Some (r, s') \<Longrightarrow> types_kept s s'"
  by (induction f n sl e k i s rule: getdirentry_loop.induct)
     (auto simp: bind_eq_Some_conv split: if_splits dest: dirent_read_types intro: types_kept_trans)

lemma sfs_getdirentry_types: "sfs_getdirentry n iob s = Some (r, iob', s') \<Longrightarrow> types_kept s s'"
  unfolding sfs_getdirentry_def sfs_getdirentry_sub_nolock_def Let_def
  by (auto simp: bind_eq_Some_conv split: if_splits option.splits dest!: types_frame intro: types_kept_trans)
     (meson types_kept_trans)+

lemma vop_getdirentry_types [types_frame]: "vop_getdirentry nd iob s = Some (r, iob', s') \<Longrightarrow> types_kept s s'"
  unfolding vop_getdirentry_def by (auto simp: bind_eq_Some_conv split: inode_ops.splits dest: sfs_getdirentry_types) (metis inode_ops.exhaust)+

lemma namefile_loop_types:
  assumes "namefile_loop f n ptr resid e s = Some y"
  shows "types_kept s (snd (snd (snd y)))"
proof (rule namefile_loop.raw_induct [where P = "\<lambda>_ _ _ _ _ s y. types_kept s (snd (snd (snd y)))", OF _ assms])
  fix loop f n ptr resid entry s y
  assume ih: "\<And>f n ptr resid e s y. loop f n ptr resid e s = Some y \<Longrightarrow> types_kept s (snd (snd (snd y)))"
    and step: "(do {
     r \<leftarrow> sfs_lookup_once f n dotdot s;
     (case r of (ret, parent, s) \<Rightarrow>
       if ret \<noteq> 0 then do { s \<leftarrow> vop_ref_dec n s; Some (ret, ptr, resid, s) } else do {
         p \<leftarrow> parent;
         let i = ino (sin n s);
         s \<leftarrow> vop_ref_dec n s;
         if n = p then do { s \<leftarrow> vop_ref_dec n s; Some (0, ptr, resid, s) } else do {
           x \<leftarrow> sfs_inode_of p s;
           kassert (i \<noteq> ino (sin p s) \<and> din_type (din (sin p s)) s = SFS_TYPE_DIR);
           s \<leftarrow> lock_sin p s;
           r \<leftarrow> sfs_dirent_findino_nolock f p i entry s;
           (case r of (ret, s) \<Rightarrow> do {
             let s = unlock_sin p s;
             if ret \<noteq> 0 then do { s \<leftarrow> vop_ref_dec p s; Some (ret, ptr, resid, s) } else do {
               l \<leftarrow> strlen (kmem s) (entry + 4);
               let alen = l + 1;
               if alen > resid then do { s \<leftarrow> vop_ref_dec p s; Some (- E_NO_MEM, ptr, resid, s) }
               else let ptr = ptr - alen;
                        s = upd_kmem (\<lambda>m. (memcpy m ptr (entry + 4) (alen - 1))(ptr + alen - 1 := 47)) s
                    in loop f p ptr (resid - alen) entry s
             }
           })
         }
       }) }) = Some y"
  show "types_kept s (snd (snd (snd y)))"
    using step unfolding Let_def
    by (auto simp: bind_eq_Some_conv split: if_splits
        dest!: ih types_frame lookup_once_types typed_result_types intro: types_kept_trans)
       (meson types_kept_trans)+
qed

lemma sfs_namefile_types: "sfs_namefile n iob s = Some (r, iob', s') \<Longrightarrow> types_kept s s'"
  unfolding sfs_namefile_def Let_def inode_ref_inc_def
  by (auto simp: bind_eq_Some_conv split: if_splits option.splits dest!: types_frame namefile_loop_types intro: types_kept_trans)
     (meson types_kept_trans)+

lemma vop_namefile_types [types_frame]: "vop_namefile nd iob s = Some (r, iob', s') \<Longrightarrow> types_kept s s'"
  unfolding vop_namefile_def by (auto simp: bind_eq_Some_conv split: inode_ops.splits dest: sfs_namefile_types)
    (metis inode_ops.exhaust)+

text \<open>A device returns itself for the empty path.\<close>

lemma vop_lookup_types:
  assumes "vop_lookup nd pathp s = Some (r, res, s')" and "typed_result nd s0 s"
  shows "typed_result res s0 s'"
proof -
  obtain n ops where n: "nd = Some n" "(case ops of Dev_node_ops \<Rightarrow> Some (dev_lookup n pathp s)
      | Sfs_node_dirops \<Rightarrow> sfs_lookup n pathp s | Sfs_node_fileops \<Rightarrow> None) = Some (r, res, s')"
    using assms(1) by (auto simp: vop_lookup_def bind_eq_Some_conv vop_op_def)
  show ?thesis
  proof (cases ops)
    case Dev_node_ops
    then show ?thesis using n assms(2)
      by (auto simp: dev_lookup_def inode_ref_inc_def typed_result_def node_typed_upd_inode Let_def split: if_splits)
  next
    case Sfs_node_dirops
    then show ?thesis using n sfs_lookup_types typed_result_trans [OF typed_result_types [OF assms(2)]] by auto
  qed (use n in auto)
qed

subsection \<open>Devices, directories and paths\<close>

lemma lock_types [types_frame]:
  "lock_vdev_list s = Some s' \<Longrightarrow> types_kept s s'" "lock_bootfs s = Some s' \<Longrightarrow> types_kept s s'"
  by (auto simp: lock_vdev_list_def lock_bootfs_def bind_eq_Some_conv)

lemma unlock_types [simp]:
  "types_kept s (unlock_vdev_list s') = types_kept s s'" "types_kept s (unlock_bootfs s') = types_kept s s'"
  "types_kept (unlock_vdev_list s) s' = types_kept s s'" "types_kept (unlock_bootfs s) s' = types_kept s s'"
  "typed_result nd s (unlock_vdev_list s') = typed_result nd s s'" "typed_result nd s (unlock_bootfs s') = typed_result nd s s'"
  by (simp_all add: unlock_vdev_list_def unlock_bootfs_def typed_result_def)

text \<open>Changing a table of files, except for its nodes and directory.\<close>

lemma upd_files_types:
  assumes "\<forall>n. pwd (g (files s p)) = Some n \<longrightarrow> pwd (files s p) = Some n \<or> node_typed n s"
    and "\<forall>i n. node (fd_array (g (files s p)) i) = Some n \<longrightarrow> (\<exists>j. node (fd_array (files s p) j) = Some n) \<or> node_typed n s"
  shows "types_kept s (upd_files p g s)"
proof -
  have "m \<in> node_refs s \<or> node_typed m s" if "m \<in> node_refs (upd_files p g s)" for m
    using that assms unfolding node_refs_def upd_files_def by (auto simp: the_file_def split: if_splits) blast+
  then show ?thesis by (auto simp: types_kept_def typed_state_def)
qed

lemma lock_files_types [types_frame]:
  "lock_files p s = Some s' \<Longrightarrow> types_kept s s'" "lock_cfs s = Some s' \<Longrightarrow> types_kept s s'"
  "unlock_cfs s = Some s' \<Longrightarrow> types_kept s s'"
  by (auto simp: lock_files_def lock_cfs_def unlock_cfs_def unlock_files_def bind_eq_Some_conv intro!: upd_files_types)

lemma upd_file_types:
  assumes "\<forall>n. node (g (the_file p i s)) = Some n \<longrightarrow> node (the_file p i s) = Some n \<or> node_typed n s"
  shows "types_kept s (upd_file p i g s)"
  unfolding upd_file_def
proof (rule upd_files_types)
  show "\<forall>j n. node (fd_array ((files s p)\<lparr>fd_array := (fd_array (files s p))(i := g (fd_array (files s p) i))\<rparr>) j) = Some n \<longrightarrow>
      (\<exists>j. node (fd_array (files s p) j) = Some n) \<or> node_typed n s"
    using assms by (auto simp: the_file_def)
qed simp

lemma set_cwd_types:
  assumes "set_cwd_nolock d s = Some s'" and "typed_result d s0 s"
  shows "types_kept s0 s'"
proof (cases "typed_state s0")
  case True
  then have "types_kept s s'" using assms
    by (auto simp: set_cwd_nolock_def bind_eq_Some_conv typed_result_def intro!: upd_files_types)
  then show ?thesis using typed_result_types [OF assms(2)] by (rule types_kept_trans [rotated])
qed (simp add: types_kept_def)

lemma ref_typed:
  assumes "typed_state s"
  shows "pwd (files s p) = Some n \<Longrightarrow> node_typed n s" "node (the_file p i s) = Some n \<Longrightarrow> node_typed n s"
    "devnode (vdevs s v) = Some n \<Longrightarrow> node_typed n s" "bootfs_node s = Some n \<Longrightarrow> node_typed n s"
  using assms unfolding typed_state_def node_refs_def by auto

lemma typed_result_ref_inc [simp]: "typed_result nd s (vop_ref_inc n s') = typed_result nd s s'"
  by (simp add: typed_result_def)

lemma device_result: "types_kept s s' \<Longrightarrow> devnode (vdevs s' v) = Some n \<Longrightarrow> typed_result (Some n) s s'"
  by (auto simp: typed_result_def types_kept_def intro: ref_typed)

lemma get_curdir_types: "vfs_get_curdir s = Some (r, nd, s') \<Longrightarrow> typed_result nd s s'"
  by (auto simp: vfs_get_curdir_def get_cwd_nolock_def bind_eq_Some_conv typed_result_def split: option.splits)
     (rule ref_typed(1))

lemma get_bootfs_types: "vfs_get_bootfs s = Some (r, nd, s') \<Longrightarrow> typed_result nd s s'"
  by (auto simp: vfs_get_bootfs_def lock_bootfs_def bind_eq_Some_conv typed_result_def
      unlock_bootfs_def split: option.splits intro: ref_typed)

lemma vfs_get_root_types:
  assumes "vfs_get_root name s = Some (r, nd, s')"
  shows "typed_result nd s s'"
proof (cases "list_empty VdevList (flinks s)")
  case False
  then obtain s1 v where s1: "lock_vdev_list s = Some s1" and v: "vdev_find (same_name name s1) (flinks s1) VdevList = Some v"
    using assms by (auto simp: vfs_get_root_def bind_eq_Some_conv)
  have k: "types_kept s s1" by (rule lock_types(1) [OF s1])
  show ?thesis
  proof (cases v)
    case None
    then show ?thesis using assms False s1 v k by (auto simp: vfs_get_root_def bind_eq_Some_conv)
  next
    case (Some w)
    show ?thesis
    proof (cases "vdev_fs (vdevs s1 w)")
      case None
      then show ?thesis using assms False s1 v k Some
        by (auto simp: vfs_get_root_def bind_eq_Some_conv split: if_splits intro: device_result)
    next
      case f: (Some f)
      then show ?thesis using assms False s1 v k Some
        by (auto simp: vfs_get_root_def bind_eq_Some_conv dest!: sfs_get_root_types intro: typed_result_trans)
    qed
  qed
qed (use assms in \<open>simp add: vfs_get_root_def\<close>)

lemma get_device_types:
  assumes "get_device pathp s = Some (r, a, nd, s')"
  shows "typed_result nd s s'"
  using assms unfolding get_device_def Let_def
  by (auto simp: bind_eq_Some_conv split: if_splits
      dest!: get_curdir_types get_bootfs_types vfs_get_root_types sfs_get_root_types types_frame
      intro: typed_result_trans typed_result_kept typed_result_types)

lemma vfs_lookup_types:
  assumes "vfs_lookup pathp s = Some (r, nd, s')"
  shows "typed_result nd s s'"
  using assms unfolding vfs_lookup_def
  by (auto simp: bind_eq_Some_conv split: if_splits dest!: get_device_types types_frame
      intro: vop_lookup_types typed_result_kept typed_result_types)

lemma vfs_lookup_parent_types: "vfs_lookup_parent pathp s = Some (r, nd, a, s') \<Longrightarrow> typed_result nd s s'"
  unfolding vfs_lookup_parent_def
  by (auto simp: bind_eq_Some_conv split: if_splits dest!: get_device_types intro: typed_result_types)

lemma set_curdir_types:
  assumes "vfs_set_curdir dir s = Some (r, s')" and "typed_result dir s0 s"
  shows "types_kept s0 s'"
proof -
  obtain s1 old where s1: "lock_cfs s = Some s1" and old: "get_cwd_nolock s1 = Some old"
    using assms(1) by (auto simp: vfs_set_curdir_def bind_eq_Some_conv)
  have k1: "typed_result dir s0 s1" using typed_result_kept [OF assms(2) lock_files_types(2) [OF s1]] .
  have cwd: "types_kept s0 b" if "set_cwd_nolock dir t = Some b" "t = s1 \<or> (\<exists>d. t = vop_ref_inc d s1)" for t b
    using set_cwd_types [OF that(1), of s0] that(2) k1 by auto
  have fin: "types_kept s0 s3" if "unlock_cfs s2 = Some s3" "types_kept s0 s2" for s2 s3
    using lock_files_types(3) [OF that(1)] that(2) by (rule types_kept_trans [rotated])
  obtain s2 where s2: "unlock_cfs s2 = Some s'" and mid: "(if old \<noteq> dir then do {
         (ret, s) \<leftarrow> (case dir of
             None \<Rightarrow> Some (0, s1)
           | Some d \<Rightarrow> do {
               (ret, type) \<leftarrow> vop_gettype (Some d) s1;
               if ret \<noteq> 0 then Some (ret, s1)
               else if \<not> S_ISDIR type then Some (- E_NOTDIR, s1)
               else Some (0, vop_ref_inc d s1)
             });
         if ret \<noteq> 0 then Some (ret, s) else do {
           s \<leftarrow> set_cwd_nolock dir s;
           s \<leftarrow> (case old of Some od \<Rightarrow> vop_ref_dec od s | None \<Rightarrow> Some s);
           Some (0, s)
         }
       } else Some (0, s1)) = Some (r, s2)"
    using assms(1) s1 old unfolding vfs_set_curdir_def by (auto simp: bind_eq_Some_conv)
  have "types_kept s0 s2"
  proof (cases "s2 = s1")
    case False
    then obtain t b where t: "t = s1 \<or> (\<exists>d. t = vop_ref_inc d s1)" "set_cwd_nolock dir t = Some b"
      and b: "(case old of Some od \<Rightarrow> vop_ref_dec od b | None \<Rightarrow> Some b) = Some s2"
      using mid by (fastforce simp: bind_eq_Some_conv split: if_splits option.splits)
    then show ?thesis using cwd [OF t(2,1)] by (auto split: option.splits dest!: types_frame intro: types_kept_trans)
  qed (use typed_result_types [OF k1] in simp)
  with s2 show ?thesis by (rule fin)
qed

lemma bootfs_types: "typed_result nd s0 s \<Longrightarrow> types_kept s0 (s\<lparr>bootfs_node := nd\<rparr>)"
  unfolding typed_result_def types_kept_def typed_state_def by (auto simp: node_refs_def the_file_def)

lemma change_bootfs_types:
  assumes "change_bootfs nd s = Some s'" and "typed_result nd s0 s"
  shows "types_kept s0 s'"
proof -
  obtain s1 where s1: "lock_bootfs s = Some s1" and s': "(case bootfs_node s1 of Some od \<Rightarrow> vop_ref_dec od (unlock_bootfs (s1\<lparr>bootfs_node := nd\<rparr>))
      | None \<Rightarrow> Some (unlock_bootfs (s1\<lparr>bootfs_node := nd\<rparr>))) = Some s'"
    using assms(1) by (auto simp: change_bootfs_def bind_eq_Some_conv Let_def)
  have "types_kept s0 (s1\<lparr>bootfs_node := nd\<rparr>)"
    by (rule bootfs_types [OF typed_result_kept [OF assms(2) lock_types(2) [OF s1]]])
  then show ?thesis using s' by (auto split: option.splits dest!: types_frame intro: types_kept_trans)
qed

lemma vfs_chdir_types [types_frame]: "vfs_chdir pathp s = Some (r, s') \<Longrightarrow> types_kept s s'"
  unfolding vfs_chdir_def
  by (auto simp: bind_eq_Some_conv split: if_splits dest!: vfs_lookup_types types_frame
      intro: types_kept_trans set_curdir_types typed_result_types)

lemma vfs_getcwd_types [types_frame]: "vfs_getcwd iob s = Some (r, iob', s') \<Longrightarrow> types_kept s s'"
  unfolding vfs_getcwd_def Let_def
  by (auto simp: bind_eq_Some_conv split: if_splits dest!: get_curdir_types typed_result_types types_frame intro: types_kept_trans)
     (meson types_kept_trans)+

lemma vfs_set_bootfs_types [types_frame]:
  assumes "vfs_set_bootfs nm s = Some (r, s')"
  shows "types_kept s s'"
proof (cases nm)
  case None
  then show ?thesis using assms change_bootfs_types [of None s _ s] by (auto simp: vfs_set_bootfs_def bind_eq_Some_conv)
next
  case (Some name)
  have boot: "types_kept s t" if "vfs_chdir name s = Some (a, s1)" "vfs_get_curdir s1 = Some (b, nd, s2)" "change_bootfs nd s2 = Some t"
    for a s1 b nd s2 t
    using change_bootfs_types [OF that(3) typed_result_trans [OF vfs_chdir_types [OF that(1)] get_curdir_types [OF that(2)]]] .
  have cur: "types_kept s s2" if "vfs_chdir name s = Some (a, s1)" "vfs_get_curdir s1 = Some (b, nd, s2)" for a s1 b nd s2
    using types_kept_trans [OF vfs_chdir_types [OF that(1)] typed_result_types [OF get_curdir_types [OF that(2)]]] .
  show ?thesis
  proof (cases "s' = s")
    case False
    then obtain a s1 where s1: "vfs_chdir name s = Some (a, s1)" and rest: "(if a \<noteq> 0 then Some (a, s1) else do {
          (ret, nd, s) \<leftarrow> vfs_get_curdir s1;
          if ret \<noteq> 0 then Some (ret, s) else do { s \<leftarrow> change_bootfs nd s; Some (0, s) }
        }) = Some (r, s')"
      using assms Some by (auto simp: vfs_set_bootfs_def bind_eq_Some_conv split: option.splits if_splits)
    show ?thesis using rest boot [OF s1] cur [OF s1] vfs_chdir_types [OF s1]
      by (auto simp: bind_eq_Some_conv split: if_splits)
  qed simp
qed

text \<open>What \<open>vfs_open\<close> does after the path was resolved to \<open>nd\<close>.\<close>

lemma open_resolved_types:
  assumes "(do {
          n \<leftarrow> nd;
          ret \<leftarrow> vop_open nd open_flags s;
          if ret \<noteq> 0 then do { s \<leftarrow> vop_ref_dec n s; Some (ret, None, s) } else do {
            let s = vop_open_inc n s;
            (ret, s) \<leftarrow> (if c then vop_truncate nd 0 s else Some (0, s));
            if ret \<noteq> 0 then do { s \<leftarrow> vop_open_dec n s; s \<leftarrow> vop_ref_dec n s; Some (ret, None, s) }
            else Some (0, Some n, s)
          }
        }) = Some (r, res, s')" and "typed_result nd s0 s"
  shows "typed_result res s0 s'"
proof -
  obtain n where n: "nd = Some n" using assms(1) by (auto simp: bind_eq_Some_conv)
  have k: "types_kept s0 s" by (rule typed_result_types [OF assms(2)])
  have inc: "typed_result (Some n) s0 (vop_open_inc n s)" using assms(2) n by (simp add: typed_result_def)
  show ?thesis using assms(1) k inc unfolding n
    by (auto simp: bind_eq_Some_conv Let_def split: if_splits dest!: types_frame
        intro: types_kept_trans typed_result_kept)
      (meson types_kept_trans)
qed

lemma vfs_open_types:
  assumes "vfs_open pathp open_flags s = Some (r, res, s')"
  shows "typed_result res s s'"
proof (rule ccontr)
  assume no: "\<not> ?thesis"
  let ?create = "and open_flags O_CREAT \<noteq> 0" and ?excl = "and open_flags O_EXCL \<noteq> 0"
  have not_same: "\<not> (res = None \<and> types_kept s s')" using no by auto
  obtain ret nd s1 where s1: "vfs_lookup pathp s = Some (ret, nd, s1)"
    using assms not_same by (auto simp: vfs_open_def Let_def bind_eq_Some_conv split: if_splits)
  have k1: "typed_result nd s s1" by (rule vfs_lookup_types [OF s1])
  have "vop_create d name e t = None" for d name e t by (auto simp: vop_create_def split: bind_splits inode_ops.splits)
  then have "ret = 0 \<and> \<not> (?excl \<and> ?create)"
    using assms not_same s1 typed_result_types [OF k1]
    by (auto simp: vfs_open_def Let_def bind_eq_Some_conv split: if_splits
        dest!: vfs_lookup_parent_types typed_result_types intro: types_kept_trans)
  then have "(do {
          n \<leftarrow> nd;
          ret \<leftarrow> vop_open nd open_flags s1;
          if ret \<noteq> 0 then do { s \<leftarrow> vop_ref_dec n s1; Some (ret, None, s) } else do {
            let s = vop_open_inc n s1;
            (ret, s) \<leftarrow> (if and open_flags O_TRUNC \<noteq> 0 \<or> ?create then vop_truncate nd 0 s else Some (0, s));
            if ret \<noteq> 0 then do { s \<leftarrow> vop_open_dec n s; s \<leftarrow> vop_ref_dec n s; Some (ret, None, s) }
            else Some (0, Some n, s)
          }
        }) = Some (r, res, s')"
    using assms not_same s1 by (auto simp: vfs_open_def Let_def split: if_splits)
  from open_resolved_types [OF this k1] no show False by simp
qed

subsection \<open>Open files\<close>

lemma upd_file_same_node:
  assumes "\<And>f. node (g f) = node f"
  shows "node_refs (upd_file p i g s) = node_refs s" "node_typed n (upd_file p i g s) = node_typed n s"
proof -
  have "node (the_file q j (upd_file p i g s)) = node (the_file q j s)" for q j
    using assms by (simp add: the_file_def upd_file_def upd_files_def)
  moreover have "pwd (files (upd_file p i g s) q) = pwd (files s q)" for q
    by (simp add: upd_file_def upd_files_def)
  ultimately show "node_refs (upd_file p i g s) = node_refs s"
    by (simp add: node_refs_def) (simp add: upd_file_def upd_files_def)
  show "node_typed n (upd_file p i g s) = node_typed n s" by (simp add: upd_file_def)
qed

lemma types_kept_upd_file [simp]:
  "(\<And>f. node (g f) = node f) \<Longrightarrow> types_kept s (upd_file p i g s') = types_kept s s'"
  "(\<And>f. node (g f) = node f) \<Longrightarrow> types_kept (upd_file p i g s) s' = types_kept s s'"
  "(\<And>f. node (g f) = node f) \<Longrightarrow> typed_result nd (upd_file p i g s) s' = typed_result nd s s'"
  "(\<And>f. node (g f) = node f) \<Longrightarrow> typed_result nd s (upd_file p i g s') = typed_result nd s s'"
  by (simp_all add: typed_result_def types_kept_def typed_state_def upd_file_same_node)

lemma fopen_types [simp]:
  "types_kept s (fopen_count_inc p i s') = types_kept s s'" "types_kept s (fopen_count_dec p i s') = types_kept s s'"
  by (simp_all add: fopen_count_inc_def fopen_count_dec_def)

lemma fopen_types_left [simp]:
  "types_kept (fopen_count_inc p i s) s' = types_kept s s'" "types_kept (fopen_count_dec p i s) s' = types_kept s s'"
  by (simp_all add: fopen_count_inc_def fopen_count_dec_def)

lemma fd_array_alloc_types [types_frame]: "fd_array_alloc d s = Some (r, i, s') \<Longrightarrow> types_kept s s'"
  unfolding fd_array_alloc_def Let_def
  by (auto simp: bind_eq_Some_conv split: if_splits option.splits intro!: upd_file_types)

lemma fd_array_free_types [types_frame]: "fd_array_free p i s = Some s' \<Longrightarrow> types_kept s s'"
  unfolding fd_array_free_def by (auto simp: bind_eq_Some_conv split: if_splits dest!: types_frame)

lemma fd_array_acquire_types [types_frame]: "fd_array_acquire p i s = Some s' \<Longrightarrow> types_kept s s'"
  unfolding fd_array_acquire_def by (auto split: if_splits)

lemma fd_array_release_types [types_frame]: "fd_array_release p i s = Some s' \<Longrightarrow> types_kept s s'"
  unfolding fd_array_release_def Let_def by (auto split: if_splits dest!: types_frame)

lemma fd_array_open_types [types_frame]: "fd_array_open p i s = Some s' \<Longrightarrow> types_kept s s'"
  unfolding fd_array_open_def by (auto split: if_splits)

lemma fd_array_close_types [types_frame]: "fd_array_close p i s = Some s' \<Longrightarrow> types_kept s s'"
  unfolding fd_array_close_def Let_def by (auto split: if_splits dest!: types_frame)

lemma upd_node_types:
  assumes "typed_result nd s0 s" and "\<And>f. node (g f) = nd"
  shows "types_kept s0 (upd_file p i g s)"
proof (cases "typed_state s0")
  case True
  then have "types_kept s (upd_file p i g s)" using assms by (intro upd_file_types) (simp add: typed_result_def)
  with typed_result_types [OF assms(1)] show ?thesis by (rule types_kept_trans)
qed (simp add: types_kept_def)

lemma fd_array_dup_types [types_frame]:
  assumes "fd_array_dup p i q j s = Some s'"
  shows "types_kept s s'"
proof -
  obtain n where n: "node (the_file q j s) = Some n" using assms by (auto simp: fd_array_dup_def bind_eq_Some_conv Let_def split: if_splits)
  have "typed_result (Some n) s s" using n by (auto simp: typed_result_def intro: ref_typed)
  then have "types_kept s (upd_file p i (\<lambda>f. f\<lparr>node := Some n\<rparr>) (vop_open_inc n (vop_ref_inc n
      (upd_file p i (\<lambda>f. f\<lparr>pos := pos (the_file q j s), readable := readable (the_file q j s), writable := writable (the_file q j s)\<rparr>) s))))"
    by (intro upd_node_types) (simp_all add: typed_result_def upd_file_same_node)
  then show ?thesis using assms n
    by (auto simp: fd_array_dup_def Let_def split: if_splits dest!: fd_array_open_types intro: types_kept_trans)
qed

lemma file_close_types [types_frame]: "file_close d s = Some (r, s') \<Longrightarrow> types_kept s s'"
  unfolding file_close_def by (auto simp: bind_eq_Some_conv split: if_splits dest: types_frame)

lemma file_transfer_types:
  assumes "file_transfer vop p i base len s = Some (r, c, s')"
    and "\<And>nd iob s r iob' s'. vop nd iob s = Some (r, iob', s') \<Longrightarrow> types_kept s s'"
  shows "types_kept s s'"
  using assms(1) unfolding file_transfer_def Let_def
  by (auto simp: bind_eq_Some_conv split: if_splits dest!: types_frame assms(2) intro: types_kept_trans)

lemma file_read_types [types_frame]: "file_read d base len s = Some (r, c, s') \<Longrightarrow> types_kept s s'"
  unfolding file_read_def
  by (auto simp: bind_eq_Some_conv split: if_splits intro: file_transfer_types vop_read_types)

lemma file_write_types [types_frame]: "file_write d base len s = Some (r, c, s') \<Longrightarrow> types_kept s s'"
  unfolding file_write_def
  by (auto simp: bind_eq_Some_conv split: if_splits intro: file_transfer_types vop_write_types)

lemma file_seek_types [types_frame]:
  assumes "file_seek d q w s = Some (r, s')"
  shows "types_kept s s'"
proof (cases "s' = s")
  case False
  then obtain p i s1 where s1: "fd_array_acquire p i s = Some s1" and rest: "(do {
       (ret, p1) \<leftarrow>
         (if w = 0 then Some (0, q)
          else if w = 1 then Some (0, to_i64 (q + pos (the_file p i s1)))
          else if w = 2 then do {
            (ret, st) \<leftarrow> vop_fstat (node (the_file p i s1)) s1;
            Some (ret, if ret = 0 then to_i64 (q + int (st_size st)) else q)
          } else Some (- E_INVAL, q));
       (ret, s) \<leftarrow> (if ret = 0 then do {
           (ret, s) \<leftarrow> vop_tryseek (node (the_file p i s1)) p1 s1;
           Some (ret, if ret = 0 then upd_file p i (\<lambda>f. f\<lparr>pos := p1\<rparr>) s else s)
         } else Some (ret, s1));
       s \<leftarrow> fd_array_release p i s;
       Some (ret, s) }) = Some (r, s')"
    using assms unfolding file_seek_def by (auto simp: bind_eq_Some_conv split: if_splits)
  have step: "types_kept s1 s2" if "(if a = 0 then do {
           (ret, s) \<leftarrow> vop_tryseek nd p1 s1;
           Some (ret, if ret = 0 then upd_file p i (\<lambda>f. f\<lparr>pos := p1\<rparr>) s else s)
         } else Some (a, s1)) = Some (b, s2)" for a b nd p1 s2
    using that by (auto simp: bind_eq_Some_conv split: if_splits dest!: vop_tryseek_types)
  obtain a b p1 nd s2 where "(if a = 0 then do {
           (ret, s) \<leftarrow> vop_tryseek nd p1 s1;
           Some (ret, if ret = 0 then upd_file p i (\<lambda>f. f\<lparr>pos := p1\<rparr>) s else s)
         } else Some (a, s1)) = Some (b, s2)" "fd_array_release p i s2 = Some s'"
    using rest by (auto simp only: bind_eq_Some_conv split: prod.splits) (auto simp: bind_eq_Some_conv)
  from step [OF this(1)] this(2) fd_array_acquire_types [OF s1] show ?thesis
    by (auto dest!: fd_array_release_types intro: types_kept_trans)
qed simp

lemma file_fstat_types [types_frame]: "file_fstat d s = Some (r, st, s') \<Longrightarrow> types_kept s s'"
  unfolding file_fstat_def
  by (auto simp: bind_eq_Some_conv split: if_splits dest!: types_frame intro: types_kept_trans)

lemma file_fsync_types [types_frame]: "file_fsync d s = Some (r, s') \<Longrightarrow> types_kept s s'"
  unfolding file_fsync_def
  by (auto simp: bind_eq_Some_conv split: if_splits dest!: types_frame intro: types_kept_trans)

lemma file_getdirentry_types [types_frame]: "file_getdirentry d a s = Some (r, s') \<Longrightarrow> types_kept s s'"
  unfolding file_getdirentry_def Let_def
  by (auto simp: bind_eq_Some_conv split: if_splits dest!: types_frame intro: types_kept_trans)

lemma file_dup_types [types_frame]: "file_dup d1 d2 s = Some (r, s') \<Longrightarrow> types_kept s s'"
  unfolding file_dup_def
  by (auto simp: bind_eq_Some_conv split: if_splits dest!: types_frame intro: types_kept_trans)

text \<open>What \<open>file_open\<close> does with the inode it got.\<close>

lemma file_opened_types:
  assumes "(do {
            let s = upd_file p i (\<lambda>f. f\<lparr>pos := 0\<rparr>) s;
            (ret, s) \<leftarrow>
              (if and open_flags O_APPEND \<noteq> 0 then do {
                 (ret, st) \<leftarrow> vop_fstat nd s;
                 if ret \<noteq> 0 then do { (_, s) \<leftarrow> vfs_close nd s; s \<leftarrow> fd_array_free p i s; Some (ret, s) }
                 else Some (0, upd_file p i (\<lambda>f. f\<lparr>pos := to_i64 (int (st_size st))\<rparr>) s)
               } else Some (0, s));
            if ret \<noteq> 0 then Some (ret, s) else do {
              s \<leftarrow> fd_array_open p i (upd_file p i (\<lambda>f. f\<lparr>node := nd, readable := rd, writable := wr\<rparr>) s);
              Some (fd (the_file p i s), s)
            }
          }) = Some (r, s')" and "typed_result nd s0 s"
  shows "types_kept s0 s'"
proof -
  have opened: "types_kept s0 s2" if "fd_array_open p i (upd_file p i (\<lambda>f. f\<lparr>node := nd, readable := rd, writable := wr\<rparr>) s1) = Some s2"
    "typed_result nd s0 s1" for s1 s2
    by (rule types_kept_trans [OF upd_node_types fd_array_open_types]) (use that in simp_all)
  have closed: "types_kept s0 s2" if "vfs_close nd s1 = Some (a, s3)" "fd_array_free p i s3 = Some s2" "types_kept s0 s1" for s1 s2 s3 a
    using that(3) vfs_close_files [OF that(1), THEN same_files_types] fd_array_free_types [OF that(2)]
    by (blast intro: types_kept_trans)
  let ?s = "upd_file p i (\<lambda>f. f\<lparr>pos := 0\<rparr>) s"
  obtain x where inner: "(if and open_flags O_APPEND \<noteq> 0 then do {
                 (ret, st) \<leftarrow> vop_fstat nd ?s;
                 if ret \<noteq> 0 then do { (_, s) \<leftarrow> vfs_close nd ?s; s \<leftarrow> fd_array_free p i s; Some (ret, s) }
                 else Some (0, upd_file p i (\<lambda>f. f\<lparr>pos := to_i64 (int (st_size st))\<rparr>) ?s)
               } else Some (0, ?s)) = Some x"
    and outer: "(case x of (ret, s) \<Rightarrow> if ret \<noteq> 0 then Some (ret, s) else do {
              s \<leftarrow> fd_array_open p i (upd_file p i (\<lambda>f. f\<lparr>node := nd, readable := rd, writable := wr\<rparr>) s);
              Some (fd (the_file p i s), s)
            }) = Some (r, s')"
    using assms(1) unfolding Let_def by (subst (asm) bind_eq_Some_conv) blast
  have "types_kept s0 (snd x) \<and> (fst x = 0 \<longrightarrow> typed_result nd s0 (snd x))"
    using inner assms(2) typed_result_types [OF assms(2)]
    by (auto simp: bind_eq_Some_conv split: if_splits intro: closed)
  then show ?thesis using outer by (auto simp: bind_eq_Some_conv split: prod.splits if_splits intro: opened)
qed

lemma file_open_types [types_frame]:
  assumes "file_open pathp open_flags s = Some (r, s')"
  shows "types_kept s s'"
proof -
  define acc where "acc = and open_flags O_ACCMODE"
  define rd where "rd = (acc = O_RDONLY \<or> acc = O_RDWR)"
  define wr where "wr = (acc = O_WRONLY \<or> acc = O_RDWR)"
  define opened where "opened p i nd s = (do {
            let s = upd_file p i (\<lambda>f. f\<lparr>pos := 0\<rparr>) s;
            (ret, s) \<leftarrow>
              (if and open_flags O_APPEND \<noteq> 0 then do {
                 (ret, st) \<leftarrow> vop_fstat nd s;
                 if ret \<noteq> 0 then do { (_, s) \<leftarrow> vfs_close nd s; s \<leftarrow> fd_array_free p i s; Some (ret, s) }
                 else Some (0, upd_file p i (\<lambda>f. f\<lparr>pos := to_i64 (int (st_size st))\<rparr>) s)
               } else Some (0, s));
            if ret \<noteq> 0 then Some (ret, s) else do {
              s \<leftarrow> fd_array_open p i (upd_file p i (\<lambda>f. f\<lparr>node := nd, readable := rd, writable := wr\<rparr>) s);
              Some (fd (the_file p i s), s)
            }
          })" for p i nd s
  have eq: "file_open pathp open_flags s = (if \<not> rd \<and> \<not> wr then Some (- E_INVAL, s) else do {
        (ret, i, s) \<leftarrow> fd_array_alloc NO_FD s;
        if ret \<noteq> 0 then Some (ret, s) else do {
          p \<leftarrow> filesp s;
          (ret, nd, s) \<leftarrow> vfs_open pathp open_flags s;
          if ret \<noteq> 0 then do { s \<leftarrow> fd_array_free p i s; Some (ret, s) } else opened p i nd s
        } })"
    by (simp only: file_open_def opened_def rd_def wr_def acc_def Let_def)
  have "types_kept s0 b" if "opened p i nd a = Some (r, b)" "typed_result nd s0 a" for p i nd a b r s0
    using file_opened_types that unfolding opened_def by blast
  then show ?thesis using assms unfolding eq
    by (auto simp: bind_eq_Some_conv split: if_splits dest!: fd_array_alloc_types vfs_open_types fd_array_free_types
        intro: types_kept_trans typed_result_types typed_result_trans)
      (meson types_kept_trans typed_result_types)+
qed

text \<open>The tables of processes.\<close>

lemma fd_array_init_node: "node (fd_array_init a j) = node (a j)"
proof -
  have "node (fold (\<lambda>i a. a(i := (a i)\<lparr>fopen_count := 0, status := FD_NONE, fd := int i\<rparr>)) xs a j) = node (a j)" for xs
    by (induction xs arbitrary: a) auto
  then show ?thesis by (simp add: fd_array_init_def)
qed

lemma files_create_types [types_frame]: "files_create s = Some (p, s') \<Longrightarrow> types_kept s s'"
  unfolding files_create_def
  by (auto simp: bind_eq_Some_conv fd_array_init_node split: option.splits dest!: kalloc_types intro!: types_kept_trans [OF _ upd_files_types]) blast

lemma files_destroy_loop_types: "files_destroy_loop p k i s = Some s' \<Longrightarrow> types_kept s s'"
  by (induction p k i s rule: files_destroy_loop.induct)
     (auto simp: bind_eq_Some_conv kassert_def split: if_splits dest: fd_array_close_types intro: types_kept_trans)

lemma files_destroy_types [types_frame]: "files_destroy p s = Some s' \<Longrightarrow> types_kept s s'"
  unfolding files_destroy_def
  by (auto simp: bind_eq_Some_conv split: option.splits if_splits dest!: types_frame files_destroy_loop_types intro: types_kept_trans)

lemma files_closeall_loop_types: "files_closeall_loop p k i s = Some s' \<Longrightarrow> types_kept s s'"
  by (induction p k i s rule: files_closeall_loop.induct)
     (auto simp: bind_eq_Some_conv split: if_splits dest: fd_array_close_types intro: types_kept_trans)

lemma files_closeall_types [types_frame]: "files_closeall p s = Some s' \<Longrightarrow> types_kept s s'"
  by (auto simp: files_closeall_def split: if_splits dest: files_closeall_loop_types)

lemma dup_files_loop_types: "dup_files_loop q p k i s = Some s' \<Longrightarrow> types_kept s s'"
proof (induction k arbitrary: i s)
  case (Suc k)
  then show ?case
    by (auto simp: bind_eq_Some_conv split: if_splits dest!: fd_array_dup_types intro: types_kept_trans)
qed simp

lemma dup_files_types [types_frame]:
  assumes "dup_files q p s = Some (r, s')"
  shows "types_kept s s'"
proof -
  have "types_kept s (upd_files q (\<lambda>x. x\<lparr>pwd := pwd (files s p)\<rparr>) s)"
  proof (cases "typed_state s")
    case True
    then show ?thesis by (intro upd_files_types) (auto intro: ref_typed(1))
  qed (simp add: types_kept_def)
  then show ?thesis using assms unfolding dup_files_def
    by (auto simp: bind_eq_Some_conv Let_def split: if_splits option.splits dest!: dup_files_loop_types intro: types_kept_trans)
qed

subsection \<open>System calls\<close>

lemma set_copied_types [simp]:
  "types_kept s (set_copied x s') = types_kept s s'" "types_kept (set_copied x s) s' = types_kept s s'"
proof -
  have eq: "set_copied x t = upd_kmem (\<lambda>_. fst x) (t\<lparr>heap := (heap t)\<lparr>vm := snd x\<rparr>\<rparr>)" for t
    by (simp add: set_copied_def upd_kmem_def)
  show "types_kept s (set_copied x s') = types_kept s s'" "types_kept (set_copied x s) s' = types_kept s s'"
    unfolding eq by simp_all
qed

lemma copy_types [types_frame]:
  "user_to_kernel mm dst src len wr s = Some (ok, s') \<Longrightarrow> types_kept s s'"
  "kernel_to_user mm dst src len s = Some (ok, s') \<Longrightarrow> types_kept s s'"
  by (auto simp: user_to_kernel_def kernel_to_user_def bind_eq_Some_conv)

lemma copy_path_types [types_frame]: "copy_path mm a s = Some (r, q, s') \<Longrightarrow> types_kept s s'"
  unfolding copy_path_def Let_def
  by (auto simp: bind_eq_Some_conv split: option.splits if_splits dest!: types_frame intro: types_kept_trans)
     (meson types_kept_trans)+

lemma sysfile_open_types [types_frame]: "sysfile_open mm a fl s = Some (r, s') \<Longrightarrow> types_kept s s'"
  unfolding sysfile_open_def
  by (auto simp: bind_eq_Some_conv split: if_splits dest!: types_frame intro: types_kept_trans)

lemma sysfile_read_loop_types:
  assumes "sysfile_read_loop mm d base len buffer copied s = Some y"
  shows "types_kept s (snd (snd y))"
proof (rule sysfile_read_loop.raw_induct [where P = "\<lambda>_ _ _ _ _ _ s y. types_kept s (snd (snd y))", OF _ assms])
  fix loop mm d base len buffer copied s y
  assume ih: "\<And>mm d base len buffer copied s y. loop mm d base len buffer copied s = Some y \<Longrightarrow> types_kept s (snd (snd y))"
    and step: "(if len \<noteq> 0 then do {
        r \<leftarrow> file_read d buffer (if IOBUF_SIZE > len then len else IOBUF_SIZE) s;
        (case r of (ret, alen, s) \<Rightarrow> do {
          r \<leftarrow> (if alen \<noteq> 0 then do {
              u \<leftarrow> kernel_to_user mm base buffer alen s;
              (case u of (ok, s) \<Rightarrow>
                if ok then do { x \<leftarrow> kassert (len \<ge> alen); Some (ret, base + alen, len - alen, copied + alen, s) }
                else Some (if ret = 0 then - E_INVAL else ret, base, len, copied, s))
            } else Some (ret, base, len, copied, s));
          (case r of (ret, base, len, copied, s) \<Rightarrow>
            if ret \<noteq> 0 \<or> alen = 0 then Some (ret, copied, s)
            else loop mm d base len buffer copied s)
        })
      } else Some (0, copied, s)) = Some y"
  show "types_kept s (snd (snd y))"
  proof (cases "len = 0")
    case False
    then obtain ret alen s1 where s1: "file_read d buffer (if IOBUF_SIZE > len then len else IOBUF_SIZE) s = Some (ret, alen, s1)"
      and rest: "(do {
          r \<leftarrow> (if alen \<noteq> 0 then do {
              u \<leftarrow> kernel_to_user mm base buffer alen s1;
              (case u of (ok, s) \<Rightarrow>
                if ok then do { x \<leftarrow> kassert (len \<ge> alen); Some (ret, base + alen, len - alen, copied + alen, s) }
                else Some (if ret = 0 then - E_INVAL else ret, base, len, copied, s))
            } else Some (ret, base, len, copied, s1));
          (case r of (ret, base, len, copied, s) \<Rightarrow>
            if ret \<noteq> 0 \<or> alen = 0 then Some (ret, copied, s)
            else loop mm d base len buffer copied s) }) = Some y"
      using step by (auto simp: bind_eq_Some_conv [of "file_read _ _ _ _"])
    from rest obtain x where x: "(if alen \<noteq> 0 then do {
              u \<leftarrow> kernel_to_user mm base buffer alen s1;
              (case u of (ok, s) \<Rightarrow>
                if ok then do { x \<leftarrow> kassert (len \<ge> alen); Some (ret, base + alen, len - alen, copied + alen, s) }
                else Some (if ret = 0 then - E_INVAL else ret, base, len, copied, s))
            } else Some (ret, base, len, copied, s1)) = Some x"
      and y: "(case x of (ret, base, len, copied, s) \<Rightarrow>
            if ret \<noteq> 0 \<or> alen = 0 then Some (ret, copied, s)
            else loop mm d base len buffer copied s) = Some y"
      by (subst (asm) bind_eq_Some_conv) blast
    have "types_kept s1 (snd (snd (snd (snd x))))"
      using x by (auto simp: bind_eq_Some_conv split: if_splits dest!: copy_types(2))
    with file_read_types [OF s1] have "types_kept s (snd (snd (snd (snd x))))" by (rule types_kept_trans)
    then show ?thesis using y by (auto split: if_splits prod.splits dest!: ih intro: types_kept_trans)
  qed (use step in auto)
qed

lemma sysfile_write_loop_types:
  assumes "sysfile_write_loop mm d base len buffer copied s = Some y"
  shows "types_kept s (snd (snd y))"
proof (rule sysfile_write_loop.raw_induct [where P = "\<lambda>_ _ _ _ _ _ s y. types_kept s (snd (snd y))", OF _ assms])
  fix loop mm d base len buffer copied s y
  assume ih: "\<And>mm d base len buffer copied s y. loop mm d base len buffer copied s = Some y \<Longrightarrow> types_kept s (snd (snd y))"
    and step: "(if len \<noteq> 0 then do {
        u \<leftarrow> user_to_kernel mm buffer base (if IOBUF_SIZE > len then len else IOBUF_SIZE) False s;
        (case u of (ok, s) \<Rightarrow>
          if \<not> ok then Some (- E_INVAL, copied, s) else do {
            r \<leftarrow> file_write d buffer (if IOBUF_SIZE > len then len else IOBUF_SIZE) s;
            (case r of (ret, alen, s) \<Rightarrow> do {
              x \<leftarrow> kassert (len \<ge> alen);
              if ret \<noteq> 0 \<or> alen = 0 then Some (ret, copied + alen, s)
              else loop mm d (base + alen) (len - alen) buffer (copied + alen) s
            })
          })
      } else Some (0, copied, s)) = Some y"
  show "types_kept s (snd (snd y))"
    using step by (auto simp: bind_eq_Some_conv split: if_splits dest!: ih file_write_types copy_types(1) intro: types_kept_trans)
qed

lemma sysfile_read_types [types_frame]: "sysfile_read mm d base len s = Some (r, s') \<Longrightarrow> types_kept s s'"
  unfolding sysfile_read_def
  by (auto simp: bind_eq_Some_conv split: if_splits option.splits dest!: sysfile_read_loop_types types_frame)
     (meson types_kept_trans)+

lemma sysfile_write_types [types_frame]: "sysfile_write mm d base len s = Some (r, s') \<Longrightarrow> types_kept s s'"
  unfolding sysfile_write_def
  by (auto simp: bind_eq_Some_conv split: if_splits option.splits dest!: sysfile_write_loop_types types_frame)
     (meson types_kept_trans)+

lemma sysfile_fstat_types [types_frame]: "sysfile_fstat mm d u s = Some (r, s') \<Longrightarrow> types_kept s s'"
  unfolding sysfile_fstat_def
  by (auto simp: bind_eq_Some_conv split: if_splits dest!: types_frame intro: types_kept_trans)

lemma sysfile_chdir_types [types_frame]: "sysfile_chdir mm u s = Some (r, s') \<Longrightarrow> types_kept s s'"
  unfolding sysfile_chdir_def
  by (auto simp: bind_eq_Some_conv split: if_splits dest!: types_frame intro: types_kept_trans)

lemma two_paths_types: "two_paths op mm u v s = Some (r, s') \<Longrightarrow> types_kept s s'"
  unfolding two_paths_def
  by (auto simp: bind_eq_Some_conv split: if_splits dest!: types_frame) (meson types_kept_trans)+

lemma sysfile_unlink_types [types_frame]: "sysfile_unlink mm u s = Some (r, s') \<Longrightarrow> types_kept s s'"
  unfolding sysfile_unlink_def
  by (auto simp: bind_eq_Some_conv split: if_splits dest!: types_frame intro: types_kept_trans)

lemma sysfile_getcwd_types [types_frame]: "sysfile_getcwd mm u l s = Some (r, s') \<Longrightarrow> types_kept s s'"
  unfolding sysfile_getcwd_def Let_def
  by (auto simp: bind_eq_Some_conv split: if_splits dest!: vfs_getcwd_types)

lemma sysfile_getdirentry_types [types_frame]:
  assumes "sysfile_getdirentry mm d u s = Some (r, s')"
  shows "types_kept s s'"
proof -
  define put where "put a dp s = (if a \<noteq> 0 then Some (a, s) else do {
              (ok, s) \<leftarrow> kernel_to_user mm u dp sizeof_dirent s;
              Some (if ok then 0 else - E_INVAL, s)
            })" for a :: int and dp s
  define get where "get ok dp s = (if \<not> ok then Some (- E_INVAL, s) else file_getdirentry d dp s)" for ok dp s
  have eq: "sysfile_getdirentry mm d u s = do {
     (b, s) \<leftarrow> kalloc sizeof_dirent s;
     (case b of
        None \<Rightarrow> Some (- E_NO_MEM, s)
      | Some dp \<Rightarrow> do {
          (ok, s) \<leftarrow> user_to_kernel mm dp u 8 True s;
          (ret, s) \<leftarrow> get ok dp s;
          (ret, s) \<leftarrow> put ret dp s;
          s \<leftarrow> kdealloc dp s;
          Some (ret, s)
        }) }"
    by (simp only: sysfile_getdirentry_def put_def get_def)
  have put: "types_kept a b" if "put v dp a = Some (w, b)" for v dp a w b
    using that unfolding put_def by (auto simp: bind_eq_Some_conv split: if_splits dest!: copy_types(2))
  have get: "types_kept a b" if "get ok dp a = Some (w, b)" for ok dp a w b
    using that unfolding get_def by (auto split: if_splits dest!: file_getdirentry_types)
  show ?thesis using assms unfolding eq
    by (auto simp: bind_eq_Some_conv split: option.splits dest!: put get types_frame) (meson types_kept_trans)+
qed

lemma syscall_types [types_frame]:
  "sysfile_close d s = Some (r, s') \<Longrightarrow> types_kept s s'" "sysfile_seek d q w s = Some (r, s') \<Longrightarrow> types_kept s s'"
  "sysfile_fsync d s = Some (r, s') \<Longrightarrow> types_kept s s'" "sysfile_dup d1 d2 s = Some (r, s') \<Longrightarrow> types_kept s s'"
  "sysfile_link mm u v s = Some (r, s') \<Longrightarrow> types_kept s s'" "sysfile_rename mm u v s = Some (r, s') \<Longrightarrow> types_kept s s'"
  by (auto simp: sysfile_close_def sysfile_seek_def sysfile_fsync_def sysfile_dup_def sysfile_link_def sysfile_rename_def
      dest: types_frame two_paths_types)

end
