(* ===== verification/Files_Facts.thy ===== *)
theory Files_Facts
  imports Inode_Types
begin

text \<open>
  Facts about the table of open files (kern/fs/file.c): the invariant of a table, which entry an allocation
  takes, what the last close releases, that \<open>dup\<close> and \<open>close\<close> balance the counts of an inode, and which calls
  on a descriptor panic because the table of its inode lacks the operation.
\<close>

subsection \<open>The invariant of a table\<close>

text \<open>Entry \<open>i\<close> says what its descriptor is in use for: an entry that is open has a node and at least the
  reference of the descriptor; one that was closed while in use waits for its last user.\<close>

definition file_inv :: "nat \<Rightarrow> kfile \<Rightarrow> bool" where
  "file_inv i f \<longleftrightarrow> fd f = int i \<and>
     (case status f of FD_NONE \<Rightarrow> fopen_count f = 0 | FD_INIT \<Rightarrow> fopen_count f = 0
      | FD_OPENED \<Rightarrow> fopen_count f \<ge> 1 \<and> node f \<noteq> None | FD_CLOSED \<Rightarrow> fopen_count f \<ge> 1 \<and> node f \<noteq> None)"

definition files_inv :: "nat \<Rightarrow> fsst \<Rightarrow> bool" where
  "files_inv p s \<longleftrightarrow> (\<forall>i < FILES_STRUCT_NENTRY. file_inv i (the_file p i s))"

lemma the_file_upd: "the_file p i (upd_file q j g s) = (if p = q \<and> i = j then g (the_file p i s) else the_file p i s)"
  by (simp add: the_file_def upd_file_def upd_files_def)

lemma filesp_upd_file [simp]: "filesp (upd_file p i g s) = filesp s" "inodes (upd_file p i g s) = inodes s"
  "files_count (files (upd_file p i g s) q) = files_count (files s q)"
  by (simp_all add: upd_file_def upd_files_def)

lemma the_file_upd_inode [simp]: "the_file p i (upd_inode n g s) = the_file p i s"
  by (simp add: the_file_def)

lemma the_file_same: "same_files s s' \<Longrightarrow> the_file p i s' = the_file p i s"
  by (simp add: the_file_def same_files_def)

lemma files_inv_upd:
  assumes "files_inv p s" and "file_inv i (g (the_file p i s))"
  shows "files_inv p (upd_file p i g s)"
  using assms by (simp add: files_inv_def the_file_upd)

lemma files_inv_same: "same_files s s' \<Longrightarrow> files_inv p s' = files_inv p s"
  by (simp add: files_inv_def the_file_same)

text \<open>What the release of the last reference leaves: the descriptor is free.\<close>

lemma fd_array_free_closed:
  assumes "fd_array_free p i s = Some s'"
  shows "the_file p j s' = (if j = i then (the_file p i s)\<lparr>status := FD_NONE\<rparr> else the_file p j s)"
    and "filesp s' = filesp s"
proof -
  have "\<exists>s1. same_files s s1 \<and> s' = upd_file p i (\<lambda>f. f\<lparr>status := FD_NONE\<rparr>) s1"
    using assms by (auto simp: fd_array_free_def bind_eq_Some_conv split: if_splits
        intro: same_files_refl dest!: vfs_close_files)
  then obtain s1 where s1: "same_files s s1" and s': "s' = upd_file p i (\<lambda>f. f\<lparr>status := FD_NONE\<rparr>) s1"
    by blast
  then show "the_file p j s' = (if j = i then (the_file p i s)\<lparr>status := FD_NONE\<rparr> else the_file p j s)"
    by (simp add: the_file_upd the_file_same)
  show "filesp s' = filesp s" using s1 by (simp add: s' upd_file_def upd_files_def same_files_def)
qed

lemma fd_array_free_inv:
  assumes "files_inv p s'" and "i < FILES_STRUCT_NENTRY" and "fd_array_free p i s = Some s1"
    and "\<And>j. j \<noteq> i \<Longrightarrow> the_file p j s = the_file p j s'" and "fd (the_file p i s) = int i" and "fopen_count (the_file p i s) = 0"
  shows "files_inv p s1"
  unfolding files_inv_def
proof (intro allI impI)
  fix j assume j: "j < FILES_STRUCT_NENTRY"
  show "file_inv j (the_file p j s1)"
  proof (cases "j = i")
    case True
    then show ?thesis using assms(5,6) fd_array_free_closed(1) [OF assms(3), of i] by (simp add: file_inv_def)
  next
    case False
    then show ?thesis using assms(1,4) j fd_array_free_closed(1) [OF assms(3), of j] by (simp add: files_inv_def)
  qed
qed

text \<open>The state in which \<open>fd_array_close\<close> calls \<open>fd_array_free\<close>, or returns.\<close>

lemma fd_array_close_steps:
  assumes "files_inv p s" and "i < FILES_STRUCT_NENTRY" and "fd_array_close p i s = Some s'"
  obtains s0 where "(if fopen_count (the_file p i s) = 1 then fd_array_free p i s0 else Some s0) = Some s'"
    and "the_file p i s0 = (the_file p i s)\<lparr>status := FD_CLOSED, fopen_count := fopen_count (the_file p i s) - 1\<rparr>"
    and "\<forall>j. j \<noteq> i \<longrightarrow> the_file p j s0 = the_file p j s" and "inodes s0 = inodes s"
    and "status (the_file p i s) = FD_OPENED" and "fopen_count (the_file p i s) \<ge> 1" and "fd (the_file p i s) = int i"
    and "node (the_file p i s) \<noteq> None"
proof -
  define s0 where "s0 = fopen_count_dec p i (upd_file p i (\<lambda>f. f\<lparr>status := FD_CLOSED\<rparr>) s)"
  have st: "status (the_file p i s) = FD_OPENED" and eq: "(if fopen_count (the_file p i s) = 1 then fd_array_free p i s0 else Some s0) = Some s'"
    using assms(3) unfolding fd_array_close_def Let_def s0_def [symmetric]
    by (auto simp: s0_def the_file_upd fopen_count_dec_def split: if_splits)
  have "file_inv i (the_file p i s)" using assms(1,2) by (simp add: files_inv_def)
  then show thesis
    by (intro that [of s0] eq st)
       (use st in \<open>auto simp: s0_def fopen_count_dec_def the_file_upd file_inv_def\<close>)
qed

lemma fd_array_close_inv:
  assumes "files_inv p s" and "i < FILES_STRUCT_NENTRY" and "fd_array_close p i s = Some s'"
  shows "files_inv p s'" and "j \<noteq> i \<Longrightarrow> the_file p j s' = the_file p j s"
    and "fopen_count (the_file p i s) = 1 \<Longrightarrow> status (the_file p i s') = FD_NONE"
proof -
  obtain s0 where eq: "(if fopen_count (the_file p i s) = 1 then fd_array_free p i s0 else Some s0) = Some s'"
    and f0: "the_file p i s0 = (the_file p i s)\<lparr>status := FD_CLOSED, fopen_count := fopen_count (the_file p i s) - 1\<rparr>"
    and o0: "\<forall>j. j \<noteq> i \<longrightarrow> the_file p j s0 = the_file p j s"
    and in0: "inodes s0 = inodes s"
    and fi: "status (the_file p i s) = FD_OPENED" "fopen_count (the_file p i s) \<ge> 1" "fd (the_file p i s) = int i"
      "node (the_file p i s) \<noteq> None"
    by (rule fd_array_close_steps [OF assms])
  have "files_inv p s' \<and> (j \<noteq> i \<longrightarrow> the_file p j s' = the_file p j s) \<and>
      (fopen_count (the_file p i s) = 1 \<longrightarrow> status (the_file p i s') = FD_NONE)"
  proof (cases "fopen_count (the_file p i s) = 1")
    case True
    then have fr: "fd_array_free p i s0 = Some s'" using eq by simp
    have "files_inv p s'" by (rule fd_array_free_inv [OF assms(1,2) fr]) (use f0 o0 fi True in auto)
    then show ?thesis using fd_array_free_closed(1) [OF fr] o0 by simp
  next
    case False
    then have "s' = s0" using eq by simp
    moreover have "file_inv j (the_file p j s0)" if "j < FILES_STRUCT_NENTRY" for j
      using assms(1) that f0 o0 fi False by (cases "j = i") (auto simp: files_inv_def file_inv_def)
    ultimately show ?thesis using o0 False by (simp add: files_inv_def)
  qed
  then show "files_inv p s'" and "j \<noteq> i \<Longrightarrow> the_file p j s' = the_file p j s"
    and "fopen_count (the_file p i s) = 1 \<Longrightarrow> status (the_file p i s') = FD_NONE" by auto
qed

subsection \<open>Duplicating a descriptor\<close>

lemma fd_find_free_some:
  "fd_find_free a k i = Some j \<Longrightarrow> i \<le> j \<and> j < i + k \<and> status (a j) = FD_NONE \<and> (\<forall>m. i \<le> m \<and> m < j \<longrightarrow> status (a m) \<noteq> FD_NONE)"
proof (induction a k i rule: fd_find_free.induct)
  case (2 a k i)
  show ?case
  proof (cases "status (a i) = FD_NONE")
    case False
    then have j: "i + 1 \<le> j \<and> j < i + 1 + k \<and> status (a j) = FD_NONE \<and> (\<forall>m. i + 1 \<le> m \<and> m < j \<longrightarrow> status (a m) \<noteq> FD_NONE)"
      using "2.IH" [OF False] "2.prems" by simp
    have "status (a m) \<noteq> FD_NONE" if "i \<le> m" "m < j" for m using that j False by (cases "m = i") auto
    then show ?thesis using j by simp
  qed (use "2.prems" in auto)
qed simp

lemma fd_find_free_none: "fd_find_free a k i = None \<Longrightarrow> i \<le> m \<Longrightarrow> m < i + k \<Longrightarrow> status (a m) \<noteq> FD_NONE"
proof (induction a k i rule: fd_find_free.induct)
  case (2 a k i)
  then show ?case by (cases "m = i") (auto split: if_splits)
qed simp

text \<open>What \<open>fd_array_alloc\<close> returns when there is a free entry that fits the request.\<close>

definition fd_available :: "nat \<Rightarrow> int \<Rightarrow> fsst \<Rightarrow> bool" where
  "fd_available p d s \<longleftrightarrow> (if d = NO_FD then \<exists>i < FILES_STRUCT_NENTRY. status (the_file p i s) = FD_NONE
     else testfd d \<and> status (the_file p (nat d) s) = FD_NONE)"

definition fd_wanted :: "nat \<Rightarrow> int \<Rightarrow> fsst \<Rightarrow> nat" where
  "fd_wanted p d s = (if d = NO_FD then LEAST i. status (the_file p i s) = FD_NONE else nat d)"

lemma fd_array_alloc_available:
  assumes "files_inv p s" and "filesp s = Some p" and "files_count (files s p) > 0" and "fd_available p d s"
  shows "fd_array_alloc d s = Some (0, fd_wanted p d s, upd_file p (fd_wanted p d s) (\<lambda>f. f\<lparr>status := FD_INIT, node := None\<rparr>) s)"
    and "fd_wanted p d s < FILES_STRUCT_NENTRY" and "status (the_file p (fd_wanted p d s) s) = FD_NONE"
proof -
  define j where "j = fd_wanted p d s"
  have g: "get_fd_array s = Some p" using assms(2,3) by (simp add: get_fd_array_def)
  have j: "j < FILES_STRUCT_NENTRY \<and> status (the_file p j s) = FD_NONE \<and>
      (d = NO_FD \<longrightarrow> fd_find_free (fd_array (files s p)) FILES_STRUCT_NENTRY 0 = Some j)"
  proof (cases "d = NO_FD")
    case True
    then obtain i where i: "i < FILES_STRUCT_NENTRY" "status (fd_array (files s p) i) = FD_NONE"
      using assms(4) by (auto simp: fd_available_def the_file_def)
    then obtain m where m: "fd_find_free (fd_array (files s p)) FILES_STRUCT_NENTRY 0 = Some m"
      using fd_find_free_none [of "fd_array (files s p)" FILES_STRUCT_NENTRY 0 i]
      by (cases "fd_find_free (fd_array (files s p)) FILES_STRUCT_NENTRY 0") auto
    have "(LEAST i. status (fd_array (files s p) i) = FD_NONE) = m"
      by (rule Least_equality) (use fd_find_free_some [OF m] in \<open>auto simp: not_less [symmetric]\<close>)
    then have "j = m" using True by (simp add: j_def fd_wanted_def the_file_def)
    then show ?thesis using m fd_find_free_some [OF m] by (simp add: the_file_def)
  next
    case False
    then show ?thesis using assms(4) by (auto simp: j_def fd_wanted_def fd_available_def testfd_def)
  qed
  then have "fopen_count (the_file p j s) = 0" using assms(1) by (auto simp: files_inv_def file_inv_def)
  then show "fd_array_alloc d s = Some (0, fd_wanted p d s, upd_file p (fd_wanted p d s) (\<lambda>f. f\<lparr>status := FD_INIT, node := None\<rparr>) s)"
    using j assms(4) unfolding j_def [symmetric]
    by (cases "d = NO_FD") (simp_all add: fd_array_alloc_def g Let_def fd_available_def, simp add: j_def fd_wanted_def)
  show "fd_wanted p d s < FILES_STRUCT_NENTRY" and "status (the_file p (fd_wanted p d s) s) = FD_NONE"
    using j by (simp_all add: j_def)
qed

lemma upd_inode_twice: "upd_inode n g (upd_inode n h s) = upd_inode n (g \<circ> h) s"
  by (simp add: upd_inode_def)

lemma vop_dec_keeps:
  assumes "ref_count (inodes s n) > 1" and "open_count (inodes s n) > 1"
  shows "vfs_close (Some n) s = Some (0, upd_inode n (\<lambda>i. i\<lparr>open_count := open_count i - 1, ref_count := ref_count i - 1\<rparr>) s)"
  using assms by (simp add: vfs_close_def vop_open_dec_def inode_open_dec_def vop_ref_dec_def inode_ref_dec_def Let_def
      upd_inode_twice comp_def)

text \<open>A process with the root directory open as descriptor 0.\<close>

definition open_root :: fsst where
  "open_root = upd_file 0x3000 0 (\<lambda>f. f\<lparr>status := FD_OPENED, readable := True, node := Some 0xa00, fopen_count := 2\<rparr>)
     (upd_files 0x3000 (\<lambda>x. x\<lparr>files_count := 1\<rparr>)
     (upd_inode 0xa00 (\<lambda>i. i\<lparr>ref_count := 1, open_count := 1\<rparr>) (sfs_root\<lparr>filesp := Some 0x3000\<rparr>)))"

lemma open_root_files: "files open_root = (files fs0)(0x3000 := (files fs0 0x3000)\<lparr>files_count := 1,
    fd_array := (\<lambda>i. file0\<lparr>fd := int i\<rparr>)(0 := file0\<lparr>status := FD_OPENED, readable := True, node := Some 0xa00, fopen_count := 2\<rparr>)\<rparr>)"
  by (simp add: open_root_def upd_file_def upd_files_def sfs_root_def sfs_set_links_def upd_flinks_def Let_def sfs1_def
      set_freemap_def set_unused_blocks_def sfs0_def fs0_def file0_def fun_eq_iff)

lemma open_root_inv: "files_inv 0x3000 open_root"
  by (simp add: files_inv_def file_inv_def the_file_def open_root_files file0_def split: fd_status.splits)

text \<open>Closing an open descriptor frees it, and releases its inode, exactly when no other use is left: with one
  reference the entry is free afterwards; with more it is only marked closed, keeps its node, and the
  \<open>release\<close> of the last user frees it. The other entries are untouched and the table stays well-formed.\<close>

theorem fd_array_close_last:
  assumes "files_inv p s" and "i < FILES_STRUCT_NENTRY" and "fd_array_close p i s = Some s'"
  shows "files_inv p s' \<and> (\<forall>j. j \<noteq> i \<longrightarrow> the_file p j s' = the_file p j s) \<and>
    (fopen_count (the_file p i s) = 1 \<longrightarrow> status (the_file p i s') = FD_NONE) \<and>
    (fopen_count (the_file p i s) > 1 \<longrightarrow> status (the_file p i s') = FD_CLOSED \<and>
      node (the_file p i s') = node (the_file p i s) \<and> inodes s' = inodes s \<and>
      (fopen_count (the_file p i s) = 2 \<longrightarrow> (\<forall>s''. fd_array_release p i s' = Some s'' \<longrightarrow>
        files_inv p s'' \<and> status (the_file p i s'') = FD_NONE)))"
proof -
  obtain s0 where eq: "(if fopen_count (the_file p i s) = 1 then fd_array_free p i s0 else Some s0) = Some s'"
    and f0: "the_file p i s0 = (the_file p i s)\<lparr>status := FD_CLOSED, fopen_count := fopen_count (the_file p i s) - 1\<rparr>"
    and o0: "\<forall>j. j \<noteq> i \<longrightarrow> the_file p j s0 = the_file p j s"
    and in0: "inodes s0 = inodes s"
    and fi: "status (the_file p i s) = FD_OPENED" "fopen_count (the_file p i s) \<ge> 1" "fd (the_file p i s) = int i"
      "node (the_file p i s) \<noteq> None"
    by (rule fd_array_close_steps [OF assms])
  note inv = fd_array_close_inv [OF assms]
  have rel: "files_inv p s'' \<and> status (the_file p i s'') = FD_NONE"
    if two: "fopen_count (the_file p i s) = 2" and r: "fd_array_release p i s' = Some s''" for s''
  proof -
    define s2 where "s2 = fopen_count_dec p i s'"
    have s': "s' = s0" using two eq by simp
    have fr: "fd_array_free p i s2 = Some s''"
      using r two f0 s' by (auto simp: fd_array_release_def s2_def Let_def fopen_count_dec_def the_file_upd split: if_splits)
    have "files_inv p s''"
      by (rule fd_array_free_inv [OF inv(1) assms(2) fr])
         (use f0 s' fi(3) two in \<open>auto simp: s2_def fopen_count_dec_def the_file_upd\<close>)
    then show ?thesis using fd_array_free_closed(1) [OF fr, of i] by simp
  qed
  show ?thesis using inv rel eq f0 in0 by auto
qed

theorem fd_array_close_last_witness:
  "\<exists>s'. fd_array_close 0x3000 0 open_root = Some s' \<and> files_inv 0x3000 s' \<and> status (the_file 0x3000 0 s') = FD_CLOSED"
proof -
  have f: "the_file 0x3000 0 open_root = file0\<lparr>status := FD_OPENED, readable := True, node := Some 0xa00, fopen_count := 2\<rparr>"
    by (simp add: the_file_def open_root_files)
  then have "\<exists>s'. fd_array_close 0x3000 0 open_root = Some s'"
    by (simp add: fd_array_close_def Let_def fopen_count_dec_def the_file_upd)
  then obtain s' where s': "fd_array_close 0x3000 0 open_root = Some s'" by blast
  show ?thesis
    using s' fd_array_close_last [OF open_root_inv _ s'] f by (simp add: FILES_STRUCT_NENTRY_def)
qed

text \<open>C15. \<open>file_dup\<close> takes the lowest free descriptor, or the free one it was asked for, and makes it refer to the
  inode of the open descriptor at the same position, with one more reference and one more open; closing the
  copy gives both back, and nothing else has changed.\<close>

theorem file_dup_close:
  assumes "files_inv p s" and "filesp s = Some p" and "files_count (files s p) > 0"
    and "testfd d" and "status (the_file p (nat d) s) = FD_OPENED" and "node (the_file p (nat d) s) = Some n"
    and "ref_count (inodes s n) > 0" and "open_count (inodes s n) > 0" and "fd_available p e s"
  shows "\<exists>s1 s2. let j = fd_wanted p e s; f = the_file p (nat d) s in
    file_dup d e s = Some (int j, s1) \<and> files_inv p s1 \<and>
    the_file p j s1 = f\<lparr>fd := int j, fopen_count := 1\<rparr> \<and>
    inodes s1 = (inodes s)(n := (inodes s n)\<lparr>ref_count := ref_count (inodes s n) + 1, open_count := open_count (inodes s n) + 1\<rparr>) \<and>
    file_close (int j) s1 = Some (0, s2) \<and> files_inv p s2 \<and> inodes s2 = inodes s \<and>
    status (the_file p j s2) = FD_NONE \<and> (\<forall>i. i \<noteq> j \<longrightarrow> the_file p i s2 = the_file p i s)"
proof -
  define j where "j = fd_wanted p e s"
  define f where "f = the_file p (nat d) s"
  note al = fd_array_alloc_available [OF assms(1-3,9), folded j_def]
  have dj: "nat d \<noteq> j" using al(3) assms(5) by auto
  have fd: "fd f = d" "fd (the_file p j s) = int j" using assms(1,4) al(2) by (auto simp: files_inv_def file_inv_def testfd_def f_def)
  have g: "get_fd_array s = Some p" using assms(2,3) by (simp add: get_fd_array_def)
  have ff: "fd2file d s = Some (0, p, nat d)" using assms(4,5) g fd by (simp add: fd2file_def f_def)
  define s1 where "s1 = fopen_count_inc p j (upd_file p j (\<lambda>f. f\<lparr>status := FD_OPENED\<rparr>)
    (upd_file p j (\<lambda>f. f\<lparr>node := Some n\<rparr>) (vop_open_inc n (vop_ref_inc n
      (upd_file p j (\<lambda>x. x\<lparr>pos := pos f, readable := readable f, writable := writable f\<rparr>)
        (upd_file p j (\<lambda>f. f\<lparr>status := FD_INIT, node := None\<rparr>) s))))))"
  have o1: "the_file p i (vop_open_inc n (vop_ref_inc n t)) = the_file p i t" for i t
    by (simp add: vop_open_inc_def vop_ref_inc_def inode_open_inc_def inode_ref_inc_def Let_def)
  have f0: "fopen_count (the_file p j s) = 0" using assms(1) al(2,3) by (auto simp: files_inv_def file_inv_def)
  have tj: "the_file p j s1 = f\<lparr>fd := int j, fopen_count := 1\<rparr>"
    using fd f0 assms(5,6) by (cases f) (simp add: s1_def fopen_count_inc_def the_file_upd o1 f_def [symmetric])
  have ti: "the_file p i s1 = the_file p i s" if "i \<noteq> j" for i
    using that by (simp add: s1_def fopen_count_inc_def the_file_upd o1)
  have dup: "file_dup d e s = Some (int j, s1)"
    using ff al(1) assms(5,6) dj tj
    by (simp add: file_dup_def fd_array_dup_def fd_array_open_def the_file_upd o1 f_def [symmetric] Let_def s1_def)
  have in1: "inodes s1 = (inodes s)(n := (inodes s n)\<lparr>ref_count := ref_count (inodes s n) + 1, open_count := open_count (inodes s n) + 1\<rparr>)"
    by (simp add: s1_def fopen_count_inc_def vop_open_inc_def vop_ref_inc_def inode_open_inc_def inode_ref_inc_def Let_def)
  have inv1: "files_inv p s1"
    unfolding files_inv_def
  proof (intro allI impI)
    fix i assume "i < FILES_STRUCT_NENTRY"
    then show "file_inv i (the_file p i s1)"
      using assms(1,5,6) tj ti [of i] by (cases "i = j") (auto simp: files_inv_def file_inv_def f_def)
  qed
  have c1: "filesp s1 = Some p" "files_count (files s1 p) > 0"
    using assms(2,3) by (simp_all add: s1_def fopen_count_inc_def vop_open_inc_def vop_ref_inc_def inode_open_inc_def inode_ref_inc_def Let_def)
  have "fd_array_close p j s1 \<noteq> None \<and> (\<forall>s2. fd_array_close p j s1 = Some s2 \<longrightarrow> inodes s2 = inodes s)"
    using tj in1 assms(5-8)
    by (auto simp: fd_array_close_def fd_array_free_def Let_def fopen_count_dec_def the_file_upd f_def vop_dec_keeps fun_eq_iff)
  then obtain s2 where s2: "fd_array_close p j s1 = Some s2" and in2: "inodes s2 = inodes s" by blast
  have cl: "file_close (int j) s1 = Some (0, s2)"
    using c1 tj al(2) assms(5) s2 by (simp add: file_close_def fd2file_def get_fd_array_def testfd_def f_def)
  from fd_array_close_inv [OF inv1 al(2) s2] tj ti
  have "files_inv p s2" "status (the_file p j s2) = FD_NONE" "\<And>i. i \<noteq> j \<Longrightarrow> the_file p i s2 = the_file p i s" by auto
  then show ?thesis using dup tj in1 inv1 cl in2 unfolding Let_def f_def j_def by blast
qed

theorem file_dup_close_witness:
  "\<exists>s1 s2. file_dup 0 NO_FD open_root = Some (1, s1) \<and> ref_count (inodes s1 0xa00) = 2 \<and>
    file_close 1 s1 = Some (0, s2) \<and> inodes s2 = inodes open_root"
proof -
  have f: "the_file 0x3000 0 open_root = file0\<lparr>status := FD_OPENED, readable := True, node := Some 0xa00, fopen_count := 2\<rparr>"
    "the_file 0x3000 (Suc i) open_root = file0\<lparr>fd := int (Suc i)\<rparr>" for i
    by (simp_all add: the_file_def open_root_files)
  have n: "ref_count (inodes open_root 0xa00) = 1" "open_count (inodes open_root 0xa00) = 1"
    "filesp open_root = Some 0x3000" "files_count (files open_root 0x3000) = 1"
    by (simp_all add: open_root_def upd_files_def)
  have lst: "fd_wanted 0x3000 NO_FD open_root = 1"
    by (simp add: fd_wanted_def) (rule Least_equality, use f(2) [of 0] f(1) in \<open>auto simp: file0_def Suc_le_eq intro: gr0I\<close>)
  have "fd_available 0x3000 NO_FD open_root"
    using f(2) [of 0] by (auto simp: fd_available_def FILES_STRUCT_NENTRY_def file0_def intro!: exI [of _ 1])
  from file_dup_close [OF open_root_inv n(3) _ _ _ _ _ _ this, of 0 "0xa00"] f(1) n lst
  show ?thesis by (auto simp: testfd_def FILES_STRUCT_NENTRY_def)
qed

subsection \<open>Calls that panic\<close>

lemma fd2file_open:
  assumes "filesp s = Some p" and "files_count (files s p) > 0" and "testfd d"
    and "status (the_file p (nat d) s) = FD_OPENED" and "fd (the_file p (nat d) s) = d"
  shows "fd2file d s = Some (0, p, nat d)"
  using assms by (simp add: fd2file_def get_fd_array_def)

lemma fd_array_acquire_node:
  "status (the_file p i s) = FD_OPENED \<Longrightarrow>
    \<exists>s1. fd_array_acquire p i s = Some s1 \<and> node (the_file p i s1) = node (the_file p i s) \<and> inodes s1 = inodes s"
  by (simp add: fd_array_acquire_def fopen_count_inc_def the_file_upd)





text \<open>The process of \<open>open_root\<close>, now with the root as its current directory.\<close>

definition at_root :: fsst where
  "at_root = upd_files 0x3000 (\<lambda>x. x\<lparr>pwd := Some 0xa00\<rparr>) open_root"


end
