(* ===== verification/Files_Copy.thy ===== *)
theory Files_Copy
  imports Files_Facts
begin

text \<open>
  The copy of a table of open files for a child (\<open>dup_files\<close>) and its destruction (\<open>files_destroy\<close>, both in
  kern/fs/fs.c), on the counts of the inodes.
\<close>

subsection \<open>Copying and destroying a table\<close>

text \<open>The inodes of the open entries of a table, in order of the descriptors, and the inodes with one more
  reference and open for each of a list.\<close>

definition nodes_from :: "nat \<Rightarrow> nat \<Rightarrow> nat \<Rightarrow> fsst \<Rightarrow> nat list" where
  "nodes_from p i k s = map (\<lambda>j. the (node (the_file p j s))) (filter (\<lambda>j. status (the_file p j s) = FD_OPENED) [i ..< i + k])"

definition table_nodes :: "nat \<Rightarrow> fsst \<Rightarrow> nat list" where
  "table_nodes p s = nodes_from p 0 FILES_STRUCT_NENTRY s"

definition take_nodes :: "nat list \<Rightarrow> (nat \<Rightarrow> inode) \<Rightarrow> nat \<Rightarrow> inode" where
  "take_nodes ns I = (\<lambda>m. (I m)\<lparr>ref_count := ref_count (I m) + int (count_list ns m),
     open_count := open_count (I m) + int (count_list ns m)\<rparr>)"

lemma nodes_from_Suc: "nodes_from p i (Suc k) s =
    (if status (the_file p i s) = FD_OPENED then the (node (the_file p i s)) # nodes_from p (Suc i) k s else nodes_from p (Suc i) k s)"
proof -
  have "[i ..< i + Suc k] = i # [Suc i ..< Suc i + k]" by (simp add: upt_conv_Cons)
  then show ?thesis by (simp add: nodes_from_def)
qed

lemma nodes_from_0 [simp]: "nodes_from p i 0 s = []"
  by (simp add: nodes_from_def)

lemma nodes_from_cong:
  assumes "\<And>j. i \<le> j \<Longrightarrow> j < i + k \<Longrightarrow> status (the_file p j s) = FD_OPENED \<longleftrightarrow> status (the_file q j s') = FD_OPENED"
    and "\<And>j. i \<le> j \<Longrightarrow> j < i + k \<Longrightarrow> status (the_file p j s) = FD_OPENED \<Longrightarrow> node (the_file p j s) = node (the_file q j s')"
  shows "nodes_from p i k s = nodes_from q i k s'"
proof -
  have "filter (\<lambda>j. status (the_file p j s) = FD_OPENED) [i ..< i + k] = filter (\<lambda>j. status (the_file q j s') = FD_OPENED) [i ..< i + k]"
    using assms(1) by (intro filter_cong) auto
  then show ?thesis using assms unfolding nodes_from_def by (intro map_cong) auto
qed

lemma take_nodes_simps [simp]:
  "take_nodes [] I = I" "(take_nodes (n # ns) I)(n := (take_nodes (n # ns) I n)\<lparr>open_count := open_count (take_nodes (n # ns) I n) - 1,
      ref_count := ref_count (take_nodes (n # ns) I n) - 1\<rparr>) = take_nodes ns I"
  by (auto simp: take_nodes_def fun_eq_iff)

lemma take_nodes_Cons:
  "take_nodes ns (I(n := (I n)\<lparr>ref_count := ref_count (I n) + 1, open_count := open_count (I n) + 1\<rparr>)) = take_nodes (n # ns) I"
  by (auto simp: take_nodes_def fun_eq_iff)

lemma vop_inc_twice:
  "inodes (vop_open_inc n (vop_ref_inc n s)) =
    (inodes s)(n := (inodes s n)\<lparr>ref_count := ref_count (inodes s n) + 1, open_count := open_count (inodes s n) + 1\<rparr>)"
  "the_file p i (vop_open_inc n (vop_ref_inc n s)) = the_file p i s"
  "filesp (vop_open_inc n (vop_ref_inc n s)) = filesp s" "files (vop_open_inc n (vop_ref_inc n s)) = files s"
  by (simp_all add: vop_open_inc_def vop_ref_inc_def inode_open_inc_def inode_ref_inc_def Let_def)

definition same_heads :: "fsst \<Rightarrow> fsst \<Rightarrow> bool" where
  "same_heads s s' \<longleftrightarrow> (\<forall>x. pwd (files s' x) = pwd (files s x) \<and> files_count (files s' x) = files_count (files s x))"

lemma same_heads_simps [simp]:
  "same_heads s s" "same_heads s (upd_file p i g s') = same_heads s s'" "same_heads s (upd_inode n h s') = same_heads s s'"
  "same_heads s (vop_open_inc n (vop_ref_inc n s')) = same_heads s s'" "same_heads s (vop_ref_inc n s') = same_heads s s'"
  by (auto simp: same_heads_def upd_file_def upd_files_def vop_open_inc_def vop_ref_inc_def inode_open_inc_def inode_ref_inc_def Let_def)

lemma same_heads_trans: "same_heads s s' \<Longrightarrow> same_heads s' s'' \<Longrightarrow> same_heads s s''"
  by (simp add: same_heads_def)

definition copied_entry :: "kfile \<Rightarrow> kfile \<Rightarrow> kfile" where
  "copied_entry f g = (if status f = FD_OPENED
     then g\<lparr>status := FD_OPENED, pos := pos f, readable := readable f, writable := writable f, node := node f, fopen_count := fopen_count g + 1\<rparr>
     else g)"

lemma fd_array_dup_entry:
  assumes "status (the_file q j s) = FD_OPENED" and "node (the_file q j s) = Some n" and "p \<noteq> q"
  shows "\<exists>s'. fd_array_dup p i q j (upd_file p i (\<lambda>f. f\<lparr>status := FD_INIT\<rparr>) s) = Some s' \<and>
    the_file p i s' = copied_entry (the_file q j s) (the_file p i s) \<and>
    (\<forall>x y. (x, y) \<noteq> (p, i) \<longrightarrow> the_file x y s' = the_file x y s) \<and> same_heads s s' \<and>
    inodes s' = (inodes s)(n := (inodes s n)\<lparr>ref_count := ref_count (inodes s n) + 1, open_count := open_count (inodes s n) + 1\<rparr>)"
  using assms
  by (auto simp: fd_array_dup_def fd_array_open_def fopen_count_inc_def the_file_upd vop_inc_twice copied_entry_def Let_def)

lemma dup_files_loop_copies:
  assumes "p \<noteq> q" and "\<forall>j. i \<le> j \<and> j < i + k \<longrightarrow> file_inv j (the_file q j s)"
  shows "\<exists>s'. dup_files_loop p q k i s = Some s' \<and>
    (\<forall>j. i \<le> j \<and> j < i + k \<longrightarrow> the_file p j s' = copied_entry (the_file q j s) (the_file p j s)) \<and>
    (\<forall>j. \<not> (i \<le> j \<and> j < i + k) \<longrightarrow> the_file p j s' = the_file p j s) \<and> (\<forall>x j. x \<noteq> p \<longrightarrow> the_file x j s' = the_file x j s) \<and>
    same_heads s s' \<and> inodes s' = take_nodes (nodes_from q i k s) (inodes s)"
  using assms(2)
proof (induction k arbitrary: i s)
  case 0
  then show ?case by auto
next
  case (Suc k)
  obtain s1 where s1: "(if status (the_file q i s) = FD_OPENED
      then fd_array_dup p i q i (upd_file p i (\<lambda>f. f\<lparr>status := FD_INIT\<rparr>) s) else Some s) = Some s1"
    "the_file p i s1 = copied_entry (the_file q i s) (the_file p i s)"
    "\<forall>x y. (x, y) \<noteq> (p, i) \<longrightarrow> the_file x y s1 = the_file x y s" "same_heads s s1"
    "take_nodes (nodes_from q (Suc i) k s) (inodes s1) = take_nodes (nodes_from q i (Suc k) s) (inodes s)"
  proof (cases "status (the_file q i s) = FD_OPENED")
    case True
    then obtain n where n: "node (the_file q i s) = Some n" using Suc.prems by (force simp: file_inv_def)
    from fd_array_dup_entry [OF True n assms(1), of i] obtain s1 where
      "fd_array_dup p i q i (upd_file p i (\<lambda>f. f\<lparr>status := FD_INIT\<rparr>) s) = Some s1"
      "the_file p i s1 = copied_entry (the_file q i s) (the_file p i s)"
      "\<forall>x y. (x, y) \<noteq> (p, i) \<longrightarrow> the_file x y s1 = the_file x y s" "same_heads s s1"
      "inodes s1 = (inodes s)(n := (inodes s n)\<lparr>ref_count := ref_count (inodes s n) + 1, open_count := open_count (inodes s n) + 1\<rparr>)"
      by blast
    then show ?thesis using True n by (intro that [of s1]) (simp_all add: nodes_from_Suc take_nodes_Cons)
  qed (auto simp: copied_entry_def nodes_from_Suc intro: that [of s])
  have q1: "the_file q j s1 = the_file q j s" for j using s1(3) assms(1) by auto
  then have "nodes_from q (Suc i) k s1 = nodes_from q (Suc i) k s" by (intro nodes_from_cong) auto
  moreover have "\<forall>j. Suc i \<le> j \<and> j < Suc i + k \<longrightarrow> file_inv j (the_file q j s1)" using Suc.prems q1 by auto
  ultimately obtain s2 where s2: "dup_files_loop p q k (Suc i) s1 = Some s2"
    "\<forall>j. Suc i \<le> j \<and> j < Suc i + k \<longrightarrow> the_file p j s2 = copied_entry (the_file q j s1) (the_file p j s1)"
    "\<forall>j. \<not> (Suc i \<le> j \<and> j < Suc i + k) \<longrightarrow> the_file p j s2 = the_file p j s1"
    "\<forall>x j. x \<noteq> p \<longrightarrow> the_file x j s2 = the_file x j s1" "same_heads s1 s2" "inodes s2 = take_nodes (nodes_from q i (Suc k) s) (inodes s)"
    using Suc.IH [of "Suc i" s1] s1(5) by auto
  have "the_file p j s2 = copied_entry (the_file q j s) (the_file p j s)" if "i \<le> j" "j < i + Suc k" for j
    using that s2(2,3) s1(2,3) q1 by (cases "j = i") auto
  moreover have "the_file p j s2 = the_file p j s" if "\<not> (i \<le> j \<and> j < i + Suc k)" for j
    using that s2(3) s1(3) by auto
  moreover have "dup_files_loop p q (Suc k) i s = Some s2" using s1(1) s2(1) by simp
  ultimately show ?case using s2(4,6) s1(3) same_heads_trans [OF s1(4) s2(5)] by auto
qed


text \<open>Destroying a table whose open entries have one use each, when none of their inodes loses its last use.\<close>

lemma fd_array_close_shared:
  assumes "file_inv i (the_file p i s)" and "status (the_file p i s) = FD_OPENED" and "fopen_count (the_file p i s) = 1"
    and "node (the_file p i s) = Some n" and "inodes s = take_nodes (n # ns) I" and "ref_count (I n) > 0" and "open_count (I n) > 0"
  shows "\<exists>s'. fd_array_close p i s = Some s' \<and> status (the_file p i s') = FD_NONE \<and>
    (\<forall>x y. (x, y) \<noteq> (p, i) \<longrightarrow> the_file x y s' = the_file x y s) \<and> inodes s' = take_nodes ns I"
proof -
  define s0 where "s0 = fopen_count_dec p i (upd_file p i (\<lambda>f. f\<lparr>status := FD_CLOSED\<rparr>) s)"
  have f0: "the_file x y s0 = (if x = p \<and> y = i then (the_file p i s)\<lparr>status := FD_CLOSED, fopen_count := 0\<rparr> else the_file x y s)" for x y
    using assms(3) by (simp add: s0_def fopen_count_dec_def the_file_upd)
  have in0: "inodes s0 = take_nodes (n # ns) I" using assms(5) by (simp add: s0_def fopen_count_dec_def)
  have "ref_count (inodes s0 n) > 1" "open_count (inodes s0 n) > 1"
    using assms(6,7) by (simp_all add: in0 take_nodes_def)
  note cl = vop_dec_keeps [OF this]
  have "fd_array_close p i s = fd_array_free p i s0"
    using assms(2,3) f0 by (simp add: fd_array_close_def s0_def [symmetric] Let_def)
  also have "\<dots> = Some (upd_file p i (\<lambda>f. f\<lparr>status := FD_NONE\<rparr>)
      (upd_inode n (\<lambda>i. i\<lparr>open_count := open_count i - 1, ref_count := ref_count i - 1\<rparr>) s0))"
    using f0 assms(4) cl by (simp add: fd_array_free_def)
  finally show ?thesis using in0 f0 by (simp add: the_file_upd)
qed

lemma files_destroy_loop_shared:
  assumes "\<forall>j. i \<le> j \<and> j < i + k \<longrightarrow> file_inv j (the_file p j s) \<and>
      (status (the_file p j s) = FD_NONE \<or> status (the_file p j s) = FD_OPENED \<and> fopen_count (the_file p j s) = 1)"
    and "inodes s = take_nodes (nodes_from p i k s) I" and "\<forall>n \<in> set (nodes_from p i k s). ref_count (I n) > 0 \<and> open_count (I n) > 0"
  shows "\<exists>s'. files_destroy_loop p k i s = Some s' \<and> inodes s' = I \<and>
    (\<forall>j. i \<le> j \<and> j < i + k \<longrightarrow> status (the_file p j s') = FD_NONE) \<and> (\<forall>j < i. the_file p j s' = the_file p j s)"
  using assms
proof (induction k arbitrary: i s)
  case 0
  then show ?case by auto
next
  case (Suc k)
  have fi: "file_inv i (the_file p i s)" and st: "status (the_file p i s) = FD_NONE \<or>
      status (the_file p i s) = FD_OPENED \<and> fopen_count (the_file p i s) = 1" using Suc.prems(1) by auto
  obtain s1 where s1: "(if status (the_file p i s) = FD_OPENED then fd_array_close p i s else Some s) = Some s1"
    "status (the_file p i s1) = FD_NONE" "\<forall>x y. (x, y) \<noteq> (p, i) \<longrightarrow> the_file x y s1 = the_file x y s"
    "inodes s1 = take_nodes (nodes_from p (Suc i) k s) I"
  proof (cases "status (the_file p i s) = FD_OPENED")
    case True
    then obtain n where n: "node (the_file p i s) = Some n" using fi by (auto simp: file_inv_def)
    then have "inodes s = take_nodes (n # nodes_from p (Suc i) k s) I" "ref_count (I n) > 0" "open_count (I n) > 0"
      using Suc.prems(2,3) True by (simp_all add: nodes_from_Suc)
    from fd_array_close_shared [OF fi True _ n this] st True obtain s1 where
      "fd_array_close p i s = Some s1" "status (the_file p i s1) = FD_NONE"
      "\<forall>x y. (x, y) \<noteq> (p, i) \<longrightarrow> the_file x y s1 = the_file x y s" "inodes s1 = take_nodes (nodes_from p (Suc i) k s) I"
      by auto
    then show ?thesis using True by (intro that [of s1]) simp_all
  qed (use st Suc.prems(2) in \<open>auto simp: nodes_from_Suc intro: that\<close>)
  have same: "the_file p j s1 = the_file p j s" if "j \<noteq> i" for j using s1(3) that by auto
  then have nf: "nodes_from p (Suc i) k s1 = nodes_from p (Suc i) k s" by (intro nodes_from_cong) auto
  have "\<exists>s'. files_destroy_loop p k (Suc i) s1 = Some s' \<and> inodes s' = I \<and>
    (\<forall>j. Suc i \<le> j \<and> j < Suc i + k \<longrightarrow> status (the_file p j s') = FD_NONE) \<and> (\<forall>j < Suc i. the_file p j s' = the_file p j s1)"
  proof (rule Suc.IH)
    show "inodes s1 = take_nodes (nodes_from p (Suc i) k s1) I" using s1(4) nf by simp
    show "\<forall>n \<in> set (nodes_from p (Suc i) k s1). ref_count (I n) > 0 \<and> open_count (I n) > 0"
      unfolding nf using Suc.prems(3) by (auto simp: nodes_from_Suc split: if_splits)
  qed (use Suc.prems(1) same in auto)
  then obtain s2 where s2: "files_destroy_loop p k (Suc i) s1 = Some s2" "inodes s2 = I"
    "\<forall>j. Suc i \<le> j \<and> j < Suc i + k \<longrightarrow> status (the_file p j s2) = FD_NONE" "\<forall>j < Suc i. the_file p j s2 = the_file p j s1" by blast
  have "status (the_file p j s2) = FD_NONE" if "i \<le> j" "j < i + Suc k" for j
    using that s2(3,4) s1(2) by (cases "j = i") auto
  then show ?case using s1(1,2) s2 same by auto
qed


definition hold_pwd :: "nat option \<Rightarrow> (nat \<Rightarrow> inode) \<Rightarrow> nat \<Rightarrow> inode" where
  "hold_pwd d I = (case d of None \<Rightarrow> I | Some n \<Rightarrow> I(n := (I n)\<lparr>ref_count := ref_count (I n) + 1\<rparr>))"

lemma the_file_pwd [simp]: "the_file x j (upd_files p (\<lambda>f. f\<lparr>pwd := d\<rparr>) s) = the_file x j s"
  "inodes (upd_files p g s) = inodes s"
  by (simp_all add: the_file_def upd_files_def)

lemma release_pwd:
  assumes "inodes s = take_nodes ns (hold_pwd d I)" and "\<forall>n. d = Some n \<longrightarrow> ref_count (I n) > 0"
  shows "\<exists>s'. (case d of Some n \<Rightarrow> vop_ref_dec n s | None \<Rightarrow> Some s) = Some s' \<and> inodes s' = take_nodes ns I \<and>
    (\<forall>x j. the_file x j s' = the_file x j s)"
proof (cases d)
  case (Some n)
  then have "ref_count (inodes s n) > 1" using assms by (simp add: hold_pwd_def take_nodes_def)
  then have "vop_ref_dec n s = Some (upd_inode n (\<lambda>i. i\<lparr>ref_count := ref_count i - 1\<rparr>) s)"
    by (simp add: vop_ref_dec_def inode_ref_dec_def Let_def)
  moreover have "(take_nodes ns (hold_pwd d I))(n := (take_nodes ns (hold_pwd d I) n)\<lparr>ref_count := ref_count (take_nodes ns (hold_pwd d I) n) - 1\<rparr>)
      = take_nodes ns I"
    by (auto simp: take_nodes_def hold_pwd_def Some fun_eq_iff)
  ultimately show ?thesis using Some assms(1) by simp
qed (use assms in \<open>simp add: hold_pwd_def\<close>)

text \<open>C27. \<open>fork\<close> copies the table of open files and \<open>exit\<close> destroys the copy: \<open>dup_files\<close> into a fresh table gives every open
  descriptor the same inode, position and permissions, and takes one reference and one open of the inode for
  each, and one reference of the working directory; \<open>files_destroy\<close> of the copy closes all of them and gives
  exactly these back, so that the inodes are as before, and frees the table.\<close>

theorem dup_files_destroy:
  assumes "files_inv q s" and "files_count (files s q) > 0" and "files_count (files s p) = 0"
    and "\<forall>j < FILES_STRUCT_NENTRY. file_inv j (the_file p j s) \<and> status (the_file p j s) = FD_NONE"
    and "\<forall>n \<in> set (table_nodes q s). ref_count (inodes s n) > 0 \<and> open_count (inodes s n) > 0"
    and "\<forall>n. pwd (files s q) = Some n \<longrightarrow> ref_count (inodes s n) > 0"
  shows "\<exists>s1 s2. dup_files p q s = Some (0, s1) \<and>
    (\<forall>j < FILES_STRUCT_NENTRY. the_file p j s1 = copied_entry (the_file q j s) (the_file p j s) \<and> the_file q j s1 = the_file q j s) \<and>
    inodes s1 = take_nodes (table_nodes q s) (hold_pwd (pwd (files s q)) (inodes s)) \<and>
    files_destroy p s1 = kdealloc p s2 \<and> inodes s2 = inodes s \<and>
    (\<forall>j < FILES_STRUCT_NENTRY. status (the_file p j s2) = FD_NONE)"
proof -
  have pq: "p \<noteq> q" using assms(2,3) by auto
  define d where "d = pwd (files s q)"
  define s0 where "s0 = (let s = upd_files p (\<lambda>x. x\<lparr>pwd := d\<rparr>) s in case d of Some n \<Rightarrow> vop_ref_inc n s | None \<Rightarrow> s)"
  have s0: "the_file x j s0 = the_file x j s" "inodes s0 = hold_pwd d (inodes s)" for x j
    by (auto simp: s0_def hold_pwd_def vop_ref_inc_def inode_ref_inc_def Let_def split: option.splits)
  have h0: "same_heads (upd_files p (\<lambda>x. x\<lparr>pwd := d\<rparr>) s) s0" by (simp add: s0_def Let_def split: option.splits)
  have nf: "nodes_from q 0 FILES_STRUCT_NENTRY s0 = table_nodes q s"
    unfolding table_nodes_def using s0(1) by (intro nodes_from_cong) auto
  from dup_files_loop_copies [OF pq, of 0 FILES_STRUCT_NENTRY s0] assms(1) obtain s1 where
    s1: "dup_files_loop p q FILES_STRUCT_NENTRY 0 s0 = Some s1"
    "\<forall>j < FILES_STRUCT_NENTRY. the_file p j s1 = copied_entry (the_file q j s) (the_file p j s)"
    "\<forall>j. the_file q j s1 = the_file q j s" "inodes s1 = take_nodes (table_nodes q s) (hold_pwd d (inodes s))" "same_heads s0 s1"
    using pq nf by (auto simp: s0 files_inv_def)
  have dup: "dup_files p q s = Some (0, s1)"
    using assms(2,3) pq s1(1) by (simp add: dup_files_def s0_def d_def Let_def upd_files_def)
  have head: "pwd (files s1 p) = d" "files_count (files s1 p) = 0"
    using same_heads_trans [OF h0 s1(5)] assms(3) by (simp_all add: same_heads_def upd_files_def)
  obtain s2 where s2: "(case d of Some n \<Rightarrow> vop_ref_dec n s1 | None \<Rightarrow> Some s1) = Some s2"
    "inodes s2 = take_nodes (table_nodes q s) (inodes s)" "\<forall>x j. the_file x j s2 = the_file x j s1"
    using release_pwd [OF s1(4) assms(6) [folded d_def]] by blast
  have n2: "nodes_from p 0 FILES_STRUCT_NENTRY s2 = table_nodes q s"
    unfolding table_nodes_def using s1(2) s2(3) assms(4) by (intro nodes_from_cong [symmetric]) (auto simp: copied_entry_def)
  have "\<exists>s3. files_destroy_loop p FILES_STRUCT_NENTRY 0 s2 = Some s3 \<and> inodes s3 = inodes s \<and>
    (\<forall>j. 0 \<le> j \<and> j < 0 + FILES_STRUCT_NENTRY \<longrightarrow> status (the_file p j s3) = FD_NONE) \<and> (\<forall>j < 0. the_file p j s3 = the_file p j s2)"
  proof (rule files_destroy_loop_shared)
    show "\<forall>j. 0 \<le> j \<and> j < 0 + FILES_STRUCT_NENTRY \<longrightarrow> file_inv j (the_file p j s2) \<and>
        (status (the_file p j s2) = FD_NONE \<or> status (the_file p j s2) = FD_OPENED \<and> fopen_count (the_file p j s2) = 1)"
      using assms(1,4) s1(2) s2(3) by (auto simp: files_inv_def file_inv_def copied_entry_def)
  qed (use s2(2) n2 assms(5) in simp_all)
  then obtain s3 where s3: "files_destroy_loop p FILES_STRUCT_NENTRY 0 s2 = Some s3" "inodes s3 = inodes s"
    "\<forall>j < FILES_STRUCT_NENTRY. status (the_file p j s3) = FD_NONE" by auto
  have "files_destroy p s1 = kdealloc p s3" using head s2(1) s3(1) by (simp add: files_destroy_def)
  then show ?thesis using dup s1 s3(2,3) unfolding d_def [symmetric] by blast
qed


theorem dup_files_destroy_witness:
  "\<exists>s1 s2. dup_files 0x4000 0x3000 at_root = Some (0, s1) \<and> files_destroy 0x4000 s1 = kdealloc 0x4000 s2 \<and>
    inodes s2 = inodes at_root \<and> node (the_file 0x4000 0 s1) = Some 0xa00"
proof -
  have fl: "the_file 0x3000 j at_root = (if j = 0 then file0\<lparr>status := FD_OPENED, readable := True, node := Some 0xa00, fopen_count := 2\<rparr>
      else file0\<lparr>fd := int j\<rparr>)" "the_file 0x4000 j at_root = file0\<lparr>fd := int j\<rparr>" for j
    by (simp_all add: at_root_def the_file_def open_root_files upd_files_def fs0_def)
  have n: "files_count (files at_root 0x3000) = 1" "files_count (files at_root 0x4000) = 0" "pwd (files at_root 0x3000) = Some 0xa00"
    "ref_count (inodes at_root 0xa00) = 1" "open_count (inodes at_root 0xa00) = 1"
    by (simp_all add: at_root_def open_root_files upd_files_def fs0_def) (simp_all add: open_root_def upd_files_def)
  have inv: "files_inv 0x3000 at_root" using fl(1) by (simp add: files_inv_def file_inv_def file0_def)
  have fresh: "\<forall>j < FILES_STRUCT_NENTRY. file_inv j (the_file 0x4000 j at_root) \<and> status (the_file 0x4000 j at_root) = FD_NONE"
    using fl(2) by (simp add: file_inv_def file0_def)
  have "\<forall>n \<in> set (table_nodes 0x3000 at_root). n = 0xa00"
    using fl(1) by (auto simp: table_nodes_def nodes_from_def file0_def split: if_splits)
  then have cnt: "\<forall>n \<in> set (table_nodes 0x3000 at_root). ref_count (inodes at_root n) > 0 \<and> open_count (inodes at_root n) > 0"
    using n by auto
  have "\<forall>n. pwd (files at_root 0x3000) = Some n \<longrightarrow> ref_count (inodes at_root n) > 0" using n by simp
  from dup_files_destroy [OF inv _ n(2) fresh cnt this] n(1) obtain s1 s2 where
    "dup_files 0x4000 0x3000 at_root = Some (0, s1)" "files_destroy 0x4000 s1 = kdealloc 0x4000 s2"
    "inodes s2 = inodes at_root" "\<forall>j < FILES_STRUCT_NENTRY. the_file 0x4000 j s1 = copied_entry (the_file 0x3000 j at_root) (the_file 0x4000 j at_root)"
    by auto
  moreover from this(4) have "the_file 0x4000 0 s1 = copied_entry (the_file 0x3000 0 at_root) (the_file 0x4000 0 at_root)"
    by (simp add: FILES_STRUCT_NENTRY_def)
  then have "node (the_file 0x4000 0 s1) = Some 0xa00" using fl by (simp add: copied_entry_def)
  ultimately show ?thesis by blast
qed

end
