(* ===== verification/Fs_Steps.thy ===== *)
theory Fs_Steps
  imports Files_Facts
begin

text \<open>
  The file system as a transition system: a step is one system call on files (kern/fs/sysfile.c), a call of the
  process code on a table of files (kern/fs/fs.c), or the switch to another process. The state that \<open>fs_init\<close>
  leaves and every state that steps lead to is well typed.
\<close>

inductive fs_step :: "fsst \<Rightarrow> fsst \<Rightarrow> bool" where
  step_open: "sysfile_open mm upath open_flags s = Some (r, s') \<Longrightarrow> fs_step s s'"
| step_close: "sysfile_close d s = Some (r, s') \<Longrightarrow> fs_step s s'"
| step_read: "sysfile_read mm d base len s = Some (r, s') \<Longrightarrow> fs_step s s'"
| step_write: "sysfile_write mm d base len s = Some (r, s') \<Longrightarrow> fs_step s s'"
| step_seek: "sysfile_seek d q whence s = Some (r, s') \<Longrightarrow> fs_step s s'"
| step_fstat: "sysfile_fstat mm d ustat s = Some (r, s') \<Longrightarrow> fs_step s s'"
| step_fsync: "sysfile_fsync d s = Some (r, s') \<Longrightarrow> fs_step s s'"
| step_chdir: "sysfile_chdir mm upath s = Some (r, s') \<Longrightarrow> fs_step s s'"
| step_link: "sysfile_link mm upath upath' s = Some (r, s') \<Longrightarrow> fs_step s s'"
| step_rename: "sysfile_rename mm upath upath' s = Some (r, s') \<Longrightarrow> fs_step s s'"
| step_unlink: "sysfile_unlink mm upath s = Some (r, s') \<Longrightarrow> fs_step s s'"
| step_getcwd: "sysfile_getcwd mm ubuf len s = Some (r, s') \<Longrightarrow> fs_step s s'"
| step_getdirentry: "sysfile_getdirentry mm d udirent s = Some (r, s') \<Longrightarrow> fs_step s s'"
| step_dup: "sysfile_dup d1 d2 s = Some (r, s') \<Longrightarrow> fs_step s s'"
| step_create_table: "files_create s = Some (p, s') \<Longrightarrow> fs_step s s'"
| step_copy_table: "dup_files to from s = Some (r, s') \<Longrightarrow> fs_step s s'"
| step_destroy_table: "files_destroy p s = Some s' \<Longrightarrow> fs_step s s'"
| step_close_table: "files_closeall p s = Some s' \<Longrightarrow> fs_step s s'"
| step_set_bootfs: "vfs_set_bootfs name s = Some (r, s') \<Longrightarrow> fs_step s s'"
| step_switch: "s' = s\<lparr>filesp := p\<rparr> \<Longrightarrow> fs_step s s'"

lemma fs_step_types: "fs_step s s' \<Longrightarrow> types_kept s s'"
  by (induction rule: fs_step.induct) (auto dest: types_frame simp: types_kept_def)

lemma fs_steps_types: "fs_step\<^sup>*\<^sup>* s s' \<Longrightarrow> types_kept s s'"
  by (induction rule: rtranclp_induct) (auto intro: types_kept_trans fs_step_types)

text \<open>The operations of an inode that a state refers to find the member of the union they expect.\<close>

lemma typed_union:
  assumes "typed_state s" and "n \<in> node_refs s"
  shows "(device_of n s \<noteq> None \<longleftrightarrow> in_ops (inodes s n) = Some Dev_node_ops) \<and>
    (sfs_inode_of n s \<noteq> None \<and> in_fs (inodes s n) \<noteq> None \<longleftrightarrow> in_ops (inodes s n) \<in> {Some Sfs_node_dirops, Some Sfs_node_fileops})"
proof -
  have "node_typed n s" using assms by (simp add: typed_state_def)
  then show ?thesis
    by (cases "(in_type (inodes s n), in_ops (inodes s n), in_fs (inodes s n))" rule: kind_ok.cases)
       (auto simp: node_typed_def kind_def device_of_def sfs_inode_of_def kassert_def)
qed

subsection \<open>The state after the start\<close>

lemma dev_create_types:
  assumes "dev_create_inode s = Some (nd, s')"
  shows "typed_result nd s s'"
proof (cases nd)
  case None
  then show ?thesis using assms
    by (auto simp: dev_create_inode_def alloc_inode_def bind_eq_Some_conv split: option.splits dest: kalloc_types)
next
  case (Some n)
  then obtain s1 where s1: "kalloc sizeof_inode s = Some (Some n, s1)"
    and s': "s' = inode_init n (Some Dev_node_ops) None (upd_inode n (\<lambda>i. i\<lparr>in_type := Device_info\<rparr>) s1)"
    using assms by (auto simp: dev_create_inode_def alloc_inode_def bind_eq_Some_conv split: option.splits)
  have new: "node_typed n s'" by (simp add: s' node_typed_def kind_def inode_init_def inode_ref_inc_def Let_def)
  have "node_typed m s' = node_typed m s1" if "m \<noteq> n" for m
    using that by (intro node_typed_cong) (simp add: s' inode_init_def inode_ref_inc_def Let_def)
  moreover have "node_refs s' = node_refs s1" by (simp add: s' inode_init_def inode_ref_inc_def Let_def)
  ultimately have "types_kept s1 s'" unfolding types_kept_def typed_state_def using new by metis
  then show ?thesis using kalloc_types [OF s1] new Some types_kept_trans by (auto simp: typed_result_def)
qed

lemma strdup_types [types_frame]: "strdup a s = Some (d, s') \<Longrightarrow> types_kept s s'"
  by (auto simp: strdup_def bind_eq_Some_conv split: option.splits dest!: kalloc_types)

lemma upd_vdev_types:
  assumes "typed_result (devnode d) s0 s"
  shows "types_kept s0 (upd_vdev v (\<lambda>_. d) s)"
  using assms unfolding typed_result_def types_kept_def typed_state_def
  by (auto simp: upd_vdev_def node_refs_def the_file_def split: if_splits)

lemma upd_vdev_fs_types [simp]: "types_kept s (upd_vdev v (\<lambda>d. d\<lparr>vdev_fs := f\<rparr>) s') = types_kept s s'"
proof -
  have "node_refs (upd_vdev v (\<lambda>d. d\<lparr>vdev_fs := f\<rparr>) s') = node_refs s'"
    by (auto simp: upd_vdev_def node_refs_def the_file_def)
  then show ?thesis by (simp add: types_kept_def typed_state_def) (simp add: upd_vdev_def)
qed

text \<open>List operations on entries that are no links of inodes in a hash chain.\<close>

lemma flinks_types: "node_refs (upd_flinks l s) \<subseteq> node_refs s \<Longrightarrow> types_kept s (upd_flinks l s)"
  by (auto simp: types_kept_def typed_state_def)

lemma list_add_types: "(\<And>n. p \<noteq> SinHashLink n \<and> e \<noteq> SinHashLink n) \<Longrightarrow> types_kept s (upd_flinks (list_add p e) s)"
  by (rule flinks_types) (auto simp: node_refs_def upd_flinks_def the_file_def dest!: list_add_refs)

lemma list_init_types: "(\<And>n. p \<noteq> SinHashLink n) \<Longrightarrow> types_kept s (upd_flinks (list_init p) s)"
  by (rule flinks_types) (auto simp: node_refs_def upd_flinks_def the_file_def list_init_def split: if_splits)

lemma vfs_do_add_types:
  assumes "vfs_do_add name nd f mount s = Some (r, s')" and "typed_result nd s0 s"
  shows "types_kept s0 s'"
proof -
  have add: "types_kept s0 (upd_flinks (list_add VdevList (VdevLink v)) (upd_vdev v (\<lambda>_. \<lparr>devname = d, devnode = nd, vdev_fs = f, mountable = mount\<rparr>) s1))"
    if "types_kept s s1" for v d s1
    by (rule types_kept_trans [OF upd_vdev_types list_add_types]) (use typed_result_kept [OF assms(2) that] in auto)
  define enter where "enter d v s = (do {
                 s \<leftarrow> lock_vdev_list s;
                 ok \<leftarrow> check_devname_conflict d s;
                 if \<not> ok then do {
                   s \<leftarrow> kdealloc v (unlock_vdev_list s);
                   s \<leftarrow> kdealloc d s;
                   Some (- E_EXISTS, s)
                 } else do {
                   let s = upd_vdev v (\<lambda>_. \<lparr>devname = d, devnode = nd, vdev_fs = f, mountable = mount\<rparr>) s;
                   Some (0, unlock_vdev_list (upd_flinks (list_add VdevList (VdevLink v)) s))
                 }
               })" for d v s
  define make where "make d s = (do {
            (v, s) \<leftarrow> kalloc sizeof_vfs_dev s;
            (case v of
               None \<Rightarrow> do { s \<leftarrow> kdealloc d s; Some (- E_NO_MEM, s) }
             | Some v \<Rightarrow> enter d v s)
          })" for d s
  have enter: "types_kept s0 b" if en: "enter d v a = Some (r, b)" "types_kept s a" for d v a r b
  proof -
    obtain s1 where s1: "lock_vdev_list a = Some s1" using en(1) unfolding enter_def by (cases "lock_vdev_list a") simp_all
    have "types_kept s s1" using types_kept_trans [OF en(2) lock_types(1) [OF s1]] .
    then show ?thesis using en(1) s1 typed_result_types [OF assms(2)] unfolding enter_def Let_def
      by (auto simp: bind_eq_Some_conv split: if_splits dest!: kdealloc_files [THEN same_files_types]
          intro: add) (meson types_kept_trans)
  qed
  have make: "types_kept s0 b" if "make d a = Some (r, b)" "types_kept s a" for d a r b
    using that typed_result_types [OF assms(2)] unfolding make_def
    by (auto simp: bind_eq_Some_conv split: option.splits dest!: kalloc_types kdealloc_files [THEN same_files_types]
        intro: enter types_kept_trans)
  have eq: "vfs_do_add name nd f mount s = do {
     kassert (case nd of None \<Rightarrow> \<not> mount | Some n \<Rightarrow> in_type (inodes s n) = Device_info);
     l \<leftarrow> strlen (kmem s) name;
     if l > FS_MAX_DNAME_LEN then Some (- E_TOO_BIG, s) else do {
       (d, s) \<leftarrow> strdup name s;
       (case d of None \<Rightarrow> Some (- E_NO_MEM, s) | Some d \<Rightarrow> make d s)
     } }"
    by (simp only: vfs_do_add_def make_def enter_def)
  show ?thesis using assms(1) typed_result_types [OF assms(2)] unfolding eq
    by (auto simp: bind_eq_Some_conv split: if_splits option.splits dest!: strdup_types intro: make types_kept_trans)
qed

lemma device_field_types [simp]:
  "types_kept s (s'\<lparr>p_rpos := v, p_wpos := w\<rparr>) = types_kept s s'" "types_kept s (s'\<lparr>disk0_sem := v\<rparr>) = types_kept s s'"
  "types_kept s (s'\<lparr>disk0_buffer := b\<rparr>) = types_kept s s'" "types_kept (s\<lparr>disk0_sem := v\<rparr>) s' = types_kept s s'"
  "typed_result nd s (s'\<lparr>p_rpos := v, p_wpos := w\<rparr>) = typed_result nd s s'"
  "typed_result nd s (s'\<lparr>disk0_buffer := b\<rparr>) = typed_result nd s s'"
  by (simp_all add: typed_result_def types_kept_def typed_state_def node_refs_def node_typed_def the_file_def)

lemma typed_result_upd_inode [simp]:
  "(\<And>i. kind (k i) = kind i) \<Longrightarrow> typed_result nd s (upd_inode n k s') = typed_result nd s s'"
  by (simp add: typed_result_def node_typed_upd_inode)

lemma dev_init_types [types_frame]:
  "dev_init_stdin s = Some s' \<Longrightarrow> types_kept s s'" "dev_init_stdout s = Some s' \<Longrightarrow> types_kept s s'"
  by (auto simp: dev_init_stdin_def dev_init_stdout_def vfs_add_dev_def stdin_device_init_def stdout_device_init_def
      bind_eq_Some_conv split: if_splits dest!: dev_create_types intro: vfs_do_add_types)

lemma dev_init_disk0_types [types_frame]:
  assumes "dev_init_disk0 s = Some s'"
  shows "types_kept s s'"
proof -
  obtain n s1 s2 where s1: "dev_create_inode s = Some (Some n, s1)" and s2: "disk0_device_init n s1 = Some s2"
    and s': "vfs_do_add lit_disk0 (Some n) None True s2 = Some (0, s')"
    using assms unfolding dev_init_disk0_def vfs_add_dev_def by (auto simp: bind_eq_Some_conv split: if_splits)
  have "types_kept s1 s2" using s2 unfolding disk0_device_init_def Let_def
    by (auto simp: bind_eq_Some_conv split: if_splits dest!: kalloc_types)
  from vfs_do_add_types [OF s' typed_result_kept [OF dev_create_types [OF s1] this]] show ?thesis .
qed

lemma vfs_init_types: "types_kept s (vfs_init s)"
proof -
  have "types_kept s (upd_flinks (list_init VdevList) (s\<lparr>bootfs_sem := 1\<rparr>))"
    by (rule types_kept_trans [OF _ list_init_types]) auto
  then show ?thesis by (simp add: vfs_init_def vfs_devlist_init_def)
qed

lemma init_hash_lists_types: "types_kept s (init_hash_lists f k s)"
  by (induction k) (auto intro: types_kept_trans list_init_types)

lemma sfs_init_read_types [types_frame]: "sfs_init_read dv b bp s = Some (r, s') \<Longrightarrow> types_kept s s'"
  by (auto simp: sfs_init_read_def Let_def bind_eq_Some_conv dest: dop_io_types)

lemma sfs_init_freemap_loop_types: "sfs_init_freemap_loop dv d b k s = Some (r, s') \<Longrightarrow> types_kept s s'"
  by (induction dv d b k s rule: sfs_init_freemap_loop.induct)
     (auto simp: bind_eq_Some_conv split: if_splits dest: sfs_init_read_types intro: types_kept_trans)

lemma sfs_init_freemap_types [types_frame]: "sfs_init_freemap dv fm b k s = Some (r, fm', s') \<Longrightarrow> types_kept s s'"
  by (auto simp: sfs_init_freemap_def bind_eq_Some_conv split: if_splits dest: sfs_init_freemap_loop_types)

lemma kdealloc_types: "kdealloc a s = Some s' \<Longrightarrow> types_kept s s'"
  by (rule kdealloc_files [THEN same_files_types])

lemma mount_freemap_types:
  assumes "mount_freemap dv f bp hl s = Some (r, nd, s')"
  shows "types_kept s s'"
proof -
  define give where "give v s = (do { s \<leftarrow> kdealloc hl s; s \<leftarrow> kdealloc bp s; s \<leftarrow> kdealloc f s; Some (v, None :: nat option, s) })"
    for v :: int and s
  have give: "types_kept a b" if "give v a = Some (w, nd, b)" for a b v w nd
    using that unfolding give_def by (auto simp: bind_eq_Some_conv dest!: kdealloc_types) (meson types_kept_trans)
  have eq: "mount_freemap dv f bp hl s = do {
     let nbits = sfs_freemap_bits (ld32 (kmem s) (bp + 4));
     (fm, h) \<leftarrow> bitmap_create nbits (heap s);
     let s = s\<lparr>heap := h\<rparr>;
     (case fm of
        None \<Rightarrow> give (- E_NO_MEM) s
      | Some fm \<Rightarrow> do {
          let nblks = sfs_freemap_blocks (ld32 (kmem s) (bp + 4));
          (ret, fm, s) \<leftarrow> sfs_init_freemap dv fm SFS_BLKN_FREEMAP nblks s;
          let s = upd_fs f (\<lambda>x. x\<lparr>freemap := fm\<rparr>) s;
          if ret \<noteq> 0 then do {
            h \<leftarrow> bitmap_destroy fm (heap s);
            give ret (s\<lparr>heap := h\<rparr>)
          } else do {
            unused \<leftarrow> count_free fm nbits 0 0;
            kassert (to_u32 unused = unused_blocks f s);
            let s = upd_fs f (\<lambda>x. x\<lparr>super_dirty := False, fs_sem := 1, io_sem := 1, mutex_sem := 1\<rparr>) s;
            Some (0, Some f, upd_flinks (list_init (InodeList f)) s)
          }
        })
   }"
    by (simp only: mount_freemap_def give_def)
  have fin: "types_kept s (upd_flinks (list_init (InodeList f)) t)" if "types_kept s t" for t
    by (rule types_kept_trans [OF that list_init_types]) auto
  show ?thesis using assms unfolding eq Let_def
    by (auto simp: bind_eq_Some_conv fin split: if_splits option.splits dest!: give sfs_init_freemap_types)
       (meson types_kept_trans fin)+
qed

lemma sfs_do_mount_types:
  assumes "sfs_do_mount dv s = Some (r, nd, s')"
  shows "types_kept s s'"
proof -
  define fin where "fin f bp s = (do {
                    let s = upd_kmem (\<lambda>m. m(bp + 12 + SFS_MAX_INFO_LEN := 0)) s;
                    let s = upd_kmem (\<lambda>m. memcpy m f bp sizeof_super) s;
                    (hl, s) \<leftarrow> kalloc (16 * SFS_HLIST_SIZE) s;
                    (case hl of
                       None \<Rightarrow> do { s \<leftarrow> kdealloc bp s; s \<leftarrow> kdealloc f s; Some (- E_NO_MEM, None, s) }
                     | Some hl \<Rightarrow>
                         mount_freemap dv f bp hl
                           (init_hash_lists f SFS_HLIST_SIZE (upd_fs f (\<lambda>x. x\<lparr>hash_list := hl\<rparr>) s)))
                  })" for f bp s
  have fin: "types_kept a b" if "fin f bp a = Some (r, nd, b)" for f bp a r nd b
  proof -
    have hash: "types_kept x (init_hash_lists f SFS_HLIST_SIZE (upd_fs f k x))" for x k
      using init_hash_lists_types [of "upd_fs f k x"] by simp
    show ?thesis using that unfolding fin_def Let_def
      by (auto simp: bind_eq_Some_conv split: option.splits dest!: kalloc_types kdealloc_types mount_freemap_types)
         (meson types_kept_trans hash)+
  qed
  define dev where "dev = device_info (inodes s dv)"
  have eq: "sfs_do_mount dv s = (if d_blocksize dev \<noteq> SFS_BLKSIZE then Some (- E_NA_DEV, None, s) else do {
        (f, s) \<leftarrow> alloc_fs s;
        (case f of
           None \<Rightarrow> Some (- E_NO_MEM, None, s)
         | Some f \<Rightarrow> do {
             let s = upd_fs f (\<lambda>x. x\<lparr>sfs_dev := dv\<rparr>) s;
             (b, s) \<leftarrow> kalloc SFS_BLKSIZE s;
             (case b of
                None \<Rightarrow> do { s \<leftarrow> kdealloc f s; Some (- E_NO_MEM, None, s) }
              | Some bp \<Rightarrow> do {
                  let s = upd_fs f (\<lambda>x. x\<lparr>sfs_buffer := bp\<rparr>) s;
                  (ret, s) \<leftarrow> sfs_init_read dv SFS_BLKN_SUPER bp s;
                  if ret \<noteq> 0 then do { s \<leftarrow> kdealloc bp s; s \<leftarrow> kdealloc f s; Some (ret, None, s) }
                  else if ld32 (kmem s) bp \<noteq> SFS_MAGIC \<or> ld32 (kmem s) (bp + 4) > d_blocks dev
                  then do { s \<leftarrow> kdealloc bp s; s \<leftarrow> kdealloc f s; Some (- E_INVAL, None, s) }
                  else fin f bp s
                })
           })
      })"
    by (simp only: sfs_do_mount_def fin_def dev_def Let_def)
  show ?thesis using assms unfolding eq alloc_fs_def Let_def
    by (auto simp: bind_eq_Some_conv split: option.splits if_splits
        dest!: kalloc_types kdealloc_types sfs_init_read_types fin) (meson types_kept_trans)+
qed

lemma sfs_mount_types [types_frame]: "sfs_mount nm s = Some (r, s') \<Longrightarrow> types_kept s s'"
  unfolding sfs_mount_def vfs_mount_def Let_def
  by (auto simp: bind_eq_Some_conv split: if_splits dest!: lock_types(1) sfs_do_mount_types intro: types_kept_trans)

lemma fs_init_types: "fs_init s = Some s' \<Longrightarrow> types_kept s s'"
proof -
  assume "fs_init s = Some s'"
  then obtain s1 s2 s3 r where "dev_init_stdin (vfs_init s) = Some s1" "dev_init_stdout s1 = Some s2" "dev_init_disk0 s2 = Some s3"
    "sfs_mount lit_disk0 s3 = Some (r, s')"
    by (auto simp: fs_init_def dev_init_def sfs_init_def bind_eq_Some_conv split: if_splits)
  then show ?thesis
    using types_kept_trans [OF vfs_init_types] dev_init_types dev_init_disk0_types sfs_mount_types types_kept_trans by meson
qed

subsection \<open>Properties\<close>

text \<open>C8. The file system is well typed in every state that system calls lead to, from any well-typed state or from
  the start: for every inode that a hash chain, a current directory, an open file or a device refers to, the
  table of operations is set, and \<open>vop_info\<close> finds the member of the union that this table works on, with a
  file system where it is one of the simple file system. No operation stops at the check of the tag.\<close>

theorem file_system_typed:
  assumes "typed_state s \<or> node_refs s0 = {} \<and> fs_init s0 = Some s" and "fs_step\<^sup>*\<^sup>* s s'" and "n \<in> node_refs s'"
  shows "in_ops (inodes s' n) \<noteq> None \<and> (device_of n s' \<noteq> None \<longleftrightarrow> in_ops (inodes s' n) = Some Dev_node_ops) \<and>
    (sfs_inode_of n s' \<noteq> None \<and> in_fs (inodes s' n) \<noteq> None \<longleftrightarrow> in_ops (inodes s' n) \<in> {Some Sfs_node_dirops, Some Sfs_node_fileops})"
proof -
  have "typed_state s" using assms(1) fs_init_types [of s0 s] by (auto simp: types_kept_def typed_state_def)
  then have "typed_state s'" using fs_steps_types [OF assms(2)] by (simp add: types_kept_def)
  with typed_union [OF this assms(3)] assms(3) show ?thesis
    by (cases "in_ops (inodes s' n)") (auto simp: typed_state_def node_typed_def kind_def)
qed

text \<open>A process with the root directory open duplicates the descriptor.\<close>

definition typed_root :: fsst where
  "typed_root = open_root\<lparr>flinks := \<lparr>prv = (\<lambda>_. VdevList), nxt = (\<lambda>_. VdevList)\<rparr>\<rparr>"

lemma typed_root_typed: "typed_state typed_root"
proof -
  have "node_refs typed_root \<subseteq> {0xa00}"
    by (auto simp: node_refs_def typed_root_def the_file_def open_root_files file0_def split: if_splits)
       (auto simp: open_root_def upd_file_def upd_files_def sfs_root_def sfs_set_links_def upd_flinks_def Let_def sfs1_def
          set_freemap_def set_unused_blocks_def sfs0_def fs0_def file0_def split: if_splits)
  moreover have "node_typed 0xa00 typed_root"
    by (simp add: node_typed_def kind_def typed_root_def open_root_def upd_files_def upd_file_def sfs_root_def sfs_set_links_def
        upd_flinks_def Let_def root_node_def)
  ultimately show ?thesis by (auto simp: typed_state_def)
qed

theorem file_system_typed_witness:
  "\<exists>s'. sysfile_dup 0 5 typed_root = Some (5, s') \<and> node (the_file 0x3000 5 s') = Some 0xa00 \<and> sfs_inode_of 0xa00 s' \<noteq> None"
proof -
  have f: "the_file 0x3000 0 typed_root = file0\<lparr>status := FD_OPENED, readable := True, node := Some 0xa00, fopen_count := 2\<rparr>"
    "the_file 0x3000 (Suc i) typed_root = file0\<lparr>fd := int (Suc i)\<rparr>" for i
    by (simp_all add: the_file_def typed_root_def open_root_files)
  have n: "filesp typed_root = Some 0x3000" "files_count (files typed_root 0x3000) = 1"
    by (simp_all add: typed_root_def open_root_def upd_files_def)
  have "status (the_file 0x3000 5 typed_root) = FD_NONE" "fopen_count (the_file 0x3000 5 typed_root) = 0"
    "fd (the_file 0x3000 5 typed_root) = 5" "the_file 0x3000 0 typed_root = file0\<lparr>status := FD_OPENED, readable := True, node := Some 0xa00, fopen_count := 2\<rparr>"
    using f(2) [of 4] f(1) by (simp_all add: file0_def)
  then obtain s' where s': "sysfile_dup 0 5 typed_root = Some (5, s')" "node (the_file 0x3000 5 s') = Some 0xa00"
    "in_ops (inodes s' 0xa00) = in_ops (inodes typed_root 0xa00)"
    using n by (simp add: sysfile_dup_def file_dup_def fd2file_def get_fd_array_def testfd_def FILES_STRUCT_NENTRY_def NO_FD_def
        fd_array_alloc_def fd_array_dup_def fd_array_open_def fopen_count_inc_def the_file_upd vop_open_inc_def vop_ref_inc_def
        inode_open_inc_def inode_ref_inc_def Let_def file0_def E_BUSY_def)
  then have "0xa00 \<in> node_refs s'" by (auto simp: node_refs_def)
  from file_system_typed [OF disjI1 [OF typed_root_typed] r_into_rtranclp [of fs_step, OF step_dup [OF s'(1)]] this] s'
  show ?thesis by (simp add: typed_root_def open_root_def upd_files_def upd_file_def sfs_root_def sfs_set_links_def
        upd_flinks_def Let_def root_node_def)
qed

end
