(* ===== verification/Path_Facts.thy ===== *)
theory Path_Facts
  imports Vfs_Path
begin

text \<open>
  How \<open>get_device\<close> (kern/fs/vfs/vfslookup.c) takes a path apart: a reference parser, and the equivalence of the
  loops over the characters with it.
\<close>

subsection \<open>What a path means\<close>

text \<open>A path is taken apart at the first colon or slash: \<open>name:sub\<close> names a device, \<open>/sub\<close> starts at the boot file
  system, \<open>:sub\<close> at the root of the current one, and everything else is relative. Further slashes in front of
  \<open>sub\<close> are dropped.\<close>

datatype path_form = Relative_path | Device_path "byte list" "byte list" | Boot_path "byte list" | Root_path "byte list"

definition plain :: "byte \<Rightarrow> bool" where
  "plain c \<longleftrightarrow> c \<noteq> 58 \<and> c \<noteq> 47"

definition no_slashes :: "byte list \<Rightarrow> byte list" where
  "no_slashes w = dropWhile (\<lambda>c. c = 47) w"

definition path_of :: "byte list \<Rightarrow> path_form" where
  "path_of w = (case dropWhile plain w of
       [] \<Rightarrow> Relative_path
     | c # cs \<Rightarrow>
         if takeWhile plain w = [] then (if c = 47 then Boot_path (no_slashes cs) else Root_path (no_slashes cs))
         else if c = 58 then Device_path (takeWhile plain w) (no_slashes cs) else Relative_path)"

lemma path_scan_result:
  assumes "cstr m (p + i) w"
  shows "path_scan m p i = Some (case dropWhile plain w of
      [] \<Rightarrow> (-1, -1)
    | c # cs \<Rightarrow> let k = int (i + length (takeWhile plain w)) in if c = 58 then (-1, k) else (k, -1))"
  using assms
proof (induction w arbitrary: i)
  case Nil
  then show ?case by (subst path_scan.simps) simp
next
  case (Cons c w)
  have m: "m (p + i) = c" "c \<noteq> 0" "cstr m (p + (i + 1)) w" using Cons.prems by auto
  show ?case
  proof (cases "plain c")
    case True
    then have "c \<noteq> 58" "c \<noteq> 47" by (auto simp: plain_def)
    with m have "path_scan m p i = path_scan m p (i + 1)" by (subst path_scan.simps) simp
    with Cons.IH [OF m(3)] True show ?thesis
      by (cases "dropWhile plain w") (simp_all del: dropWhile_eq_Nil_conv add: Let_def ac_simps)
  next
    case False
    with m show ?thesis by (subst path_scan.simps) (auto simp: plain_def)
  qed
qed

lemma skip_slashes_result:
  assumes "cstr m (a + 1) w"
  shows "\<exists>b. skip_slashes m a = Some b \<and> cstr m b (no_slashes w) \<and> b + length (no_slashes w) = a + 1 + length w"
  using assms
proof (induction w arbitrary: a)
  case Nil
  then show ?case by (subst skip_slashes.simps) (simp add: no_slashes_def)
next
  case (Cons c w)
  show ?case
  proof (cases "c = 47")
    case True
    then have m: "m (a + 1) = 47" using Cons.prems by simp
    have "cstr m (a + 1 + 1) w" using Cons.prems by simp
    from Cons.IH [OF this] True m show ?thesis by (subst skip_slashes.simps) (auto simp: no_slashes_def)
  next
    case False
    then show ?thesis using Cons.prems by (subst skip_slashes.simps) (simp add: no_slashes_def)
  qed
qed

lemma cstr_take: "cstr m s (xs @ ys) \<Longrightarrow> cstr (m(s + length xs := 0)) s xs"
proof (induction xs arbitrary: s)
  case (Cons x xs)
  have "cstr (m(s + 1 + length xs := 0)) (s + 1) xs" by (rule Cons.IH) (use Cons.prems in simp)
  then show ?case using Cons.prems by (simp add: fun_upd_def)
qed simp




end
