(* ===== verification/Proc_Life.thy ===== *)
theory Proc_Life
  imports Proc Sysfile
begin

text \<open>
  The life of a process across the components (kern/process/proc.c): its kernel stack, address space, table of
  files and program. The state joins that of the processes, that of the file system with the memory below it, and
  the trap frames. A call of \<open>schedule\<close> ends a function: the result \<open>Blocks\<close> says where it goes on when the process
  runs again. \<open>load_icode\<close>, an unwritten exercise, is a parameter.
\<close>

subsection \<open>The state\<close>

datatype reg = Zero | Ra | Sp | Gp | Tp | T0 | T1 | T2 | S0 | S1 | A0 | A1 | A2 | A3 | A4 | A5 | A6 | A7
  | S2 | S3 | S4 | S5 | S6 | S7 | S8 | S9 | S10 | S11 | T3 | T4 | T5 | T6

record trapframe =
  gpr :: "reg \<Rightarrow> 64 word"
  status :: "64 word"
  epc :: "64 word"
  tval :: "64 word"
  cause :: "64 word"

text \<open>\<open>tf\<close>, \<open>cr3\<close> and \<open>context\<close> are the fields of \<open>struct proc_struct\<close>, by process; \<open>tframes\<close> holds the trap frames by
  address, \<open>mm_sem\<close> the semaphore of an address space.\<close>

record kernel =
  kproc :: kst
  kfs :: fsst
  mm_sem :: "nat \<Rightarrow> int"
  cr3 :: "nat \<Rightarrow> nat"
  tf :: "nat \<Rightarrow> nat"
  ctx :: "nat \<Rightarrow> reg \<Rightarrow> 64 word"
  tframes :: "nat \<Rightarrow> trapframe"
  boot_pgdir :: nat
  ticks :: nat

datatype cont = Exited | Waiting int nat | Sleeping nat

datatype outcome = Ret int | Blocks cont

definition upd_kproc :: "(kst \<Rightarrow> kst) \<Rightarrow> kernel \<Rightarrow> kernel" where
  "upd_kproc f k = k\<lparr>kproc := f (kproc k)\<rparr>"

definition on_procs :: "(kst \<Rightarrow> kst option) \<Rightarrow> kernel \<Rightarrow> kernel option" where
  "on_procs f k = do { s \<leftarrow> f (kproc k); Some (k\<lparr>kproc := s\<rparr>) }"

text \<open>The file system works on the table of files of the current process.\<close>

definition fs_of :: "kernel \<Rightarrow> fsst option" where
  "fs_of k = do { c \<leftarrow> current (kproc k); Some ((kfs k)\<lparr>fsst.filesp := proc.filesp (procs (kproc k) c)\<rparr>) }"

definition on_fs :: "(fsst \<Rightarrow> ('a \<times> fsst) option) \<Rightarrow> kernel \<Rightarrow> ('a \<times> kernel) option" where
  "on_fs f k = do { s \<leftarrow> fs_of k; (r, s) \<leftarrow> f s; Some (r, k\<lparr>kfs := s\<rparr>) }"

definition fs_do :: "(fsst \<Rightarrow> fsst option) \<Rightarrow> kernel \<Rightarrow> kernel option" where
  "fs_do f k = do { s \<leftarrow> fs_of k; s \<leftarrow> f s; Some (k\<lparr>kfs := s\<rparr>) }"

definition kvm :: "kernel \<Rightarrow> vmst" where "kvm k = vm (heap (kfs k))"

definition set_kvm :: "vmst \<Rightarrow> kernel \<Rightarrow> kernel" where
  "set_kvm v k = k\<lparr>kfs := (kfs k)\<lparr>heap := (heap (kfs k))\<lparr>vm := v\<rparr>\<rparr>\<rparr>"

definition on_vm :: "(vmst \<Rightarrow> ('a \<times> vmst) option) \<Rightarrow> kernel \<Rightarrow> ('a \<times> kernel) option" where
  "on_vm f k = do { (r, v) \<leftarrow> f (kvm k); Some (r, set_kvm v k) }"

definition vm_do :: "(vmst \<Rightarrow> vmst option) \<Rightarrow> kernel \<Rightarrow> kernel option" where
  "vm_do f k = do { v \<leftarrow> f (kvm k); Some (set_kvm v k) }"

definition cur_mm :: "kernel \<Rightarrow> nat option option" where
  "cur_mm k = do { c \<leftarrow> current (kproc k); Some (proc_mm (procs (kproc k) c)) }"

subsection \<open>Kernel stack and page directory\<close>

definition KSTACKPAGE :: nat where "KSTACKPAGE = 2"
definition KSTACKSIZE :: nat where "KSTACKSIZE = KSTACKPAGE * PGSIZE"

definition KERNBASE :: nat where "KERNBASE = 0xFFFFFFFFC0200000"

definition page2kva :: "nat \<Rightarrow> nat option" where
  "page2kva p = (if p < npage - nbase then Some (KVA + PGSIZE * p) else None)"

definition kva2page :: "nat \<Rightarrow> nat option" where
  "kva2page a = (if KERNBASE \<le> a \<and> (a - KVA) div PGSIZE < npage - nbase then Some ((a - KVA) div PGSIZE) else None)"

definition setup_kstack :: "nat \<Rightarrow> kernel \<Rightarrow> (int \<times> kernel) option" where
  "setup_kstack p k = do {
     (page, k) \<leftarrow> on_vm (alloc_pages KSTACKPAGE) k;
     (case page of
        Some g \<Rightarrow> do { a \<leftarrow> page2kva g; Some (0, upd_kproc (upd_proc p (\<lambda>d. d\<lparr>kstack := a\<rparr>)) k) }
      | None \<Rightarrow> Some (- E_NO_MEM, k))
   }"

definition put_kstack :: "nat \<Rightarrow> kernel \<Rightarrow> kernel option" where
  "put_kstack p k = do {
     g \<leftarrow> kva2page (kstack (procs (kproc k) p));
     vm_do (free_pages g KSTACKPAGE) k
   }"

text \<open>A page directory is named by its frame.\<close>

definition setup_pgdir :: "nat \<Rightarrow> kernel \<Rightarrow> (int \<times> kernel) option" where
  "setup_pgdir m k = do {
     (page, k) \<leftarrow> on_vm (alloc_pages 1) k;
     (case page of
        None \<Rightarrow> Some (- E_NO_MEM, k)
      | Some g \<Rightarrow>
          let v = kvm k;
              v = v\<lparr>frames := (frames v)(g := frames v (boot_pgdir k))\<rparr>
          in Some (0, set_kvm (upd_mm m (\<lambda>d. d\<lparr>mm_pgdir := g\<rparr>) v) k))
   }"

definition put_pgdir :: "nat \<Rightarrow> kernel \<Rightarrow> kernel option" where
  "put_pgdir m k = vm_do (free_pages (mm_pgdir (mms (kvm k) m)) 1) k"

subsection \<open>The address space\<close>

definition CLONE_VM :: "32 word" where "CLONE_VM = 0x100"
definition CLONE_FS :: "32 word" where "CLONE_FS = 0x800"

definition mm_count_inc :: "nat \<Rightarrow> vmst \<Rightarrow> int \<times> vmst" where
  "mm_count_inc m v = (let v = upd_mm m (\<lambda>d. d\<lparr>mm_count := mm_count d + 1\<rparr>) v in (mm_count (mms v m), v))"

definition mm_count_dec :: "nat \<Rightarrow> vmst \<Rightarrow> int \<times> vmst" where
  "mm_count_dec m v = (let v = upd_mm m (\<lambda>d. d\<lparr>mm_count := mm_count d - 1\<rparr>) v in (mm_count (mms v m), v))"

text \<open>A semaphore that is taken blocks; no process holds one of these while another runs, so that is \<open>None\<close>.\<close>

definition lock_mm :: "nat option \<Rightarrow> kernel \<Rightarrow> kernel option" where
  "lock_mm m k =
     (case m of
        None \<Rightarrow> Some k
      | Some m \<Rightarrow> do {
          v \<leftarrow> sem_down (mm_sem k m);
          let k = k\<lparr>mm_sem := (mm_sem k)(m := v)\<rparr>;
          (case current (kproc k) of
             None \<Rightarrow> Some k
           | Some c \<Rightarrow> Some (set_kvm (upd_mm m (\<lambda>d. d\<lparr>locked_by := pid (procs (kproc k) c)\<rparr>) (kvm k)) k))
        })"

definition unlock_mm :: "nat option \<Rightarrow> kernel \<Rightarrow> kernel" where
  "unlock_mm m k =
     (case m of
        None \<Rightarrow> k
      | Some m \<Rightarrow> set_kvm (upd_mm m (\<lambda>d. d\<lparr>locked_by := 0\<rparr>) (kvm k)) (k\<lparr>mm_sem := (mm_sem k)(m := sem_up (mm_sem k m))\<rparr>))"

definition take_mm :: "nat \<Rightarrow> nat \<Rightarrow> kernel \<Rightarrow> kernel" where
  "take_mm m p k =
     (let k = set_kvm (snd (mm_count_inc m (kvm k))) k;
          k = upd_kproc (upd_proc p (\<lambda>d. d\<lparr>proc_mm := Some m\<rparr>)) k
      in k\<lparr>cr3 := (cr3 k)(p := page2ppn (mm_pgdir (mms (kvm k) m)) * PGSIZE)\<rparr>)"

definition copy_mm :: "32 word \<Rightarrow> nat \<Rightarrow> kernel \<Rightarrow> (int \<times> kernel) option" where
  "copy_mm clone_flags p k = do {
     oldmm \<leftarrow> cur_mm k;
     (case oldmm of
        None \<Rightarrow> Some (0, k)
      | Some old \<Rightarrow>
          if and clone_flags CLONE_VM \<noteq> 0 then Some (0, take_mm old p k)
          else do {
            (mm, k) \<leftarrow> on_vm (\<lambda>v. Some (mm_create v)) k;
            (case mm of
               None \<Rightarrow> Some (- E_NO_MEM, k)
             | Some m \<Rightarrow> do {
                 let k = k\<lparr>mm_sem := (mm_sem k)(m := 1)\<rparr>;
                 (ret, k) \<leftarrow> setup_pgdir m k;
                 if ret \<noteq> 0 then do { k \<leftarrow> vm_do (mm_destroy m) k; Some (- E_NO_MEM, k) }
                 else do {
                   k \<leftarrow> lock_mm oldmm k;
                   (ret, k) \<leftarrow> on_vm (dup_mmap m old) k;
                   let k = unlock_mm oldmm k;
                   if ret \<noteq> 0 then do {
                     k \<leftarrow> vm_do (exit_mmap m) k;
                     k \<leftarrow> put_pgdir m k;
                     k \<leftarrow> vm_do (mm_destroy m) k;
                     Some (ret, k)
                   }
                   else Some (0, take_mm m p k)
                 }
               })
          })
   }"

text \<open>What \<open>do_exit\<close> and \<open>do_execve\<close> do with an address space they leave.\<close>

definition leave_mm :: "nat \<Rightarrow> kernel \<Rightarrow> kernel option" where
  "leave_mm m k = do {
     (n, k) \<leftarrow> on_vm (\<lambda>v. Some (mm_count_dec m v)) k;
     if n = 0 then do { k \<leftarrow> vm_do (exit_mmap m) k; k \<leftarrow> put_pgdir m k; vm_do (mm_destroy m) k }
     else Some k
   }"

definition clear_mm :: "nat \<Rightarrow> kernel \<Rightarrow> kernel" where
  "clear_mm c k = upd_kproc (upd_proc c (\<lambda>d. d\<lparr>proc_mm := None\<rparr>)) k"

subsection \<open>The trap frame of a new process\<close>

definition sizeof_trapframe :: nat where "sizeof_trapframe = 36 * 8"

text \<open>\<open>forkret\<close> is the address of the function of that name.\<close>

definition copy_thread :: "64 word \<Rightarrow> nat \<Rightarrow> nat \<Rightarrow> nat \<Rightarrow> kernel \<Rightarrow> kernel" where
  "copy_thread forkret p esp t k =
     (let a = kstack (procs (kproc k) p) + KSTACKSIZE - sizeof_trapframe;
          k = k\<lparr>tf := (tf k)(p := a), tframes := (tframes k)(a := tframes k t)\<rparr>;
          r = (gpr (tframes k a))(A0 := 0);
          r = r(Sp := of_nat (if esp = 0 then a else esp));
          k = k\<lparr>tframes := (tframes k)(a := (tframes k a)\<lparr>gpr := r\<rparr>)\<rparr>
      in k\<lparr>ctx := (ctx k)(p := (ctx k p)(Ra := forkret, Sp := of_nat a))\<rparr>)"

subsection \<open>The table of files\<close>

definition files_count_inc :: "nat \<Rightarrow> fsst \<Rightarrow> int \<times> fsst" where
  "files_count_inc p s = (let s = upd_files p (\<lambda>x. x\<lparr>files_count := files_count x + 1\<rparr>) s in (files_count (files s p), s))"

definition files_count_dec :: "nat \<Rightarrow> fsst \<Rightarrow> int \<times> fsst" where
  "files_count_dec p s = (let s = upd_files p (\<lambda>x. x\<lparr>files_count := files_count x - 1\<rparr>) s in (files_count (files s p), s))"

definition take_files :: "nat \<Rightarrow> nat \<Rightarrow> kernel \<Rightarrow> kernel" where
  "take_files f p k =
     upd_kproc (upd_proc p (\<lambda>d. d\<lparr>proc.filesp := Some f\<rparr>)) (k\<lparr>kfs := snd (files_count_inc f (kfs k))\<rparr>)"

definition copy_files :: "32 word \<Rightarrow> nat \<Rightarrow> kernel \<Rightarrow> (int \<times> kernel) option" where
  "copy_files clone_flags p k = do {
     c \<leftarrow> current (kproc k);
     old \<leftarrow> proc.filesp (procs (kproc k) c);
     if and clone_flags CLONE_FS \<noteq> 0 then Some (0, take_files old p k)
     else do {
       (f, k) \<leftarrow> on_fs files_create k;
       (case f of
          None \<Rightarrow> Some (- E_NO_MEM, k)
        | Some f \<Rightarrow> do {
            (ret, k) \<leftarrow> on_fs (dup_files f old) k;
            if ret \<noteq> 0 then do { k \<leftarrow> fs_do (files_destroy f) k; Some (ret, k) }
            else Some (0, take_files f p k)
          })
     }
   }"

definition put_files :: "nat \<Rightarrow> kernel \<Rightarrow> kernel option" where
  "put_files p k =
     (case proc.filesp (procs (kproc k) p) of
        None \<Rightarrow> Some k
      | Some f \<Rightarrow> do {
          (n, k) \<leftarrow> on_fs (\<lambda>s. Some (files_count_dec f s)) k;
          if n = 0 then fs_do (files_destroy f) k else Some k
        })"

subsection \<open>Exit\<close>

text \<open>\<open>do_exit\<close> up to its call of \<open>schedule\<close>, which does not return.\<close>

definition do_exit :: "int \<Rightarrow> kernel \<Rightarrow> (outcome \<times> kernel) option" where
  "do_exit error_code k = do {
     c \<leftarrow> current (kproc k);
     kassert (Some c \<noteq> idleproc (kproc k));
     kassert (Some c \<noteq> initproc (kproc k));
     k \<leftarrow> (case proc_mm (procs (kproc k) c) of
            None \<Rightarrow> Some k
          | Some m \<Rightarrow> do { k \<leftarrow> leave_mm m k; put_files c (clear_mm c k) });
     k \<leftarrow> on_procs (exit_family error_code) k;
     Some (Blocks Exited, k)
   }"

subsection \<open>Loading a program\<close>

definition EXEC_MAX_ARG_NUM :: int where "EXEC_MAX_ARG_NUM = 32"
definition EXEC_MAX_ARG_LEN :: nat where "EXEC_MAX_ARG_LEN = 4095"

definition LSEEK_SET :: int where "LSEEK_SET = 0"

definition load_icode_read :: "int \<Rightarrow> nat \<Rightarrow> nat \<Rightarrow> int \<Rightarrow> kernel \<Rightarrow> (int \<times> kernel) option" where
  "load_icode_read d b len offset k = do {
     (ret, k) \<leftarrow> on_fs (sysfile_seek d offset LSEEK_SET) k;
     if ret \<noteq> 0 then Some (ret, k) else do {
       mm \<leftarrow> cur_mm k;
       (ret, k) \<leftarrow> on_fs (sysfile_read mm d b len) k;
       Some (if ret mod 2 ^ 64 \<noteq> int len then if ret < 0 then ret else - 1 else 0, k)
     }
   }"

fun put_kargv :: "nat \<Rightarrow> nat list \<Rightarrow> fsst \<Rightarrow> fsst option" where
  "put_kargv 0 kargv s = Some s"
| "put_kargv (Suc argc) kargv s = do { s \<leftarrow> kdealloc (kargv ! argc) s; put_kargv argc kargv s }"

text \<open>The loop of \<open>copy_kargv\<close> with \<open>n\<close> arguments to go: the buffers so far are \<open>kargv\<close>, their number is \<open>i\<close>.\<close>

fun copy_kargv_loop :: "nat option \<Rightarrow> nat \<Rightarrow> nat \<Rightarrow> nat list \<Rightarrow> fsst \<Rightarrow> (int \<times> nat list \<times> fsst) option" where
  "copy_kargv_loop mm 0 argv kargv s = Some (0, kargv, s)"
| "copy_kargv_loop mm (Suc n) argv kargv s = do {
     (b, s) \<leftarrow> kalloc (EXEC_MAX_ARG_LEN + 1) s;
     (case b of
        None \<Rightarrow> do { s \<leftarrow> put_kargv (length kargv) kargv s; Some (- E_NO_MEM, kargv, s) }
      | Some b \<Rightarrow> do {
          (ok, r) \<leftarrow> copy_string mm b (ld64 (kmem s) (argv + 8 * length kargv)) (EXEC_MAX_ARG_LEN + 1) (kmem s, vm (heap s));
          let s = set_copied r s;
          if ok then copy_kargv_loop mm n argv (kargv @ [b]) s
          else do { s \<leftarrow> kdealloc b s; s \<leftarrow> put_kargv (length kargv) kargv s; Some (- E_INVAL, kargv, s) }
        })
   }"

definition copy_kargv :: "nat option \<Rightarrow> nat \<Rightarrow> nat \<Rightarrow> fsst \<Rightarrow> (int \<times> nat list \<times> fsst) option" where
  "copy_kargv mm argc argv s = do {
     (ok, v) \<leftarrow> user_mem_check mm argv (8 * argc) False (vm (heap s));
     let s = set_copied (kmem s, v) s;
     if \<not> ok then Some (- E_INVAL, [], s) else copy_kargv_loop mm argc argv [] s
   }"

definition kstack_name :: nat where "kstack_name = KVA + 0x200"
definition kstack_fmt :: nat where "kstack_fmt = KVA + 0x300"

text \<open>The name the process will have, in \<open>local_name\<close> on the kernel stack; the format string is \<open>"<null> %d"\<close>.\<close>

definition exec_name :: "nat option \<Rightarrow> nat \<Rightarrow> int \<Rightarrow> fsst \<Rightarrow> (bool \<times> fsst) option" where
  "exec_name mm nm i s = do {
     let s = upd_kmem (\<lambda>m. memset m kstack_name 0 (PROC_NAME_LEN + 1)) s;
     if nm = 0 then do {
       (n, m) \<leftarrow> snprintf (kmem s) kstack_name (PROC_NAME_LEN + 1) (\<lambda>i. ([60, 110, 117, 108, 108, 62, 32, 37, 100, 0] :: byte list) ! i) [word_of_int i];
       Some (True, s\<lparr>kmem := m\<rparr>)
     }
     else do {
       (ok, r) \<leftarrow> copy_string mm kstack_name nm (PROC_NAME_LEN + 1) (kmem s, vm (heap s));
       Some (ok, set_copied r s)
     }
   }"

text \<open>From the label \<open>execve_exit\<close>.\<close>

definition exec_failed :: "int \<Rightarrow> nat list \<Rightarrow> kernel \<Rightarrow> (outcome \<times> kernel) option" where
  "exec_failed ret kargv k = do { k \<leftarrow> fs_do (put_kargv (length kargv) kargv) k; do_exit ret k }"

type_synonym loader = "int \<Rightarrow> nat list \<Rightarrow> kernel \<Rightarrow> (int \<times> kernel) option"

text \<open>\<open>do_execve\<close> in three parts, the last first: from the call of \<open>sysfile_open\<close>; from \<open>copy_kargv\<close>; and from the start.\<close>

definition exec_load :: "loader \<Rightarrow> nat \<Rightarrow> nat option \<Rightarrow> nat \<Rightarrow> nat list \<Rightarrow> kernel \<Rightarrow> (outcome \<times> kernel) option" where
  "exec_load load_icode c mm fname kargv k = do {
     (ret, k) \<leftarrow> on_fs (sysfile_open mm fname O_RDONLY) k;
     if ret < 0 then exec_failed ret kargv k else do {
       k \<leftarrow> (case mm of None \<Rightarrow> Some k | Some m \<Rightarrow> do { k \<leftarrow> leave_mm m k; Some (clear_mm c k) });
       (ret, k) \<leftarrow> load_icode ret kargv k;
       if ret \<noteq> 0 then exec_failed ret kargv k else do {
         k \<leftarrow> fs_do (put_kargv (length kargv) kargv) k;
         Some (Ret 0, upd_kproc (set_proc_name c (kmem (kfs k)) kstack_name) k)
       }
     }
   }"

definition exec_args :: "loader \<Rightarrow> nat \<Rightarrow> nat option \<Rightarrow> nat \<Rightarrow> nat \<Rightarrow> kernel \<Rightarrow> (outcome \<times> kernel) option" where
  "exec_args load_icode c mm argc argv k = do {
     ((ret, kargv), k) \<leftarrow> on_fs (\<lambda>s. do { (r, b, s) \<leftarrow> copy_kargv mm argc argv s; Some ((r, b), s) }) k;
     if ret \<noteq> 0 then Some (Ret ret, unlock_mm mm k) else do {
       let fname = ld64 (kmem (kfs k)) argv;
       let k = unlock_mm mm k;
       f \<leftarrow> proc.filesp (procs (kproc k) c);
       k \<leftarrow> fs_do (files_closeall f) k;
       exec_load load_icode c mm fname kargv k
     }
   }"

definition do_execve :: "loader \<Rightarrow> nat \<Rightarrow> int \<Rightarrow> nat \<Rightarrow> kernel \<Rightarrow> (outcome \<times> kernel) option" where
  "do_execve load_icode nm argc argv k = do {
     c \<leftarrow> current (kproc k);
     let mm = proc_mm (procs (kproc k) c);
     if \<not> (argc \<ge> 1 \<and> argc \<le> EXEC_MAX_ARG_NUM) then Some (Ret (- E_INVAL), k) else do {
       k \<leftarrow> lock_mm mm k;
       (ok, k) \<leftarrow> on_fs (exec_name mm nm (pid (procs (kproc k) c))) k;
       if \<not> ok then Some (Ret (- E_INVAL), unlock_mm mm k)
       else exec_args load_icode c mm (nat argc) argv k
     }
   }"

subsection \<open>Wait and sleep\<close>

text \<open>From the label \<open>found\<close>.\<close>

definition wait_found :: "nat \<Rightarrow> nat \<Rightarrow> kernel \<Rightarrow> (outcome \<times> kernel) option" where
  "wait_found p code_store k = do {
     (code, s) \<leftarrow> wait_reap p (kproc k);
     let k = k\<lparr>kproc := s\<rparr>;
     let k = (if code_store \<noteq> 0 then k\<lparr>kfs := upd_kmem (st32 code_store (nat (code mod 2 ^ 32))) (kfs k)\<rparr> else k);
     k \<leftarrow> put_kstack p k;
     k \<leftarrow> fs_do (kdealloc p) k;
     Some (Ret 0, k)
   }"

text \<open>From the label \<open>repeat\<close> to the return or the call of \<open>schedule\<close>.\<close>

definition wait_repeat :: "int \<Rightarrow> nat \<Rightarrow> kernel \<Rightarrow> (outcome \<times> kernel) option" where
  "wait_repeat i code_store k = do {
     (haskid, z) \<leftarrow> wait_look i (kproc k);
     (case z of
        Some p \<Rightarrow> wait_found p code_store k
      | None \<Rightarrow>
          if haskid then do {
            c \<leftarrow> current (kproc k);
            Some (Blocks (Waiting i code_store), upd_kproc (wait_sleep c) k)
          }
          else Some (Ret (- E_BAD_PROC), k))
   }"

definition do_wait :: "int \<Rightarrow> nat \<Rightarrow> kernel \<Rightarrow> (outcome \<times> kernel) option" where
  "do_wait i code_store k = do {
     mm \<leftarrow> cur_mm k;
     (ok, k) \<leftarrow> (if code_store \<noteq> 0 then on_vm (user_mem_check mm code_store 4 True) k else Some (True, k));
     if \<not> ok then Some (Ret (- E_INVAL), k) else wait_repeat i code_store k
   }"

definition do_sleep_call :: "nat \<Rightarrow> kernel \<Rightarrow> (outcome \<times> kernel) option" where
  "do_sleep_call time k =
     (if time = 0 then Some (Ret 0, k)
      else do {
        c \<leftarrow> current (kproc k);
        let t = kstack (procs (kproc k) c);
        k \<leftarrow> on_procs (sleep_begin t time) k;
        Some (Blocks (Sleeping t), k)
      })"

text \<open>Where a call goes on behind its \<open>schedule\<close>.\<close>

fun go_on :: "cont \<Rightarrow> kernel \<Rightarrow> (outcome \<times> kernel) option" where
  "go_on Exited k = None"
| "go_on (Waiting i code_store) k = do {
     c \<leftarrow> current (kproc k);
     if and (pflags (procs (kproc k) c)) PF_EXITING \<noteq> 0 then do_exit (- E_KILLED) k else wait_repeat i code_store k
   }"
| "go_on (Sleeping t) k = do { k \<leftarrow> on_procs (del_timer t) k; Some (Ret 0, k) }"

end
