(* ===== verification/Syscall.thy ===== *)
theory Syscall
  imports Proc_Life
begin

text \<open>
  kern/syscall/syscall.c and kern/trap/trap.c: system calls read their arguments from the trap frame of the current
  process and write the result there; a trap is dispatched by its cause. A trap that ends in a call of \<open>schedule\<close>
  results in a \<open>point\<close> where it goes on. \<open>do_fork\<close> and \<open>load_icode\<close>, unwritten exercises, are the record
  \<open>exercises\<close>; what the handlers print is left out.
\<close>

subsection \<open>System calls\<close>

record exercises =
  do_fork :: "32 word \<Rightarrow> 64 word \<Rightarrow> nat \<Rightarrow> kernel \<Rightarrow> (int \<times> kernel) option"
  load_icode :: "int \<Rightarrow> nat list \<Rightarrow> kernel \<Rightarrow> (int \<times> kernel) option"

type_synonym args = "nat \<Rightarrow> 64 word"
type_synonym handler = "args \<Rightarrow> kernel \<Rightarrow> (outcome \<times> kernel) option"

definition as_int :: "64 word \<Rightarrow> int" where "as_int w = sint (ucast w :: 32 word)"

definition returns :: "(int \<times> kernel) option \<Rightarrow> (outcome \<times> kernel) option" where
  "returns r = map_option (apfst Ret) r"

definition procs_call :: "(kst \<Rightarrow> (int \<times> kst) option) \<Rightarrow> kernel \<Rightarrow> (outcome \<times> kernel) option" where
  "procs_call f k = do { (r, s) \<leftarrow> f (kproc k); Some (Ret r, k\<lparr>kproc := s\<rparr>) }"

definition fs_call :: "(nat option \<Rightarrow> fsst \<Rightarrow> (int \<times> fsst) option) \<Rightarrow> kernel \<Rightarrow> (outcome \<times> kernel) option" where
  "fs_call f k = do { mm \<leftarrow> cur_mm k; returns (on_fs (f mm) k) }"

definition sys_exit :: handler where "sys_exit arg k = do_exit (as_int (arg 0)) k"

definition sys_fork :: "exercises \<Rightarrow> handler" where
  "sys_fork ex arg k = do {
     c \<leftarrow> current (kproc k);
     let t = tf k c;
     let stack = gpr (tframes k t) Sp;
     returns (do_fork ex 0 stack t k)
   }"

definition sys_wait :: handler where "sys_wait arg k = do_wait (as_int (arg 0)) (unat (arg 1)) k"

definition sys_exec :: "exercises \<Rightarrow> handler" where
  "sys_exec ex arg k = do_execve (load_icode ex) (unat (arg 0)) (as_int (arg 1)) (unat (arg 2)) k"

definition sys_yield :: handler where "sys_yield arg k = procs_call do_yield k"

definition sys_kill :: handler where "sys_kill arg k = procs_call (do_kill (as_int (arg 0))) k"

definition sys_getpid :: handler where
  "sys_getpid arg k = do { c \<leftarrow> current (kproc k); Some (Ret (pid (procs (kproc k) c)), k) }"

definition sys_putc :: handler where
  "sys_putc arg k = Some (Ret 0, k\<lparr>kfs := (kfs k)\<lparr>console := console (kfs k) @ [ucast (arg 0)]\<rparr>\<rparr>)"

definition sys_pgdir :: handler where "sys_pgdir arg k = Some (Ret 0, k)"

definition sys_gettime :: handler where
  "sys_gettime arg k = Some (Ret (to_i32 (to_i32 (int (ticks k)) * 10)), k)"

definition sys_lab6_set_priority :: handler where
  "sys_lab6_set_priority arg k = do { k \<leftarrow> on_procs (lab6_set_priority (to_u32 (unat (arg 0)))) k; Some (Ret 0, k) }"

definition sys_sleep :: handler where "sys_sleep arg k = do_sleep_call (to_u32 (unat (arg 0))) k"

definition sys_open :: handler where
  "sys_open arg k = fs_call (\<lambda>mm. sysfile_open mm (unat (arg 0)) (ucast (arg 1))) k"

definition sys_close :: handler where "sys_close arg k = fs_call (\<lambda>mm. sysfile_close (as_int (arg 0))) k"

definition sys_read :: handler where
  "sys_read arg k = fs_call (\<lambda>mm. sysfile_read mm (as_int (arg 0)) (unat (arg 1)) (unat (arg 2))) k"

definition sys_write :: handler where
  "sys_write arg k = fs_call (\<lambda>mm. sysfile_write mm (as_int (arg 0)) (unat (arg 1)) (unat (arg 2))) k"

definition sys_seek :: handler where
  "sys_seek arg k = fs_call (\<lambda>mm. sysfile_seek (as_int (arg 0)) (sint (arg 1)) (as_int (arg 2))) k"

definition sys_fstat :: handler where
  "sys_fstat arg k = fs_call (\<lambda>mm. sysfile_fstat mm (as_int (arg 0)) (unat (arg 1))) k"

definition sys_fsync :: handler where "sys_fsync arg k = fs_call (\<lambda>mm. sysfile_fsync (as_int (arg 0))) k"

definition sys_getcwd :: handler where
  "sys_getcwd arg k = fs_call (\<lambda>mm. sysfile_getcwd mm (unat (arg 0)) (unat (arg 1))) k"

definition sys_getdirentry :: handler where
  "sys_getdirentry arg k = fs_call (\<lambda>mm. sysfile_getdirentry mm (as_int (arg 0)) (unat (arg 1))) k"

definition sys_dup :: handler where
  "sys_dup arg k = fs_call (\<lambda>mm. sysfile_dup (as_int (arg 0)) (as_int (arg 1))) k"

definition syscalls :: "exercises \<Rightarrow> int \<Rightarrow> handler option" where
  "syscalls ex = map_of
     [(1, sys_exit), (2, sys_fork ex), (3, sys_wait), (4, sys_exec ex), (10, sys_yield), (12, sys_kill),
      (18, sys_getpid), (30, sys_putc), (31, sys_pgdir), (17, sys_gettime), (255, sys_lab6_set_priority),
      (11, sys_sleep), (100, sys_open), (101, sys_close), (102, sys_read), (103, sys_write), (104, sys_seek),
      (110, sys_fstat), (111, sys_fsync), (121, sys_getcwd), (128, sys_getdirentry), (130, sys_dup)]"

definition NUM_SYSCALLS :: int where "NUM_SYSCALLS = 256"

definition set_gpr :: "nat \<Rightarrow> reg \<Rightarrow> 64 word \<Rightarrow> kernel \<Rightarrow> kernel" where
  "set_gpr t r v k = k\<lparr>tframes := (tframes k)(t := (tframes k t)\<lparr>gpr := (gpr (tframes k t))(r := v)\<rparr>)\<rparr>"

text \<open>The result of a call that returned goes to \<open>a0\<close> of the frame that \<open>syscall\<close> read the arguments from.\<close>

definition put_result :: "nat \<Rightarrow> outcome \<times> kernel \<Rightarrow> outcome \<times> kernel" where
  "put_result t r = (case r of (Ret v, k) \<Rightarrow> (Ret v, set_gpr t A0 (word_of_int v) k) | (Blocks c, k) \<Rightarrow> (Blocks c, k))"

definition syscall :: "exercises \<Rightarrow> kernel \<Rightarrow> (outcome \<times> kernel) option" where
  "syscall ex k = do {
     c \<leftarrow> current (kproc k);
     let t = tf k c;
     let g = gpr (tframes k t);
     let num = as_int (g A0);
     kassert (num \<ge> 0 \<and> num < NUM_SYSCALLS);
     call \<leftarrow> syscalls ex num;
     map_option (put_result t) (call (\<lambda>i. [g A1, g A2, g A3, g A4, g A5] ! i) k)
   }"

subsection \<open>Traps\<close>

definition SSTATUS_SPP :: "64 word" where "SSTATUS_SPP = 0x100"

definition trap_in_kernel :: "nat \<Rightarrow> kernel \<Rightarrow> bool" where
  "trap_in_kernel t k \<longleftrightarrow> and (status (tframes k t)) SSTATUS_SPP \<noteq> 0"

definition pgfault_handler :: "nat \<Rightarrow> kernel \<Rightarrow> (int \<times> kernel) option" where
  "pgfault_handler t k = do {
     mm \<leftarrow> (case check_mm_struct (kvm k) of
             Some m \<Rightarrow> do { kassert (current (kproc k) = idleproc (kproc k)); Some (Some m) }
           | None \<Rightarrow> cur_mm k);
     on_vm (do_pgfault mm (unat (tval (tframes k t)))) k
   }"

text \<open>\<open>key\<close> is what \<open>cons_getc\<close> returns.\<close>

definition interrupt_handler :: "byte \<Rightarrow> nat \<Rightarrow> kernel \<Rightarrow> kernel option" where
  "interrupt_handler key t k =
     (if drop_bit 1 (push_bit 1 (cause (tframes k t))) = 5 then do {
        let k = k\<lparr>ticks := (ticks k + 1) mod 2 ^ 64\<rparr>;
        k \<leftarrow> on_procs run_timer_list k;
        Some (k\<lparr>kfs := dev_stdin_write key (kfs k)\<rparr>)
      }
      else Some k)"

datatype handled = Done | Called outcome bool

definition skip_ecall :: "nat \<Rightarrow> kernel \<Rightarrow> kernel" where
  "skip_ecall t k = k\<lparr>tframes := (tframes k)(t := (tframes k t)\<lparr>epc := epc (tframes k t) + 4\<rparr>)\<rparr>"

text \<open>\<open>Called r e\<close> is the end of \<open>syscall\<close>; \<open>e\<close> tells the breakpoint of \<open>kernel_execve\<close>.\<close>

definition exception_handler :: "exercises \<Rightarrow> nat \<Rightarrow> kernel \<Rightarrow> (handled \<times> kernel) option" where
  "exception_handler ex t k =
     (let n = cause (tframes k t) in
      if n = 3 then
        if gpr (tframes k t) A7 = 10
        then do { (r, k) \<leftarrow> syscall ex (skip_ecall t k); Some (Called r True, k) }
        else Some (Done, k)
      else if n = 5 \<or> n = 7 \<or> n = 0xd \<or> n = 0xf then do {
        (ret, k) \<leftarrow> pgfault_handler t k;
        kassert (ret = 0);
        Some (Done, k)
      }
      else if n = 6 then None
      else if n = 8 \<or> n = 9 then do { (r, k) \<leftarrow> syscall ex (skip_ecall t k); Some (Called r False, k) }
      else Some (Done, k))"

definition trap_dispatch :: "exercises \<Rightarrow> byte \<Rightarrow> nat \<Rightarrow> kernel \<Rightarrow> (handled \<times> kernel) option" where
  "trap_dispatch ex key t k =
     (if sint (cause (tframes k t)) < 0 then do { k \<leftarrow> interrupt_handler key t k; Some (Done, k) }
      else exception_handler ex t k)"

text \<open>How a trap ends: it returns to what it interrupted, jumps to \<open>__trapret\<close> with the frame at an address, or calls
  \<open>schedule\<close> at a point: inside a system call, with the frame, the frame before it, and where the trap came
  from; at the end of \<open>trap\<close>; in \<open>do_exit\<close>; or inside a call of a kernel thread, which has no frame.\<close>

datatype point = In_call cont nat nat bool bool | In_tail | In_exit | In_thread cont

datatype trap_end = Returned | Trapret nat | Schedules point

text \<open>The end of \<open>trap\<close> behind \<open>trap_dispatch\<close>.\<close>

definition trap_tail :: "nat \<Rightarrow> bool \<Rightarrow> kernel \<Rightarrow> (trap_end \<times> kernel) option" where
  "trap_tail otf in_kernel k = do {
     c \<leftarrow> current (kproc k);
     let k = k\<lparr>tf := (tf k)(c := otf)\<rparr>;
     if in_kernel then Some (Returned, k)
     else if and (pflags (procs (kproc k) c)) PF_EXITING \<noteq> 0 then do {
       (r, k) \<leftarrow> do_exit (- E_KILLED) k;
       Some (Schedules In_exit, k)
     }
     else if need_resched (procs (kproc k) c) then Some (Schedules In_tail, k)
     else Some (Returned, k)
   }"

text \<open>The assembly function \<open>kernel_execve_ret\<close> copies the frame to the top of the kernel stack and jumps to
  \<open>__trapret\<close>.\<close>

definition kernel_execve_ret :: "nat \<Rightarrow> nat \<Rightarrow> kernel \<Rightarrow> trap_end \<times> kernel" where
  "kernel_execve_ret t kstacktop k =
     (let a = kstacktop - sizeof_trapframe in (Trapret a, k\<lparr>tframes := (tframes k)(a := tframes k t)\<rparr>))"

definition after_call :: "outcome \<Rightarrow> nat \<Rightarrow> nat \<Rightarrow> bool \<Rightarrow> bool \<Rightarrow> kernel \<Rightarrow> (trap_end \<times> kernel) option" where
  "after_call r t otf in_kernel ebreak k =
     (case r of
        Blocks b \<Rightarrow> Some (Schedules (In_call b t otf in_kernel ebreak), k)
      | Ret v \<Rightarrow>
          if ebreak then do {
            c \<leftarrow> current (kproc k);
            Some (kernel_execve_ret t (kstack (procs (kproc k) c) + KSTACKSIZE) k)
          }
          else trap_tail otf in_kernel k)"

definition trap :: "exercises \<Rightarrow> byte \<Rightarrow> nat \<Rightarrow> kernel \<Rightarrow> (trap_end \<times> kernel) option" where
  "trap ex key t k =
     (case current (kproc k) of
        None \<Rightarrow> do { (h, k) \<leftarrow> trap_dispatch ex key t k; Some (Returned, k) }
      | Some c \<Rightarrow> do {
          let otf = tf k c;
          let k = k\<lparr>tf := (tf k)(c := t)\<rparr>;
          let in_kernel = trap_in_kernel t k;
          (h, k) \<leftarrow> trap_dispatch ex key t k;
          (case h of
             Done \<Rightarrow> trap_tail otf in_kernel k
           | Called r ebreak \<Rightarrow> after_call r t otf in_kernel ebreak k)
        })"

text \<open>What a process does first when it runs again.\<close>

fun resume :: "point \<Rightarrow> kernel \<Rightarrow> (trap_end \<times> kernel) option" where
  "resume In_tail k = Some (Returned, k)"
| "resume In_exit k = None"
| "resume (In_thread b) k = do {
     (r, k) \<leftarrow> go_on b k;
     Some (case r of Ret v \<Rightarrow> Returned | Blocks b \<Rightarrow> Schedules (In_thread b), k)
   }"
| "resume (In_call b t otf in_kernel ebreak) k = do {
     r \<leftarrow> go_on b k;
     (case put_result t r of (r, k) \<Rightarrow> after_call r t otf in_kernel ebreak k)
   }"

end
