(* ===== verification/Proc_Inv.thy ===== *)
theory Proc_Inv
  imports Proc_Life
begin

text \<open>
  The invariant of the processes: the lists they are linked in, the tree of their families, which of them are on
  the run queue, and what the sleeping ones wait for; and lemmas that the operations of the scheduler and of
  kern/process/proc.c keep it. The lists and the tree, which the code holds as pointers, are the record \<open>ghost\<close>.
\<close>

subsection \<open>The invariant\<close>

text \<open>\<open>rq\<close>: the run queue; \<open>ts\<close>: the timer list; \<open>ps\<close>: the process list; \<open>bk\<close>: the hash lists; \<open>ch\<close>: the children of a
  process; \<open>wt\<close>: where a process is stopped inside a call. While \<open>do_exit\<close> runs, \<open>dying\<close> is the zombie whose children
  are still to be handed over, and \<open>off\<close> holds sleeping processes that are about to be woken.\<close>

record ghost =
  rq :: "nat list"
  ts :: "nat list"
  ps :: "nat list"
  bk :: "nat \<Rightarrow> nat list"
  ch :: "nat \<Rightarrow> nat list"
  wt :: "nat \<Rightarrow> cont option"
  idle :: nat
  ini :: nat
  dying :: "nat option"
  off :: "nat set"

definition everyone :: "ghost \<Rightarrow> nat set" where "everyone g = insert (idle g) (set (ps g))"

definition rings :: "ghost \<Rightarrow> kst \<Rightarrow> bool" where
  "rings g s \<longleftrightarrow> rq_inv s (rq g) \<and> linked (klinks s) TimerHead TimerLink (ts g) \<and> proc_ring s (ps g) \<and> hashed s (bk g)"

text \<open>The children of \<open>p\<close>; \<open>y\<close> is the \<open>yptr\<close> of the first one.\<close>

definition brood :: "kst \<Rightarrow> nat option \<Rightarrow> nat \<Rightarrow> nat list \<Rightarrow> bool" where
  "brood s y p cs \<longleftrightarrow> cptr (procs s p) = first cs None \<and> sibs s y cs None \<and> distinct (p # cs) \<and>
     (\<forall>c \<in> set cs. parent (procs s c) = Some p)"

definition tree :: "ghost \<Rightarrow> kst \<Rightarrow> bool" where
  "tree g s \<longleftrightarrow> idleproc s = Some (idle g) \<and> initproc s = Some (ini g) \<and> ini g \<in> set (ps g) \<and> idle g \<notin> set (ps g) \<and>
     ini g \<in> set (ch g (idle g)) \<and>
     pstate (procs s (idle g)) = PROC_RUNNABLE \<and> pstate (procs s (ini g)) \<noteq> PROC_ZOMBIE \<and>
     (\<forall>p \<in> everyone g. (\<exists>y. brood s y p (ch g p) \<and> (dying g \<noteq> Some p \<longrightarrow> y = None)) \<and> set (ch g p) \<subseteq> set (ps g)) \<and>
     (\<forall>c \<in> set (ps g). \<exists>p \<in> everyone g. c \<in> set (ch g p)) \<and>
     (\<forall>p \<in> set (ps g). pstate (procs s p) = PROC_ZOMBIE \<and> dying g \<noteq> Some p \<longrightarrow> ch g p = [])"

definition pid_map_inv :: "ghost \<Rightarrow> kst \<Rightarrow> bool" where
  "pid_map_inv g s \<longleftrightarrow> (\<Union>i. set (bk g i)) = set (ps g) \<and> inj_on (\<lambda>p. pid (procs s p)) (set (ps g)) \<and>
     inj_on (\<lambda>p. kstack (procs s p)) (set (ps g)) \<and> (\<forall>p \<in> set (ps g). valid_pid (pid (procs s p))) \<and>
     1 \<le> last_pid s \<and> last_pid s \<le> MAX_PID \<and> next_safe s \<le> MAX_PID \<and> unused s (ps g) (last_pid s + 1) (next_safe s) \<and>
     nr_process s = int (length (ps g)) + 1"

text \<open>The run queue holds exactly the runnable processes other than the current and the idle one.\<close>

definition queued :: "ghost \<Rightarrow> kst \<Rightarrow> bool" where
  "queued g s \<longleftrightarrow> (\<exists>c \<in> everyone g. current s = Some c) \<and> int (length (ps g)) \<le> MAX_PROCESS \<and>
     set (rq g) = {p \<in> set (ps g). pstate (procs s p) = PROC_RUNNABLE \<and> current s \<noteq> Some p}"

text \<open>What a sleeping process waits for is still to come: a process in \<open>do_wait\<close> has no zombie child that it would
  take, and the timer of one in \<open>do_sleep\<close> is in the list.\<close>

definition still_waits :: "ghost \<Rightarrow> kst \<Rightarrow> nat \<Rightarrow> bool" where
  "still_waits g s p \<longleftrightarrow>
     (case wt g p of
        Some (Waiting i st) \<Rightarrow> wait_state (procs s p) = WT_CHILD \<and>
          (\<forall>c \<in> set (ch g p). (i = 0 \<or> pid (procs s c) = i) \<longrightarrow> pstate (procs s c) \<noteq> PROC_ZOMBIE)
      | Some (Sleeping t) \<Rightarrow> wait_state (procs s p) = WT_TIMER \<and> t \<in> set (ts g)
      | _ \<Rightarrow> False)"

definition sleepers :: "ghost \<Rightarrow> kst \<Rightarrow> bool" where
  "sleepers g s \<longleftrightarrow> (\<forall>p \<in> set (ps g). p \<notin> off g \<longrightarrow> pstate (procs s p) \<noteq> PROC_UNINIT \<and>
     (pstate (procs s p) = PROC_SLEEPING \<longrightarrow> still_waits g s p))"

text \<open>A timer in the list lies on the stack of a process that is stopped in \<open>do_sleep\<close>.\<close>

definition timed :: "ghost \<Rightarrow> kst \<Rightarrow> bool" where
  "timed g s \<longleftrightarrow> (\<forall>p \<in> set (ps g). \<forall>t. wt g p = Some (Sleeping t) \<longrightarrow> t = kstack (procs s p)) \<and>
     (\<forall>t \<in> set (ts g). \<exists>p \<in> set (ps g). timer_proc (timers s t) = Some p \<and> wt g p = Some (Sleeping t) \<and>
     pstate (procs s p) \<noteq> PROC_ZOMBIE)"

definition kinv :: "ghost \<Rightarrow> kst \<Rightarrow> bool" where
  "kinv g s \<longleftrightarrow> rings g s \<and> tree g s \<and> pid_map_inv g s \<and> queued g s \<and> sleepers g s \<and> timed g s"

subsection \<open>Lists side by side\<close>

definition same_outside :: "'n set \<Rightarrow> 'n links \<Rightarrow> 'n links \<Rightarrow> bool" where
  "same_outside N h h' \<longleftrightarrow> (\<forall>n. n \<notin> N \<longrightarrow> nxt h' n = nxt h n \<and> prv h' n = prv h n)"

definition run_nodes :: "knode set" where "run_nodes = insert RunHead (range RunLink)"
definition timer_nodes :: "knode set" where "timer_nodes = insert TimerHead (range TimerLink)"
definition list_nodes :: "knode set" where "list_nodes = insert ProcHead (range ListLink)"
definition hash_nodes :: "knode set" where "hash_nodes = range HashHead \<union> range HashLink"

lemmas node_sets = run_nodes_def timer_nodes_def list_nodes_def hash_nodes_def

lemma same_outside_refl [simp]: "same_outside N h h" by (simp add: same_outside_def)

lemma same_outside_trans: "same_outside N h h1 \<Longrightarrow> same_outside N h1 h2 \<Longrightarrow> same_outside N h h2"
  by (simp add: same_outside_def)

lemma add_before_outside:
  assumes "dlist h lh xs" and "q \<in> set (lh # xs)" and "set (e # lh # xs) \<subseteq> N"
  shows "same_outside N h (list_add_before q e h)"
  unfolding same_outside_def
  by (intro allI impI conjI add_before_writes [OF assms(1,2)]) (use assms(3) in auto)

lemma del_init_outside:
  assumes "dlist h lh xs" and "e \<in> set xs" and "set (lh # xs) \<subseteq> N"
  shows "same_outside N h (list_del_init e h)"
  unfolding same_outside_def
  by (intro allI impI conjI del_init_writes [OF assms(1,2)]) (use assms(3) in auto)

lemma del_outside:
  assumes "dlist h lh xs" and "e \<in> set xs" and "set (lh # xs) \<subseteq> N"
  shows "same_outside N h (list_del e h)"
proof -
  have "nxt h e \<in> N" "prv h e \<in> N" using dlist_neighbours [OF assms(1), of e] assms(2,3) by auto
  then show ?thesis by (auto simp: same_outside_def list_del_def list_del_between_def)
qed

lemma run_frame:
  assumes "same_outside N (klinks s) (klinks s')" and "N \<inter> run_nodes = {}" and "proc_num s' = proc_num s"
    and "\<And>p. p \<in> set qs \<Longrightarrow> on_rq (procs s' p) = on_rq (procs s p)"
  shows "rq_inv s' qs \<longleftrightarrow> rq_inv s qs"
proof -
  have "linked (klinks s') RunHead RunLink qs \<longleftrightarrow> linked (klinks s) RunHead RunLink qs"
    by (rule linked_frame) (use assms(1,2) in \<open>auto simp: same_outside_def run_nodes_def\<close>)
  then show ?thesis using assms(3,4) by (auto simp: rq_inv_def)
qed

lemma timer_frame:
  assumes "same_outside N h h'" and "N \<inter> timer_nodes = {}"
  shows "linked h' TimerHead TimerLink us \<longleftrightarrow> linked h TimerHead TimerLink us"
  by (rule linked_frame) (use assms in \<open>auto simp: same_outside_def timer_nodes_def\<close>)

lemma proc_frame:
  assumes "same_outside N (klinks s) (klinks s')" and "N \<inter> list_nodes = {}"
  shows "proc_ring s' us \<longleftrightarrow> proc_ring s us"
  unfolding proc_ring_def
  by (rule dlist_frame) (use assms in \<open>auto simp: same_outside_def list_nodes_def\<close>)

lemma hash_frame:
  assumes "same_outside N (klinks s) (klinks s')" and "N \<inter> hash_nodes = {}"
    and "\<And>i p. p \<in> set (us i) \<Longrightarrow> pid (procs s' p) = pid (procs s p)"
  shows "hashed s' us \<longleftrightarrow> hashed s us"
proof -
  have "dlist (klinks s') (HashHead i) (map HashLink (us i)) \<longleftrightarrow> dlist (klinks s) (HashHead i) (map HashLink (us i))" for i
    by (rule dlist_frame) (use assms(1,2) in \<open>auto simp: same_outside_def hash_nodes_def\<close>)
  then show ?thesis using assms(3) by (auto simp: hashed_def)
qed

subsection \<open>Operations that leave the lists alone\<close>

text \<open>The fields of a process that the tree and the pid table read.\<close>

definition same_kin :: "kst \<Rightarrow> kst \<Rightarrow> bool" where
  "same_kin s s' \<longleftrightarrow> idleproc s' = idleproc s \<and> initproc s' = initproc s \<and> nr_process s' = nr_process s \<and>
     last_pid s' = last_pid s \<and> next_safe s' = next_safe s \<and>
     (\<forall>p. parent (procs s' p) = parent (procs s p) \<and> cptr (procs s' p) = cptr (procs s p) \<and>
       yptr (procs s' p) = yptr (procs s p) \<and> optr (procs s' p) = optr (procs s p) \<and>
       pid (procs s' p) = pid (procs s p) \<and> kstack (procs s' p) = kstack (procs s p))"

definition same_states :: "kst \<Rightarrow> kst \<Rightarrow> bool" where
  "same_states s s' \<longleftrightarrow> current s' = current s \<and> (\<forall>t. timer_proc (timers s' t) = timer_proc (timers s t)) \<and>
     (\<forall>p. pstate (procs s' p) = pstate (procs s p) \<and> wait_state (procs s' p) = wait_state (procs s p))"

definition quiet :: "kst \<Rightarrow> kst \<Rightarrow> bool" where
  "quiet s s' \<longleftrightarrow> same_kin s s' \<and> same_states s s' \<and> klinks s' = klinks s \<and> proc_num s' = proc_num s \<and>
     (\<forall>p. on_rq (procs s' p) = on_rq (procs s p))"

lemma same_kin_refl [simp]: "same_kin s s" by (simp add: same_kin_def)

lemma same_kin_trans: "same_kin s s1 \<Longrightarrow> same_kin s1 s2 \<Longrightarrow> same_kin s s2" by (simp add: same_kin_def)

lemma quiet_refl [simp]: "quiet s s" by (simp add: quiet_def same_states_def)

lemma quiet_trans: "quiet s s1 \<Longrightarrow> quiet s1 s2 \<Longrightarrow> quiet s s2"
  by (simp add: quiet_def same_kin_def same_states_def)

lemma family_brood: "family s p cs \<longleftrightarrow> brood s None p cs"
  by (simp add: family_def brood_def)

lemma brood_cong:
  assumes "cptr (procs s' p) = cptr (procs s p)"
    and "\<And>c. c \<in> set cs \<Longrightarrow> yptr (procs s' c) = yptr (procs s c) \<and> optr (procs s' c) = optr (procs s c) \<and>
      parent (procs s' c) = parent (procs s c)"
  shows "brood s' y p cs \<longleftrightarrow> brood s y p cs"
proof -
  have "sibs s' y cs None \<longleftrightarrow> sibs s y cs None" by (rule sibs_cong) (use assms(2) in blast)
  with assms show ?thesis by (auto simp: brood_def)
qed

lemma same_kin_brood: "same_kin s s' \<Longrightarrow> brood s' y p cs \<longleftrightarrow> brood s y p cs"
  by (rule brood_cong) (simp_all add: same_kin_def)

lemma tree_kept:
  assumes "tree g s" and "same_kin s s'" and "ps g' = ps g" "ch g' = ch g" "idle g' = idle g" "ini g' = ini g" "dying g' = dying g"
    and "pstate (procs s' (idle g)) = pstate (procs s (idle g))"
    and "\<And>p. p \<in> everyone g \<Longrightarrow> pstate (procs s' p) = PROC_ZOMBIE \<longleftrightarrow> pstate (procs s p) = PROC_ZOMBIE"
  shows "tree g' s'"
proof -
  have e: "everyone g' = everyone g" using assms(3,5) by (simp add: everyone_def)
  show ?thesis using assms(1) unfolding tree_def e assms(3-7) same_kin_brood [OF assms(2)]
    using assms(2,8,9) by (auto simp: same_kin_def everyone_def)
qed

lemma pid_map_kept:
  "pid_map_inv g s \<Longrightarrow> same_kin s s' \<Longrightarrow> ps g' = ps g \<Longrightarrow> bk g' = bk g \<Longrightarrow> pid_map_inv g' s'"
  by (simp add: pid_map_inv_def same_kin_def unused_def)

lemma still_waits_ghost:
  "wt g' p = wt g p \<Longrightarrow> ch g' p = ch g p \<Longrightarrow> ts g' = ts g \<Longrightarrow> still_waits g' s p \<longleftrightarrow> still_waits g s p"
  by (simp add: still_waits_def split: option.split cont.split)

lemma still_waits_kept:
  assumes "still_waits g s p" and "wait_state (procs s' p) = wait_state (procs s p)"
    and "ch g' p = ch g p" "wt g' p = wt g p" "set (ts g) \<subseteq> set (ts g')"
    and "\<And>c. c \<in> set (ch g p) \<Longrightarrow> pid (procs s' c) = pid (procs s c) \<and>
      (pstate (procs s' c) = PROC_ZOMBIE \<longrightarrow> pstate (procs s c) = PROC_ZOMBIE)"
  shows "still_waits g' s' p"
  using assms by (auto simp: still_waits_def split: option.splits cont.splits)

lemma quiet_kinv:
  assumes "kinv g s" and "quiet s s'"
  shows "kinv g s'"
proof -
  have q: "same_kin s s'" "klinks s' = klinks s" "proc_num s' = proc_num s"
    "\<And>p. on_rq (procs s' p) = on_rq (procs s p)" "current s' = current s"
    "\<And>t. timer_proc (timers s' t) = timer_proc (timers s t)" "\<And>p. pstate (procs s' p) = pstate (procs s p)"
    "\<And>p. wait_state (procs s' p) = wait_state (procs s p)"
    using assms(2) by (auto simp: quiet_def same_states_def)
  have "rings g s'" using assms(1) q(1)
    by (auto simp: kinv_def rings_def rq_inv_def proc_ring_def hashed_def q same_kin_def)
  moreover have "tree g s'" by (rule tree_kept) (use assms(1) q in \<open>auto simp: kinv_def\<close>)
  moreover have "pid_map_inv g s'" by (rule pid_map_kept) (use assms(1) q in \<open>auto simp: kinv_def\<close>)
  moreover have "still_waits g s' p \<longleftrightarrow> still_waits g s p" for p
    using q(1) by (auto simp: still_waits_def q same_kin_def split: option.splits cont.splits)
  then have "sleepers g s'" using assms(1) by (simp add: kinv_def sleepers_def q)
  moreover have "timed g s'" using assms(1) q(1) by (simp add: kinv_def timed_def q same_kin_def)
  ultimately show ?thesis using assms(1) by (simp add: kinv_def queued_def q)
qed

lemma quiet_upd_proc [simp]:
  assumes "\<And>d. pstate (f d) = pstate d \<and> pid (f d) = pid d \<and> kstack (f d) = kstack d \<and> parent (f d) = parent d \<and>
    cptr (f d) = cptr d \<and> yptr (f d) = yptr d \<and> optr (f d) = optr d \<and> on_rq (f d) = on_rq d \<and>
    wait_state (f d) = wait_state d"
  shows "quiet s (upd_proc p f s)"
  using assms by (simp add: quiet_def same_kin_def same_states_def)

subsection \<open>The run queue\<close>

lemma rings_rq:
  assumes "rings g s" and "same_outside run_nodes (klinks s) (klinks s')" and "rq_inv s' qs"
    and "\<And>p. pid (procs s' p) = pid (procs s p)"
  shows "rings (g\<lparr>rq := qs\<rparr>) s'"
proof -
  have d: "run_nodes \<inter> timer_nodes = {}" "run_nodes \<inter> list_nodes = {}" "run_nodes \<inter> hash_nodes = {}"
    by (auto simp: node_sets)
  show ?thesis
    using assms(1,3) timer_frame [OF assms(2) d(1)] proc_frame [OF assms(2) d(2)] hash_frame [OF assms(2) d(3)] assms(4)
    by (simp add: rings_def)
qed

lemma enqueue_rings:
  assumes "rings g s" and "RR_enqueue p s = Some s'" and "p \<notin> set (rq g)" and "length (rq g) < 2 ^ 32 - 2"
  shows "rings (g\<lparr>rq := rq g @ [p]\<rparr>) s'"
proof (rule rings_rq [OF assms(1)])
  have r: "rq_inv s (rq g)" using assms(1) by (simp add: rings_def)
  then have "dlist (klinks s) RunHead (map RunLink (rq g))" by (simp add: rq_inv_def linked_def)
  then show "same_outside run_nodes (klinks s) (klinks s')"
    unfolding RR_enqueue_frame(11) [OF assms(2)] by (rule add_before_outside) (auto simp: run_nodes_def)
  show "rq_inv s' (rq g @ [p])" using RR_enqueue_inv [OF r assms(3,4)] assms(2) by simp
qed (use assms(2) in \<open>auto simp: RR_enqueue_def Let_def split: if_splits\<close>)

lemma dequeue_rings:
  assumes "rings g s" and "RR_dequeue p s = Some s'" and "rq g = p # qs"
  shows "rings (g\<lparr>rq := qs\<rparr>) s'"
proof (rule rings_rq [OF assms(1)])
  have r: "rq_inv s ([] @ p # qs)" using assms(1,3) by (simp add: rings_def)
  then have "dlist (klinks s) RunHead (map RunLink (p # qs))" by (simp add: rq_inv_def linked_def)
  then show "same_outside run_nodes (klinks s) (klinks s')"
    unfolding RR_dequeue_frame(5) [OF assms(2)] by (rule del_init_outside) (auto simp: run_nodes_def)
  show "rq_inv s' qs" using RR_dequeue_inv [OF r] assms(2) by simp
qed (use assms(2) in \<open>auto simp: RR_dequeue_def split: if_splits\<close>)

lemma RR_enqueue_same:
  assumes "RR_enqueue p s = Some s'"
  shows "same_kin s s'" and "same_states s s'"
  using assms by (auto simp: RR_enqueue_def same_kin_def same_states_def Let_def split: if_splits)

lemma RR_dequeue_same:
  assumes "RR_dequeue p s = Some s'"
  shows "same_kin s s'" and "same_states s s'"
  using assms by (auto simp: RR_dequeue_def same_kin_def same_states_def split: if_splits)

text \<open>A change of some states of processes, with the run queue brought in line.\<close>

lemma kinv_states:
  assumes "kinv g s" and "rings (g\<lparr>rq := qs, off := X\<rparr>) s'" and "same_kin s s'"
    and "\<And>t. timer_proc (timers s' t) = timer_proc (timers s t)"
    and "pstate (procs s' (idle g)) = pstate (procs s (idle g))"
    and "\<And>p. p \<in> everyone g \<Longrightarrow> pstate (procs s' p) = PROC_ZOMBIE \<longleftrightarrow> pstate (procs s p) = PROC_ZOMBIE"
    and "queued (g\<lparr>rq := qs, off := X\<rparr>) s'"
    and "\<And>p. p \<in> set (ps g) \<Longrightarrow> p \<notin> X \<Longrightarrow> pstate (procs s' p) \<noteq> PROC_UNINIT"
    and "\<And>p. p \<in> set (ps g) \<Longrightarrow> pstate (procs s' p) = PROC_SLEEPING \<Longrightarrow>
      p \<notin> X \<Longrightarrow> p \<notin> off g \<and> pstate (procs s p) = PROC_SLEEPING \<and> wait_state (procs s' p) = wait_state (procs s p)"
  shows "kinv (g\<lparr>rq := qs, off := X\<rparr>) s'"
proof -
  have "tree (g\<lparr>rq := qs, off := X\<rparr>) s'" by (rule tree_kept [of g s]) (use assms in \<open>auto simp: kinv_def\<close>)
  moreover have "pid_map_inv (g\<lparr>rq := qs, off := X\<rparr>) s'" by (rule pid_map_kept [of g s]) (use assms in \<open>auto simp: kinv_def\<close>)
  moreover have "still_waits (g\<lparr>rq := qs, off := X\<rparr>) s' p" if p: "p \<in> set (ps g)" "pstate (procs s' p) = PROC_SLEEPING" "p \<notin> X" for p
  proof (rule still_waits_kept)
    show "still_waits g s p" using assms(1,9) p by (auto simp: kinv_def sleepers_def)
    fix c assume "c \<in> set (ch g p)"
    then have "c \<in> everyone g" using assms(1) p(1) by (auto simp: kinv_def tree_def everyone_def)
    then show "pid (procs s' c) = pid (procs s c) \<and> (pstate (procs s' c) = PROC_ZOMBIE \<longrightarrow> pstate (procs s c) = PROC_ZOMBIE)"
      using assms(3,6) by (auto simp: same_kin_def)
  qed (use assms(9) p in auto)
  then have "sleepers (g\<lparr>rq := qs, off := X\<rparr>) s'" using assms(8) by (simp add: sleepers_def)
  moreover have "pstate (procs s' p) \<noteq> PROC_ZOMBIE" if "p \<in> set (ps g)" "pstate (procs s p) \<noteq> PROC_ZOMBIE" for p
    using assms(6) [of p] that by (simp add: everyone_def)
  then have "timed (g\<lparr>rq := qs, off := X\<rparr>) s'"
    using assms(1,3,4) by (fastforce simp: kinv_def timed_def same_kin_def)
  ultimately show ?thesis using assms(2,7) by (simp add: kinv_def)
qed

lemma rq_short:
  assumes "kinv g s"
  shows "length (rq g) < 2 ^ 32 - 2" and "distinct (rq g)"
proof -
  show d: "distinct (rq g)" using assms rr.holds_distinct by (auto simp: kinv_def rings_def)
  have "set (rq g) \<subseteq> set (ps g)" using assms by (auto simp: kinv_def queued_def)
  then have "card (set (rq g)) \<le> card (set (ps g))" by (intro card_mono) auto
  then have "length (rq g) \<le> length (ps g)" using card_length [of "ps g"] distinct_card [OF d] by linarith
  then show "length (rq g) < 2 ^ 32 - 2" using assms by (simp add: kinv_def queued_def MAX_PROCESS_def)
qed

text \<open>Some processes become runnable, and nothing else happens to the states.\<close>

definition only_wakes :: "kst \<Rightarrow> kst \<Rightarrow> bool" where
  "only_wakes s s' \<longleftrightarrow> current s' = current s \<and>
     (\<forall>q. pstate (procs s' q) = pstate (procs s q) \<or>
       pstate (procs s q) \<noteq> PROC_ZOMBIE \<and> pstate (procs s' q) = PROC_RUNNABLE)"

lemma only_wakes_refl [simp]: "only_wakes s s" by (simp add: only_wakes_def)

lemma only_wakes_trans: "only_wakes s s1 \<Longrightarrow> only_wakes s1 s2 \<Longrightarrow> only_wakes s s2"
  unfolding only_wakes_def by metis

lemma only_wakes_zombie: "only_wakes s s' \<Longrightarrow> pstate (procs s' q) = PROC_ZOMBIE \<longleftrightarrow> pstate (procs s q) = PROC_ZOMBIE"
  unfolding only_wakes_def by (metis proc_state.distinct(11))

lemma quiet_only: "quiet s s' \<Longrightarrow> only_wakes s s'"
  by (simp add: quiet_def same_states_def only_wakes_def)

lemma wakeup_only: "wakeup_proc p s = Some s' \<Longrightarrow> only_wakes s s'"
  using wakeup_proc_procs(7,8,11,12) unfolding only_wakes_def by metis

lemma wakeup_kinv:
  assumes k: "kinv g s" and "wakeup_proc p s = Some s'" and p: "p \<in> set (ps g)"
  shows "\<exists>qs. kinv (g\<lparr>rq := qs, off := off g - {p}\<rparr>) s'"
proof (cases "pstate (procs s p) = PROC_RUNNABLE")
  case True
  then have "s' = s" using assms(2) by (simp add: wakeup_proc_def split: if_splits)
  moreover have "rings (g\<lparr>rq := rq g, off := off g - {p}\<rparr>) s" "queued (g\<lparr>rq := rq g, off := off g - {p}\<rparr>) s"
    using k by (simp_all add: kinv_def rings_def queued_def everyone_def)
  then have "kinv (g\<lparr>rq := rq g, off := off g - {p}\<rparr>) s"
    by (intro kinv_states [OF k]) (use k True in \<open>auto simp: kinv_def sleepers_def\<close>)
  ultimately show ?thesis by blast
next
  case False
  note live = wakeup_proc_procs(12) [OF assms(2)]
  define s1 where "s1 = upd_proc p (\<lambda>d. d\<lparr>pstate := PROC_RUNNABLE, wait_state := 0\<rparr>) s"
  have f: "idleproc s = Some (idle g)" "p \<noteq> idle g" "rings g s" "queued g s"
    using k p by (auto simp: kinv_def tree_def)
  have s': "(if Some p \<noteq> current s1 then RR_enqueue p s1 else Some s1) = Some s'"
    using assms(2) False f(1,2) by (auto simp: wakeup_proc_def sched_class_enqueue_def s1_def Let_def split: if_splits)
  have kin: "same_kin s s1" by (simp add: same_kin_def s1_def)
  have r1: "rings g s1" using f(3) by (simp add: s1_def rings_def rq_inv_upd_proc proc_ring_def hashed_def)
  have st: "same_kin s s' \<and> same_states s1 s'"
    using s' kin RR_enqueue_same [of p s1 s'] same_kin_trans by (auto simp: same_states_def split: if_splits)
  have states: "pstate (procs s' q) = (if q = p then PROC_RUNNABLE else pstate (procs s q))"
    "q \<noteq> p \<Longrightarrow> wait_state (procs s' q) = wait_state (procs s q)" "current s' = current s"
    "timer_proc (timers s' t) = timer_proc (timers s t)" for q t
    using st by (auto simp: same_states_def s1_def)
  have out: "p \<notin> set (rq g)" using f(4) False by (simp add: queued_def)
  define qs where "qs = (if current s = Some p then rq g else rq g @ [p])"
  have "rings (g\<lparr>rq := qs\<rparr>) s'"
  proof (cases "current s = Some p")
    case True
    then show ?thesis using s' r1 by (simp add: s1_def qs_def)
  next
    case False
    then show ?thesis using s' enqueue_rings [OF r1 _ out rq_short(1) [OF k]] by (simp add: s1_def qs_def)
  qed
  then have "rings (g\<lparr>rq := qs, off := off g - {p}\<rparr>) s'" by (simp add: rings_def)
  moreover have "queued (g\<lparr>rq := qs, off := off g - {p}\<rparr>) s'"
    using f(4) p False by (auto simp: queued_def everyone_def states qs_def)
  ultimately have "kinv (g\<lparr>rq := qs, off := off g - {p}\<rparr>) s'"
    by (intro kinv_states [OF k]) (use st states live k f(2) in \<open>auto simp: kinv_def sleepers_def split: if_splits\<close>)
  then show ?thesis by blast
qed

text \<open>What \<open>proc_run\<close>, whose body is an exercise, has to do to the state modelled here.\<close>

definition switches :: "(nat \<Rightarrow> kst \<Rightarrow> kst option) \<Rightarrow> bool" where
  "switches run \<longleftrightarrow> (\<forall>n s. run n s = Some (s\<lparr>current := Some n\<rparr>))"

lemma requeue_kinv:
  assumes k: "kinv g s" and "requeue_current c s = Some s'" and "current s = Some c"
  shows "\<exists>qs. rings (g\<lparr>rq := qs\<rparr>) s' \<and> set qs = {p \<in> set (ps g). pstate (procs s p) = PROC_RUNNABLE} \<and>
    same_kin s s' \<and> same_states s s'"
proof -
  define s0 where "s0 = upd_proc c (\<lambda>d. d\<lparr>need_resched := False\<rparr>) s"
  have q: "quiet s s0" by (simp add: s0_def)
  have r0: "rings g s0" using quiet_kinv [OF k q] by (simp add: kinv_def)
  have f: "idleproc s0 = Some (idle g)" "current s0 = Some c" "c \<in> everyone g" "queued g s" "idle g \<notin> set (ps g)"
    "\<And>p. pstate (procs s0 p) = pstate (procs s p)"
    using k assms(3) by (auto simp: kinv_def tree_def queued_def s0_def)
  show ?thesis
  proof (cases "pstate (procs s c) = PROC_RUNNABLE \<and> c \<noteq> idle g")
    case True
    then have e: "RR_enqueue c s0 = Some s'"
      using assms(2) f(1,6) by (simp add: requeue_current_def s0_def [symmetric] sched_class_enqueue_def)
    have "c \<notin> set (rq g)" using f(4) assms(3) by (simp add: queued_def)
    from enqueue_rings [OF r0 e this rq_short(1) [OF k]] RR_enqueue_same [OF e] q True f(3,4)
    show ?thesis
      by (intro exI [of _ "rq g @ [c]"])
        (auto simp: quiet_def same_kin_def same_states_def queued_def everyone_def assms(3))
  next
    case False
    then have "s' = s0"
      using assms(2) f(1,6) by (auto simp: requeue_current_def s0_def [symmetric] sched_class_enqueue_def split: if_splits)
    moreover have "set (rq g) = {p \<in> set (ps g). pstate (procs s p) = PROC_RUNNABLE}"
      using False f(4,5) assms(3) by (auto simp: queued_def)
    ultimately show ?thesis using r0 q by (intro exI [of _ "rq g"]) (auto simp: quiet_def)
  qed
qed

lemma take_next_rings:
  assumes "rings (g\<lparr>rq := qs\<rparr>) s" and "take_next s = Some (n, s')" and "idleproc s = Some (idle g)"
  shows "rings (g\<lparr>rq := tl qs\<rparr>) s' \<and> n = (if qs = [] then idle g else hd qs) \<and> same_kin s s' \<and> same_states s s'"
proof (cases qs)
  case Nil
  then have "RR_pick_next s = Some None" using rr.pick_law [of s "[]"] assms(1) by (simp add: rings_def)
  then have "n = idle g" "s' = upd_proc n (\<lambda>d. d\<lparr>runs := runs d + 1\<rparr>) s"
    using assms(2,3) by (auto simp: take_next_def sched_class_pick_next_def)
  then show ?thesis using assms(1) Nil
    by (auto simp: rings_def rq_inv_upd_proc proc_ring_def hashed_def same_kin_def same_states_def)
next
  case (Cons m ms)
  then have "RR_pick_next s = Some (Some m)" using rr.pick_law [of s qs] assms(1) by (simp add: rings_def)
  then obtain s1 where s1: "RR_dequeue m s = Some s1" "n = m" "s' = upd_proc m (\<lambda>d. d\<lparr>runs := runs d + 1\<rparr>) s1"
    using assms(2) by (auto simp: take_next_def sched_class_pick_next_def sched_class_dequeue_def bind_eq_Some_conv)
  have "rings (g\<lparr>rq := ms\<rparr>) s1" using dequeue_rings [OF assms(1) s1(1)] Cons by simp
  then have "rings (g\<lparr>rq := ms\<rparr>) s'"
    by (simp add: s1(3) rings_def rq_inv_upd_proc proc_ring_def hashed_def)
  then show ?thesis using RR_dequeue_same [OF s1(1)] s1(2,3) Cons
    by (auto simp: same_kin_def same_states_def)
qed

lemma schedule_kinv:
  assumes k: "kinv g s" and run: "switches run" and "schedule run s = Some s'"
  shows "\<exists>qs. kinv (g\<lparr>rq := qs\<rparr>) s'"
    and "\<exists>n. current s' = Some n \<and> (n = idle g \<or> n \<in> set (ps g) \<and> pstate (procs s' n) = PROC_RUNNABLE)"
    and "pstate (procs s' p) = pstate (procs s p)"
proof -
  obtain c where c: "current s = Some c" using k by (auto simp: kinv_def queued_def)
  obtain n s1 s2 where s: "requeue_current c s = Some s1" "take_next s1 = Some (n, s2)"
    "(if Some n \<noteq> current s2 then run n s2 else Some s2) = Some s'"
    using assms(3) c by (auto simp: schedule_def schedule_next_def bind_eq_Some_conv)
  from requeue_kinv [OF k s(1) c] obtain qs where q: "rings (g\<lparr>rq := qs\<rparr>) s1"
    "set qs = {p \<in> set (ps g). pstate (procs s p) = PROC_RUNNABLE}" "same_kin s s1" "same_states s s1" by blast
  have i: "idleproc s1 = Some (idle g)" using q(3) k by (auto simp: same_kin_def kinv_def tree_def)
  note t = take_next_rings [OF q(1) s(2) i]
  have s': "s' = s2\<lparr>current := Some n\<rparr>" using s(3) run by (cases s2) (auto simp: switches_def split: if_splits)
  have n: "n = idle g \<or> n \<in> set qs" using t by (cases qs) auto
  have "distinct qs" using q(1) rr.holds_distinct by (auto simp: rings_def)
  then have tl: "set (tl qs) = set qs - {n}" using t k by (cases qs) (auto simp: kinv_def tree_def)
  have st: "pstate (procs s' p) = pstate (procs s p)" "wait_state (procs s' p) = wait_state (procs s p)"
    "timer_proc (timers s' u) = timer_proc (timers s u)" for p u
    using q(4) t by (auto simp: s' same_states_def)
  have sl: "sleepers g s" using k by (simp add: kinv_def)
  have "same_kin s s2" using same_kin_trans [OF q(3)] t by blast
  then have kin: "same_kin s s'" by (simp add: s' same_kin_def)
  have "rings (g\<lparr>rq := tl qs\<rparr>) s'" using t by (auto simp: s' rings_def rq_inv_def proc_ring_def hashed_def)
  moreover have "queued (g\<lparr>rq := tl qs\<rparr>) s'"
  proof -
    have "n \<in> everyone g" "int (length (ps g)) \<le> MAX_PROCESS"
      using n q(2) k by (auto simp: everyone_def kinv_def queued_def)
    then show ?thesis using tl unfolding queued_def q(2) st by (auto simp: everyone_def s')
  qed
  ultimately have "kinv (g\<lparr>rq := tl qs, off := off g\<rparr>) s'"
    by (intro kinv_states [OF k]) (use kin sl in \<open>simp_all add: st sleepers_def\<close>)
  then show "\<exists>qs. kinv (g\<lparr>rq := qs\<rparr>) s'" by (intro exI [of _ "tl qs"]) simp
  show "\<exists>n. current s' = Some n \<and> (n = idle g \<or> n \<in> set (ps g) \<and> pstate (procs s' n) = PROC_RUNNABLE)"
    using n q(2) st by (auto simp: s')
  show "pstate (procs s' p) = pstate (procs s p)" by (rule st(1))
qed

subsection \<open>Exit\<close>

lemma tree_child:
  assumes "tree g s" and "p \<in> everyone g" and "x \<in> set (ch g p)"
  shows "parent (procs s x) = Some p" and "x \<in> set (ps g)" and "x \<noteq> p"
  using assms by (auto simp: tree_def brood_def)

lemma tree_brood:
  "tree g s \<Longrightarrow> p \<in> everyone g \<Longrightarrow> \<exists>y. brood s y p (ch g p) \<and> (dying g \<noteq> Some p \<longrightarrow> y = None)"
  by (simp add: tree_def)

text \<open>The family links that one round of the loop writes.\<close>

definition moved :: "nat \<Rightarrow> nat \<Rightarrow> nat \<Rightarrow> kst \<Rightarrow> kst" where
  "moved c i p s =
     (let d = cptr (procs s i);
          s = set_optr p d (set_yptr p None (set_cptr c (optr (procs s p)) s));
          s = (case d of None \<Rightarrow> s | Some q \<Rightarrow> set_yptr q (Some p) s)
      in set_cptr i (Some p) (set_parent p (Some i) s))"

lemmas setters = set_optr_def set_yptr_def set_cptr_def set_parent_def

lemma reparent_one_moved:
  assumes "c \<noteq> i"
  shows "reparent_one c i p s =
    (let s = moved c i p s in if pstate (procs s p) = PROC_ZOMBIE \<and> wait_state (procs s i) = WT_CHILD
     then wakeup_proc i s else Some s)"
proof -
  have "cptr (procs (set_yptr p None (set_cptr c (optr (procs s p)) s)) i) = cptr (procs s i)"
    using assms by (simp add: setters)
  moreover have "cptr (procs (set_optr p v (set_yptr p None (set_cptr c (optr (procs s p)) s))) i) = cptr (procs s i)" for v
    using assms by (simp add: setters)
  ultimately show ?thesis by (cases "cptr (procs s i)") (simp_all add: reparent_one_def moved_def Let_def)
qed

lemma moved_rest:
  "pstate (procs (moved c i p s) q) = pstate (procs s q)" "wait_state (procs (moved c i p s) q) = wait_state (procs s q)"
  "pid (procs (moved c i p s) q) = pid (procs s q)" "kstack (procs (moved c i p s) q) = kstack (procs s q)"
  "on_rq (procs (moved c i p s) q) = on_rq (procs s q)" "exit_code (procs (moved c i p s) q) = exit_code (procs s q)"
  "klinks (moved c i p s) = klinks s" "current (moved c i p s) = current s" "idleproc (moved c i p s) = idleproc s"
  "initproc (moved c i p s) = initproc s" "nr_process (moved c i p s) = nr_process s"
  "last_pid (moved c i p s) = last_pid s" "next_safe (moved c i p s) = next_safe s" "timers (moved c i p s) = timers s" "proc_num (moved c i p s) = proc_num s"
  by (cases "cptr (procs s i)"; simp add: moved_def setters)+

lemma moved_links:
  assumes "c \<noteq> i" and "p \<noteq> i" and "p \<noteq> c" and "cptr (procs s i) \<noteq> Some p"
  shows "cptr (procs (moved c i p s) q) = (if q = i then Some p else if q = c then optr (procs s p) else cptr (procs s q))"
    and "yptr (procs (moved c i p s) q) =
      (if q = p then None else if cptr (procs s i) = Some q then Some p else yptr (procs s q))"
    and "optr (procs (moved c i p s) q) = (if q = p then cptr (procs s i) else optr (procs s q))"
    and "parent (procs (moved c i p s) q) = (if q = p then Some i else parent (procs s q))"
  using assms by (cases "cptr (procs s i)"; auto simp: moved_def setters)+

lemma sibs_new_first:
  assumes "sibs s y ds None" and "distinct ds"
    and "\<And>d. d \<in> set ds \<Longrightarrow> optr (procs s' d) = optr (procs s d)"
    and "\<And>d. d \<in> set ds \<Longrightarrow> yptr (procs s' d) = (if first ds None = Some d then y' else yptr (procs s d))"
  shows "sibs s' y' ds None"
proof (cases ds)
  case (Cons d es)
  have "sibs s' (Some d) es None \<longleftrightarrow> sibs s (Some d) es None"
    by (rule sibs_cong) (use assms(2-4) Cons in auto)
  then show ?thesis using assms Cons by simp
qed simp

lemma moved_tree:
  assumes t: "tree g s" and c: "dying g = Some c" "ch g c = p # cs" "c \<in> set (ps g)" "c \<noteq> ini g"
  shows "tree (g\<lparr>ch := (ch g)(c := cs, ini g := p # ch g (ini g))\<rparr>) (moved c (ini g) p s)" (is "tree ?g ?s")
proof -
  let ?i = "ini g"
  let ?ds = "ch g ?i"
  have e: "c \<in> everyone g" "?i \<in> everyone g" using t c(3) by (auto simp: everyone_def tree_def)
  have b: "brood s None ?i ?ds" using t e(2) c(1,4) by (auto simp: tree_def)
  obtain y where y: "brood s y c (p # cs)" using tree_brood [OF t e(1)] c(2) by auto
  have p: "parent (procs s p) = Some c" "p \<in> set (ps g)" "p \<noteq> c" using tree_child [OF t e(1), of p] c(2) by auto
  have away: "parent (procs s x) = Some q" if "q \<in> everyone g" "x \<in> set (ch g q)" for q x
    by (rule tree_child(1) [OF t that])
  have pds: "p \<notin> set ?ds" using away [OF e(2), of p] p(1) c(4) by auto
  have f: "cptr (procs s ?i) = first ?ds None" using b by (simp add: brood_def)
  have ne: "cptr (procs s ?i) \<noteq> Some p" using f pds by (cases ?ds) auto
  have opt: "optr (procs s p) = first cs None" using y by (simp add: brood_def)
  have "parent (procs s ?i) = Some (idle g)" "idle g \<noteq> c"
    using t c(3) away [of "idle g" ?i] by (auto simp: tree_def everyone_def)
  then have pi: "p \<noteq> ?i" using p(1) by auto
  note l = moved_links [OF c(4) pi p(3) ne]
  have fst: "first ?ds None = Some d \<Longrightarrow> d \<in> set ?ds" for d by (cases ?ds) auto
  have "brood ?s None ?i (p # ?ds)"
  proof -
    have "sibs ?s (Some p) ?ds None"
      by (rule sibs_new_first [of s None]) (use b pds f in \<open>auto simp: brood_def l\<close>)
    then show ?thesis using b pds f pi by (auto simp: brood_def l)
  qed
  moreover have "brood ?s (Some p) c cs"
  proof -
    have d: "d \<notin> set ?ds" "d \<noteq> p" if "d \<in> set cs" for d
      using away [OF e(1), of d] away [OF e(2), of d] that c y by (auto simp: brood_def)
    have "sibs ?s (Some p) cs None \<longleftrightarrow> sibs s (Some p) cs None"
      by (rule sibs_cong) (use d f fst in \<open>auto simp: l\<close>)
    then show ?thesis using y opt c(4) d by (auto simp: brood_def l)
  qed
  moreover have "brood ?s y q (ch g q) \<longleftrightarrow> brood s y q (ch g q)" if q: "q \<in> everyone g" "q \<noteq> c" "q \<noteq> ?i" for q y
  proof (rule brood_cong)
    fix d assume "d \<in> set (ch g q)"
    then have "parent (procs s d) = Some q" using away q(1) by blast
    then have "d \<noteq> p" "first ?ds None \<noteq> Some d" using p(1) q fst away [OF e(2), of d] by auto
    then show "yptr (procs ?s d) = yptr (procs s d) \<and> optr (procs ?s d) = optr (procs s d) \<and> parent (procs ?s d) = parent (procs s d)"
      by (simp add: l f)
  qed (use q in \<open>simp add: l\<close>)
  ultimately have broods: "\<exists>y. brood ?s y q (ch ?g q) \<and> (dying g \<noteq> Some q \<longrightarrow> y = None)" if "q \<in> everyone g" for q
    using tree_brood [OF t that] that c(1,4) by (cases "q = c"; cases "q = ?i") auto
  have sub: "set (ch ?g q) \<subseteq> set (ps g)" if "q \<in> everyone g" for q
  proof -
    have "set (ch g q) \<subseteq> set (ps g)" "set (ch g c) \<subseteq> set (ps g)" "set (ch g ?i) \<subseteq> set (ps g)"
      using t that e by (auto simp: tree_def)
    then show ?thesis using c(2) p(2) by auto
  qed
  have cover: "\<exists>q \<in> everyone g. x \<in> set (ch ?g q)" if x: "x \<in> set (ps g)" for x
  proof -
    obtain q where "q \<in> everyone g" "x \<in> set (ch g q)" using t x unfolding tree_def by blast
    then show ?thesis using e c(2,4) by (cases "q = c"; cases "x = p"; cases "q = ?i") auto
  qed
  have "everyone ?g = everyone g" by (simp add: everyone_def)
  moreover have "idle g \<noteq> ?i" using t by (auto simp: tree_def)
  ultimately show ?thesis
    using t c(1) broods sub cover \<open>idle g \<noteq> c\<close> unfolding tree_def by (simp add: moved_rest)
qed

text \<open>A process that is not about to be woken need not be left out.\<close>

lemma off_kinv:
  assumes k: "kinv g s" and "p \<in> set (ps g) \<Longrightarrow> pstate (procs s p) = PROC_SLEEPING \<Longrightarrow> still_waits g s p"
    and "p \<in> set (ps g) \<Longrightarrow> pstate (procs s p) \<noteq> PROC_UNINIT"
  shows "kinv (g\<lparr>off := off g - {p}\<rparr>) s"
proof -
  have "still_waits (g\<lparr>off := X\<rparr>) s q \<longleftrightarrow> still_waits g s q" for X q by (rule still_waits_ghost) simp_all
  moreover have "tree (g\<lparr>off := X\<rparr>) s" for X by (rule tree_kept [of g s]) (use k in \<open>auto simp: kinv_def\<close>)
  ultimately show ?thesis
    using assms by (auto simp: kinv_def rings_def pid_map_inv_def queued_def sleepers_def timed_def everyone_def)
qed

lemma moved_kinv:
  assumes k: "kinv g s" and c: "dying g = Some c" "ch g c = p # cs" "c \<in> set (ps g)" "c \<noteq> ini g"
    and z: "pstate (procs s c) = PROC_ZOMBIE"
  shows "kinv (g\<lparr>ch := (ch g)(c := cs, ini g := p # ch g (ini g)), off := insert (ini g) (off g)\<rparr>) (moved c (ini g) p s)"
    (is "kinv ?g ?s")
proof -
  have t: "tree g s" using k by (simp add: kinv_def)
  have "tree ?g ?s"
    by (rule tree_kept [OF moved_tree [OF t c]]) (simp_all add: everyone_def)
  moreover have "still_waits ?g ?s q" if "q \<in> set (ps g)" "pstate (procs s q) = PROC_SLEEPING" "q \<notin> insert (ini g) (off g)" for q
  proof (rule still_waits_kept)
    show "still_waits g s q" using k that by (auto simp: kinv_def sleepers_def)
  qed (use that z in \<open>auto simp: moved_rest\<close>)
  then have "sleepers ?g ?s" using k by (simp add: kinv_def sleepers_def moved_rest)
  moreover have "rings ?g ?s"
    using k by (simp add: kinv_def rings_def rq_inv_def proc_ring_def hashed_def moved_rest)
  ultimately show ?thesis
    using k by (auto simp: kinv_def pid_map_inv_def unused_def queued_def timed_def everyone_def moved_rest)
qed

lemma reparent_one_kinv:
  assumes k: "kinv g s" and c: "dying g = Some c" "ch g c = p # cs" "c \<in> set (ps g)" "c \<noteq> ini g"
    and z: "pstate (procs s c) = PROC_ZOMBIE" and o: "off g = {}"
    and step: "reparent_one c (ini g) p s = Some s'"
  shows "\<exists>qs. kinv (g\<lparr>rq := qs, ch := (ch g)(c := cs, ini g := p # ch g (ini g))\<rparr>) s' \<and> only_wakes s s'"
proof -
  let ?g = "g\<lparr>ch := (ch g)(c := cs, ini g := p # ch g (ini g)), off := insert (ini g) (off g)\<rparr>"
  let ?s = "moved c (ini g) p s"
  have m: "kinv ?g ?s" by (rule moved_kinv [OF k c z])
  have i: "ini g \<in> set (ps g)" using k by (auto simp: kinv_def tree_def)
  show ?thesis
  proof (cases "pstate (procs s p) = PROC_ZOMBIE \<and> wait_state (procs s (ini g)) = WT_CHILD")
    case True
    then have w: "wakeup_proc (ini g) ?s = Some s'"
      using step c(4) by (simp add: reparent_one_moved moved_rest Let_def)
    from wakeup_kinv [OF m w] i obtain qs where "kinv (?g\<lparr>rq := qs, off := off ?g - {ini g}\<rparr>) s'" by auto
    moreover have "?g\<lparr>rq := qs, off := off ?g - {ini g}\<rparr> = g\<lparr>rq := qs, ch := (ch g)(c := cs, ini g := p # ch g (ini g))\<rparr>"
      using o by (cases g) simp
    ultimately show ?thesis using wakeup_only [OF w] by (intro exI [of _ qs]) (simp add: moved_rest only_wakes_def)
  next
    case False
    then have s': "s' = ?s" using step c(4) by (auto simp: reparent_one_moved moved_rest Let_def split: if_splits)
    have "kinv (?g\<lparr>off := off ?g - {ini g}\<rparr>) ?s"
    proof (rule off_kinv [OF m])
      assume sl: "pstate (procs ?s (ini g)) = PROC_SLEEPING"
      then have "still_waits g s (ini g)" using k i o by (simp add: kinv_def sleepers_def moved_rest)
      then show "still_waits ?g ?s (ini g)"
        using False c(4) by (auto simp: still_waits_def moved_rest split: option.splits cont.splits)
    qed (use k i o in \<open>simp add: kinv_def sleepers_def moved_rest\<close>)
    moreover have "?g\<lparr>off := off ?g - {ini g}\<rparr> = g\<lparr>rq := rq g, ch := (ch g)(c := cs, ini g := p # ch g (ini g))\<rparr>"
      using o by (cases g) simp
    ultimately show ?thesis using s' by (intro exI [of _ "rq g"]) (simp add: moved_rest only_wakes_def)
  qed
qed

lemma reparent_loop_kinv:
  assumes "kinv g s" and "dying g = Some c" and "c \<in> set (ps g)" and "c \<noteq> ini g"
    and "pstate (procs s c) = PROC_ZOMBIE" and "off g = {}" and "reparent_loop c (ini g) s = Some s'"
  shows "\<exists>qs chs. kinv (g\<lparr>rq := qs, ch := chs, dying := None\<rparr>) s' \<and> only_wakes s s'"
  using assms
proof (induction "ch g c" arbitrary: g s)
  case Nil
  then have "cptr (procs s c) = None"
    using tree_brood [of g s c] by (auto simp: kinv_def everyone_def brood_def)
  then have "s' = s" using Nil.prems(7) by (subst (asm) reparent_loop.simps) simp
  moreover have "brood s y c [] \<longleftrightarrow> brood s None c []" for y by (simp add: brood_def)
  then have "tree (g\<lparr>rq := rq g, ch := ch g, dying := None\<rparr>) s"
    using Nil by (auto simp: kinv_def tree_def everyone_def) 
  then have "kinv (g\<lparr>rq := rq g, ch := ch g, dying := None\<rparr>) s"
    using Nil.prems(1) still_waits_ghost [of "g\<lparr>rq := rq g, ch := ch g, dying := None\<rparr>" _ g]
    by (simp add: kinv_def rings_def pid_map_inv_def queued_def sleepers_def timed_def everyone_def)
  ultimately show ?case using only_wakes_refl by metis
next
  case (Cons p cs)
  have "c \<in> everyone g" using Cons.prems by (simp add: everyone_def)
  then have "cptr (procs s c) = Some p"
    using tree_brood [of g s c] Cons.prems(1) Cons(2) [symmetric] by (auto simp: kinv_def brood_def)
  then obtain s1 where s1: "reparent_one c (ini g) p s = Some s1" "reparent_loop c (ini g) s1 = Some s'"
    using Cons.prems(7) by (subst (asm) reparent_loop.simps) (auto simp: bind_eq_Some_conv)
  from reparent_one_kinv [OF Cons.prems(1,2) Cons(2) [symmetric] Cons.prems(3-6) s1(1)] obtain qs where
    q: "kinv (g\<lparr>rq := qs, ch := (ch g)(c := cs, ini g := p # ch g (ini g))\<rparr>) s1" "only_wakes s s1" by blast
  have "\<exists>qs' chs. kinv ((g\<lparr>rq := qs, ch := (ch g)(c := cs, ini g := p # ch g (ini g))\<rparr>)\<lparr>rq := qs', ch := chs, dying := None\<rparr>) s' \<and>
      only_wakes s1 s'"
    by (rule Cons.hyps(1) [OF _ q(1)]) (use Cons.prems s1(2) only_wakes_zombie [OF q(2)] in auto)
  then show ?case using only_wakes_trans [OF q(2)] by auto
qed

lemma mark_kinv:
  assumes k: "kinv g s" and c: "current s = Some c" "c \<in> set (ps g)" "c \<noteq> ini g" "dying g = None" "off g = {}"
    and p: "parent (procs s c) = Some p" and w: "\<And>t. wt g c \<noteq> Some (Sleeping t)"
  shows "kinv (g\<lparr>dying := Some c, off := {p}\<rparr>) (upd_proc c (\<lambda>d. d\<lparr>pstate := PROC_ZOMBIE, exit_code := code\<rparr>) s)"
    (is "kinv ?g ?s")
proof -
  have t: "tree g s" "idle g \<noteq> c" using k c(2) by (auto simp: kinv_def tree_def)
  have e: "everyone ?g = everyone g" by (simp add: everyone_def)
  have b: "brood ?s y q cs \<longleftrightarrow> brood s y q cs" for y q cs by (rule brood_cong) simp_all
  have "\<exists>y. brood ?s y q (ch g q) \<and> (dying ?g \<noteq> Some q \<longrightarrow> y = None)" if "q \<in> everyone g" for q
    using tree_brood [OF t(1) that] c(4) unfolding b by auto
  moreover have "ch g q = []" if "q \<in> set (ps g)" "pstate (procs ?s q) = PROC_ZOMBIE" "q \<noteq> c" for q
    using t(1) that c(4) by (simp add: tree_def)
  ultimately have "tree ?g ?s" using t c(3,4) unfolding tree_def e by (simp add: everyone_def)
  moreover have "still_waits ?g ?s q" if "q \<in> set (ps g)" "q \<noteq> c" "q \<noteq> p" "pstate (procs s q) = PROC_SLEEPING" for q
  proof (rule still_waits_kept)
    show "still_waits g s q" using k c(5) that by (simp add: kinv_def sleepers_def)
    fix x assume "x \<in> set (ch g q)"
    then have "x \<noteq> c" using tree_child(1) [OF t(1), of q x] that(1,3) p by (auto simp: everyone_def)
    then show "pid (procs ?s x) = pid (procs s x) \<and> (pstate (procs ?s x) = PROC_ZOMBIE \<longrightarrow> pstate (procs s x) = PROC_ZOMBIE)"
      by simp
  qed (use that in simp_all)
  then have "sleepers ?g ?s" using k c(5) by (simp add: kinv_def sleepers_def)
  moreover have "timed ?g ?s" using k w unfolding kinv_def timed_def by fastforce
  moreover have "pid_map_inv ?g ?s"
    by (rule pid_map_kept [of g s]) (use k in \<open>simp_all add: kinv_def same_kin_def\<close>)
  moreover have "rings ?g ?s" "queued ?g ?s"
    using k c(1) by (auto simp: kinv_def rings_def rq_inv_upd_proc proc_ring_def hashed_def queued_def everyone_def)
  ultimately show ?thesis by (simp add: kinv_def)
qed

lemma exit_kinv:
  assumes k: "kinv g s" and c: "current s = Some c" "c \<in> set (ps g)" "c \<noteq> ini g" "dying g = None" "off g = {}"
    and w: "\<And>t. wt g c \<noteq> Some (Sleeping t)" and step: "exit_family code s = Some s'"
  shows "\<exists>qs chs. kinv (g\<lparr>rq := qs, ch := chs\<rparr>) s' \<and>
    only_wakes (upd_proc c (\<lambda>d. d\<lparr>pstate := PROC_ZOMBIE, exit_code := code\<rparr>) s) s'"
proof -
  define s1 where "s1 = upd_proc c (\<lambda>d. d\<lparr>pstate := PROC_ZOMBIE, exit_code := code\<rparr>) s"
  obtain p where p: "parent (procs s c) = Some p"
    using step c(1) by (auto simp: exit_family_def Let_def bind_eq_Some_conv)
  have eq: "exit_family code s = do {
      s \<leftarrow> (if wait_state (procs s1 p) = WT_CHILD then wakeup_proc p s1 else Some s1);
      (case cptr (procs s c) of None \<Rightarrow> Some s | Some _ \<Rightarrow> do { i \<leftarrow> initproc s; reparent_loop c i s }) }"
    using c(1) p by (simp add: exit_family_def s1_def Let_def)
  then obtain s2 where s2: "(if wait_state (procs s1 p) = WT_CHILD then wakeup_proc p s1 else Some s1) = Some s2"
    and rest: "(case cptr (procs s2 c) of None \<Rightarrow> Some s2 | Some _ \<Rightarrow> do { i \<leftarrow> initproc s2; reparent_loop c i s2 }) = Some s'"
    using step unfolding eq bind_eq_Some_conv by blast
  let ?g = "g\<lparr>dying := Some c, off := {p}\<rparr>"
  have m: "kinv ?g s1" unfolding s1_def by (rule mark_kinv [OF k c p w])
  have t: "tree g s" using k by (simp add: kinv_def)
  have "c \<noteq> p" "p \<in> everyone g"
  proof -
    obtain q where q: "q \<in> everyone g" "c \<in> set (ch g q)" using t c(2) by (auto simp: tree_def)
    with tree_child [OF t q] p show "c \<noteq> p" "p \<in> everyone g" by auto
  qed
  have z: "pstate (procs s1 c) = PROC_ZOMBIE" "current s1 = Some c" using c(1) by (simp_all add: s1_def)
  have "\<exists>qs. kinv (g\<lparr>rq := qs, dying := Some c\<rparr>) s2 \<and> only_wakes s1 s2"
  proof (cases "wait_state (procs s1 p) = WT_CHILD \<and> p \<in> set (ps g)")
    case True
    then have wk: "wakeup_proc p s1 = Some s2" using s2 by simp
    from wakeup_kinv [OF m wk] True obtain qs where "kinv (?g\<lparr>rq := qs, off := off ?g - {p}\<rparr>) s2" by auto
    moreover have "?g\<lparr>rq := qs, off := off ?g - {p}\<rparr> = g\<lparr>rq := qs, dying := Some c\<rparr>" using c(5) by (cases g) simp
    ultimately show ?thesis using wakeup_only [OF wk] by auto
  next
    case False
    have s21: "s2 = s1"
    proof (cases "wait_state (procs s1 p) = WT_CHILD")
      case True
      then have "p = idle g" using False \<open>p \<in> everyone g\<close> by (auto simp: everyone_def)
      then have "pstate (procs s1 p) = PROC_RUNNABLE" using m by (simp add: kinv_def tree_def)
      then show ?thesis using s2 True by (simp add: wakeup_proc_def split: if_splits)
    qed (use s2 in simp)
    have "kinv (?g\<lparr>off := off ?g - {p}\<rparr>) s1"
    proof (rule off_kinv [OF m])
      assume a: "p \<in> set (ps ?g)" "pstate (procs s1 p) = PROC_SLEEPING"
      then have "still_waits g s p" using k c(5) \<open>c \<noteq> p\<close> by (simp add: kinv_def sleepers_def s1_def)
      then show "still_waits ?g s1 p"
        using False a(1) \<open>c \<noteq> p\<close> by (auto simp: still_waits_def s1_def split: option.splits cont.splits)
    qed (use k c(5) \<open>c \<noteq> p\<close> in \<open>simp add: kinv_def sleepers_def s1_def\<close>)
    moreover have "?g\<lparr>off := off ?g - {p}\<rparr> = g\<lparr>rq := rq g, dying := Some c\<rparr>" using c(5) by (cases g) simp
    ultimately show ?thesis using s21 by (intro exI [of _ "rq g"]) simp
  qed
  then obtain qs where k2: "kinv (g\<lparr>rq := qs, dying := Some c\<rparr>) s2" (is "kinv ?g2 s2")
    and z2: "only_wakes s1 s2" by blast
  have "initproc s2 = Some (ini g)" using k2 by (simp add: kinv_def tree_def)
  then have "reparent_loop c (ini ?g2) s2 = Some s'"
    using rest by (subst reparent_loop.simps) (subst (asm) reparent_loop.simps, auto split: option.splits)
  from reparent_loop_kinv [OF k2 _ _ _ _ _ this] c only_wakes_zombie [OF z2, of c] z(1) obtain qs' chs where
    "kinv (?g2\<lparr>rq := qs', ch := chs, dying := None\<rparr>) s' \<and> only_wakes s2 s'"
    by auto
  moreover have "?g2\<lparr>rq := qs', ch := chs, dying := None\<rparr> = g\<lparr>rq := qs', ch := chs\<rparr>" using c(4) by (cases g) simp
  ultimately show ?thesis using only_wakes_trans [OF z2] unfolding s1_def by auto
qed

subsection \<open>Kill\<close>

lemma find_proc_kinv:
  assumes "kinv g s" and "find_proc i s = Some r"
  shows "case r of Some p \<Rightarrow> p \<in> set (ps g) \<and> pid (procs s p) = i | None \<Rightarrow>
    valid_pid i \<longrightarrow> (\<forall>p \<in> set (ps g). pid (procs s p) \<noteq> i)"
proof -
  have b: "hashed s (bk g)" "(\<Union>j. set (bk g j)) = set (ps g)" using assms(1) by (simp_all add: kinv_def rings_def pid_map_inv_def)
  have r: "r = (if 0 < i \<and> i < MAX_PID then find (\<lambda>p. pid (procs s p) = i) (bk g (pid_hashfn i)) else None)"
    using assms(2) find_proc_bucket [OF b(1)] by simp
  show ?thesis
  proof (cases r)
    case None
    have "pid (procs s p) \<noteq> i" if p: "p \<in> set (ps g)" "valid_pid i" for p
    proof
      assume i: "pid (procs s p) = i"
      obtain j where "p \<in> set (bk g j)" using p(1) unfolding b(2) [symmetric] by blast
      then have "p \<in> set (bk g (pid_hashfn i))" using hashed_bucket [OF b(1)] i by metis
      then show False using None r p(2) i by (auto simp: valid_pid_def find_None_iff)
    qed
    then show ?thesis using None by simp
  next
    case (Some p)
    then have "p \<in> set (bk g (pid_hashfn i))" "pid (procs s p) = i" using r by (auto simp: find_Some_iff split: if_splits)
    then show ?thesis using Some b(2) by auto
  qed
qed

lemma kill_kinv:
  assumes k: "kinv g s" "off g = {}" and step: "do_kill i s = Some (r, s')"
  shows "\<exists>qs. kinv (g\<lparr>rq := qs\<rparr>) s' \<and> only_wakes s s'"
proof -
  obtain f where f: "find_proc i s = Some f" using step by (auto simp: do_kill_def bind_eq_Some_conv)
  show ?thesis
  proof (cases "s' = s")
    case True
    then show ?thesis using k by (intro exI [of _ "rq g"]) simp
  next
    case False
    then obtain p where p: "f = Some p" using step f by (cases f) (auto simp: do_kill_def)
    define s1 where "s1 = upd_proc p (\<lambda>d. d\<lparr>pflags := or (pflags d) PF_EXITING\<rparr>) s"
    have w: "(if and (wait_state (procs s1 p)) WT_INTERRUPTED \<noteq> 0 then wakeup_proc p s1 else Some s1) = Some s'"
      using step f p False by (auto simp: do_kill_def s1_def [symmetric] Let_def bind_eq_Some_conv split: if_splits)
    have q: "quiet s s1" by (simp add: s1_def)
    have k1: "kinv g s1" by (rule quiet_kinv [OF k(1) q])
    have st: "current s1 = current s" "pstate (procs s1 x) = pstate (procs s x)" for x by (simp_all add: s1_def)
    have pin: "p \<in> set (ps g)" using find_proc_kinv [OF k(1) f] p by simp
    show ?thesis
    proof (cases "wakeup_proc p s1 = Some s'")
      case True
      from wakeup_kinv [OF k1 True pin] obtain qs where "kinv (g\<lparr>rq := qs, off := off g - {p}\<rparr>) s'" by blast
      moreover have "g\<lparr>rq := qs, off := off g - {p}\<rparr> = g\<lparr>rq := qs\<rparr>" using k(2) by (cases g) simp
      ultimately show ?thesis using only_wakes_trans [OF quiet_only [OF q] wakeup_only [OF True]] by auto
    next
      case False
      then have "s' = s1" using w by (simp split: if_splits)
      then show ?thesis using k1 quiet_only [OF q] by (intro exI [of _ "rq g"]) simp
    qed
  qed
qed

subsection \<open>Where a process goes on\<close>

text \<open>A process that is not asleep and has no timer may go on elsewhere.\<close>

lemma wt_kinv:
  assumes "kinv g s" and "pstate (procs s c) \<noteq> PROC_SLEEPING" and "\<And>t. t \<in> set (ts g) \<Longrightarrow> wt g c \<noteq> Some (Sleeping t)"
    and "\<And>t. w = Some (Sleeping t) \<Longrightarrow> t = kstack (procs s c)"
  shows "kinv (g\<lparr>wt := (wt g)(c := w)\<rparr>) s"
proof -
  let ?g = "g\<lparr>wt := (wt g)(c := w)\<rparr>"
  have "tree ?g s" by (rule tree_kept [of g s]) (use assms(1) in \<open>auto simp: kinv_def\<close>)
  moreover have "still_waits ?g s p \<longleftrightarrow> still_waits g s p" if "pstate (procs s p) = PROC_SLEEPING" for p
    by (rule still_waits_ghost) (use that assms(2) in auto)
  then have "sleepers ?g s" using assms(1) by (simp add: kinv_def sleepers_def)
  moreover have "timed g s" using assms(1) by (simp add: kinv_def)
  then have "timed ?g s" using assms(3,4) unfolding timed_def by (simp, metis)
  ultimately show ?thesis using assms(1)
    by (simp add: kinv_def rings_def pid_map_inv_def queued_def everyone_def)
qed

end
