(* ===== verification/Proc_Keep.thy ===== *)
theory Proc_Keep
  imports Proc_Inv
begin

text \<open>
  More operations that keep the invariant of the processes (Proc_Inv): \<open>do_wait\<close>, the timers of \<open>do_sleep\<close> and of the
  clock interrupt, and the birth of a process.
\<close>

subsection \<open>Wait\<close>

lemma wait_look_kinv:
  assumes k: "kinv g s" and c: "current s = Some c" "c \<in> set (ps g)" "dying g = None"
    and l: "wait_look i s = Some (h, z)"
  shows "case z of Some q \<Rightarrow> q \<in> set (ch g c) \<and> pstate (procs s q) = PROC_ZOMBIE
    | None \<Rightarrow> h \<longrightarrow> (\<forall>x \<in> set (ch g c). (i = 0 \<or> pid (procs s x) = i) \<longrightarrow> pstate (procs s x) \<noteq> PROC_ZOMBIE)"
proof -
  have t: "tree g s" using k by (simp add: kinv_def)
  have e: "c \<in> everyone g" using c(2) by (simp add: everyone_def)
  have b: "brood s None c (ch g c)" using tree_brood [OF t e] c(3) by auto
  show ?thesis
  proof (cases "i = 0")
    case True
    have "zombie_loop (cptr (procs s c)) False s =
        Some (ch g c \<noteq> [], find (\<lambda>p. pstate (procs s p) = PROC_ZOMBIE) (ch g c))"
      using zombie_loop_chain [of s None "ch g c" False] b by (simp add: brood_def)
    then have "z = find (\<lambda>p. pstate (procs s p) = PROC_ZOMBIE) (ch g c)"
      using l True c(1) by (simp add: wait_look_def)
    then show ?thesis by (auto simp: find_None_iff find_Some_iff split: option.split)
  next
    case False
    obtain r where r: "find_proc i s = Some r" using l False c(1) by (auto simp: wait_look_def bind_eq_Some_conv)
    have hz: "(h, z) = (case r of None \<Rightarrow> (False, None) | Some p \<Rightarrow>
        if parent (procs s p) = Some c then (True, if pstate (procs s p) = PROC_ZOMBIE then Some p else None) else (False, None))"
      using l False c(1) r by (simp add: wait_look_def)
    show ?thesis
    proof (cases r)
      case None
      then show ?thesis using hz by simp
    next
      case (Some p)
      have p: "p \<in> set (ps g)" "pid (procs s p) = i" using find_proc_kinv [OF k r] Some by auto
      have only: "x = p" if "x \<in> set (ch g c)" "pid (procs s x) = i" for x
      proof -
        have "x \<in> set (ps g)" using tree_child(2) [OF t e that(1)] .
        then show ?thesis using k p that(2) by (auto simp: kinv_def pid_map_inv_def inj_on_def)
      qed
      obtain q where q: "q \<in> everyone g" "p \<in> set (ch g q)" using t p(1) by (auto simp: tree_def)
      then have "p \<in> set (ch g c)" if "parent (procs s p) = Some c" using tree_child(1) [OF t q] that by simp
      then show ?thesis using hz Some only False by (auto split: if_splits)
    qed
  qed
qed

lemma wait_sleep_kinv:
  assumes k: "kinv g s" "off g = {}" and c: "current s = Some c" "c \<in> set (ps g)" "dying g = None"
    and w: "\<And>t. t \<in> set (ts g) \<Longrightarrow> wt g c \<noteq> Some (Sleeping t)" and z: "pstate (procs s c) \<noteq> PROC_ZOMBIE"
    and l: "wait_look i s = Some (True, None)"
  shows "kinv (g\<lparr>wt := (wt g)(c := Some (Waiting i st))\<rparr>) (wait_sleep c s)" (is "kinv ?g ?s")
proof -
  have none: "\<forall>x \<in> set (ch g c). (i = 0 \<or> pid (procs s x) = i) \<longrightarrow> pstate (procs s x) \<noteq> PROC_ZOMBIE"
    using wait_look_kinv [OF k(1) c l] by simp
  have t: "tree g s" "idle g \<noteq> c" using k(1) c(2) by (auto simp: kinv_def tree_def)
  have kin: "same_kin s ?s" by (simp add: same_kin_def wait_sleep_def)
  have "tree ?g ?s"
    by (rule tree_kept [OF t(1) kin]) (use t(2) z in \<open>auto simp: wait_sleep_def\<close>)
  moreover have "still_waits ?g ?s c"
    using none z tree_child(3) [OF t(1), of c] c(2) by (auto simp: still_waits_def wait_sleep_def everyone_def)
  moreover have "still_waits ?g ?s p" if "p \<in> set (ps g)" "p \<noteq> c" "pstate (procs s p) = PROC_SLEEPING" for p
    by (rule still_waits_kept [of g s]) (use k that in \<open>auto simp: kinv_def sleepers_def wait_sleep_def\<close>)
  ultimately have "sleepers ?g ?s" using k(1) by (simp add: kinv_def sleepers_def wait_sleep_def)
  moreover have "timed ?g ?s" using k(1) w unfolding kinv_def timed_def wait_sleep_def by fastforce
  moreover have "pid_map_inv ?g ?s" by (rule pid_map_kept [OF _ kin]) (use k(1) in \<open>simp_all add: kinv_def\<close>)
  ultimately show ?thesis using k(1) c(1) \<open>tree ?g ?s\<close>
    by (auto simp: kinv_def rings_def rq_inv_upd_proc proc_ring_def hashed_def queued_def everyone_def wait_sleep_def)
qed

text \<open>What \<open>remove_links\<close> leaves alone.\<close>

lemma remove_links_rest:
  assumes "remove_links p s = Some s'"
  shows "pstate (procs s' r) = pstate (procs s r)" "wait_state (procs s' r) = wait_state (procs s r)"
    "pid (procs s' r) = pid (procs s r)" "kstack (procs s' r) = kstack (procs s r)" "on_rq (procs s' r) = on_rq (procs s r)"
    "parent (procs s' r) = parent (procs s r)" "pflags (procs s' r) = pflags (procs s r)"
    "current s' = current s" "idleproc s' = idleproc s" "initproc s' = initproc s" "timers s' = timers s"
    "proc_num s' = proc_num s" "last_pid s' = last_pid s" "next_safe s' = next_safe s"
    "nr_process s' = nr_process s - 1" "klinks s' = list_del (ListLink p) (klinks s)"
  using assms
  by (auto simp: remove_links_def Let_def setters bind_eq_Some_conv split: option.splits if_splits)

lemma remove_links_others:
  assumes "remove_links p s = Some s'"
  shows "optr (procs s p) \<noteq> Some r \<Longrightarrow> yptr (procs s' r) = yptr (procs s r)"
    and "yptr (procs s p) \<noteq> Some r \<Longrightarrow> optr (procs s' r) = optr (procs s r)"
    and "parent (procs s p) \<noteq> Some r \<Longrightarrow> cptr (procs s' r) = cptr (procs s r)"
  using assms
  by (auto simp: remove_links_def Let_def setters bind_eq_Some_conv split: option.splits if_splits)

lemma sibs_neighbours:
  "sibs s y (us @ p # vs) None \<Longrightarrow> optr (procs s p) = Some r \<Longrightarrow> r \<in> set vs"
  "sibs s None (us @ p # vs) None \<Longrightarrow> yptr (procs s p) = Some r \<Longrightarrow> r \<in> set us"
  by (cases vs; auto simp: sibs_append) (cases us rule: rev_cases; auto simp: sibs_append)

lemma reap_tree:
  assumes t: "tree g s" "dying g = None" and c: "c \<in> set (ps g)" "q \<in> set (ch g c)" "q \<noteq> ini g"
    and z: "pstate (procs s q) = PROC_ZOMBIE" and step: "remove_links q s = Some s'" and d: "distinct (ps g)"
  shows "tree (g\<lparr>ps := remove1 q (ps g), ch := (ch g)(c := remove1 q (ch g c))\<rparr>) s'" (is "tree ?g s'")
proof -
  have e: "c \<in> everyone g" using c(1) by (simp add: everyone_def)
  note away = tree_child [OF t(1)]
  have q: "parent (procs s q) = Some c" "q \<in> set (ps g)" "q \<noteq> c" by (rule away [OF e c(2)])+
  have fam: "family s r (ch g r)" if "r \<in> everyone g" for r
    using tree_brood [OF t(1) that] t(2) unfolding family_brood by auto
  obtain us vs where uv: "ch g c = us @ q # vs" using c(2) by (meson split_list)
  have sib: "sibs s None (us @ q # vs) None" "distinct (us @ q # vs)" using fam [OF e] by (simp_all add: family_def uv)
  then have rem: "remove1 q (ch g c) = us @ vs" by (simp add: uv remove1_append)
  have "family s' c (us @ vs)" using remove_links_family_inv [of s c us q vs] fam [OF e] step by (simp add: uv)
  moreover have "family s' r (ch g r)" if r: "r \<in> everyone g" "r \<noteq> c" for r
  proof -
    have "cptr (procs s' r) = cptr (procs s r)" by (rule remove_links_others(3) [OF step]) (use q(1) r(2) in simp)
    moreover have "yptr (procs s' x) = yptr (procs s x) \<and> optr (procs s' x) = optr (procs s x)" if x: "x \<in> set (ch g r)" for x
    proof -
      have "x \<notin> set (ch g c)" using away(1) [OF r(1) x] away(1) [OF e, of x] r(2) by auto
      then show ?thesis
        using sibs_neighbours [OF sib(1)] by (auto simp: uv intro: remove_links_others [OF step])
    qed
    ultimately show ?thesis using fam [OF r(1)] family_cong [of s' r s "ch g r"] remove_links_rest(6) [OF step] by simp
  qed
  moreover have e': "everyone ?g = everyone g - {q}"
    using d q(2) t(1) by (auto simp: everyone_def tree_def)
  ultimately have broods: "brood s' None r (ch ?g r)" if "r \<in> everyone ?g" for r
    using that by (simp add: family_brood rem)
  have out: "q \<notin> set (ch g r)" if "r \<in> everyone g" "r \<noteq> c" for r using away(1) [OF that(1), of q] q(1) that(2) by auto
  have sub: "set (ch ?g r) \<subseteq> set (ps ?g)" if r: "r \<in> everyone ?g" for r
  proof -
    have "r \<in> everyone g" using r e' by simp
    then have "set (ch g r) \<subseteq> set (ps g)" using t(1) by (simp add: tree_def)
    then show ?thesis using out [of r] \<open>r \<in> everyone g\<close> d sib(2) by (cases "r = c") (auto simp: rem uv)
  qed
  have cover: "\<exists>r \<in> everyone ?g. x \<in> set (ch ?g r)" if x: "x \<in> set (ps ?g)" for x
  proof -
    have x': "x \<in> set (ps g)" "x \<noteq> q" using x d by auto
    then obtain r where r: "r \<in> everyone g" "x \<in> set (ch g r)" using t(1) by (auto simp: tree_def)
    have "ch g q = []" using t z q(2) by (simp add: tree_def)
    then have "r \<noteq> q" using r(2) by auto
    then show ?thesis using r x'(2) sib(2) e' by (intro bexI [of _ r]) (auto simp: in_set_remove1)
  qed
  have "idle g \<noteq> c" "idle g \<noteq> q" using t(1) c(1) q(2) by (auto simp: tree_def)
  then show ?thesis
    using t c(3) broods sub cover d unfolding tree_def e' 
    by (auto simp: remove_links_rest [OF step] in_set_remove1)
qed

lemma timed_owner:
  assumes "timed g s" and "x \<in> set (ts g)"
  obtains p where "p \<in> set (ps g)" "timer_proc (timers s x) = Some p" "wt g p = Some (Sleeping x)"
    "pstate (procs s p) \<noteq> PROC_ZOMBIE"
  using assms by (auto simp: timed_def)

lemma timed_stack: "timed g s \<Longrightarrow> p \<in> set (ps g) \<Longrightarrow> wt g p = Some (Sleeping x) \<Longrightarrow> x = kstack (procs s p)"
  by (simp add: timed_def)

lemma kinv_distinct:
  assumes "kinv g s"
  shows "distinct (ps g)" and "distinct (ts g)"
  using assms by (auto simp: kinv_def rings_def proc_ring_def distinct_map dest: dlist_distinct linked_distinct)

text \<open>Two neighbouring parts of the heap of list nodes are written.\<close>

lemma rings_away:
  assumes "rings g s" and "same_outside N (klinks s) (klinks s')" and "N \<inter> run_nodes = {}" "N \<inter> timer_nodes = {}"
    and "proc_num s' = proc_num s" and "\<And>p. on_rq (procs s' p) = on_rq (procs s p)"
    and "proc_ring s' qs" and "hashed s' B"
  shows "rings (g\<lparr>ps := qs, bk := B\<rparr>) s'"
  using assms run_frame [OF assms(2,3,5)] timer_frame [OF assms(2,4)] by (simp add: rings_def)

lemma reap_rings:
  assumes r: "rings g s" and q: "q \<in> set (ps g)" "bk g i = us @ q # vs" and step: "remove_links q (unhash_proc q s) = Some s'"
  shows "rings (g\<lparr>ps := remove1 q (ps g), bk := (bk g)(i := us @ vs)\<rparr>) s'"
proof (rule rings_away [OF r])
  let ?u = "unhash_proc q s"
  have h: "hashed s (bk g)" "proc_ring s (ps g)" using r by (simp_all add: rings_def)
  have B: "dlist (klinks s) (HashHead i) (map HashLink (bk g i))" using h(1) by (simp add: hashed_def)
  have o1: "same_outside hash_nodes (klinks s) (klinks ?u)"
    unfolding unhash_proc_def upd_klinks_simps by (rule del_outside [OF B]) (auto simp: q(2) hash_nodes_def)
  have "list_nodes \<inter> hash_nodes = {}" by (auto simp: node_sets)
  then have ring: "proc_ring ?u (ps g)" using proc_frame [OF o1] h(2) by blast
  have k: "klinks s' = list_del (ListLink q) (klinks ?u)" by (rule remove_links_rest(16) [OF step])
  have o2: "same_outside list_nodes (klinks ?u) (klinks s')"
    unfolding k by (rule del_outside [OF ring [unfolded proc_ring_def]]) (use q(1) in \<open>auto simp: list_nodes_def\<close>)
  show "same_outside (hash_nodes \<union> list_nodes) (klinks s) (klinks s')" using o1 o2 by (auto simp: same_outside_def)
  show "proc_ring s' (remove1 q (ps g))"
    using dl.del_member [of "klinks ?u" ProcHead "map ListLink (ps g)" "ListLink q"] ring q(1) k
    by (simp add: proc_ring_def map_remove1_inj)
  have "hashed ?u ((bk g)(i := us @ vs))" by (rule unhash_proc_hashed [OF h(1) q(2)])
  moreover have "pid (procs s' p) = pid (procs ?u p)" for p by (rule remove_links_rest(3) [OF step])
  ultimately show "hashed s' ((bk g)(i := us @ vs))" using hash_frame [OF o2 \<open>list_nodes \<inter> hash_nodes = {}\<close>] by simp
qed (auto simp: node_sets remove_links_rest [OF step] unhash_proc_def)

lemma buckets_without:
  assumes h: "hashed s (bk g)" "(\<Union>i. set (bk g i)) = set (ps g)" and d: "distinct (ps g)" and i: "bk g i = us @ q # vs"
  shows "(\<Union>j. set (((bk g)(i := us @ vs)) j)) = set (remove1 q (ps g))"
proof -
  have "dlist (klinks s) (HashHead i) (map HashLink (bk g i))" using h(1) by (simp add: hashed_def)
  then have "q \<notin> set (us @ vs)" by (auto dest!: dlist_distinct simp: distinct_map i)
  moreover have "q \<notin> set (bk g j)" if "j \<noteq> i" for j
    using that hashed_bucket [OF h(1), of q j] hashed_bucket [OF h(1), of q i] i by auto
  ultimately have "set (((bk g)(i := us @ vs)) j) = set (bk g j) - {q}" for j using i by auto
  then show ?thesis using h(2) d by (simp only: set_remove1_eq) blast
qed

lemma reap_kinv:
  assumes k: "kinv g s" and d: "dying g = None" and c: "c \<in> set (ps g)" "q \<in> set (ch g c)" "pstate (procs s c) \<noteq> PROC_SLEEPING"
    and z: "pstate (procs s q) = PROC_ZOMBIE" and cur: "current s \<noteq> Some q" and step: "wait_reap q s = Some (code, s')"
  shows "\<exists>B. kinv (g\<lparr>ps := remove1 q (ps g), bk := B, ch := (ch g)(c := remove1 q (ch g c))\<rparr>) s' \<and>
    current s' = current s \<and> (\<forall>p. pstate (procs s' p) = pstate (procs s p) \<and> pflags (procs s' p) = pflags (procs s p))"
proof -
  let ?u = "unhash_proc q s"
  have rm: "remove_links q ?u = Some s'" and i: "Some q \<noteq> initproc s"
    using step by (auto simp: wait_reap_def bind_eq_Some_conv Let_def split: if_splits)
  have t: "tree g s" and r: "rings g s" and m: "pid_map_inv g s" and st: "sleepers g s" and tm: "timed g s"
    using k by (simp_all add: kinv_def)
  have u: "tree g ?u" by (rule tree_kept [OF t]) (auto simp: same_kin_def unhash_proc_def)
  have dist: "distinct (ps g)" by (rule kinv_distinct(1) [OF k])
  have q: "q \<in> set (ps g)" "q \<noteq> ini g" using tree_child(2) [OF t _ c(2)] c(1) i t by (auto simp: everyone_def tree_def)
  then obtain j where "q \<in> set (bk g j)" using m unfolding pid_map_inv_def by blast
  then obtain us vs where j: "bk g j = us @ q # vs" by (meson split_list)
  let ?g = "g\<lparr>ps := remove1 q (ps g), bk := (bk g)(j := us @ vs), ch := (ch g)(c := remove1 q (ch g c))\<rparr>"
  note rest = remove_links_rest [OF rm, unfolded unhash_proc_def upd_klinks_simps]
  have sub: "set (remove1 q (ps g)) \<subseteq> set (ps g)" by (rule set_remove1_subset)
  have "tree (g\<lparr>ps := remove1 q (ps g), ch := (ch g)(c := remove1 q (ch g c))\<rparr>) s'"
    by (rule reap_tree [OF u d c(1,2) q(2) _ rm dist]) (simp add: z unhash_proc_def)
  then have "tree ?g s'" by (rule tree_kept) (simp_all add: same_kin_def)
  moreover have "rings ?g s'" using reap_rings [OF r q(1) j rm] by (simp add: rings_def)
  moreover have "pid_map_inv ?g s'"
  proof -
    have "(\<Union>i. set (bk ?g i)) = set (ps ?g)"
      using buckets_without [of s g j us q vs] r m dist j by (simp add: rings_def pid_map_inv_def)
    moreover have "inj_on (\<lambda>p. pid (procs s p)) (set (ps ?g))" "inj_on (\<lambda>p. kstack (procs s p)) (set (ps ?g))"
      using m sub by (auto simp: pid_map_inv_def intro: inj_on_subset)
    moreover have "int (length (ps ?g)) = int (length (ps g)) - 1"
      using length_pos_if_in_set [OF q(1)] q(1) by (simp add: length_remove1 of_nat_diff Suc_leI)
    moreover have "unused s' (ps ?g) (last_pid s + 1) (next_safe s)" "\<forall>p \<in> set (ps ?g). valid_pid (pid (procs s p))"
      using m sub by (auto simp: pid_map_inv_def unused_def rest)
    ultimately show ?thesis using m unfolding pid_map_inv_def by (simp add: rest)
  qed
  moreover have "queued ?g s'"
  proof -
    have "queued g s" using k by (simp add: kinv_def)
    then obtain x where x: "x \<in> everyone g" "current s = Some x" "int (length (ps g)) \<le> MAX_PROCESS"
      "set (rq g) = {p \<in> set (ps g). pstate (procs s p) = PROC_RUNNABLE \<and> current s \<noteq> Some p}"
      unfolding queued_def by blast
    have "x \<in> everyone ?g" using x(1,2) cur dist by (auto simp: everyone_def)
    moreover have "length (ps ?g) \<le> length (ps g)" by (simp add: length_remove1)
    moreover have "set (rq ?g) = {p \<in> set (ps ?g). pstate (procs s p) = PROC_RUNNABLE \<and> current s \<noteq> Some p}"
      using x(4) z dist by auto
    ultimately show ?thesis unfolding queued_def rest using x(2,3) by fastforce
  qed
  moreover have "still_waits ?g s' p" if p: "p \<in> set (ps g)" "p \<notin> off g" "pstate (procs s p) = PROC_SLEEPING" for p
  proof (rule still_waits_kept)
    show "still_waits g s p" using st p by (simp add: sleepers_def)
    show "ch ?g p = ch g p" using p(3) c(3) by auto
  qed (simp_all add: rest)
  then have "sleepers ?g s'" using st sub by (auto simp: sleepers_def rest)
  moreover have "timed ?g s'"
  proof -
    have "\<exists>p \<in> set (ps ?g). timer_proc (timers s' x) = Some p \<and> wt ?g p = Some (Sleeping x) \<and> pstate (procs s' p) \<noteq> PROC_ZOMBIE"
      if x: "x \<in> set (ts g)" for x
    proof -
      obtain p where p: "p \<in> set (ps g)" "timer_proc (timers s x) = Some p" "wt g p = Some (Sleeping x)" "pstate (procs s p) \<noteq> PROC_ZOMBIE"
        using tm x by (auto simp: timed_def)
      then have "p \<noteq> q" using z by auto
      then show ?thesis using p dist by (intro bexI [of _ p]) (auto simp: rest)
    qed
    then show ?thesis using tm sub by (auto simp: timed_def rest)
  qed
  ultimately show ?thesis by (intro exI [of _ "(bk g)(j := us @ vs)"]) (simp add: kinv_def rest)
qed

subsection \<open>Timers\<close>

text \<open>What the operations on timers leave alone.\<close>

definition same_but_timers :: "kst \<Rightarrow> kst \<Rightarrow> bool" where
  "same_but_timers s s' \<longleftrightarrow> procs s' = procs s \<and> current s' = current s \<and> idleproc s' = idleproc s \<and>
     initproc s' = initproc s \<and> proc_num s' = proc_num s \<and> nr_process s' = nr_process s \<and> last_pid s' = last_pid s \<and>
     next_safe s' = next_safe s \<and> (\<forall>x. timer_proc (timers s' x) = timer_proc (timers s x))"

lemma same_but_timers_trans: "same_but_timers s s1 \<Longrightarrow> same_but_timers s1 s2 \<Longrightarrow> same_but_timers s s2"
  by (simp add: same_but_timers_def)

lemma same_but_timers_upd [simp]:
  "(\<And>d. timer_proc (f d) = timer_proc d) \<Longrightarrow> same_but_timers s (upd_timer t f s)"
  "same_but_timers s (upd_klinks h s)" "same_but_timers s s"
  by (simp_all add: same_but_timers_def upd_timer_def)

lemma del_timer_same: "del_timer t s = Some s' \<Longrightarrow> same_but_timers s s'"
  by (auto simp: del_timer_def Let_def bind_eq_Some_conv same_but_timers_def upd_timer_def split: if_splits)

lemma del_timer_links:
  "del_timer t s = Some s' \<Longrightarrow>
    klinks s' = (if list_empty (TimerLink t) (klinks s) then klinks s else list_del_init (TimerLink t) (klinks s))"
  by (auto simp: del_timer_def Let_def bind_eq_Some_conv split: if_splits)

lemma rings_timers:
  assumes "rings g s" and "same_outside timer_nodes (klinks s) (klinks s')" and "linked (klinks s') TimerHead TimerLink us"
    and "proc_num s' = proc_num s" and "\<And>p. on_rq (procs s' p) = on_rq (procs s p)" and "\<And>p. pid (procs s' p) = pid (procs s p)"
  shows "rings (g\<lparr>ts := us\<rparr>) s'"
proof -
  have d: "timer_nodes \<inter> run_nodes = {}" "timer_nodes \<inter> list_nodes = {}" "timer_nodes \<inter> hash_nodes = {}"
    by (auto simp: node_sets)
  show ?thesis
    using assms run_frame [OF assms(2) d(1)] proc_frame [OF assms(2) d(2)] hash_frame [OF assms(2) d(3)]
    by (simp add: rings_def)
qed

lemma timer_members:
  assumes "linked (klinks s) TimerHead TimerLink us"
  shows "t \<in> set us \<longleftrightarrow> \<not> list_empty (TimerLink t) (klinks s)"
proof
  assume "t \<in> set us"
  then obtain vs ws where "us = vs @ t # ws" by (meson split_list)
  then have "linked (klinks s) TimerHead TimerLink (vs @ t # ws)" using assms by simp
  then show "\<not> list_empty (TimerLink t) (klinks s)" by (rule linked_member) simp_all
qed (use linked_unlinked [OF assms] in blast)

lemma del_timer_rings:
  assumes r: "rings g s" and step: "del_timer t s = Some s'"
  shows "rings (g\<lparr>ts := remove1 t (ts g)\<rparr>) s'"
proof (rule rings_timers [OF r])
  have l: "linked (klinks s) TimerHead TimerLink (ts g)" using r by (simp add: rings_def)
  note k = del_timer_links [OF step]
  have "same_outside timer_nodes (klinks s) (klinks s') \<and> linked (klinks s') TimerHead TimerLink (remove1 t (ts g))"
  proof (cases "t \<in> set (ts g)")
    case True
    then obtain us vs where uv: "ts g = us @ t # vs" "t \<notin> set us" by (meson split_list_first)
    have k': "klinks s' = list_del_init (TimerLink t) (klinks s)" using k timer_members [OF l] True by simp
    have "dlist (klinks s) TimerHead (map TimerLink (ts g))" using l by (simp add: linked_def)
    then have "same_outside timer_nodes (klinks s) (klinks s')"
      unfolding k' by (rule del_init_outside) (use True in \<open>auto simp: timer_nodes_def\<close>)
    moreover have "linked (klinks s') TimerHead TimerLink (us @ vs)"
      unfolding k' by (rule linked_del_init) (use l uv in auto)
    ultimately show ?thesis using uv by (simp add: remove1_append)
  next
    case False
    then show ?thesis using l k timer_members [OF l] by (simp add: remove1_idem)
  qed
  then show "same_outside timer_nodes (klinks s) (klinks s')" "linked (klinks s') TimerHead TimerLink (remove1 t (ts g))" by simp_all
qed (use del_timer_same [OF step] in \<open>simp_all add: same_but_timers_def\<close>)

lemma del_timer_kinv:
  assumes k: "kinv g s" and step: "del_timer t s = Some s'"
    and awake: "\<And>p. p \<in> set (ps g) \<Longrightarrow> wt g p = Some (Sleeping t) \<Longrightarrow> pstate (procs s p) \<noteq> PROC_SLEEPING"
  shows "kinv (g\<lparr>ts := remove1 t (ts g)\<rparr>) s'" (is "kinv ?g s'")
proof -
  note e = del_timer_same [OF step, unfolded same_but_timers_def]
  have kin: "same_kin s s'" using e by (simp add: same_kin_def)
  have "tree ?g s'" by (rule tree_kept [of g s]) (use k kin e in \<open>auto simp: kinv_def\<close>)
  moreover have "pid_map_inv ?g s'" by (rule pid_map_kept [of g s]) (use k kin in \<open>auto simp: kinv_def\<close>)
  moreover have "rings ?g s'" by (rule del_timer_rings [OF _ step]) (use k in \<open>simp add: kinv_def\<close>)
  moreover have "still_waits ?g s' p" if p: "p \<in> set (ps g)" "p \<notin> off g" "pstate (procs s p) = PROC_SLEEPING" for p
  proof -
    have "still_waits g s p" using k p by (simp add: kinv_def sleepers_def)
    then show ?thesis using awake [OF p(1)] p(3) e by (auto simp: still_waits_def set_remove1_eq [OF kinv_distinct(2) [OF k]] split: option.splits cont.splits)
  qed
  then have "sleepers ?g s'" using k e by (simp add: kinv_def sleepers_def)
  moreover have "timed ?g s'"
    using k e notin_set_remove1 [of _ "ts g" t] unfolding kinv_def timed_def by (simp, metis)
  moreover have "queued ?g s'" using k e by (simp add: kinv_def queued_def everyone_def)
  ultimately show ?thesis by (simp add: kinv_def)
qed

text \<open>The timers that have expired.\<close>

lemma wakeup_rest:
  assumes "wakeup_proc p s = Some s'"
  shows "pflags (procs s' q) = pflags (procs s q)" "kstack (procs s' q) = kstack (procs s q)" "timers s' = timers s"
  using assms by (auto simp: wakeup_proc_def sched_class_enqueue_def RR_enqueue_def Let_def split: if_splits)

lemma expire_one_kinv:
  assumes k: "kinv g s" and t: "t \<in> set (ts g)" "timer_proc (timers s t) = Some p"
    and w: "wakeup_proc p s = Some s1" and step: "del_timer t s1 = Some s2"
  shows "\<exists>qs. kinv (g\<lparr>rq := qs, off := off g - {p}, ts := remove1 t (ts g)\<rparr>) s2 \<and> only_wakes s s2"
proof -
  have p: "p \<in> set (ps g)" "wt g p = Some (Sleeping t)" using k t by (auto simp: kinv_def timed_def)
  from wakeup_kinv [OF k w p(1)] obtain qs where k1: "kinv (g\<lparr>rq := qs, off := off g - {p}\<rparr>) s1" by blast
  have only: "q = p" if "q \<in> set (ps g)" "wt g q = Some (Sleeping t)" for q
    using k that p by (auto simp: kinv_def timed_def pid_map_inv_def inj_on_def)
  have k2: "kinv (g\<lparr>rq := qs, off := off g - {p}, ts := remove1 t (ts g)\<rparr>) s2"
    using del_timer_kinv [OF k1 step] only wakeup_proc_procs(8) [OF w] by fastforce
  note e = del_timer_same [OF step, unfolded same_but_timers_def]
  then have "only_wakes s s2" using wakeup_only [OF w] by (simp add: only_wakes_def)
  then show ?thesis using k2 by blast
qed

lemma expire_loop_round:
  assumes k: "kinv g s" and o: "off g = {}" and t: "ts g = t # us" and step: "expire_loop t s = Some s'" and z: "expires (timers s t) = 0"
  shows "\<exists>qs s2. kinv (g\<lparr>rq := qs, ts := us\<rparr>) s2 \<and> only_wakes s s2 \<and>
    (if us = [] then s' = s2 else expire_loop (hd us) s2 = Some s')"
proof -
  let ?le = "list_next (TimerLink t) (klinks s)"
  obtain p s1 s2 where s: "timer_proc (timers s t) = Some p" "wakeup_proc p s = Some s1" "del_timer t s1 = Some s2"
    "(if ?le = TimerHead then Some s2 else do { t \<leftarrow> le2timer ?le; expire_loop t s2 }) = Some s'"
    using step z by (subst (asm) expire_loop.simps) (auto simp: Let_def bind_eq_Some_conv split: if_splits)
  have "linked (klinks s) TimerHead TimerLink (t # us)" using k t by (simp add: kinv_def rings_def)
  then have le: "?le = hd (map TimerLink us @ [TimerHead])"
    using dlist_split_links(2) [of "klinks s" TimerHead "[]" "TimerLink t" "map TimerLink us"] by (simp add: linked_def list_next_def)
  from expire_one_kinv [OF k _ s(1,2,3)] obtain qs where
    q: "kinv (g\<lparr>rq := qs, off := off g - {p}, ts := remove1 t (ts g)\<rparr>) s2" "only_wakes s s2"
    by (auto simp: t)
  have "g\<lparr>rq := qs, off := off g - {p}, ts := remove1 t (ts g)\<rparr> = g\<lparr>rq := qs, ts := us\<rparr>"
    using t o by (cases g) simp
  then show ?thesis using q s(4) le by (intro exI [of _ qs] exI [of _ s2]) (cases us; simp)
qed

lemma expire_loop_kinv:
  assumes "kinv g s" and "off g = {}" and "ts g = t # us" and "expire_loop t s = Some s'"
  shows "\<exists>qs vs. kinv (g\<lparr>rq := qs, ts := vs\<rparr>) s' \<and> only_wakes s s'"
  using assms
proof (induction us arbitrary: g s t)
  case (Nil g s t)
  show ?case
  proof (cases "expires (timers s t) = 0")
    case True
    from expire_loop_round [OF Nil True] show ?thesis by auto
  next
    case False
    then have "s' = s" using Nil(4) by (subst (asm) expire_loop.simps) simp
    then show ?thesis using Nil(1) by (intro exI [of _ "rq g"] exI [of _ "ts g"]) simp
  qed
next
  case (Cons u us g s t)
  show ?case
  proof (cases "expires (timers s t) = 0")
    case True
    from expire_loop_round [OF Cons.prems True] obtain qs s2 where
      q: "kinv (g\<lparr>rq := qs, ts := u # us\<rparr>) s2" "only_wakes s s2" "expire_loop u s2 = Some s'" by auto
    from Cons.IH [OF q(1) _ _ q(3)] Cons.prems(2) obtain qs' vs where
      "kinv ((g\<lparr>rq := qs, ts := u # us\<rparr>)\<lparr>rq := qs', ts := vs\<rparr>) s'" "only_wakes s2 s'" by auto
    then show ?thesis using only_wakes_trans [OF q(2)] by (intro exI [of _ qs'] exI [of _ vs]) simp
  next
    case False
    then have "s' = s" using Cons.prems(4) by (subst (asm) expire_loop.simps) simp
    then show ?thesis using Cons.prems(1) by (intro exI [of _ "rq g"] exI [of _ "ts g"]) simp
  qed
qed

text \<open>A change of a deadline, and of fields that the invariant does not read.\<close>

lemma upd_timer_quiet: "(\<And>d. timer_proc (f d) = timer_proc d) \<Longrightarrow> quiet s (upd_timer t f s)"
  by (simp add: quiet_def same_kin_def same_states_def upd_timer_def)

lemma tick_quiet: "quiet s (sched_class_proc_tick c s)"
  by (simp add: quiet_def same_kin_def same_states_def sched_class_proc_tick_def RR_proc_tick_def Let_def)

lemma run_timer_list_kinv:
  assumes k: "kinv g s" and o: "off g = {}" and step: "run_timer_list s = Some s'"
  shows "\<exists>qs vs. kinv (g\<lparr>rq := qs, ts := vs\<rparr>) s' \<and> only_wakes s s'"
proof -
  have l: "linked (klinks s) TimerHead TimerLink (ts g)" using k by (simp add: kinv_def rings_def)
  have first: "list_next TimerHead (klinks s) = hd (map TimerLink (ts g) @ [TimerHead])"
    using l by (simp add: linked_def list_next_def dlist_first)
  obtain s1 where s1: "(case current s1 of None \<Rightarrow> s1 | Some c \<Rightarrow> sched_class_proc_tick c s1) = s'"
    "\<exists>qs vs. kinv (g\<lparr>rq := qs, ts := vs\<rparr>) s1 \<and> only_wakes s s1"
  proof (cases "ts g")
    case Nil
    then have "(case current s of None \<Rightarrow> s | Some c \<Rightarrow> sched_class_proc_tick c s) = s'"
      using step first by (auto simp: run_timer_list_def split: option.splits)
    then show ?thesis by (rule that) (use k in \<open>intro exI [of _ "rq g"] exI [of _ "ts g"], simp\<close>)
  next
    case (Cons t us)
    define s0 where "s0 = upd_timer t (\<lambda>d. d\<lparr>expires := expires d - 1\<rparr>) s"
    obtain s1 where s1: "expire_loop t s0 = Some s1" "(case current s1 of None \<Rightarrow> s1 | Some c \<Rightarrow> sched_class_proc_tick c s1) = s'"
      using step first Cons
      by (auto simp: run_timer_list_def s0_def bind_eq_Some_conv split: option.splits if_splits)
    have "quiet s s0" unfolding s0_def by (rule upd_timer_quiet) simp
    then have "kinv g s0" by (rule quiet_kinv [OF k])
    from expire_loop_kinv [OF this o Cons s1(1)] show ?thesis
      by (intro that [OF s1(2)]) (simp add: only_wakes_def s0_def)
  qed
  then have "quiet s1 s'" using tick_quiet by (cases "current s1") auto
  then show ?thesis using s1(2) quiet_kinv quiet_only only_wakes_trans by blast
qed

lemma add_timer_loop_same:
  assumes "add_timer_loop t le s = Some r"
  shows "same_but_timers s (snd r)"
proof (rule add_timer_loop.raw_induct [where P = "\<lambda>_ _ s r. same_but_timers s (snd r)", OF _ assms])
  fix loop t le s r
  assume ih: "\<And>t le s r. loop t le s = Some r \<Longrightarrow> same_but_timers s (snd r)"
    and step: "(if le = TimerHead then Some (le, s)
      else do {
        nx \<leftarrow> le2timer le;
        if expires (timers s t) < expires (timers s nx)
        then Some (le, upd_timer nx (\<lambda>d. d\<lparr>expires := expires d - expires (timers s t)\<rparr>) s)
        else let s = upd_timer t (\<lambda>d. d\<lparr>expires := expires d - expires (timers s nx)\<rparr>) s
             in loop t (list_next le (klinks s)) s
      }) = Some r"
  show "same_but_timers s (snd r)"
    using step
    by (auto simp: Let_def bind_eq_Some_conv same_but_timers_def upd_timer_def split: if_splits dest!: ih)
qed

lemma add_timer_kinv:
  assumes k: "rings g s" and t: "t \<notin> set (ts g)" and step: "add_timer t s = Some s'"
  shows "\<exists>us. rings (g\<lparr>ts := us\<rparr>) s' \<and> set us = insert t (set (ts g)) \<and> same_but_timers s s'"
proof -
  have l: "linked (klinks s) TimerHead TimerLink (ts g)" using k by (simp add: rings_def)
  have "dseg (klinks s) TimerHead (map TimerLink (ts g)) TimerHead" "distinct (t # ts g)"
    using l linked_distinct [OF l] t by (auto simp: linked_def dlist_def)
  from add_timer_loop_inv [OF this, of 0] obtain ws zs s1 where s1: "ts g = ws @ zs"
    "add_timer_loop t (nxt (klinks s) TimerHead) s = Some (hd (map TimerLink zs @ [TimerHead]), s1)" "klinks s1 = klinks s" by auto
  let ?le = "hd (map TimerLink zs @ [TimerHead])"
  have s': "s' = upd_klinks (list_add_before ?le (TimerLink t)) s1"
    using step s1(2) by (auto simp: add_timer_def list_next_def split: if_splits)
  have same: "same_but_timers s s'"
    using add_timer_loop_same [OF s1(2)] unfolding s' by (simp add: same_but_timers_def)
  have kl: "klinks s' = list_add_before ?le (TimerLink t) (klinks s)" by (simp add: s' s1(3))
  have ring: "dlist (klinks s) TimerHead (map TimerLink (ts g))" using l by (simp add: linked_def)
  have "?le \<in> set (TimerHead # map TimerLink (ts g))" unfolding s1(1) by (cases zs) auto
  then have "same_outside timer_nodes (klinks s) (klinks s')"
    unfolding kl by (rule add_before_outside [OF ring]) (auto simp: timer_nodes_def)
  moreover have "linked (klinks s') TimerHead TimerLink (ws @ t # zs)"
    unfolding kl by (rule linked_add_before) (use l t s1(1) in auto)
  ultimately have "rings (g\<lparr>ts := ws @ t # zs\<rparr>) s'"
    by (intro rings_timers [OF k]) (use same in \<open>simp_all add: same_but_timers_def\<close>)
  then show ?thesis using same s1(1) by (intro exI [of _ "ws @ t # zs"]) auto
qed

lemma timer_init_rest:
  "procs (timer_init t p e s) = procs s" "current (timer_init t p e s) = current s" "idleproc (timer_init t p e s) = idleproc s"
  "initproc (timer_init t p e s) = initproc s" "proc_num (timer_init t p e s) = proc_num s"
  "nr_process (timer_init t p e s) = nr_process s" "last_pid (timer_init t p e s) = last_pid s"
  "next_safe (timer_init t p e s) = next_safe s" "klinks (timer_init t p e s) = list_init (TimerLink t) (klinks s)"
  "timer_proc (timers (timer_init t p e s) x) = (if x = t then Some p else timer_proc (timers s x))"
  by (simp_all add: timer_init_def upd_timer_def)

lemma sleep_begin_procs:
  assumes "sleep_begin t time s = Some s'" and "current s = Some c"
  shows "procs s' = procs (upd_proc c (\<lambda>d. d\<lparr>pstate := PROC_SLEEPING, wait_state := WT_TIMER\<rparr>) s)"
  using assms
  by (auto simp: sleep_begin_def add_timer_def Let_def bind_eq_Some_conv same_but_timers_def timer_init_rest
      dest!: add_timer_loop_same split: if_splits)

lemma sleep_begin_kinv:
  assumes k: "kinv g s" and c: "current s = Some c" "c \<in> set (ps g)" "wt g c = None" "pstate (procs s c) = PROC_RUNNABLE"
    and step: "sleep_begin (kstack (procs s c)) time s = Some s'"
  shows "\<exists>us. kinv (g\<lparr>ts := us, wt := (wt g)(c := Some (Sleeping (kstack (procs s c))))\<rparr>) s' \<and> current s' = current s"
proof -
  let ?t = "kstack (procs s c)"
  let ?b = "timer_init ?t c time s"
  let ?a = "upd_proc c (\<lambda>d. d\<lparr>pstate := PROC_SLEEPING, wait_state := WT_TIMER\<rparr>) ?b"
  have t: "tree g s" "idle g \<noteq> c" and tm: "timed g s" and sl: "sleepers g s"
    using k c(2) by (auto simp: kinv_def tree_def)
  have fresh: "?t \<notin> set (ts g)"
  proof
    assume "?t \<in> set (ts g)"
    then obtain p where p: "p \<in> set (ps g)" "wt g p = Some (Sleeping ?t)" using tm by (auto simp: timed_def)
    then have "kstack (procs s p) = ?t" using tm by (auto simp: timed_def)
    then have "p = c" using k p(1) c(2) by (auto simp: kinv_def pid_map_inv_def inj_on_def)
    then show False using p(2) c(3) by simp
  qed
  have l: "linked (klinks s) TimerHead TimerLink (ts g)" using k by (simp add: kinv_def rings_def)
  then have "nxt (klinks s) (TimerLink ?t) = TimerLink ?t \<and> prv (klinks s) (TimerLink ?t) = TimerLink ?t"
    using fresh by (simp add: linked_def dlist_self)
  then have kl: "klinks ?a = klinks s" by (simp add: timer_init_rest list_init_def fun_upd_idem)
  have "rings g s" using k by (simp add: kinv_def)
  then have "rings g ?a"
    unfolding rings_def rq_inv_def proc_ring_def hashed_def kl by (simp add: timer_init_rest)
  moreover have "add_timer ?t ?a = Some s'" using step c(1) by (simp add: sleep_begin_def)
  ultimately obtain us where us: "rings (g\<lparr>ts := us\<rparr>) s'" "set us = insert ?t (set (ts g))" "same_but_timers ?a s'"
    using add_timer_kinv fresh by blast
  let ?g = "g\<lparr>ts := us, wt := (wt g)(c := Some (Sleeping ?t))\<rparr>"
  note e = us(3) [unfolded same_but_timers_def]
  have st: "pstate (procs s' p) = (if p = c then PROC_SLEEPING else pstate (procs s p))"
    "wait_state (procs s' p) = (if p = c then WT_TIMER else wait_state (procs s p))" for p
    using e by (auto simp: timer_init_rest)
  have kin: "same_kin s s'" using e by (simp add: same_kin_def timer_init_rest)
  have "tree ?g s'" by (rule tree_kept [OF t(1) kin]) (use t(2) c(4) st in auto)
  moreover have "pid_map_inv ?g s'" by (rule pid_map_kept [OF _ kin]) (use k in \<open>simp_all add: kinv_def\<close>)
  moreover have "rings ?g s'" using us(1) by (simp add: rings_def)
  moreover have "queued ?g s'"
    using k c(1) e by (auto simp: kinv_def queued_def everyone_def st timer_init_rest)
  moreover have "still_waits ?g s' p" if p: "p \<in> set (ps g)" "p \<notin> off g" "p \<noteq> c" "pstate (procs s p) = PROC_SLEEPING" for p
    by (rule still_waits_kept [of g s]) (use p sl us(2) kin in \<open>auto simp: sleepers_def st same_kin_def\<close>)
  moreover have "still_waits ?g s' c" using us(2) by (simp add: still_waits_def st)
  ultimately have "sleepers ?g s'" using sl by (auto simp: sleepers_def st)
  moreover have "timed ?g s'"
  proof -
    have "\<exists>p \<in> set (ps g). timer_proc (timers s' x) = Some p \<and> wt ?g p = Some (Sleeping x) \<and> pstate (procs s' p) \<noteq> PROC_ZOMBIE"
      if x: "x \<in> set us" for x
    proof (cases "x = ?t")
      case True
      then show ?thesis using c(2) e by (intro bexI [of _ c]) (simp_all add: timer_init_rest st)
    next
      case False
      then obtain p where p: "p \<in> set (ps g)" "timer_proc (timers s x) = Some p" "wt g p = Some (Sleeping x)" "pstate (procs s p) \<noteq> PROC_ZOMBIE"
        using tm us(2) x by (auto simp: timed_def)
      then show ?thesis using False c(3) e by (intro bexI [of _ p]) (auto simp: timer_init_rest st)
    qed
    then show ?thesis using tm kin by (auto simp: timed_def same_kin_def)
  qed
  ultimately show ?thesis using e \<open>tree ?g s'\<close> \<open>pid_map_inv ?g s'\<close> \<open>rings ?g s'\<close> \<open>queued ?g s'\<close>
    by (intro exI [of _ us]) (simp add: kinv_def timer_init_rest)
qed

subsection \<open>The birth of a process\<close>

text \<open>Changes of structures that no process uses.\<close>

lemma unused_kinv:
  assumes k: "kinv g s" and e: "\<And>q. q \<in> everyone g \<Longrightarrow> procs s' q = procs s q" and kl: "klinks s' = klinks s"
    and f: "current s' = current s" "idleproc s' = idleproc s" "initproc s' = initproc s" "proc_num s' = proc_num s"
      "nr_process s' = nr_process s" "timers s' = timers s"
    and pids: "pid_map_inv g s'"
  shows "kinv g s'"
proof -
  have t: "tree g s" using k by (simp add: kinv_def)
  have m: "procs s' q = procs s q" if "q \<in> set (ps g)" for q using e that by (simp add: everyone_def)
  have ch: "set (ch g q) \<subseteq> set (ps g)" if "q \<in> everyone g" for q using t that by (simp add: tree_def)
  have rq: "set (rq g) \<subseteq> set (ps g)" using k by (auto simp: kinv_def queued_def)
  have bk: "set (bk g i) \<subseteq> set (ps g)" for i using k unfolding kinv_def pid_map_inv_def by blast
  have b: "brood s' y q (ch g q) \<longleftrightarrow> brood s y q (ch g q)" if "q \<in> everyone g" for y q
    by (rule brood_cong) (use e [OF that] m ch [OF that] in auto)
  have "rings g s'"
    using k m rq bk unfolding kinv_def rings_def rq_inv_def proc_ring_def hashed_def kl f(4) by (simp add: subset_iff)
  moreover have "tree g s'"
    using t m b e [of "idle g"] unfolding tree_def f by (simp add: everyone_def)
  moreover have "queued g s'" using k m rq by (auto simp: kinv_def queued_def f)
  moreover have "still_waits g s' q \<longleftrightarrow> still_waits g s q" if "q \<in> set (ps g)" for q
    using m ch [of q] that by (auto simp: still_waits_def everyone_def subset_iff split: option.splits cont.splits)
  then have "sleepers g s'" using k m by (simp add: kinv_def sleepers_def)
  moreover have "timed g s'" using k m unfolding kinv_def timed_def f by metis
  ultimately show ?thesis using pids by (simp add: kinv_def)
qed

lemma set_links_eq:
  assumes "parent (procs s p) = Some c"
  shows "set_links p s =
    (let s1 = set_optr p (cptr (procs s c)) (set_yptr p None (upd_klinks (list_add ProcHead (ListLink p)) s));
         s2 = (case cptr (procs s c) of None \<Rightarrow> s1 | Some q \<Rightarrow> set_yptr q (Some p) s1)
     in Some ((set_cptr c (Some p) s2)\<lparr>nr_process := nr_process s + 1\<rparr>))"
  using assms by (cases "cptr (procs s c)") (auto simp: set_links_def Let_def setters split: if_split)

lemma set_links_rest:
  assumes "set_links p s = Some s'" and "parent (procs s p) = Some c"
  shows "pstate (procs s' r) = pstate (procs s r)" "wait_state (procs s' r) = wait_state (procs s r)"
    "pid (procs s' r) = pid (procs s r)" "kstack (procs s' r) = kstack (procs s r)" "on_rq (procs s' r) = on_rq (procs s r)"
    "parent (procs s' r) = parent (procs s r)" "pflags (procs s' r) = pflags (procs s r)"
    "current s' = current s" "idleproc s' = idleproc s" "initproc s' = initproc s" "timers s' = timers s"
    "proc_num s' = proc_num s" "last_pid s' = last_pid s" "next_safe s' = next_safe s"
    "nr_process s' = nr_process s + 1" "klinks s' = list_add ProcHead (ListLink p) (klinks s)"
  using assms(1) unfolding set_links_eq [OF assms(2)] Let_def
  by (auto simp: setters split: option.splits if_splits)

lemma set_links_others:
  assumes "set_links p s = Some s'" and "parent (procs s p) = Some c" and "r \<noteq> p"
  shows "cptr (procs s c) \<noteq> Some r \<Longrightarrow> yptr (procs s' r) = yptr (procs s r)"
    and "optr (procs s' r) = optr (procs s r)"
    and "r \<noteq> c \<Longrightarrow> cptr (procs s' r) = cptr (procs s r)"
  using assms(1,3) unfolding set_links_eq [OF assms(2)] Let_def
  by (auto simp: setters split: option.splits if_splits)

lemma set_links_self:
  assumes "set_links p s = Some s'" and "parent (procs s p) = Some c" and "p \<noteq> c"
  shows "cptr (procs s' p) = cptr (procs s p)"
  using assms(1,3) unfolding set_links_eq [OF assms(2)] Let_def
  by (auto simp: setters split: option.splits if_splits)

lemma birth_tree:
  assumes t: "tree g s" "dying g = None" and c: "c \<in> everyone g" "pstate (procs s c) \<noteq> PROC_ZOMBIE"
    and p: "p \<notin> everyone g" "parent (procs s p) = Some c" "cptr (procs s p) = None" and step: "set_links p s = Some s'"
  shows "tree (g\<lparr>ps := p # ps g, ch := (ch g)(c := p # ch g c, p := [])\<rparr>) s'" (is "tree ?g s'")
proof -
  note away = tree_child [OF t(1)]
  have fam: "family s r (ch g r)" if "r \<in> everyone g" for r
    using tree_brood [OF t(1) that] t(2) unfolding family_brood by auto
  have pc: "p \<noteq> c" using p(1) c(1) by auto
  have out: "p \<notin> set (ch g r)" if "r \<in> everyone g" for r using away(2) [OF that, of p] p(1) by (auto simp: everyone_def)
  have "family s' c (p # ch g c)"
    using set_links_family_inv [OF fam [OF c(1)] p(2) out [OF c(1)] pc] step by auto
  moreover have "family s' p []" using set_links_self [OF step p(2) pc] p(3) by (simp add: family_def)
  moreover have "family s' r (ch g r)" if r: "r \<in> everyone g" "r \<noteq> c" for r
  proof -
    have rp: "r \<noteq> p" using r(1) p(1) by auto
    have "yptr (procs s' x) = yptr (procs s x) \<and> optr (procs s' x) = optr (procs s x)" if x: "x \<in> set (ch g r)" for x
    proof -
      have "x \<notin> set (ch g c)" "x \<noteq> p" using away(1) [OF r(1) x] away(1) [OF c(1), of x] r(2) out [OF r(1)] x by auto
      moreover have "cptr (procs s c) = first (ch g c) None" using fam [OF c(1)] by (simp add: family_def)
      ultimately have "cptr (procs s c) \<noteq> Some x" by (cases "ch g c") auto
      then show ?thesis using set_links_others(1,2) [OF step p(2) \<open>x \<noteq> p\<close>] by simp
    qed
    then show ?thesis
      using fam [OF r(1)] family_cong [of s' r s "ch g r"] set_links_rest(6) [OF step p(2)] set_links_others(3) [OF step p(2) rp r(2)] by simp
  qed
  ultimately have broods: "brood s' None r (ch ?g r)" if "r \<in> everyone ?g" for r
    using that pc by (auto simp: family_brood everyone_def)
  have e: "everyone ?g = insert p (everyone g)" by (auto simp: everyone_def)
  have sub: "set (ch ?g r) \<subseteq> set (ps ?g)" if r: "r \<in> everyone ?g" for r
  proof -
    have "set (ch g x) \<subseteq> set (ps g)" if "x \<in> everyone g" for x using t(1) that by (simp add: tree_def)
    then show ?thesis using r c(1) unfolding e by (cases "r = p"; cases "r = c") auto
  qed
  have cover: "\<exists>r \<in> everyone ?g. x \<in> set (ch ?g r)" if x: "x \<in> set (ps ?g)" for x
  proof (cases "x = p")
    case True
    then show ?thesis using c(1) pc unfolding e by (intro bexI [of _ c]) auto
  next
    case False
    then obtain r where "r \<in> everyone g" "x \<in> set (ch g r)" using t(1) x by (auto simp: tree_def)
    then show ?thesis using p(1) unfolding e by (intro bexI [of _ r]) auto
  qed
  have "idle g \<noteq> p" "ini g \<noteq> p" using p(1) t(1) by (auto simp: everyone_def tree_def)
  then show ?thesis
    using t c broods sub cover p(1) pc unfolding tree_def e
    by (auto simp: set_links_rest [OF step p(2)])
qed

lemma add_outside:
  assumes "dlist h lh xs" and "set (e # lh # xs) \<subseteq> N"
  shows "same_outside N h (list_add lh e h)"
proof -
  have "nxt h lh \<in> N" using dlist_neighbours(1) [OF assms(1), of lh] assms(2) by auto
  then show ?thesis
    using assms(2) by (auto simp: same_outside_def list_add_def list_add_after_def list_add_between_def)
qed

lemma birth_rings:
  assumes r: "rings g s" and p: "p \<notin> set (ps g)" "\<And>i. p \<notin> set (bk g i)" "parent (procs s p) = Some c"
    and step: "set_links p (hash_proc p s) = Some s'"
  shows "rings (g\<lparr>ps := p # ps g, bk := (bk g)(pid_hashfn (pid (procs s p)) := p # bk g (pid_hashfn (pid (procs s p))))\<rparr>) s'"
    (is "rings (g\<lparr>ps := p # ps g, bk := ?B\<rparr>) s'")
proof (rule rings_away [OF r])
  let ?u = "hash_proc p s"
  let ?i = "pid_hashfn (pid (procs s p))"
  have h: "hashed s (bk g)" "proc_ring s (ps g)" using r by (simp_all add: rings_def)
  have B: "dlist (klinks s) (HashHead ?i) (map HashLink (bk g ?i))" using h(1) by (simp add: hashed_def)
  have o1: "same_outside hash_nodes (klinks s) (klinks ?u)"
    unfolding hash_proc_def upd_klinks_simps by (rule add_outside [OF B]) (auto simp: hash_nodes_def)
  have "list_nodes \<inter> hash_nodes = {}" by (auto simp: node_sets)
  then have ring: "proc_ring ?u (ps g)" using proc_frame [OF o1] h(2) by blast
  have par: "parent (procs ?u p) = Some c" using p(3) by (simp add: hash_proc_def)
  note rest = set_links_rest [OF step par]
  have o2: "same_outside list_nodes (klinks ?u) (klinks s')"
    unfolding rest(16) by (rule add_outside [OF ring [unfolded proc_ring_def]]) (auto simp: list_nodes_def)
  show "same_outside (hash_nodes \<union> list_nodes) (klinks s) (klinks s')" using o1 o2 by (auto simp: same_outside_def)
  show "proc_ring s' (p # ps g)"
    using dl.push_front [of "klinks ?u" ProcHead "map ListLink (ps g)" "ListLink p"] ring p(1) rest(16)
    by (auto simp: proc_ring_def list_add_def)
  have "hashed ?u ?B" by (rule hash_proc_hashed [OF h(1) p(2)])
  then show "hashed s' ?B" using hash_frame [OF o2 \<open>list_nodes \<inter> hash_nodes = {}\<close>] rest(3) by simp
  show "proc_num s' = proc_num s" "on_rq (procs s' q) = on_rq (procs s q)" for q
    using rest(5,12) by (simp_all add: hash_proc_def)
qed (auto simp: node_sets)

text \<open>A process just linked in, which is about to be woken.\<close>

lemma birth_kinv:
  assumes k: "kinv g s" and d: "dying g = None" "off g = {}" and c: "c \<in> everyone g" "pstate (procs s c) = PROC_RUNNABLE"
    and p: "p \<notin> everyone g" "parent (procs s p) = Some c" "cptr (procs s p) = None" "pstate (procs s p) = PROC_UNINIT"
    and i: "valid_pid (pid (procs s p))" "pid (procs s p) \<notin> (\<lambda>q. pid (procs s q)) ` set (ps g)" "pid (procs s p) = last_pid s"
    and ks: "kstack (procs s p) \<notin> (\<lambda>q. kstack (procs s q)) ` set (ps g)" and n: "nr_process s < MAX_PROCESS"
    and step: "set_links p (hash_proc p s) = Some s'"
  shows "\<exists>B chs. kinv (g\<lparr>ps := p # ps g, bk := B, ch := chs, wt := (wt g)(p := None), off := {p}\<rparr>) s' \<and>
    current s' = current s \<and> (\<forall>q. pstate (procs s' q) = pstate (procs s q) \<and> pflags (procs s' q) = pflags (procs s q))"
proof -
  let ?B = "(bk g)(pid_hashfn (pid (procs s p)) := p # bk g (pid_hashfn (pid (procs s p))))"
  let ?ch = "(ch g)(c := p # ch g c, p := [])"
  let ?g = "g\<lparr>ps := p # ps g, bk := ?B, ch := ?ch, wt := (wt g)(p := None), off := {p}\<rparr>"
  let ?u = "hash_proc p s"
  have t: "tree g s" and r: "rings g s" and m: "pid_map_inv g s" and st: "sleepers g s" and tm: "timed g s" and qd: "queued g s"
    using k by (simp_all add: kinv_def)
  have pn: "p \<notin> set (ps g)" "p \<noteq> idle g" using p(1) by (auto simp: everyone_def)
  have bk: "p \<notin> set (bk g j)" for j using m pn(1) unfolding pid_map_inv_def by blast
  have par: "parent (procs ?u p) = Some c" using p(2) by (simp add: hash_proc_def)
  note rest = set_links_rest [OF step par, unfolded hash_proc_def upd_klinks_simps]
  have u: "tree g ?u" by (rule tree_kept [OF t]) (auto simp: same_kin_def hash_proc_def)
  have "tree (g\<lparr>ps := p # ps g, ch := ?ch\<rparr>) s'"
    by (rule birth_tree [OF u d(1) c(1) _ p(1) par _ step]) (use c(2) p(3) in \<open>simp_all add: hash_proc_def\<close>)
  then have "tree ?g s'" by (rule tree_kept) (simp_all add: same_kin_def)
  moreover have "rings ?g s'" using birth_rings [OF r pn(1) bk p(2) step] by (simp add: rings_def)
  moreover have "pid_map_inv ?g s'"
  proof -
    have "(\<Union>j. set (?B j)) = insert p (\<Union>j. set (bk g j))" by (auto split: if_splits)
    then have "(\<Union>j. set (?B j)) = set (p # ps g)" using m by (simp add: pid_map_inv_def)
    moreover have "inj_on (\<lambda>q. pid (procs s q)) (set (p # ps g))" "inj_on (\<lambda>q. kstack (procs s q)) (set (p # ps g))"
      using m i(2) ks pn(1) by (auto simp: pid_map_inv_def)
    moreover have "unused s' (p # ps g) (last_pid s + 1) (next_safe s)"
      using m i(3) by (simp add: pid_map_inv_def unused_def rest)
    ultimately show ?thesis using m i(1) unfolding pid_map_inv_def by (simp add: rest)
  qed
  moreover have "queued ?g s'"
  proof -
    have "int (length (ps ?g)) \<le> MAX_PROCESS" using n m by (simp add: pid_map_inv_def)
    moreover obtain x where x: "x \<in> everyone g" "current s = Some x"
      "set (rq g) = {q \<in> set (ps g). pstate (procs s q) = PROC_RUNNABLE \<and> current s \<noteq> Some q}"
      using qd unfolding queued_def by blast
    moreover have "set (rq ?g) = {q \<in> set (ps ?g). pstate (procs s q) = PROC_RUNNABLE \<and> current s \<noteq> Some q}"
    proof (rule set_eqI)
      fix q
      show "q \<in> set (rq ?g) \<longleftrightarrow> q \<in> {q \<in> set (ps ?g). pstate (procs s q) = PROC_RUNNABLE \<and> current s \<noteq> Some q}"
        using p(4) by (cases "q = p") (simp_all add: x(3))
    qed
    moreover have "x \<in> everyone ?g" using x(1) by (auto simp: everyone_def)
    ultimately show ?thesis unfolding queued_def rest by blast
  qed
  moreover have "still_waits ?g s' q" if q: "q \<in> set (ps g)" "pstate (procs s q) = PROC_SLEEPING" for q
  proof (rule still_waits_kept)
    show "still_waits g s q" using st q d(2) by (simp add: sleepers_def)
    show "ch ?g q = ch g q" "wt ?g q = wt g q" using q pn(1) c(2) by auto
  qed (simp_all add: rest)
  then have "sleepers ?g s'" using st d(2) pn(1) by (auto simp: sleepers_def rest)
  moreover have "timed ?g s'"
  proof -
    have "\<exists>q \<in> set (ps g). timer_proc (timers s x) = Some q \<and> wt ?g q = Some (Sleeping x) \<and> pstate (procs s q) \<noteq> PROC_ZOMBIE"
      if x: "x \<in> set (ts g)" for x
    proof -
      obtain q where q: "q \<in> set (ps g)" "timer_proc (timers s x) = Some q" "wt g q = Some (Sleeping x)" "pstate (procs s q) \<noteq> PROC_ZOMBIE"
        by (rule timed_owner [OF tm x])
      then have "q \<noteq> p" using pn(1) by auto
      then show ?thesis using q by (intro bexI [of _ q]) simp_all
    qed
    then have "\<forall>x \<in> set (ts ?g). \<exists>q \<in> set (ps ?g). timer_proc (timers s x) = Some q \<and> wt ?g q = Some (Sleeping x) \<and>
        pstate (procs s q) \<noteq> PROC_ZOMBIE" by auto
    moreover have "\<forall>q \<in> set (ps ?g). \<forall>x. wt ?g q = Some (Sleeping x) \<longrightarrow> x = kstack (procs s q)"
    proof (intro ballI allI impI)
      fix q x assume q: "q \<in> set (ps ?g)" "wt ?g q = Some (Sleeping x)"
      then have "q \<noteq> p" by auto
      then show "x = kstack (procs s q)" using timed_stack [OF tm, of q x] q by simp
    qed
    ultimately show ?thesis unfolding timed_def rest by blast
  qed
  ultimately show ?thesis
    by (intro exI [of _ ?B] exI [of _ ?ch]) (simp add: kinv_def rest)
qed

text \<open>
  What \<open>do_fork\<close>, whose middle is an exercise, has to do to the processes by its comment in kern/process/proc.c: the
  new structure \<open>p\<close>, with the fields \<open>d\<close>, gets a pid, enters the hash table and the process list and is woken.
\<close>

definition new_child :: "proc \<Rightarrow> nat \<Rightarrow> nat \<Rightarrow> kst \<Rightarrow> kst option" where
  "new_child d c p s = do {
     let s = upd_proc p (\<lambda>_. d\<lparr>pstate := PROC_UNINIT, wait_state := 0, parent := Some c, cptr := None, yptr := None,
       optr := None\<rparr>) s;
     (i, s) \<leftarrow> get_pid s;
     let s = upd_proc p (\<lambda>d. d\<lparr>pid := i\<rparr>) s;
     s \<leftarrow> set_links p (hash_proc p s);
     wakeup_proc p s
   }"

text \<open>The structure and the kernel stack come from the allocators: no process has them.\<close>

definition fresh :: "nat \<Rightarrow> nat \<Rightarrow> kst \<Rightarrow> bool" where
  "fresh p ks s \<longleftrightarrow> idleproc s \<noteq> Some p \<and> pstate (procs s p) \<in> {PROC_UNINIT, PROC_ZOMBIE} \<and>
     (\<forall>qs. proc_ring s qs \<longrightarrow> p \<notin> set qs \<and> ks \<notin> (\<lambda>q. kstack (procs s q)) ` set qs)"

lemma get_pid_rest: "get_pid s = Some (i, s') \<Longrightarrow> s' = s\<lparr>last_pid := i, next_safe := next_safe s'\<rparr>"
  by (auto simp: get_pid_def Let_def bind_eq_Some_conv split: if_splits)

lemma new_child_kinv:
  assumes k: "kinv g s" and d: "dying g = None" "off g = {}" and c: "current s = Some c" "pstate (procs s c) = PROC_RUNNABLE"
    and f: "fresh p (kstack e) s" "nr_process s < MAX_PROCESS" and step: "new_child e c p s = Some s'"
  shows "\<exists>qs B chs. kinv (g\<lparr>rq := qs, ps := p # ps g, bk := B, ch := chs, wt := (wt g)(p := None)\<rparr>) s' \<and>
    p \<notin> everyone g \<and> current s' = current s \<and> pstate (procs s' p) = PROC_RUNNABLE \<and>
    (\<forall>q. q \<noteq> p \<longrightarrow> pstate (procs s' q) = pstate (procs s q) \<and> pflags (procs s' q) = pflags (procs s q))"
proof -
  let ?d = "e\<lparr>pstate := PROC_UNINIT, wait_state := 0, parent := Some c, cptr := None, yptr := None, optr := None\<rparr>"
  let ?s0 = "upd_proc p (\<lambda>_. ?d) s"
  have ring: "proc_ring s (ps g)" and m: "pid_map_inv g s" using k by (simp_all add: kinv_def rings_def)
  have p: "p \<notin> set (ps g)" "p \<notin> everyone g" "kstack e \<notin> (\<lambda>q. kstack (procs s q)) ` set (ps g)"
    using f(1) ring k by (auto simp: fresh_def everyone_def kinv_def tree_def)
  have ce: "c \<in> everyone g" "c \<noteq> p" using k c(1) p(2) by (auto simp: kinv_def queued_def)
  obtain i s1 s3 where s1: "get_pid ?s0 = Some (i, s1)"
    and s3: "set_links p (hash_proc p (upd_proc p (\<lambda>d. d\<lparr>pid := i\<rparr>) s1)) = Some s3" "wakeup_proc p s3 = Some s'"
    using step by (auto simp: new_child_def Let_def bind_eq_Some_conv)
  let ?s2 = "upd_proc p (\<lambda>d. d\<lparr>pid := i\<rparr>) s1"
  have old: "procs ?s0 q = procs s q" if "q \<in> set (ps g)" for q using that p(1) by auto
  have "pid_inv ?s0 (ps g)"
    using m ring p(1) by (auto simp: pid_inv_def pid_map_inv_def proc_ring_def unused_def)
  moreover have "int (length (ps g)) < MAX_PID - 1" using m f(2) by (simp add: pid_map_inv_def MAX_PID_def MAX_PROCESS_def)
  ultimately obtain j s1' where j: "get_pid ?s0 = Some (j, s1')" "1 \<le> j" "j < MAX_PID"
    "j \<notin> (\<lambda>q. pid (procs ?s0 q)) ` set (ps g)" "pid_inv s1' (ps g)"
    using get_pid_fresh [of ?s0 "ps g"] by blast
  then have ji: "j = i" "s1' = s1" using s1 by simp_all
  note s1_eq = get_pid_rest [OF s1]
  have "pid_map_inv g ?s2"
  proof -
    have "procs ?s2 q = procs s q" if "q \<in> set (ps g)" for q using that p(1) by (subst s1_eq) auto
    moreover have "pid_inv s1 (ps g)" using j ji by simp
    then have "1 \<le> last_pid s1" "last_pid s1 \<le> MAX_PID" "next_safe s1 \<le> MAX_PID" "unused s1 (ps g) (last_pid s1 + 1) (next_safe s1)"
      by (simp_all add: pid_inv_def)
    moreover have "nr_process ?s2 = nr_process s" by (subst s1_eq) simp
    moreover have "pid (procs s1 q) = pid (procs s q)" if "q \<in> set (ps g)" for q using that p(1) by (subst s1_eq) auto
    ultimately show ?thesis
      using m p(1) by (auto simp: pid_map_inv_def unused_def inj_on_def)
  qed
  then have k2: "kinv g ?s2"
    by (intro unused_kinv [OF k]) (use p(2) in \<open>(subst s1_eq, auto)+\<close>)
  have cur: "procs ?s2 q = procs s q" if "q \<noteq> p" for q using that by (subst s1_eq) simp
  have new: "procs ?s2 p = ?d\<lparr>pid := i\<rparr>" by (subst s1_eq) simp
  have pids: "i \<notin> (\<lambda>q. pid (procs ?s2 q)) ` set (ps g)" "kstack e \<notin> (\<lambda>q. kstack (procs ?s2 q)) ` set (ps g)"
  proof -
    have same: "procs ?s2 q = procs s q" "procs ?s0 q = procs s q" if "q \<in> set (ps g)" for q
      using that p(1) cur [of q] old by auto
    have "(\<lambda>q. pid (procs ?s2 q)) ` set (ps g) = (\<lambda>q. pid (procs ?s0 q)) ` set (ps g)"
      "(\<lambda>q. kstack (procs ?s2 q)) ` set (ps g) = (\<lambda>q. kstack (procs s q)) ` set (ps g)"
      using same by (simp_all cong: image_cong)
    then show "i \<notin> (\<lambda>q. pid (procs ?s2 q)) ` set (ps g)" "kstack e \<notin> (\<lambda>q. kstack (procs ?s2 q)) ` set (ps g)"
      using j(4) p(3) unfolding ji(1) by simp_all
  qed
  have run: "pstate (procs ?s2 c) = PROC_RUNNABLE" using cur [OF ce(2)] c(2) by (simp only:)
  have fields: "parent (procs ?s2 p) = Some c" "cptr (procs ?s2 p) = None" "pstate (procs ?s2 p) = PROC_UNINIT"
    "pid (procs ?s2 p) = i" "kstack (procs ?s2 p) = kstack e" unfolding new by simp_all
  have num: "nr_process ?s2 = nr_process s" "last_pid ?s2 = i" by (subst s1_eq, simp)+
  have "valid_pid (pid (procs ?s2 p))" "pid (procs ?s2 p) \<notin> (\<lambda>q. pid (procs ?s2 q)) ` set (ps g)"
    "pid (procs ?s2 p) = last_pid ?s2" "kstack (procs ?s2 p) \<notin> (\<lambda>q. kstack (procs ?s2 q)) ` set (ps g)"
    "nr_process ?s2 < MAX_PROCESS"
    unfolding fields num using pids j(2,3) ji(1) f(2) by (simp_all add: valid_pid_def)
  from birth_kinv [OF k2 d ce(1) run p(2) fields(1-3) this s3(1)] obtain B chs where
    b: "kinv (g\<lparr>ps := p # ps g, bk := B, ch := chs, wt := (wt g)(p := None), off := {p}\<rparr>) s3"
    (is "kinv ?g s3") "current s3 = current ?s2"
    "\<forall>q. pstate (procs s3 q) = pstate (procs ?s2 q) \<and> pflags (procs s3 q) = pflags (procs ?s2 q)" by blast
  have "p \<in> set (ps ?g)" by simp
  from wakeup_kinv [OF b(1) s3(2) this] obtain qs where "kinv (?g\<lparr>rq := qs, off := off ?g - {p}\<rparr>) s'" by blast
  moreover have "?g\<lparr>rq := qs, off := off ?g - {p}\<rparr> = g\<lparr>rq := qs, ps := p # ps g, bk := B, ch := chs, wt := (wt g)(p := None)\<rparr>"
    using d(2) by (cases g) simp
  moreover have "current ?s2 = current s" by (subst s1_eq) simp
  ultimately show ?thesis
    using b(2,3) cur p(2) wakeup_proc_procs(7,8,11) [OF s3(2)] wakeup_rest(1) [OF s3(2)]
    by (intro exI [of _ qs] exI [of _ B] exI [of _ chs]) auto
qed

end
