(* ===== verification/Kernel_Steps.thy ===== *)
theory Kernel_Steps
  imports Syscall Proc_Keep
begin

text \<open>
  The kernel as a machine: traps, calls of kernel threads and the switches between processes are its steps. A
  process that called \<open>schedule\<close> has a \<open>point\<close> where it goes on. In every reachable state the invariant of the
  processes (Proc_Inv) holds: the run queue holds the runnable processes, and no wake-up is lost.
\<close>

subsection \<open>Steps\<close>

record machine =
  kern :: kernel
  points :: "nat \<Rightarrow> point option"

definition dead :: "kst \<Rightarrow> nat \<Rightarrow> bool" where
  "dead s p \<longleftrightarrow> pstate (procs s p) \<in> {PROC_UNINIT, PROC_ZOMBIE}"

text \<open>A process born in a step has no point: it starts at \<open>forkret\<close>.\<close>

definition starts :: "kernel \<Rightarrow> kernel \<Rightarrow> (nat \<Rightarrow> point option) \<Rightarrow> (nat \<Rightarrow> point option)" where
  "starts k k' pt = (\<lambda>p. if dead (kproc k) p \<and> \<not> dead (kproc k') p then None else pt p)"

definition leave :: "nat \<Rightarrow> trap_end \<Rightarrow> (nat \<Rightarrow> point option) \<Rightarrow> (nat \<Rightarrow> point option)" where
  "leave c e pt = pt(c := (case e of Schedules x \<Rightarrow> Some x | _ \<Rightarrow> None))"

text \<open>The calls of the kernel threads: \<open>init_main\<close> waits, forks and calls \<open>schedule\<close>; a thread whose function
  returns exits. \<open>cpu_idle\<close> only calls \<open>schedule\<close>.\<close>

datatype kcall = Wait_for int | Sleep_for nat | Fork "32 word" nat | Quit int | Yield

definition thread_end :: "outcome \<times> kernel \<Rightarrow> trap_end \<times> kernel" where
  "thread_end r = (case r of (Ret v, k) \<Rightarrow> (Returned, k) | (Blocks b, k) \<Rightarrow> (Schedules (In_thread b), k))"

fun thread_call :: "exercises \<Rightarrow> kcall \<Rightarrow> kernel \<Rightarrow> (trap_end \<times> kernel) option" where
  "thread_call ex (Wait_for i) k = map_option thread_end (do_wait i 0 k)"
| "thread_call ex (Sleep_for n) k = map_option thread_end (do_sleep_call n k)"
| "thread_call ex (Fork cf t) k = map_option thread_end (returns (do_fork ex (or cf CLONE_VM) 0 t k))"
| "thread_call ex (Quit code) k = map_option thread_end (do_exit code k)"
| "thread_call ex Yield k = Some (Schedules In_tail, k)"

text \<open>A trap stores the registers in a frame first. A user program writes to its pages.\<close>

inductive step :: "exercises \<Rightarrow> (nat \<Rightarrow> kst \<Rightarrow> kst option) \<Rightarrow> machine \<Rightarrow> machine \<Rightarrow> bool" for ex run where
  trap_step: "\<lbrakk>current (kproc k) = Some c; pt c = None; Some c \<noteq> idleproc (kproc k) \<or> sint (cause f) < 0;
    trap ex key t (k\<lparr>tframes := (tframes k)(t := f)\<rparr>) = Some (e, k')\<rbrakk> \<Longrightarrow>
    step ex run \<lparr>kern = k, points = pt\<rparr> \<lparr>kern = k', points = leave c e (starts k k' pt)\<rparr>"
| thread_step: "\<lbrakk>current (kproc k) = Some c; pt c = None; proc_mm (procs (kproc k) c) = None;
    Some c \<noteq> idleproc (kproc k) \<or> a = Yield; thread_call ex a k = Some (e, k')\<rbrakk> \<Longrightarrow>
    step ex run \<lparr>kern = k, points = pt\<rparr> \<lparr>kern = k', points = leave c e (starts k k' pt)\<rparr>"
| switch_step: "\<lbrakk>current (kproc k) = Some c; pt c = Some x; on_procs (schedule run) k = Some k1; current (kproc k1) = Some n;
    (case pt n of None \<Rightarrow> Some (Returned, k1) | Some y \<Rightarrow> resume y k1) = Some (e, k')\<rbrakk> \<Longrightarrow>
    step ex run \<lparr>kern = k, points = pt\<rparr> \<lparr>kern = k', points = leave n e (starts k1 k' pt)\<rparr>"
| store_step: "\<lbrakk>current (kproc k) = Some c; pt c = None\<rbrakk> \<Longrightarrow>
    step ex run \<lparr>kern = k, points = pt\<rparr> \<lparr>kern = set_kvm ((kvm k)\<lparr>frames := fr\<rparr>) k, points = pt\<rparr>"

inductive_cases stepE: "step ex run m m'"

subsection \<open>What the unwritten parts have to do\<close>

text \<open>
  \<open>do_fork\<close> fails without a change to the processes, or makes a child as its comment says; \<open>load_icode\<close> changes the
  memory and the trap frame, and of the processes only what the invariant does not read; \<open>proc_run\<close> switches.
\<close>

definition forks :: "kernel \<Rightarrow> kernel \<Rightarrow> bool" where
  "forks k k' \<longleftrightarrow> quiet (kproc k) (kproc k') \<or>
     (\<exists>d p c. current (kproc k) = Some c \<and> fresh p (kstack d) (kproc k) \<and> nr_process (kproc k) < MAX_PROCESS \<and>
       new_child d c p (kproc k) = Some (kproc k'))"

definition completed :: "exercises \<Rightarrow> bool" where
  "completed ex \<longleftrightarrow> (\<forall>cf stack t k r k'. do_fork ex cf stack t k = Some (r, k') \<longrightarrow> forks k k') \<and>
     (\<forall>d argv k r k'. load_icode ex d argv k = Some (r, k') \<longrightarrow> quiet (kproc k) (kproc k'))"

subsection \<open>The invariant\<close>

fun cont_of :: "point option \<Rightarrow> cont option" where
  "cont_of (Some (In_call b t otf in_kernel ebreak)) = Some b"
| "cont_of (Some (In_thread b)) = Some b"
| "cont_of (Some In_exit) = Some Exited"
| "cont_of _ = None"

definition at_rest :: "ghost \<Rightarrow> kst \<Rightarrow> bool" where
  "at_rest g s \<longleftrightarrow> kinv g s \<and> dying g = None \<and> off g = {}"

definition fits :: "ghost \<Rightarrow> kst \<Rightarrow> (nat \<Rightarrow> point option) \<Rightarrow> bool" where
  "fits g s pt \<longleftrightarrow> (\<forall>p \<in> set (ps g). pstate (procs s p) \<noteq> PROC_ZOMBIE \<longrightarrow> wt g p = cont_of (pt p)) \<and>
     pt (idle g) \<in> {None, Some In_tail} \<and>
     (\<forall>c. current s = Some c \<and> cont_of (pt c) = None \<longrightarrow> pstate (procs s c) = PROC_RUNNABLE)"

definition minv :: "machine \<Rightarrow> bool" where
  "minv m \<longleftrightarrow> (\<exists>g. at_rest g (kproc (kern m)) \<and> fits g (kproc (kern m)) (points m))"

text \<open>The process \<open>c\<close> runs, is about to call \<open>schedule\<close>, or has just been switched to.\<close>

definition running :: "ghost \<Rightarrow> nat \<Rightarrow> kernel \<Rightarrow> bool" where
  "running g c k \<longleftrightarrow> at_rest g (kproc k) \<and> current (kproc k) = Some c \<and> pstate (procs (kproc k) c) = PROC_RUNNABLE \<and>
     (c \<in> set (ps g) \<longrightarrow> wt g c = None)"

definition halted :: "ghost \<Rightarrow> nat \<Rightarrow> cont \<Rightarrow> kernel \<Rightarrow> bool" where
  "halted g c b k \<longleftrightarrow> at_rest g (kproc k) \<and> current (kproc k) = Some c \<and> c \<in> set (ps g) \<and> wt g c = Some b"

text \<open>What a step of the process \<open>c\<close> does to the others.\<close>

definition others :: "nat \<Rightarrow> ghost \<Rightarrow> kst \<Rightarrow> ghost \<Rightarrow> kst \<Rightarrow> bool" where
  "others c g s g' s' \<longleftrightarrow> idle g' = idle g \<and> (\<forall>p. p \<noteq> c \<and> \<not> dead s p \<longrightarrow> \<not> dead s' p) \<and>
     (\<forall>p \<in> set (ps g'). p \<noteq> c \<and> pstate (procs s' p) \<noteq> PROC_ZOMBIE \<longrightarrow>
       p \<in> set (ps g) \<and> pstate (procs s p) \<noteq> PROC_ZOMBIE \<and> wt g' p = wt g p \<or> dead s p \<and> wt g' p = None)"

definition moves :: "ghost \<Rightarrow> nat \<Rightarrow> kernel \<Rightarrow> kernel \<Rightarrow> bool" where
  "moves g c k k' \<longleftrightarrow> (\<exists>g'. others c g (kproc k) g' (kproc k') \<and> running g' c k')"

definition goes :: "ghost \<Rightarrow> nat \<Rightarrow> kernel \<Rightarrow> outcome \<times> kernel \<Rightarrow> bool" where
  "goes g c k r \<longleftrightarrow> (\<exists>g'. others c g (kproc k) g' (kproc (snd r)) \<and>
     (case fst r of Ret v \<Rightarrow> running g' c (snd r) | Blocks b \<Rightarrow> halted g' c b (snd r)))"

definition ends :: "ghost \<Rightarrow> nat \<Rightarrow> kernel \<Rightarrow> trap_end \<times> kernel \<Rightarrow> bool" where
  "ends g c k r \<longleftrightarrow> (\<exists>g'. others c g (kproc k) g' (kproc (snd r)) \<and>
     (case fst r of
        Schedules x \<Rightarrow> (case cont_of (Some x) of None \<Rightarrow> running g' c (snd r) | Some b \<Rightarrow> halted g' c b (snd r))
      | _ \<Rightarrow> running g' c (snd r)))"

lemma others_refl [simp]: "others c g s g s" by (simp add: others_def)

lemma others_point:
  "others c g s g' s' \<Longrightarrow> p \<in> set (ps g') \<Longrightarrow> p \<noteq> c \<Longrightarrow> pstate (procs s' p) \<noteq> PROC_ZOMBIE \<Longrightarrow>
   p \<in> set (ps g) \<and> pstate (procs s p) \<noteq> PROC_ZOMBIE \<and> wt g' p = wt g p \<or> dead s p \<and> wt g' p = None"
  by (simp add: others_def)

lemma others_trans:
  assumes "others c g s g1 s1" and "others c g1 s1 g2 s2"
  shows "others c g s g2 s2"
  using assms unfolding others_def by metis

subsection \<open>Operations that leave the processes alone\<close>

named_theorems frame

lemma set_kvm_kproc [simp]: "kproc (set_kvm v k) = kproc k" by (simp add: set_kvm_def)

lemma on_fs_kproc [frame]: "on_fs f k = Some (r, k') \<Longrightarrow> kproc k' = kproc k"
  by (auto simp: on_fs_def bind_eq_Some_conv)

lemma fs_do_kproc [frame]: "fs_do f k = Some k' \<Longrightarrow> kproc k' = kproc k"
  by (auto simp: fs_do_def bind_eq_Some_conv)

lemma on_vm_kproc [frame]: "on_vm f k = Some (r, k') \<Longrightarrow> kproc k' = kproc k"
  by (auto simp: on_vm_def bind_eq_Some_conv)

lemma vm_do_kproc [frame]: "vm_do f k = Some k' \<Longrightarrow> kproc k' = kproc k"
  by (auto simp: vm_do_def bind_eq_Some_conv)

lemma put_kstack_kproc [frame]: "put_kstack p k = Some k' \<Longrightarrow> kproc k' = kproc k"
  by (auto simp: put_kstack_def bind_eq_Some_conv dest: frame)

lemma put_pgdir_kproc [frame]: "put_pgdir m k = Some k' \<Longrightarrow> kproc k' = kproc k"
  by (auto simp: put_pgdir_def dest: frame)

lemma lock_mm_kproc [frame]: "lock_mm m k = Some k' \<Longrightarrow> kproc k' = kproc k"
  by (auto simp: lock_mm_def bind_eq_Some_conv Let_def split: option.splits)

lemma unlock_mm_kproc [simp]: "kproc (unlock_mm m k) = kproc k" by (simp add: unlock_mm_def split: option.split)

lemma leave_mm_kproc [frame]: "leave_mm m k = Some k' \<Longrightarrow> kproc k' = kproc k"
  by (auto simp: leave_mm_def bind_eq_Some_conv split: if_splits dest!: frame)

lemma put_files_kproc [frame]: "put_files p k = Some k' \<Longrightarrow> kproc k' = kproc k"
  by (auto simp: put_files_def bind_eq_Some_conv split: option.splits if_splits dest!: frame)

lemma pgfault_kproc [frame]: "pgfault_handler t k = Some (r, k') \<Longrightarrow> kproc k' = kproc k"
  by (auto simp: pgfault_handler_def bind_eq_Some_conv dest!: frame)

lemma fs_call_kproc: "fs_call f k = Some (r, k') \<Longrightarrow> kproc k' = kproc k \<and> (\<exists>v. r = Ret v)"
  by (auto simp: fs_call_def returns_def bind_eq_Some_conv dest!: frame)

subsection \<open>What runs stays sound\<close>

lemma others_wakes:
  assumes "only_wakes s s'" and "set (ps g') \<subseteq> set (ps g)" and "idle g' = idle g" and "\<And>p. p \<noteq> c \<Longrightarrow> wt g' p = wt g p"
  shows "others c g s g' s'"
  using assms unfolding others_def only_wakes_def dead_def by (metis empty_iff insert_iff proc_state.distinct subsetD)

lemma others_but:
  assumes "only_wakes (upd_proc c f s) s'" and "set (ps g') \<subseteq> set (ps g)" and "idle g' = idle g" and "\<And>p. p \<noteq> c \<Longrightarrow> wt g' p = wt g p"
  shows "others c g s g' s'"
proof -
  have "others c g (upd_proc c f s) g' s'" by (rule others_wakes [OF assms])
  then show ?thesis unfolding others_def dead_def by (simp split: if_splits)
qed

lemma moves_refl: "running g c k \<Longrightarrow> kproc k' = kproc k \<Longrightarrow> moves g c k k'"
  unfolding moves_def by (rule exI [of _ g]) (simp add: running_def)

lemma moves_quiet:
  assumes "running g c k" and "quiet (kproc k) (kproc k')"
  shows "moves g c k k'"
proof -
  have "kinv g (kproc k')" using quiet_kinv assms by (auto simp: running_def at_rest_def)
  then have "running g c k'" using assms by (simp add: running_def at_rest_def quiet_def same_states_def)
  moreover have "others c g (kproc k) g (kproc k')" by (rule others_wakes [OF quiet_only [OF assms(2)]]) simp_all
  ultimately show ?thesis by (auto simp: moves_def)
qed

lemma moves_wakes:
  assumes r: "running g c k" and k': "kinv g' (kproc k')" "only_wakes (kproc k) (kproc k')"
    and g': "ps g' = ps g" "idle g' = idle g" "wt g' = wt g" "dying g' = dying g" "off g' = off g"
  shows "moves g c k k'"
proof -
  have "pstate (procs (kproc k') c) = PROC_RUNNABLE" using k'(2) r unfolding running_def only_wakes_def by metis
  then have "running g' c k'" using r k' g' by (simp add: running_def at_rest_def only_wakes_def)
  moreover have "others c g (kproc k) g' (kproc k')" by (rule others_wakes [OF k'(2)]) (use g' in simp_all)
  ultimately show ?thesis by (auto simp: moves_def)
qed

lemma moves_trans:
  assumes "moves g c k k1" and "\<And>g1. running g1 c k1 \<Longrightarrow> moves g1 c k1 k2"
  shows "moves g c k k2"
  using assms unfolding moves_def by (metis others_trans)

lemma moves_goes:
  assumes "moves g c k k1" and "\<And>g1. running g1 c k1 \<Longrightarrow> goes g1 c k1 r"
  shows "goes g c k r"
  using assms unfolding moves_def goes_def by (metis others_trans)

lemma moves_ends:
  assumes "moves g c k k1" and "\<And>g1. running g1 c k1 \<Longrightarrow> ends g1 c k1 r"
  shows "ends g c k r"
  using assms unfolding moves_def ends_def by (metis others_trans)

lemma goes_Ret: "goes g c k (Ret v, k') \<longleftrightarrow> moves g c k k'"
  by (simp add: goes_def moves_def)

lemma running_not_idle:
  assumes "running g c k" and "Some c \<noteq> idleproc (kproc k)"
  shows "c \<in> set (ps g)" and "wt g c = None"
proof -
  have "kinv g (kproc k)" "current (kproc k) = Some c" using assms(1) by (simp_all add: running_def at_rest_def)
  then show "c \<in> set (ps g)" using assms(2) by (auto simp: kinv_def queued_def tree_def everyone_def)
  then show "wt g c = None" using assms(1) by (simp add: running_def)
qed

subsection \<open>Exit, wait and sleep\<close>

lemma clear_mm_quiet: "quiet (kproc k) (kproc (clear_mm c k))"
  by (simp add: clear_mm_def upd_kproc_def)

lemma exit_family_goes:
  assumes r: "running g c k" and c: "Some c \<noteq> idleproc (kproc k)" "Some c \<noteq> initproc (kproc k)"
    and step: "exit_family code (kproc k) = Some s'"
  shows "goes g c k (Blocks Exited, k\<lparr>kproc := s'\<rparr>)"
proof -
  have k: "kinv g (kproc k)" "dying g = None" "off g = {}" "current (kproc k) = Some c"
    using r by (simp_all add: running_def at_rest_def)
  note p = running_not_idle [OF r c(1)]
  have i: "c \<noteq> ini g" using k(1) c(2) by (auto simp: kinv_def tree_def)
  from exit_kinv [OF k(1,4) p(1) i k(2,3) _ step] p(2) obtain qs chs where
    e: "kinv (g\<lparr>rq := qs, ch := chs\<rparr>) s'" "only_wakes (upd_proc c (\<lambda>d. d\<lparr>pstate := PROC_ZOMBIE, exit_code := code\<rparr>) (kproc k)) s'"
    by auto
  have z: "pstate (procs s' c) = PROC_ZOMBIE" using only_wakes_zombie [OF e(2), of c] by simp
  let ?g = "g\<lparr>rq := qs, ch := chs\<rparr>\<lparr>wt := (wt (g\<lparr>rq := qs, ch := chs\<rparr>))(c := Some Exited)\<rparr>"
  have "kinv ?g s'" by (rule wt_kinv [OF e(1)]) (use z p(2) in simp_all)
  then have "halted ?g c Exited (k\<lparr>kproc := s'\<rparr>)"
    using k(2-4) p(1) e(2) by (simp add: halted_def at_rest_def only_wakes_def)
  moreover have "others c g (kproc k) ?g s'" by (rule others_but [OF e(2)]) simp_all
  ultimately show ?thesis unfolding goes_def by (intro exI [of _ ?g]) simp
qed

lemma do_exit_goes:
  assumes r: "running g c k" and step: "do_exit code k = Some (r', k')"
  shows "goes g c k (r', k')"
proof -
  have c: "current (kproc k) = Some c" using r by (simp add: running_def)
  obtain k1 s' where k1: "Some c \<noteq> idleproc (kproc k)" "Some c \<noteq> initproc (kproc k)"
    "(case proc_mm (procs (kproc k) c) of None \<Rightarrow> Some k
      | Some m \<Rightarrow> do { k \<leftarrow> leave_mm m k; put_files c (clear_mm c k) }) = Some k1"
    "exit_family code (kproc k1) = Some s'" "r' = Blocks Exited" "k' = k1\<lparr>kproc := s'\<rparr>"
    using step c by (auto simp: do_exit_def on_procs_def bind_eq_Some_conv split: if_splits)
  have q: "quiet (kproc k) (kproc k1)"
  proof (cases "proc_mm (procs (kproc k) c)")
    case (Some m)
    then obtain k0 where "leave_mm m k = Some k0" "put_files c (clear_mm c k0) = Some k1"
      using k1(3) by (auto simp: bind_eq_Some_conv)
    then have "kproc k0 = kproc k" "kproc k1 = kproc (clear_mm c k0)" by (auto dest: frame)
    then show ?thesis using clear_mm_quiet [of k0 c] by simp
  qed (use k1(3) in simp)
  show ?thesis
  proof (rule moves_goes [OF moves_quiet [OF r q]])
    fix g1 assume "running g1 c k1"
    then show "goes g1 c k1 (r', k')"
      using exit_family_goes [OF _ _ _ k1(4)] k1(1,2,5,6) q by (simp add: quiet_def same_kin_def)
  qed
qed

lemma wait_found_moves:
  assumes r: "running g c k" and c: "c \<in> set (ps g)" and q: "q \<in> set (ch g c)" "pstate (procs (kproc k) q) = PROC_ZOMBIE"
    and step: "wait_found q st k = Some (r', k')"
  shows "goes g c k (r', k')"
proof -
  have k: "kinv g (kproc k)" "dying g = None" "off g = {}" "current (kproc k) = Some c" "pstate (procs (kproc k) c) = PROC_RUNNABLE"
    using r by (simp_all add: running_def at_rest_def)
  obtain code s where s: "wait_reap q (kproc k) = Some (code, s)" "kproc k' = s" "r' = Ret 0"
    using step unfolding wait_found_def by (auto simp: bind_eq_Some_conv Let_def dest!: frame split: if_splits)
  have "q \<noteq> c" using q(2) k(5) by auto
  then obtain B where B: "kinv (g\<lparr>ps := remove1 q (ps g), bk := B, ch := (ch g)(c := remove1 q (ch g c))\<rparr>) s" (is "kinv ?g s")
    "current s = current (kproc k)" "\<forall>p. pstate (procs s p) = pstate (procs (kproc k) p)"
    using reap_kinv [OF k(1,2) c q(1) _ q(2) _ s(1)] k(4,5) by auto
  have "running ?g c k'" using B k r s(2) \<open>q \<noteq> c\<close> by (auto simp: running_def at_rest_def)
  moreover have "others c g (kproc k) ?g (kproc k')"
    by (rule others_wakes) (use B s(2) set_remove1_subset [of q "ps g"] in \<open>auto simp: only_wakes_def\<close>)
  ultimately show ?thesis using s(3) by (auto simp: goes_Ret moves_def)
qed

lemma wait_repeat_goes:
  assumes r: "running g c k" and i: "Some c \<noteq> idleproc (kproc k)" and step: "wait_repeat i st k = Some (r', k')"
  shows "goes g c k (r', k')"
proof -
  have k: "kinv g (kproc k)" "dying g = None" "off g = {}" "current (kproc k) = Some c" "pstate (procs (kproc k) c) = PROC_RUNNABLE"
    using r by (simp_all add: running_def at_rest_def)
  note p = running_not_idle [OF r i]
  obtain h z where l: "wait_look i (kproc k) = Some (h, z)" using step by (auto simp: wait_repeat_def bind_eq_Some_conv)
  note look = wait_look_kinv [OF k(1,4) p(1) k(2) l]
  show ?thesis
  proof (cases z)
    case (Some q)
    then have "wait_found q st k = Some (r', k')" using step l by (simp add: wait_repeat_def)
    moreover have "q \<in> set (ch g c)" "pstate (procs (kproc k) q) = PROC_ZOMBIE" using look Some by simp_all
    ultimately show ?thesis using wait_found_moves [OF r p(1)] by blast
  next
    case None
    show ?thesis
    proof (cases h)
      case True
      then have e: "r' = Blocks (Waiting i st)" "k' = upd_kproc (wait_sleep c) k"
        using step l None k(4) by (auto simp: wait_repeat_def)
      let ?g = "g\<lparr>wt := (wt g)(c := Some (Waiting i st))\<rparr>"
      have "kinv ?g (wait_sleep c (kproc k))"
        by (rule wait_sleep_kinv [OF k(1,3,4) p(1) k(2)]) (use p(2) k(5) l None True in auto)
      then have "halted ?g c (Waiting i st) k'" using k p e by (simp add: halted_def at_rest_def upd_kproc_def wait_sleep_def)
      moreover have "others c g (kproc k) ?g (kproc k')"
        unfolding e(2) upd_kproc_def wait_sleep_def by (simp, rule others_but [OF only_wakes_refl]) simp_all
      ultimately show ?thesis using e(1) by (auto simp: goes_def)
    next
      case False
      then show ?thesis using step l None r by (auto simp: wait_repeat_def goes_Ret moves_refl)
    qed
  qed
qed

lemma do_wait_goes:
  assumes r: "running g c k" and i: "Some c \<noteq> idleproc (kproc k)" and step: "do_wait i st k = Some (r', k')"
  shows "goes g c k (r', k')"
proof -
  obtain mm ok k1 where k1: "(if st \<noteq> 0 then on_vm (user_mem_check mm st 4 True) k else Some (True, k)) = Some (ok, k1)"
    "(if \<not> ok then Some (Ret (- E_INVAL), k1) else wait_repeat i st k1) = Some (r', k')"
    using step by (auto simp: do_wait_def bind_eq_Some_conv)
  have e: "kproc k1 = kproc k" using k1(1) by (auto split: if_splits dest: frame)
  show ?thesis
  proof (rule moves_goes [OF moves_refl [OF r e]])
    fix g1 assume "running g1 c k1"
    then show "goes g1 c k1 (r', k')"
      using k1(2) wait_repeat_goes [of g1 c k1] i e by (cases ok) (auto simp: goes_Ret moves_refl)
  qed
qed

lemma do_sleep_goes:
  assumes r: "running g c k" and i: "Some c \<noteq> idleproc (kproc k)" and step: "do_sleep_call n k = Some (r', k')"
  shows "goes g c k (r', k')"
proof (cases "n = 0")
  case True
  then show ?thesis using step r by (auto simp: do_sleep_call_def goes_Ret moves_refl)
next
  case False
  have k: "kinv g (kproc k)" "dying g = None" "off g = {}" "current (kproc k) = Some c" "pstate (procs (kproc k) c) = PROC_RUNNABLE"
    using r by (simp_all add: running_def at_rest_def)
  note p = running_not_idle [OF r i]
  let ?t = "kstack (procs (kproc k) c)"
  obtain s where s: "sleep_begin ?t n (kproc k) = Some s" "r' = Blocks (Sleeping ?t)" "k' = k\<lparr>kproc := s\<rparr>"
    using step False k(4) by (auto simp: do_sleep_call_def on_procs_def bind_eq_Some_conv Let_def)
  from sleep_begin_kinv [OF k(1,4) p k(5) s(1)] obtain us where
    u: "kinv (g\<lparr>ts := us, wt := (wt g)(c := Some (Sleeping ?t))\<rparr>) s" (is "kinv ?g s") "current s = current (kproc k)" by blast
  have "halted ?g c (Sleeping ?t) k'" using u k p s(3) by (simp add: halted_def at_rest_def)
  moreover have "procs s = procs (upd_proc c (\<lambda>d. d\<lparr>pstate := PROC_SLEEPING, wait_state := WT_TIMER\<rparr>) (kproc k))"
    using sleep_begin_procs [OF s(1) k(4)] .
  then have "only_wakes (upd_proc c (\<lambda>d. d\<lparr>pstate := PROC_SLEEPING, wait_state := WT_TIMER\<rparr>) (kproc k)) s"
    using u(2) by (simp add: only_wakes_def)
  then have "others c g (kproc k) ?g s" by (rule others_but) simp_all
  ultimately show ?thesis using s(2,3) by (auto simp: goes_def)
qed

subsection \<open>System calls\<close>

lemma set_proc_name_quiet: "quiet s (set_proc_name p m a s)"
  by (simp add: set_proc_name_def)

lemma exec_failed_goes: "running g c k \<Longrightarrow> exec_failed ret kargv k = Some (r', k') \<Longrightarrow> goes g c k (r', k')"
  unfolding exec_failed_def by (auto simp: bind_eq_Some_conv dest!: frame intro: moves_goes [OF moves_refl] do_exit_goes)

lemma goes_moved: "running g c k \<Longrightarrow> kproc k1 = kproc k \<Longrightarrow> (\<And>g1. running g1 c k1 \<Longrightarrow> goes g1 c k1 r) \<Longrightarrow> goes g c k r"
  by (rule moves_goes [OF moves_refl])

lemma exec_load_goes:
  assumes r: "running g c k" and ex: "completed ex" and step: "exec_load (load_icode ex) c mm fname kargv k = Some (r', k')"
  shows "goes g c k (r', k')"
proof -
  obtain d k1 where d: "on_fs (sysfile_open mm fname O_RDONLY) k = Some (d, k1)"
    "(if d < 0 then exec_failed d kargv k1 else do {
       k \<leftarrow> (case mm of None \<Rightarrow> Some k1 | Some m \<Rightarrow> do { k \<leftarrow> leave_mm m k1; Some (clear_mm c k) });
       (ret, k) \<leftarrow> load_icode ex d kargv k;
       if ret \<noteq> 0 then exec_failed ret kargv k else do {
         k \<leftarrow> fs_do (put_kargv (length kargv) kargv) k;
         Some (Ret 0, upd_kproc (set_proc_name c (kmem (kfs k)) kstack_name) k)
       }
     }) = Some (r', k')"
    using step by (auto simp: exec_load_def bind_eq_Some_conv)
  have e: "kproc k1 = kproc k" using d(1) by (rule frame)
  show ?thesis
  proof (cases "d < 0")
    case True
    then show ?thesis using d(2) by (auto intro: goes_moved [OF r e] exec_failed_goes)
  next
    case False
    then obtain k2 k3 ret where k2: "(case mm of None \<Rightarrow> Some k1 | Some m \<Rightarrow> do { k \<leftarrow> leave_mm m k1; Some (clear_mm c k) }) = Some k2"
      "load_icode ex d kargv k2 = Some (ret, k3)"
      "(if ret \<noteq> 0 then exec_failed ret kargv k3 else do {
         k \<leftarrow> fs_do (put_kargv (length kargv) kargv) k3;
         Some (Ret 0, upd_kproc (set_proc_name c (kmem (kfs k)) kstack_name) k)
       }) = Some (r', k')"
      using d(2) by (auto simp: bind_eq_Some_conv)
    have "quiet (kproc k) (kproc k2)"
      using k2(1) e clear_mm_quiet by (auto simp: bind_eq_Some_conv split: option.splits dest!: frame) metis
    moreover have "quiet (kproc k2) (kproc k3)" using ex k2(2) by (auto simp: completed_def)
    ultimately have q: "quiet (kproc k) (kproc k3)" by (rule quiet_trans)
    show ?thesis
    proof (cases "ret = 0")
      case True
      then have "r' = Ret 0" "quiet (kproc k) (kproc k')"
        using k2(3) q set_proc_name_quiet by (auto simp: upd_kproc_def bind_eq_Some_conv dest!: frame intro: quiet_trans)
      then show ?thesis using moves_quiet [OF r] by (simp add: goes_Ret)
    next
      case False
      then show ?thesis using k2(3) by (auto intro: moves_goes [OF moves_quiet [OF r q]] exec_failed_goes)
    qed
  qed
qed

lemma exec_args_goes:
  assumes r: "running g c k" and ex: "completed ex" and step: "exec_args (load_icode ex) c mm argc argv k = Some (r', k')"
  shows "goes g c k (r', k')"
proof -
  obtain ret kargv k1 where k1:
    "on_fs (\<lambda>s. do { (r, b, s) \<leftarrow> copy_kargv mm argc argv s; Some ((r, b), s) }) k = Some ((ret, kargv), k1)"
    "(if ret \<noteq> 0 then Some (Ret ret, unlock_mm mm k1) else do {
       let fname = ld64 (kmem (kfs k1)) argv;
       let k = unlock_mm mm k1;
       f \<leftarrow> proc.filesp (procs (kproc k) c);
       k \<leftarrow> fs_do (files_closeall f) k;
       exec_load (load_icode ex) c mm fname kargv k
     }) = Some (r', k')"
    using step by (auto simp: exec_args_def bind_eq_Some_conv)
  have e: "kproc k1 = kproc k" using k1(1) by (rule frame)
  show ?thesis
  proof (cases "ret = 0")
    case True
    then obtain f k2 where k2: "fs_do (files_closeall f) (unlock_mm mm k1) = Some k2"
      "exec_load (load_icode ex) c mm (ld64 (kmem (kfs k1)) argv) kargv k2 = Some (r', k')"
      using k1(2) by (auto simp: bind_eq_Some_conv Let_def)
    have "kproc k2 = kproc k" using k2(1) e by (auto dest: frame)
    then show ?thesis by (rule goes_moved [OF r]) (rule exec_load_goes [OF _ ex k2(2)])
  next
    case False
    then show ?thesis using k1(2) e moves_refl [OF r] by (auto simp: goes_Ret)
  qed
qed

lemma execve_goes:
  assumes r: "running g c k" and ex: "completed ex" and step: "do_execve (load_icode ex) nm argc argv k = Some (r', k')"
  shows "goes g c k (r', k')"
proof -
  have c: "current (kproc k) = Some c" using r by (simp add: running_def)
  let ?mm = "proc_mm (procs (kproc k) c)"
  show ?thesis
  proof (cases "argc \<ge> 1 \<and> argc \<le> EXEC_MAX_ARG_NUM")
    case True
    then obtain k1 k2 ok where k1: "lock_mm ?mm k = Some k1" "on_fs (exec_name ?mm nm (pid (procs (kproc k1) c))) k1 = Some (ok, k2)"
      "(if \<not> ok then Some (Ret (- E_INVAL), unlock_mm ?mm k2) else exec_args (load_icode ex) c ?mm (nat argc) argv k2) = Some (r', k')"
      using step c by (auto simp: do_execve_def bind_eq_Some_conv Let_def)
    have e: "kproc k2 = kproc k" using k1(1,2) by (auto dest!: frame)
    show ?thesis
    proof (cases ok)
      case True
      then have "exec_args (load_icode ex) c ?mm (nat argc) argv k2 = Some (r', k')" using k1(3) by simp
      then show ?thesis by (intro goes_moved [OF r e]) (rule exec_args_goes [OF _ ex])
    qed (use k1(3) e moves_refl [OF r] in \<open>auto simp: goes_Ret\<close>)
  next
    case False
    then have "r' = Ret (- E_INVAL)" "k' = k" using step c by (auto simp: do_execve_def Let_def split: if_splits)
    then show ?thesis using moves_refl [OF r] by (simp add: goes_Ret)
  qed
qed

lemma forks_moves:
  assumes r: "running g c k" and f: "forks k k'"
  shows "moves g c k k'"
proof (cases "quiet (kproc k) (kproc k')")
  case True
  then show ?thesis by (rule moves_quiet [OF r])
next
  case False
  have k: "kinv g (kproc k)" "dying g = None" "off g = {}" "current (kproc k) = Some c" "pstate (procs (kproc k) c) = PROC_RUNNABLE"
    using r by (simp_all add: running_def at_rest_def)
  obtain d p where d: "fresh p (kstack d) (kproc k)" "nr_process (kproc k) < MAX_PROCESS" "new_child d c p (kproc k) = Some (kproc k')"
    using f False k(4) by (auto simp: forks_def)
  from new_child_kinv [OF k(1-5) d] obtain qs B chs where
    n: "kinv (g\<lparr>rq := qs, ps := p # ps g, bk := B, ch := chs, wt := (wt g)(p := None)\<rparr>) (kproc k')" (is "kinv ?g _")
    "p \<notin> everyone g" "current (kproc k') = current (kproc k)" "pstate (procs (kproc k') p) = PROC_RUNNABLE"
    "\<forall>q. q \<noteq> p \<longrightarrow> pstate (procs (kproc k') q) = pstate (procs (kproc k) q) \<and> pflags (procs (kproc k') q) = pflags (procs (kproc k) q)"
    by blast
  have "c \<in> everyone g" using k(1,4) by (auto simp: kinv_def queued_def)
  then have "c \<noteq> p" using n(2) by auto
  then have "running ?g c k'" using r n k by (auto simp: running_def at_rest_def everyone_def)
  moreover have "dead (kproc k) p" using d(1) by (simp add: fresh_def dead_def)
  then have "others c g (kproc k) ?g (kproc k')" using n(4,5) by (auto simp: others_def dead_def)
  ultimately show ?thesis by (auto simp: moves_def)
qed

lemma procs_quiet_goes:
  assumes "running g c k" and "procs_call f k = Some (r, k')" and "\<And>v s. f (kproc k) = Some (v, s) \<Longrightarrow> quiet (kproc k) s"
  shows "goes g c k (r, k')"
  using assms by (auto simp: procs_call_def bind_eq_Some_conv goes_Ret intro!: moves_quiet)

lemma kill_goes:
  assumes r: "running g c k" and step: "sys_kill arg k = Some (r', k')"
  shows "goes g c k (r', k')"
proof -
  obtain v s where s: "do_kill (as_int (arg 0)) (kproc k) = Some (v, s)" "r' = Ret v" "k' = k\<lparr>kproc := s\<rparr>"
    using step by (auto simp: sys_kill_def procs_call_def bind_eq_Some_conv)
  have k: "kinv g (kproc k)" "off g = {}" using r by (simp_all add: running_def at_rest_def)
  from kill_kinv [OF k s(1)] obtain qs where q: "kinv (g\<lparr>rq := qs\<rparr>) s" "only_wakes (kproc k) s" by blast
  have "moves g c k k'" by (rule moves_wakes [OF r, of "g\<lparr>rq := qs\<rparr>"]) (use q s(3) in simp_all)
  then show ?thesis by (simp add: s(2) goes_Ret)
qed

lemma fs_call_goes: "running g c k \<Longrightarrow> fs_call f k = Some (r, k') \<Longrightarrow> goes g c k (r, k')"
  by (auto dest!: fs_call_kproc intro: moves_refl simp: goes_Ret)

lemmas fs_handlers = sys_open_def sys_close_def sys_read_def sys_write_def sys_seek_def sys_fstat_def sys_fsync_def
  sys_getcwd_def sys_getdirentry_def sys_dup_def

lemma sys_fork_goes:
  assumes "running g c k" and "completed ex" and "sys_fork ex arg k = Some (r, k')"
  shows "goes g c k (r, k')"
  using assms
  by (auto simp: sys_fork_def returns_def bind_eq_Some_conv completed_def goes_Ret Let_def intro!: forks_moves)

lemma priority_goes:
  assumes "running g c k" and "sys_lab6_set_priority arg k = Some (r, k')"
  shows "goes g c k (r, k')"
  using assms
  by (auto simp: sys_lab6_set_priority_def on_procs_def lab6_set_priority_def bind_eq_Some_conv goes_Ret intro!: moves_quiet)

lemma handlers_go:
  assumes r: "running g c k" and ex: "completed ex" and i: "Some c \<noteq> idleproc (kproc k)"
    and h: "syscalls ex n = Some h" and step: "h arg k = Some (r', k')"
  shows "goes g c k (r', k')"
proof -
  have "h \<in> set [sys_exit, sys_fork ex, sys_wait, sys_exec ex, sys_yield, sys_kill, sys_getpid, sys_putc, sys_pgdir, sys_gettime,
      sys_lab6_set_priority, sys_sleep] \<or>
    h \<in> set [sys_open, sys_close, sys_read, sys_write, sys_seek, sys_fstat, sys_fsync, sys_getcwd, sys_getdirentry, sys_dup]"
    using h by (auto simp: syscalls_def split: if_splits)
  then show ?thesis
  proof
    assume "h \<in> set [sys_open, sys_close, sys_read, sys_write, sys_seek, sys_fstat, sys_fsync, sys_getcwd, sys_getdirentry, sys_dup]"
    then obtain f where "h arg k = fs_call f k" by (auto simp: fs_handlers)
    then show ?thesis using step fs_call_goes [OF r] by simp
  next
    assume "h \<in> set [sys_exit, sys_fork ex, sys_wait, sys_exec ex, sys_yield, sys_kill, sys_getpid, sys_putc, sys_pgdir, sys_gettime,
      sys_lab6_set_priority, sys_sleep]"
    moreover have "goes g c k (r', k')" if "sys_yield arg k = Some (r', k')"
      by (rule procs_quiet_goes [OF r that [unfolded sys_yield_def]]) (auto simp: do_yield_def bind_eq_Some_conv)
    moreover have "goes g c k (Ret v, k1)" if "kproc k1 = kproc k" for v k1 using moves_refl [OF r that] by (simp add: goes_Ret)
    ultimately show ?thesis
      using step do_exit_goes [OF r] sys_fork_goes [OF r ex] do_wait_goes [OF r i] execve_goes [OF r ex] kill_goes [OF r]
        priority_goes [OF r] do_sleep_goes [OF r i]
      by (auto simp: sys_exit_def sys_wait_def sys_exec_def sys_getpid_def sys_putc_def sys_pgdir_def sys_gettime_def sys_sleep_def bind_eq_Some_conv)
  qed
qed

lemma put_result_goes:
  assumes "goes g c k r"
  shows "goes g c k (put_result t r)"
proof -
  obtain v k1 where r: "r = (v, k1)" by (cases r)
  have [simp]: "kproc (set_gpr t A0 w k1) = kproc k1" for w by (simp add: set_gpr_def)
  show ?thesis using assms unfolding r by (cases v) (simp_all add: put_result_def goes_def running_def)
qed

lemma syscall_goes:
  assumes r: "running g c k" and ex: "completed ex" and i: "Some c \<noteq> idleproc (kproc k)" and step: "syscall ex k = Some r'"
  shows "goes g c k r'"
  using step r
  by (auto simp: syscall_def Let_def bind_eq_Some_conv running_def [of g c k] split: if_splits
      intro!: put_result_goes handlers_go [OF r ex i])

subsection \<open>Traps\<close>

lemma interrupt_moves:
  assumes r: "running g c k" and step: "interrupt_handler key t k = Some k'"
  shows "moves g c k k'"
proof (cases "kproc k' = kproc k")
  case True
  then show ?thesis by (rule moves_refl [OF r])
next
  case False
  then have s: "run_timer_list (kproc k) = Some (kproc k')"
    using step by (auto simp: interrupt_handler_def on_procs_def bind_eq_Some_conv Let_def split: if_splits)
  have k: "kinv g (kproc k)" "off g = {}" using r by (simp_all add: running_def at_rest_def)
  from run_timer_list_kinv [OF k s] obtain qs us where
    q: "kinv (g\<lparr>rq := qs, ts := us\<rparr>) (kproc k')" "only_wakes (kproc k) (kproc k')" by blast
  show ?thesis by (rule moves_wakes [OF r q]) simp_all
qed

definition handled_well :: "ghost \<Rightarrow> nat \<Rightarrow> kernel \<Rightarrow> handled \<times> kernel \<Rightarrow> bool" where
  "handled_well g c k h \<longleftrightarrow> (case fst h of Done \<Rightarrow> moves g c k (snd h) | Called r e \<Rightarrow> goes g c k (r, snd h))"

lemma skip_ecall_kproc [simp]: "kproc (skip_ecall t k) = kproc k" by (simp add: skip_ecall_def)

lemma ecall_goes:
  assumes "running g c k" and "completed ex" and "Some c \<noteq> idleproc (kproc k)" and "syscall ex (skip_ecall t k) = Some (r, k')"
  shows "goes g c k (r, k')"
  using assms by (auto intro!: goes_moved [OF assms(1), of "skip_ecall t k"] syscall_goes)

lemma exception_handled:
  assumes r: "running g c k" and ex: "completed ex" and i: "Some c \<noteq> idleproc (kproc k)"
    and step: "exception_handler ex t k = Some h"
  shows "handled_well g c k h"
  using step moves_refl [OF r] ecall_goes [OF r ex i]
  by (auto simp: exception_handler_def Let_def bind_eq_Some_conv handled_well_def split: if_splits dest!: frame)

lemma dispatch_handled:
  assumes r: "running g c k" and ex: "completed ex" and i: "Some c \<noteq> idleproc (kproc k) \<or> sint (cause (tframes k t)) < 0"
    and step: "trap_dispatch ex key t k = Some h"
  shows "handled_well g c k h"
proof (cases "sint (cause (tframes k t)) < 0")
  case True
  then show ?thesis using step interrupt_moves [OF r] by (auto simp: trap_dispatch_def bind_eq_Some_conv handled_well_def)
next
  case False
  then show ?thesis using step i exception_handled [OF r ex] by (simp add: trap_dispatch_def)
qed

lemma tail_ends:
  assumes r: "running g c k" and step: "trap_tail otf in_kernel k = Some e"
  shows "ends g c k e"
proof -
  have c: "current (kproc k) = Some c" using r by (simp add: running_def)
  let ?k = "k\<lparr>tf := (tf k)(c := otf)\<rparr>"
  have m: "moves g c k ?k" by (rule moves_refl [OF r]) simp
  show ?thesis
  proof (rule moves_ends [OF m])
    fix g1 assume r1: "running g1 c ?k"
    have stay: "ends g1 c ?k (Returned, ?k)" "ends g1 c ?k (Schedules In_tail, ?k)"
      using r1 by (auto simp: ends_def intro: exI [of _ g1])
    have "ends g1 c ?k (Schedules In_exit, k')" if "do_exit code ?k = Some (x, k')" for code x k'
    proof -
      have "x = Blocks Exited" using that by (auto simp: do_exit_def bind_eq_Some_conv split: if_splits)
      then show ?thesis using do_exit_goes [OF r1 that] by (simp add: goes_def ends_def)
    qed
    then show "ends g1 c ?k e" using step c stay by (auto simp: trap_tail_def Let_def bind_eq_Some_conv split: if_splits)
  qed
qed

lemma after_call_ends:
  assumes g: "goes g c k (r, k1)" and step: "after_call r t otf in_kernel ebreak k1 = Some e"
  shows "ends g c k e"
proof (cases r)
  case (Ret v)
  then have m: "moves g c k k1" using g by (simp add: goes_Ret)
  have "ends g1 c k1 e" if r1: "running g1 c k1" for g1
  proof (cases ebreak)
    case True
    then show ?thesis using step Ret r1
      by (auto simp: after_call_def kernel_execve_ret_def Let_def ends_def running_def bind_eq_Some_conv intro: exI [of _ g1])
  next
    case False
    then show ?thesis using step Ret tail_ends [OF r1] by (simp add: after_call_def)
  qed
  then show ?thesis by (rule moves_ends [OF m])
next
  case (Blocks b)
  then show ?thesis using g step by (auto simp: after_call_def goes_def ends_def)
qed

lemma handled_ends:
  assumes "handled_well g c k (h, k1)"
    and "(case h of Done \<Rightarrow> trap_tail otf in_kernel k1 | Called r ebreak \<Rightarrow> after_call r t otf in_kernel ebreak k1) = Some e"
  shows "ends g c k e"
  using assms by (cases h) (auto simp: handled_well_def intro: moves_ends tail_ends after_call_ends)

lemma trap_ends:
  assumes r: "running g c k" and ex: "completed ex" and i: "Some c \<noteq> idleproc (kproc k) \<or> sint (cause (tframes k t)) < 0"
    and step: "trap ex key t k = Some e"
  shows "ends g c k e"
proof -
  have c: "current (kproc k) = Some c" using r by (simp add: running_def)
  let ?k = "k\<lparr>tf := (tf k)(c := t)\<rparr>"
  obtain h k1 where h: "trap_dispatch ex key t ?k = Some (h, k1)"
    "(case h of Done \<Rightarrow> trap_tail (tf k c) (trap_in_kernel t ?k) k1
      | Called r ebreak \<Rightarrow> after_call r t (tf k c) (trap_in_kernel t ?k) ebreak k1) = Some e"
    using step c by (auto simp: trap_def Let_def bind_eq_Some_conv)
  have m: "moves g c k ?k" by (rule moves_refl [OF r]) simp
  show ?thesis
  proof (rule moves_ends [OF m])
    fix g1 assume r1: "running g1 c ?k"
    have "handled_well g1 c ?k (h, k1)" by (rule dispatch_handled [OF r1 ex _ h(1)]) (use i in simp)
    then show "ends g1 c ?k e" by (rule handled_ends [OF _ h(2)])
  qed
qed

lemma thread_call_ends:
  assumes r: "running g c k" and ex: "completed ex" and i: "Some c \<noteq> idleproc (kproc k) \<or> a = Yield"
    and step: "thread_call ex a k = Some e"
  shows "ends g c k e"
proof -
  have goes: "ends g c k (thread_end (v, k1))" if "goes g c k (v, k1)" for v k1
    using that by (cases v) (auto simp: thread_end_def goes_def ends_def)
  show ?thesis
  proof (cases a)
    case (Fork cf t)
    then obtain v k1 where "do_fork ex (or cf CLONE_VM) 0 t k = Some (v, k1)" "e = thread_end (Ret v, k1)"
      using step by (auto simp: returns_def)
    then show ?thesis using goes [of "Ret v" k1] forks_moves [OF r] ex by (auto simp: goes_Ret completed_def)
  next
    case Yield
    then show ?thesis using step r by (auto simp: ends_def intro: exI [of _ g])
  qed (use step i goes do_wait_goes [OF r] do_sleep_goes [OF r] do_exit_goes [OF r] in auto)
qed

subsection \<open>Where a process goes on\<close>

lemma go_on_goes:
  assumes k: "at_rest g (kproc k)" "current (kproc k) = Some n" "pstate (procs (kproc k) n) = PROC_RUNNABLE"
    and n: "n \<in> set (ps g)" "wt g n = Some b" and step: "go_on b k = Some (r', k')"
  shows "goes g n k (r', k')"
proof (cases b)
  case Exited
  then show ?thesis using step by simp
next
  case (Waiting i st)
  let ?g = "g\<lparr>wt := (wt g)(n := None)\<rparr>"
  have kg: "kinv g (kproc k)" using k(1) by (simp add: at_rest_def)
  have "kinv ?g (kproc k)" by (rule wt_kinv [OF kg]) (use k(3) n(2) Waiting in simp_all)
  then have r: "running ?g n k" using k by (simp add: running_def at_rest_def)
  have "Some n \<noteq> idleproc (kproc k)" using kg n(1) by (auto simp: kinv_def tree_def)
  then have "goes ?g n k (r', k')"
    using step k(2) do_exit_goes [OF r] wait_repeat_goes [OF r] by (auto simp: Waiting bind_eq_Some_conv split: if_splits)
  moreover have "others n g (kproc k) ?g (kproc k)" by (rule others_wakes) simp_all
  ultimately show ?thesis unfolding goes_def by (metis others_trans)
next
  case (Sleeping t)
  then obtain s where s: "del_timer t (kproc k) = Some s" "k' = k\<lparr>kproc := s\<rparr>" "r' = Ret 0"
    using step by (auto simp: on_procs_def bind_eq_Some_conv)
  have kg: "kinv g (kproc k)" using k(1) by (simp add: at_rest_def)
  then have tm: "timed g (kproc k)" by (simp add: kinv_def)
  have only: "p = n" if p: "p \<in> set (ps g)" "wt g p = Some (Sleeping t)" for p
  proof -
    have "kstack (procs (kproc k) p) = kstack (procs (kproc k) n)"
      using timed_stack [OF tm p] timed_stack [OF tm n(1)] n(2) Sleeping by simp
    then show ?thesis using kg p(1) n(1) by (auto simp: kinv_def pid_map_inv_def inj_on_def)
  qed
  have e: "same_but_timers (kproc k) s" by (rule del_timer_same [OF s(1)])
  have d: "kinv (g\<lparr>ts := remove1 t (ts g)\<rparr>) s" (is "kinv ?g1 s")
    by (rule del_timer_kinv [OF kg s(1)]) (use only k(3) in fastforce)
  let ?g = "?g1\<lparr>wt := (wt ?g1)(n := None)\<rparr>"
  have "kinv ?g s"
    by (rule wt_kinv [OF d]) (use e k(3) n(2) Sleeping kinv_distinct(2) [OF kg] in \<open>auto simp: same_but_timers_def\<close>)
  then have "running ?g n k'" using k e s(2) by (simp add: running_def at_rest_def same_but_timers_def)
  moreover have "others n g (kproc k) ?g (kproc k')"
    by (rule others_wakes) (use e s(2) in \<open>simp_all add: only_wakes_def same_but_timers_def\<close>)
  ultimately show ?thesis using s(3) by (auto simp: goes_Ret moves_def)
qed

lemma resume_ends:
  assumes k: "at_rest g (kproc k)" "current (kproc k) = Some n" "pstate (procs (kproc k) n) = PROC_RUNNABLE"
    and n: "n \<in> set (ps g) \<and> wt g n = cont_of (Some y) \<or> y = In_tail \<and> n \<notin> set (ps g)" and step: "resume y k = Some e"
  shows "ends g n k e"
proof (cases "cont_of (Some y)")
  case None
  then have "y = In_tail" by (cases y) simp_all
  then show ?thesis using step k n by (auto simp: ends_def running_def intro!: exI [of _ g])
next
  case (Some b)
  then have g: "n \<in> set (ps g)" "wt g n = Some b" using n by auto
  note goes = go_on_goes [OF k g]
  show ?thesis
  proof (cases y)
    case (In_call b' t otf ik eb)
    then obtain r k1 where r: "go_on b k = Some (r, k1)"
      "(case put_result t (r, k1) of (r, k) \<Rightarrow> after_call r t otf ik eb k) = Some e"
      using step Some by (auto simp: bind_eq_Some_conv)
    obtain r2 k2 where p: "put_result t (r, k1) = (r2, k2)" by (cases "put_result t (r, k1)")
    have "goes g n k (r2, k2)" using put_result_goes [OF goes [OF r(1)], of t] p by simp
    then show ?thesis by (rule after_call_ends) (use r(2) p in simp)
  next
    case (In_thread b')
    then obtain r k1 where r: "go_on b k = Some (r, k1)"
      "e = (case r of Ret v \<Rightarrow> Returned | Blocks b \<Rightarrow> Schedules (In_thread b), k1)"
      using step Some by (auto simp: bind_eq_Some_conv)
    then show ?thesis using goes [OF r(1)] by (cases r) (auto simp: goes_def ends_def)
  qed (use Some step in simp_all)
qed

subsection \<open>Every step keeps the invariant\<close>

lemma alive: "kinv g s \<Longrightarrow> off g = {} \<Longrightarrow> p \<in> set (ps g) \<Longrightarrow> dead s p \<longleftrightarrow> pstate (procs s p) = PROC_ZOMBIE"
  by (auto simp: kinv_def sleepers_def dead_def)

lemma ends_fits:
  assumes g: "at_rest g (kproc k)" "fits g (kproc k) pt" and e: "ends g c k (e, k')"
    and c: "c = idle g \<or> pt (idle g) \<in> {None, Some In_tail}"
  shows "minv \<lparr>kern = k', points = leave c e (starts k k' pt)\<rparr>"
proof -
  obtain g' where o: "others c g (kproc k) g' (kproc k')"
    and x: "case e of Schedules x \<Rightarrow> (case cont_of (Some x) of None \<Rightarrow> running g' c k' | Some b \<Rightarrow> halted g' c b k') | _ \<Rightarrow> running g' c k'"
    using e unfolding ends_def fst_conv snd_conv by blast
  then have g': "at_rest g' (kproc k')" "current (kproc k') = Some c"
    by (auto simp: running_def halted_def split: trap_end.splits option.splits)
  let ?pt = "leave c e (starts k k' pt)"
  have kg: "kinv g (kproc k)" "off g = {}" "kinv g' (kproc k')" "off g' = {}" using g(1) g'(1) by (simp_all add: at_rest_def)
  have "(c \<in> set (ps g') \<longrightarrow> wt g' c = cont_of (?pt c)) \<and>
    (cont_of (?pt c) = None \<longrightarrow> pstate (procs (kproc k') c) = PROC_RUNNABLE) \<and>
    (c \<notin> set (ps g') \<longrightarrow> ?pt c \<in> {None, Some In_tail})"
  proof (cases e)
    case (Schedules y)
    then have pc: "?pt c = Some y" by (simp add: leave_def)
    show ?thesis
    proof (cases "cont_of (Some y)")
      case None
      then have "y = In_tail" by (cases y) simp_all
      then show ?thesis using x Schedules pc by (simp add: running_def)
    next
      case (Some b)
      then show ?thesis using x Schedules pc by (simp add: halted_def)
    qed
  qed (use x in \<open>simp_all add: leave_def running_def\<close>)
  note at = this [THEN conjunct1, rule_format] this [THEN conjunct2, THEN conjunct1, rule_format]
    this [THEN conjunct2, THEN conjunct2, rule_format]
  have "wt g' p = cont_of (?pt p)" if p: "p \<in> set (ps g')" "pstate (procs (kproc k') p) \<noteq> PROC_ZOMBIE" for p
  proof (cases "p = c")
    case False
    have d': "\<not> dead (kproc k') p" using alive [OF kg(3,4) p(1)] p(2) by simp
    from others_point [OF o p(1) False p(2)] show ?thesis
    proof (elim disjE conjE)
      assume a: "p \<in> set (ps g)" "pstate (procs (kproc k) p) \<noteq> PROC_ZOMBIE" "wt g' p = wt g p"
      then have "\<not> dead (kproc k) p" using alive [OF kg(1,2)] by simp
      then show ?thesis using a g(2) False by (simp add: fits_def leave_def starts_def)
    next
      assume "dead (kproc k) p" "wt g' p = None"
      then show ?thesis using d' False by (simp add: leave_def starts_def)
    qed
  qed (use at(1) p in simp)
  moreover have "?pt (idle g') \<in> {None, Some In_tail}"
  proof (cases "c = idle g'")
    case True
    then show ?thesis using at(3) kg(3) by (auto simp: kinv_def tree_def)
  next
    case False
    then show ?thesis using o c by (auto simp: others_def leave_def starts_def)
  qed
  ultimately have "fits g' (kproc k') ?pt" using at(2) g'(2) by (auto simp: fits_def)
  then show ?thesis using g'(1) by (auto simp: minv_def)
qed

lemma minv_runs:
  assumes "at_rest g (kproc k)" and "fits g (kproc k) pt" and "current (kproc k) = Some c" and "pt c = None"
  shows "running g c k"
  using assms by (auto simp: running_def fits_def)

lemma schedule_rest:
  assumes g: "at_rest g (kproc k)" "fits g (kproc k) pt" and run: "switches run" and step: "on_procs (schedule run) k = Some k1"
    and n: "current (kproc k1) = Some n"
  shows "\<exists>g1. at_rest g1 (kproc k1) \<and> pstate (procs (kproc k1) n) = PROC_RUNNABLE \<and> idle g1 = idle g \<and>
    (\<forall>p \<in> set (ps g1). pstate (procs (kproc k1) p) \<noteq> PROC_ZOMBIE \<longrightarrow> wt g1 p = cont_of (pt p))"
proof -
  have kg: "kinv g (kproc k)" "dying g = None" "off g = {}" using g(1) by (simp_all add: at_rest_def)
  have s: "schedule run (kproc k) = Some (kproc k1)" using step by (auto simp: on_procs_def bind_eq_Some_conv)
  note sk = schedule_kinv [OF kg(1) run s]
  obtain qs where q: "kinv (g\<lparr>rq := qs\<rparr>) (kproc k1)" using sk(1) by blast
  have "pstate (procs (kproc k1) n) = PROC_RUNNABLE" using sk(2) n q by (auto simp: kinv_def tree_def)
  then show ?thesis using q kg(2,3) g(2) sk(3) by (intro exI [of _ "g\<lparr>rq := qs\<rparr>"]) (simp add: at_rest_def fits_def)
qed

lemma switch_ends:
  assumes g: "at_rest g (kproc k)" "current (kproc k) = Some n" "pstate (procs (kproc k) n) = PROC_RUNNABLE"
    and w: "\<forall>p \<in> set (ps g). pstate (procs (kproc k) p) \<noteq> PROC_ZOMBIE \<longrightarrow> wt g p = cont_of (pt p)" "pt (idle g) \<in> {None, Some In_tail}"
    and step: "(case pt n of None \<Rightarrow> Some (Returned, k) | Some y \<Rightarrow> resume y k) = Some e"
  shows "ends g n k e"
proof -
  have n: "n \<in> everyone g" using g(1,2) by (auto simp: at_rest_def kinv_def queued_def)
  have wn: "n \<in> set (ps g) \<Longrightarrow> wt g n = cont_of (pt n)" using w(1) g(3) by simp
  show ?thesis
  proof (cases "pt n")
    case None
    then have "running g n k" using g wn by (simp add: running_def)
    then show ?thesis using step None by (auto simp: ends_def intro: exI [of _ g])
  next
    case (Some y)
    have "n \<in> set (ps g) \<and> wt g n = cont_of (Some y) \<or> y = In_tail \<and> n \<notin> set (ps g)"
      using n wn Some w(2) by (auto simp: everyone_def)
    then show ?thesis using resume_ends [OF g] step Some by simp
  qed
qed

theorem step_minv:
  assumes "step ex run m m'" and ex: "completed ex" and run: "switches run" and "minv m"
  shows "minv m'"
  using assms(1,4)
proof (induction rule: step.induct)
  case (trap_step k c pt f key t e k')
  then obtain g where g: "at_rest g (kproc k)" "fits g (kproc k) pt" by (auto simp: minv_def)
  let ?k = "k\<lparr>tframes := (tframes k)(t := f)\<rparr>"
  have r: "running g c ?k" using minv_runs [OF g trap_step(1,2)] by (simp add: running_def)
  have "ends g c ?k (e, k')" by (rule trap_ends [OF r ex _ trap_step(4)]) (use trap_step(3) in simp)
  then have "ends g c k (e, k')" by (simp add: ends_def)
  then show ?case by (rule ends_fits [OF g]) (use g(2) in \<open>simp add: fits_def\<close>)
next
  case (thread_step k c pt a e k')
  then obtain g where g: "at_rest g (kproc k)" "fits g (kproc k) pt" by (auto simp: minv_def)
  have "ends g c k (e, k')" by (rule thread_call_ends [OF minv_runs [OF g thread_step(1,2)] ex thread_step(4,5)])
  then show ?case by (rule ends_fits [OF g]) (use g(2) in \<open>simp add: fits_def\<close>)
next
  case (switch_step k c pt x k1 n e k')
  then obtain g where g: "at_rest g (kproc k)" "fits g (kproc k) pt" by (auto simp: minv_def)
  from schedule_rest [OF g run switch_step(3,4)] obtain g1 where g1: "at_rest g1 (kproc k1)"
    "pstate (procs (kproc k1) n) = PROC_RUNNABLE" "idle g1 = idle g"
    "\<forall>p \<in> set (ps g1). pstate (procs (kproc k1) p) \<noteq> PROC_ZOMBIE \<longrightarrow> wt g1 p = cont_of (pt p)" by blast
  have i: "pt (idle g1) \<in> {None, Some In_tail}" using g(2) g1(3) by (simp add: fits_def)
  have "ends g1 n k1 (e, k')" by (rule switch_ends [OF g1(1) switch_step(4) g1(2,4) i switch_step(5)])
  moreover have "fits g1 (kproc k1) pt" using g1 i switch_step(4) by (simp add: fits_def)
  ultimately show ?case using ends_fits [OF g1(1)] i by blast
next
  case (store_step k c pt fr)
  then show ?case by (simp add: minv_def)
qed

theorem steps_minv: "(step ex run)\<^sup>*\<^sup>* m m' \<Longrightarrow> completed ex \<Longrightarrow> switches run \<Longrightarrow> minv m \<Longrightarrow> minv m'"
  by (induction rule: rtranclp_induct) (auto intro: step_minv)

subsection \<open>The state behind proc_init\<close>

text \<open>The idle process alone, as \<open>proc_init\<close> sets it up before it forks \<open>init_main\<close>; it is structure 0. The state is
  \<open>booted\<close> when the structure \<open>p\<close> holds the init process.\<close>

definition idle_procs :: kst where
  "idle_procs = init_lists (sched_init \<lparr>procs = (\<lambda>_. proc0\<lparr>pstate := PROC_UNINIT\<rparr>)(0 := proc0\<lparr>need_resched := True\<rparr>),
     klinks = \<lparr>prv = id, nxt = id\<rparr>, current = Some 0, idleproc = Some 0, initproc = None, nr_process = 1,
     last_pid = MAX_PID, next_safe = MAX_PID, proc_num = 0, max_time_slice = 0,
     timers = (\<lambda>_. \<lparr>expires = 0, timer_proc = None\<rparr>),
     waits = (\<lambda>_. \<lparr>wait_proc = None, wakeup_flags = 0, wait_queue = None\<rparr>), sems = (\<lambda>_. 0)\<rparr>)"

definition booted :: "kst \<Rightarrow> bool" where
  "booted s \<longleftrightarrow> (\<exists>d p s1. p \<noteq> 0 \<and> new_child d 0 p idle_procs = Some s1 \<and> s = s1\<lparr>initproc := Some p\<rparr>)"

lemma idle_procs_links: "klinks idle_procs = \<lparr>prv = \<lambda>n. n, nxt = \<lambda>n. n\<rparr>"
proof -
  have self: "list_init n \<lparr>prv = \<lambda>n. n, nxt = \<lambda>n. n\<rparr> = \<lparr>prv = \<lambda>n. n, nxt = \<lambda>n. n\<rparr>" for n :: knode
    by (simp add: list_init_def fun_upd_idem)
  have "fold (\<lambda>i. list_init (HashHead i)) js \<lparr>prv = \<lambda>n. n, nxt = \<lambda>n. n\<rparr> = \<lparr>prv = \<lambda>n. n, nxt = \<lambda>n. n\<rparr>" for js
    by (induction js) (simp_all add: self)
  then show ?thesis by (simp add: idle_procs_def init_lists_def sched_init_def RR_init_def self id_def)
qed

lemma idle_procs_fields [simp]:
  "procs idle_procs = (\<lambda>_. proc0\<lparr>pstate := PROC_UNINIT\<rparr>)(0 := proc0\<lparr>need_resched := True\<rparr>)"
  "current idle_procs = Some 0" "idleproc idle_procs = Some 0" "nr_process idle_procs = 1" "last_pid idle_procs = MAX_PID"
  "next_safe idle_procs = MAX_PID" "proc_num idle_procs = 0"
  by (simp_all add: idle_procs_def init_lists_def sched_init_def RR_init_def)

definition no_procs :: ghost where
  "no_procs = \<lparr>rq = [], ts = [], ps = [], bk = (\<lambda>_. []), ch = (\<lambda>_. []), wt = (\<lambda>_. None), idle = 0, ini = 0, dying = None, off = {}\<rparr>"

lemma idle_procs_rings: "klinks s = klinks idle_procs \<Longrightarrow> proc_num s = 0 \<Longrightarrow> rings no_procs s"
  by (simp add: rings_def no_procs_def rq_inv_def linked_def proc_ring_def hashed_def idle_procs_links dlist_self)

lemma booted_minv:
  assumes "booted s" and "kproc k = s"
  shows "minv \<lparr>kern = k, points = (\<lambda>_. None)\<rparr>"
proof -
  obtain d p s4 where p: "p \<noteq> 0" "new_child d 0 p idle_procs = Some s4" and s: "s = s4\<lparr>initproc := Some p\<rparr>"
    using assms(1) by (auto simp: booted_def)
  let ?d = "d\<lparr>pstate := PROC_UNINIT, wait_state := 0, parent := Some 0, cptr := None, yptr := None, optr := None\<rparr>"
  let ?s0 = "upd_proc p (\<lambda>_. ?d) idle_procs"
  have "get_pid_loop ProcHead 1 MAX_PID ?s0 = Some (1, MAX_PID)"
    by (subst get_pid_loop.simps) (simp add: list_next_def idle_procs_links)
  then have pid: "get_pid ?s0 = Some (1, ?s0\<lparr>last_pid := 1, next_safe := MAX_PID\<rparr>)"
    by (simp add: get_pid_def)
  let ?s2 = "upd_proc p (\<lambda>d. d\<lparr>pid := 1\<rparr>) (?s0\<lparr>last_pid := 1, next_safe := MAX_PID\<rparr>)"
  obtain s3 where s3: "set_links p (hash_proc p ?s2) = Some s3" "wakeup_proc p s3 = Some s4"
    using p(2) pid by (auto simp: new_child_def Let_def bind_eq_Some_conv)
  have f2: "parent (procs (hash_proc p ?s2) p) = Some 0" by (simp add: hash_proc_def)
  note rest = set_links_rest [OF s3(1) f2, unfolded hash_proc_def upd_klinks_simps]
  have "rings no_procs ?s2" by (rule idle_procs_rings) simp_all
  from birth_rings [OF this _ _ _ s3(1)] f2 obtain B where
    r3: "rings (no_procs\<lparr>ps := [p], bk := B\<rparr>) s3" and B: "B = (\<lambda>_. [])(pid_hashfn 1 := [p])"
    by (simp add: no_procs_def hash_proc_def)
  have fam: "family (hash_proc p ?s2) 0 []" using p(1) by (simp add: family_def hash_proc_def proc0_def)
  have "family s3 0 [p]" using set_links_family_inv [OF fam f2] s3(1) p(1) by simp
  moreover have "cptr (procs s3 p) = None" using set_links_self [OF s3(1) f2 p(1)] by (simp add: hash_proc_def)
  then have "family s3 p []" by (simp add: family_def)
  ultimately have fam4: "family s4 0 [p]" "family s4 p []" using family_wakeup [OF s3(2)] by simp_all
  have st3: "pstate (procs s3 p) = PROC_UNINIT" "pstate (procs s3 0) = PROC_RUNNABLE" "current s3 = Some 0" "idleproc s3 = Some 0"
    using p(1) by (simp_all add: rest proc0_def)
  let ?u = "upd_proc p (\<lambda>d. d\<lparr>pstate := PROC_RUNNABLE, wait_state := 0\<rparr>) s3"
  have enq: "RR_enqueue p ?u = Some s4"
    using s3(2) st3 p(1) by (simp add: wakeup_proc_def sched_class_enqueue_def Let_def)
  have "rings (no_procs\<lparr>ps := [p], bk := B\<rparr>) ?u"
    using r3 by (simp add: rings_def rq_inv_upd_proc proc_ring_def hashed_def)
  from enqueue_rings [OF this enq] have r4: "rings (no_procs\<lparr>ps := [p], bk := B, rq := [p]\<rparr>) s4" by (simp add: no_procs_def)
  note k4 = RR_enqueue_same(1) [OF enq, unfolded same_kin_def] RR_enqueue_same(2) [OF enq, unfolded same_states_def]
  let ?g = "no_procs\<lparr>ps := [p], bk := B, rq := [p], ch := (\<lambda>_. [])(0 := [p]), ini := p\<rparr>"
  have "rings ?g s" using r4 unfolding s by (simp add: rings_def rq_inv_def proc_ring_def hashed_def)
  moreover have "tree ?g s"
  proof -
    have b: "brood (s4\<lparr>initproc := Some p\<rparr>) y q cs \<longleftrightarrow> brood s4 y q cs" for y q cs by (rule brood_cong) simp_all
    have "everyone ?g = {0, p}" by (auto simp: everyone_def no_procs_def)
    then show ?thesis using fam4 k4 st3 p(1) by (simp add: tree_def b family_brood no_procs_def s)
  qed
  moreover have "(\<Union>i. set (B i)) = {p}" by (auto simp: B)
  then have "pid_map_inv ?g s"
    using k4 p(1) by (simp add: pid_map_inv_def no_procs_def s unused_def rest valid_pid_def MAX_PID_def MAX_PROCESS_def)
  moreover have "queued ?g s"
    using k4 st3 p(1) by (auto simp: queued_def no_procs_def s everyone_def MAX_PROCESS_def)
  moreover have "sleepers ?g s" "timed ?g s"
    using k4 by (simp_all add: sleepers_def timed_def no_procs_def s)
  ultimately have "at_rest ?g s" by (simp add: at_rest_def kinv_def no_procs_def)
  moreover have "fits ?g s (\<lambda>_. None)" using k4 st3 p(1) by (simp add: fits_def no_procs_def s)
  ultimately show ?thesis using assms(2) by (auto simp: minv_def)
qed

text \<open>The init process in structure 1, and a completion of the exercises under which nothing can be forked or loaded.\<close>

lemmas boot_steps = new_child_def Let_def get_pid_def get_pid_loop.simps [of ProcHead] list_next_def idle_procs_links
  set_links_def hash_proc_def setters wakeup_proc_def sched_class_enqueue_def RR_enqueue_def list_op_defs proc0_def

definition run0 :: "nat \<Rightarrow> kst \<Rightarrow> kst option" where "run0 n s = Some (s\<lparr>current := Some n\<rparr>)"

definition ex0 :: exercises where
  "ex0 = \<lparr>do_fork = (\<lambda>cf stack t k. Some (- E_NO_MEM, k)), load_icode = (\<lambda>d argv k. Some (- E_NO_MEM, k))\<rparr>"

lemma run0_ex0: "switches run0" "completed ex0"
  by (simp_all add: switches_def run0_def completed_def ex0_def forks_def)

lemma boot_example:
  "\<exists>s1 s2 s3. new_child (proc0\<lparr>kstack := 0x4000\<rparr>) 0 1 idle_procs = Some s1 \<and> current s1 = Some 0 \<and>
     proc_mm (procs s1 0) = None \<and> schedule run0 (s1\<lparr>initproc := Some 1\<rparr>) = Some s2 \<and> current s2 = Some 1 \<and>
     proc_mm (procs s2 1) = None \<and> idleproc s2 = Some 0 \<and> kstack (procs s2 1) = 0x4000 \<and> sleep_begin 0x4000 5 s2 = Some s3 \<and>
     current s3 = Some 1 \<and> pstate (procs s3 1) = PROC_SLEEPING \<and> list_next ProcHead (klinks s3) = ListLink 1"
  by (simp add: boot_steps run0_def schedule_def schedule_next_def requeue_current_def take_next_def sched_class_pick_next_def
      sched_class_dequeue_def RR_pick_next_def RR_dequeue_def sleep_begin_def timer_init_def add_timer_def
      add_timer_loop.simps [of _ TimerHead])

lemma example_run:
  "\<exists>k m. booted (kproc k) \<and> (step ex0 run0)\<^sup>*\<^sup>* \<lparr>kern = k, points = (\<lambda>_. None)\<rparr> m \<and> current (kproc (kern m)) = Some 1 \<and>
     pstate (procs (kproc (kern m)) 1) = PROC_SLEEPING \<and> points m 1 = Some (In_thread (Sleeping 0x4000)) \<and>
     list_next ProcHead (klinks (kproc (kern m))) = ListLink 1"
proof -
  from boot_example obtain s1 s2 s3 where e: "new_child (proc0\<lparr>kstack := 0x4000\<rparr>) 0 1 idle_procs = Some s1" "current s1 = Some 0"
     "proc_mm (procs s1 0) = None" "schedule run0 (s1\<lparr>initproc := Some 1\<rparr>) = Some s2" "current s2 = Some 1"
     "proc_mm (procs s2 1) = None" "idleproc s2 = Some 0" "kstack (procs s2 1) = 0x4000" "sleep_begin 0x4000 5 s2 = Some s3"
     "current s3 = Some 1" "pstate (procs s3 1) = PROC_SLEEPING" "list_next ProcHead (klinks s3) = ListLink 1" by blast
  let ?k = "undefined\<lparr>kproc := s1\<lparr>initproc := Some 1\<rparr>\<rparr>"
  let ?k2 = "?k\<lparr>kproc := s2\<rparr>"
  let ?k3 = "?k\<lparr>kproc := s3\<rparr>"
  let ?m0 = "\<lparr>kern = ?k, points = (\<lambda>_. None)\<rparr>"
  have b: "booted (kproc ?k)" using e(1) by (auto simp: booted_def intro!: exI [of _ "proc0\<lparr>kstack := 0x4000\<rparr>"] exI [of _ 1] exI [of _ s1])
  let ?p1 = "leave 0 (Schedules In_tail) (starts ?k ?k (\<lambda>_. None))"
  have 1: "step ex0 run0 ?m0 \<lparr>kern = ?k, points = ?p1\<rparr>"
    by (rule thread_step [where a = Yield]) (use e in simp_all)
  let ?p2 = "leave 1 Returned (starts ?k2 ?k2 ?p1)"
  have "?p1 0 = Some In_tail" "?p1 1 = None" by (simp_all add: leave_def starts_def)
  then have 2: "step ex0 run0 \<lparr>kern = ?k, points = ?p1\<rparr> \<lparr>kern = ?k2, points = ?p2\<rparr>"
    by (intro switch_step) (use e in \<open>simp_all add: on_procs_def\<close>)
  let ?p3 = "leave 1 (Schedules (In_thread (Sleeping 0x4000))) (starts ?k2 ?k3 ?p2)"
  have "?p2 1 = None" by (simp add: leave_def)
  then have 3: "step ex0 run0 \<lparr>kern = ?k2, points = ?p2\<rparr> \<lparr>kern = ?k3, points = ?p3\<rparr>"
    by (intro thread_step [where a = "Sleep_for 5"]) (use e in \<open>simp_all add: do_sleep_call_def on_procs_def thread_end_def\<close>)
  have "(step ex0 run0)\<^sup>*\<^sup>* ?m0 \<lparr>kern = ?k3, points = ?p3\<rparr>" using 1 2 3 by (meson converse_rtranclp_into_rtranclp rtranclp.rtrancl_refl)
  moreover have "?p3 1 = Some (In_thread (Sleeping 0x4000))" by (simp add: leave_def)
  ultimately show ?thesis using b e by (intro exI [of _ ?k] exI [of _ "\<lparr>kern = ?k3, points = ?p3\<rparr>"]) simp
qed

lemma ring_first: "proc_ring s xs \<Longrightarrow> list_next ProcHead (klinks s) = ListLink p \<Longrightarrow> p \<in> set xs"
  by (cases xs) (auto simp: proc_ring_def list_next_def dlist_first)

subsection \<open>What the invariant says\<close>

lemma reachable_inv:
  assumes "(step ex run)\<^sup>*\<^sup>* \<lparr>kern = k, points = (\<lambda>_. None)\<rparr> m" and "completed ex" and "switches run" and "booted (kproc k)"
  obtains g where "kinv g (kproc (kern m))" "dying g = None" "off g = {}" "fits g (kproc (kern m)) (points m)"
  using steps_minv [OF assms(1-3) booted_minv [OF assms(4) refl]] by (auto simp: minv_def at_rest_def)

lemma tree_parent:
  assumes "tree g s" and "c \<in> set (ps g)"
  obtains p where "p \<in> everyone g" "parent (procs s c) = Some p" "c \<in> set (ch g p)"
  using assms tree_child(1) [OF assms(1)] by (auto simp: tree_def)

lemma sleeper_waits:
  assumes k: "kinv g s" "off g = {}" and p: "p \<in> set (ps g)" "pstate (procs s p) = PROC_SLEEPING"
  shows "case wt g p of
    Some (Waiting i st) \<Rightarrow> wait_state (procs s p) = WT_CHILD \<and>
      (\<forall>c \<in> set (ps g). parent (procs s c) = Some p \<and> (i = 0 \<or> pid (procs s c) = i) \<longrightarrow> pstate (procs s c) \<noteq> PROC_ZOMBIE)
  | Some (Sleeping t) \<Rightarrow> wait_state (procs s p) = WT_TIMER \<and>
      (\<exists>us. linked (klinks s) TimerHead TimerLink us \<and> t \<in> set us \<and> timer_proc (timers s t) = Some p)
  | _ \<Rightarrow> False"
proof -
  have w: "still_waits g s p" and t: "tree g s" and tm: "timed g s" and l: "linked (klinks s) TimerHead TimerLink (ts g)"
    using k p by (simp_all add: kinv_def sleepers_def rings_def)
  have child: "c \<in> set (ch g p)" if c: "c \<in> set (ps g)" "parent (procs s c) = Some p" for c
    by (rule tree_parent [OF t c(1)]) (use c(2) in simp)
  have owner: "timer_proc (timers s x) = Some p" if x: "x \<in> set (ts g)" "wt g p = Some (Sleeping x)" for x
  proof (rule timed_owner [OF tm x(1)])
    fix q assume q: "q \<in> set (ps g)" "timer_proc (timers s x) = Some q" "wt g q = Some (Sleeping x)"
    have "kstack (procs s q) = kstack (procs s p)" using timed_stack [OF tm q(1,3)] timed_stack [OF tm p(1) x(2)] by simp
    then have "q = p" using k(1) q(1) p(1) by (auto simp: kinv_def pid_map_inv_def inj_on_def)
    then show ?thesis using q(2) by simp
  qed
  show ?thesis
  proof (cases "wt g p")
    case (Some b)
    then show ?thesis using w child owner l by (cases b) (auto simp: still_waits_def)
  qed (use w in \<open>simp add: still_waits_def\<close>)
qed

subsection \<open>Properties\<close>

text \<open>C1. The processes always add up: in every state the machine reaches from the boot, whatever traps, system calls,
  exits, kills, forks and ticks come in whatever order, the run queue is well formed and holds exactly the processes
  that are runnable and not running, and no two processes have the same pid.\<close>

theorem run_queue_complete:
  assumes "booted (kproc k)" and "completed ex" and "switches run"
    and "(step ex run)\<^sup>*\<^sup>* \<lparr>kern = k, points = (\<lambda>_. None)\<rparr> m"
  shows "let s = kproc (kern m) in \<exists>ps qs. proc_ring s ps \<and> rq_inv s qs \<and> inj_on (\<lambda>p. pid (procs s p)) (set ps) \<and>
    set qs = {p \<in> set ps. pstate (procs s p) = PROC_RUNNABLE \<and> current s \<noteq> Some p}"
proof -
  obtain g where "kinv g (kproc (kern m))" by (rule reachable_inv [OF assms(4,2,3,1)])
  then show ?thesis
    unfolding Let_def by (intro exI [of _ "ps g"] exI [of _ "rq g"]) (simp add: kinv_def rings_def queued_def pid_map_inv_def)
qed

theorem run_queue_complete_witness:
  "\<exists>(m :: machine) qs. current (kproc (kern m)) = Some 1 \<and> rq_inv (kproc (kern m)) qs \<and> 1 \<notin> set qs"
proof -
  obtain k m where e: "booted (kproc k)" "(step ex0 run0)\<^sup>*\<^sup>* \<lparr>kern = k, points = (\<lambda>_. None)\<rparr> m" "current (kproc (kern m)) = Some 1"
    using example_run by blast
  obtain xs qs where "rq_inv (kproc (kern m)) qs"
    "set qs = {p \<in> set xs. pstate (procs (kproc (kern m)) p) = PROC_RUNNABLE \<and> current (kproc (kern m)) \<noteq> Some p}"
    using run_queue_complete [OF e(1) run0_ex0(2,1) e(2)] unfolding Let_def by blast
  then show ?thesis using e(3) by (intro exI [of _ m] exI [of _ qs]) simp
qed



text \<open>C3. Every zombie can be reaped: in every reachable state each process of the list has a parent that is the idle
  process or in the list itself, and no parent is a zombie.\<close>

theorem parents_live:
  assumes "booted (kproc k)" and "completed ex" and "switches run"
    and "(step ex run)\<^sup>*\<^sup>* \<lparr>kern = k, points = (\<lambda>_. None)\<rparr> m"
  shows "let s = kproc (kern m) in \<exists>ps. proc_ring s ps \<and> (\<forall>c \<in> set ps. \<exists>p. parent (procs s c) = Some p \<and>
    (idleproc s = Some p \<or> p \<in> set ps) \<and> pstate (procs s p) \<noteq> PROC_ZOMBIE)"
proof -
  obtain g where k: "kinv g (kproc (kern m))" "dying g = None" by (rule reachable_inv [OF assms(4,2,3,1)])
  have t: "tree g (kproc (kern m))" using k(1) by (simp add: kinv_def)
  have "\<exists>p. parent (procs (kproc (kern m)) c) = Some p \<and> (idleproc (kproc (kern m)) = Some p \<or> p \<in> set (ps g)) \<and>
      pstate (procs (kproc (kern m)) p) \<noteq> PROC_ZOMBIE" if c: "c \<in> set (ps g)" for c
  proof (rule tree_parent [OF t c])
    fix p assume p: "p \<in> everyone g" "parent (procs (kproc (kern m)) c) = Some p" "c \<in> set (ch g p)"
    have "pstate (procs (kproc (kern m)) p) \<noteq> PROC_ZOMBIE"
    proof
      assume "pstate (procs (kproc (kern m)) p) = PROC_ZOMBIE"
      then have "ch g p = []" using t k(2) p(1) by (auto simp: tree_def everyone_def)
      then show False using p(3) by simp
    qed
    then show ?thesis using p(1,2) t by (auto simp: everyone_def tree_def)
  qed
  moreover have "proc_ring (kproc (kern m)) (ps g)" using k(1) by (simp add: kinv_def rings_def)
  ultimately show ?thesis unfolding Let_def by blast
qed

theorem parents_live_witness:
  "\<exists>(m :: machine) p. list_next ProcHead (klinks (kproc (kern m))) = ListLink 1 \<and> parent (procs (kproc (kern m)) 1) = Some p \<and>
    pstate (procs (kproc (kern m)) p) \<noteq> PROC_ZOMBIE"
proof -
  obtain k m where e: "booted (kproc k)" "(step ex0 run0)\<^sup>*\<^sup>* \<lparr>kern = k, points = (\<lambda>_. None)\<rparr> m"
    "list_next ProcHead (klinks (kproc (kern m))) = ListLink 1"
    using example_run by blast
  from parents_live [OF e(1) run0_ex0(2,1) e(2)] e(3) ring_first show ?thesis unfolding Let_def by metis
qed

end
