(* ===== verification/Spec2Isabelle.thy ===== *)
theory Spec2Isabelle
  imports Best_Fit Skew_Heap Sync Page_Tables Vmm Proc Kmalloc Sfs_Fs Sfs_Facts Sysfile Files_Facts Files_Copy Fs_Steps
    Path_Facts Kernel_Steps
begin

text \<open>
  The uCore teaching kernel for RISC-V (lab 8, the last state of the repository; src/lab8/kern and
  src/lab8/libs). The kernel is written in C around shared mutable structures: pages, processes, memory areas
  and inodes point to each other and are linked into doubly linked lists by list entries inside them. Each
  layer uses the one below through its functions: system calls on files use the table of open files, that the
  inodes, those the simple file system or a device, the file system the disk; processes are scheduled, sleep
  in wait queues and have an address space of areas and page tables; all of them allocate from the SLOB
  allocator and that from the page allocator.

  How the code is modelled. A structure is a record, found by its number or address in a map of the state; a list
  entry inside a structure is a node of a map \<open>links\<close> of \<open>prev\<close> and \<open>next\<close>
  (theory DList), one node constructor per list head or member of a structure, so that \<open>to_struct\<close> is the
  inversion of the constructor. A function of the kernel takes the state and returns the new one in the option monad:
  \<open>None\<close> is a panic, a failed assertion or no return at all, and an error code is a returned integer, as
  in the C. Loops over a pointer structure are \<open>partial_function (option)\<close>, for which termination is a
  theorem where the structure is well formed; loops with a counter are structural on the iterations left. Machine
  words are \<open>word\<close> where bits matter, and \<open>int\<close> or \<open>nat\<close> with the conversions
  \<open>to_u32\<close>, \<open>to_i32\<close>, \<open>to_i64\<close> written out where only the range does.

  The theories, from the bottom:

  Prelude: assertions, conversions, lemmas on lists. DList: list.h. Pages: atomic.h, struct Page, le2page.
  FreeBlocks: the abstract specification of the page allocator, a sorted list of blocks, and the locale
  \<open>page_allocator\<close>. Pmm_Default: default_pmm.c, its refinement of the specification, and what its insertion
  loop does to a block behind all others. Best_Fit: lab2/kern/mm/best_fit_pmm.c, a second implementation of
  the specification.

  CString: string.c on a memory of bytes. Printf: printfmt.c and the error codes of error.h, with the bound of
  vsnprintf and the round trip through strtol.

  Procs: the structures of processes, timers and waits. Sched: sched.c with the round-robin class of lab 6 (the one
  lab 8 links has no extension), the locale \<open>sched_queue\<close>, and timers. Skew_Heap: skew_heap.h and the
  comparison of strides (locale \<open>priority_queue\<close>). Sync: wait.c, sem.c and the semaphore solution of
  check_sync.c as step relations; reachable states satisfy the invariants. Proc: the parts of proc.c that are written:
  pids, the pid hash table (locale \<open>pid_map\<close>), family links, exit and wait. Proc_Life: the life of a
  process as a whole, on the state \<open>kernel\<close> of processes, memory and files: kernel stacks, the copies
  do_fork makes, do_exit, do_execve, do_wait and do_sleep. Syscall: syscall.c and trap.c.

  Proc_Inv: the invariant \<open>kinv\<close> of all processes at once (run queue, process list, pid table, family
  tree, sleepers and timers), kept by the wake-ups, exit, kill and the scheduler. Proc_Keep: the same for wait, sleep
  and the tick, and \<open>new_child\<close>, what do_fork has to do. Kernel_Steps: the kernel as a machine. A process
  that calls schedule inside of a function of the kernel stops at a \<open>point\<close> and goes on there when it is
  switched to; traps, calls of kernel threads and switches are the steps, in any order, and every state reached from
  the boot satisfies \<open>minv\<close>.

  Paging: page tables, swap.c, swap_fifo.c and pmm.c on a state of page tables, page frames and the swap store.
  Page_Tables: their properties (locale \<open>fifo_manager\<close>). Vmm: vmm.c. Kmalloc: kmalloc.c on units of 16 bytes.

  Bitmap: bitmap.c (locale \<open>index_pool\<close>). Iobuf: iobuf.c. Fs_State: the state of the file system and
  inode.c. Devices: ide.c, ramdisk.c and the devices of kern/fs/devs. Sfs_Io, Sfs_Inode, Sfs_Fs: the simple file
  system, with its properties in Sfs_Facts. Vfs, Vfs_Path: the dispatch of inode.h and vfsdev.c, vfs.c, vfslookup.c,
  vfspath.c, vfsfile.c, fs.c. Files: file.c and the tables of fs.c; Sysfile: sysfile.c; Files_Facts: properties of
  both. Files_Copy: the copy and the end of a table of files. Path_Facts: get_device against a reference parser.
  Inode_Types: which parts of the state each function leaves alone, and the types of inodes. Fs_Steps: system calls as
  steps, and the type invariant of the reachable states.

  What the groups of lemmas show. For each structure there is a predicate for its well-formedness
  (\<open>dlist\<close>, \<open>free_inv\<close> and the like, \<open>inode_table\<close>, \<open>files_inv\<close>,
  \<open>stdin_inv\<close>, \<open>sfs_inv\<close>), lemmas that the operations keep it, and frame lemmas
  (\<open>same_nodes\<close>, \<open>same_files\<close>) for the rest of the state. A property states what an
  operation does on every state that satisfies the predicate, panics and error codes included; a locale states the
  contract one component has with another, and its interpretation proves it for the code. Several properties show that
  the code does something it is not meant to; they are stated as the code behaves.

  Bounds and fuel. No definition uses fuel: a counter of a structural loop is the trip count of the C loop, a
  constant (the 72 entries of a table of files, the 1024 hash lists of a file system) or an argument.

  Not modelled. Bodies the repository leaves as exercises: alloc_proc, proc_run, the stride scheduler but for its
  comparison, cond_signal and cond_wait, do_fork and load_icode (parameters of the system calls, of which
  \<open>completed\<close> in Kernel_Steps says what their comments promise; proc_run is the parameter
  \<open>run\<close>, with \<open>switches\<close>), the copy of a page in copy_range, the transfer in sfs_io_nolock;
  where such a function is otherwise complete it is modelled as it stands. do_pgfault is the one of lab 3 and the
  round-robin class the one of lab 6, where they are written. Assembly (but for the copy of a frame in
  kernel_execve_ret), boot, firmware calls, the console and the clock are outside: they change the machine, not these
  structures. User code is the step in which the pages change. The interrupt handler of the keyboard and a reader's
  sleep are the events of a list. The file system is run by one process, so a semaphore that is taken twice does not
  return. The images of the two disks are parameters of \<open>ramdisk_init\<close>. User programs, the host tools and
  the earlier labs, where lab 8 has a later state of the same file, are not modelled. \<close>

end
